(* ===== verification/Prelude.thy ===== *)
theory Prelude imports Main "HOL-Library.Word" begin

text \<open>
  Shared vocabulary of the development: the machine integer types of the code, the standard
  library operations of Rust that the modelled functions use (\<open>windows\<close>, \<open>chunks\<close>, \<open>div_ceil\<close>,
  \<open>leading_zeros\<close>, \<open>partition_point\<close>, little-endian byte conversion) and the view of a byte
  buffer as a sequence of bits, \<open>bit_at\<close>, over which the codec proofs are carried out.

  An \<open>i64\<close> and a \<open>u64\<close> are both a \<open>64 word\<close>: \<open>cast_signed\<close> and \<open>cast_unsigned\<close> are the identity,
  the wrapping operations are the word operations, and a signed comparison reads \<open>sint\<close>. A
  \<open>usize\<close> that is a length, an index or a bit offset into an existing buffer is a \<open>nat\<close>.
\<close>

unbundle bit_operations_syntax

named_theorems bit_at_simps \<open>how each buffer operation acts on the bits of the buffer\<close>
named_theorems wire_simps \<open>what each writer operation appends\<close>

type_synonym u8 = "8 word"
type_synonym u16 = "16 word"
type_synonym u32 = "32 word"
type_synonym u64 = "64 word"
type_synonym i64 = "64 word"
type_synonym u128 = "128 word"
type_synonym i128 = "128 word"

subsection \<open>Integers\<close>

definition i64_min :: i64 where "i64_min = push_bit 63 1"

definition i64_max :: i64 where "i64_max = NOT (push_bit 63 1)"

definition div_ceil :: "nat \<Rightarrow> nat \<Rightarrow> nat" where
  "div_ceil a b = (if a mod b = 0 then a div b else a div b + 1)"

lemma div_ceil_le:
  assumes "0 < b"
  shows "a \<le> b * div_ceil a b"
proof -
  have "a = b * (a div b) + a mod b" by simp
  moreover have "a mod b < b" using assms by simp
  ultimately have "a \<le> b * (a div b) + b" and "a mod b = 0 \<Longrightarrow> a = b * (a div b)" by linarith+
  then show ?thesis by (simp add: div_ceil_def algebra_simps)
qed

lemma div_less_div_ceil:
  assumes "i < a" "0 < b"
  shows "i div b < div_ceil a b"
proof -
  have "i < b * div_ceil a b"
    using assms div_ceil_le [of b a] by linarith
  then show ?thesis
    using assms(2) by (simp add: less_mult_imp_div_less mult.commute)
qed

lemma div_ceil_0 [simp]: "div_ceil 0 b = 0"
  by (simp add: div_ceil_def)

lemma div_ceil_8_bound: "8 * div_ceil a 8 < a + 8"
  unfolding div_ceil_def by (simp split: if_splits; presburger)

lemma max_one_pos: "0 < max n (1 :: nat)"
  by simp

subsection \<open>Bit length of a word\<close>

fun lz_count :: "(nat \<Rightarrow> bool) \<Rightarrow> nat \<Rightarrow> nat" where
  "lz_count p 0 = 0"
| "lz_count p (Suc n) = (if p n then 0 else Suc (lz_count p n))"

definition leading_zeros :: "'a::len word \<Rightarrow> nat" where
  "leading_zeros w = lz_count (bit w) LENGTH('a)"

definition bit_length :: "'a::len word \<Rightarrow> nat" where
  "bit_length w = LENGTH('a) - leading_zeros w"

lemma lz_count_le: "lz_count p n \<le> n"
  by (induction n) auto

lemma lz_count_above: "n - lz_count p n \<le> i \<Longrightarrow> i < n \<Longrightarrow> \<not> p i"
proof (induction n)
  case 0
  then show ?case by simp
next
  case (Suc n)
  show ?case
  proof (cases "p n")
    case True
    with Suc.prems show ?thesis by simp
  next
    case False
    with Suc show ?thesis by (cases "i = n") auto
  qed
qed

lemma lz_count_top: "lz_count p n < n \<Longrightarrow> p (n - lz_count p n - 1)"
  by (induction n) auto

lemma bit_length_le: "bit_length (w :: 'a::len word) \<le> LENGTH('a)"
  by (simp add: bit_length_def)

lemma bit_length_bound:
  fixes w :: "'a::len word"
  assumes "bit_length w \<le> i"
  shows "\<not> bit w i"
proof (cases "i < LENGTH('a)")
  case True
  then show ?thesis
    using assms lz_count_above [of "LENGTH('a)" "bit w" i]
    by (simp add: bit_length_def leading_zeros_def)
next
  case False
  then show ?thesis by (simp add: bit_word.rep_eq)
qed

lemma bit_length_top:
  fixes w :: "'a::len word"
  assumes "0 < bit_length w"
  shows "bit w (bit_length w - 1)"
  using assms lz_count_top [of "bit w" "LENGTH('a)"]
  by (simp add: bit_length_def leading_zeros_def)

lemma bit_length_eq_0_iff: "bit_length (w :: 'a::len word) = 0 \<longleftrightarrow> w = 0"
proof
  assume "bit_length w = 0"
  then show "w = 0" by (intro bit_word_eqI) (simp add: bit_length_bound)
next
  assume "w = 0"
  then show "bit_length w = 0" using bit_length_top [of w] by fastforce
qed

lemma take_bit_bit_length:
  fixes w :: "'a::len word"
  assumes "bit_length w \<le> n"
  shows "take_bit n w = w"
proof (rule bit_word_eqI)
  fix i
  show "bit (take_bit n w) i \<longleftrightarrow> bit w i"
    using assms bit_length_bound [of w i] by (cases "i < n") (auto simp: bit_take_bit_iff)
qed

lemma bit_length_leI: "(\<And>i. n \<le> i \<Longrightarrow> \<not> bit w i) \<Longrightarrow> bit_length w \<le> n"
  by (rule ccontr) (use bit_length_top [of w] in \<open>force simp: not_le\<close>)

lemma bit_length_less_iff: "n < bit_length w \<longleftrightarrow> (\<exists>i\<ge>n. bit w i)"
  by (meson bit_length_bound bit_length_leI leD leI le_trans)

lemma bit_length_drop_bit:
  fixes w :: "'a::len word"
  shows "bit_length (drop_bit n w) = bit_length w - n"
proof (rule antisym)
  show "bit_length (drop_bit n w) \<le> bit_length w - n"
    by (rule bit_length_leI) (simp add: bit_drop_bit_eq bit_length_bound)
  show "bit_length w - n \<le> bit_length (drop_bit n w)"
  proof (rule ccontr)
    assume "\<not> ?thesis"
    then have a: "bit_length (drop_bit n w) < bit_length w - n" by simp
    then have "bit w (bit_length w - 1)" by (intro bit_length_top) simp
    moreover have "bit_length w - 1 = n + (bit_length w - 1 - n)" using a by simp
    ultimately have "bit (drop_bit n w) (bit_length w - 1 - n)"
      by (metis bit_drop_bit_eq comp_apply)
    moreover have "bit_length (drop_bit n w) \<le> bit_length w - 1 - n" using a by linarith
    ultimately show False using bit_length_bound by blast
  qed
qed

subsection \<open>Slices\<close>

text \<open>\<open>chunks(n)\<close> for \<open>n > 0\<close> (it panics on \<open>0\<close>, which no caller passes), \<open>get(i).copied().unwrap_or(0)\<close>
  and \<open>get(pos..pos + n).unwrap_or(&[])\<close>.\<close>

function chunks :: "nat \<Rightarrow> 'a list \<Rightarrow> 'a list list" where
  "chunks n xs = (if xs = [] \<or> n = 0 then [] else take n xs # chunks n (drop n xs))"
  by pat_completeness auto
termination by (relation "measure (\<lambda>(n, xs). length xs)") auto

declare chunks.simps [simp del]

lemma chunks_Nil [simp]: "chunks n [] = []"
  by (simp add: chunks.simps)

lemma concat_chunks: "0 < n \<Longrightarrow> concat (chunks n xs) = xs"
proof (induction n xs rule: chunks.induct)
  case (1 n xs)
  then show ?case by (subst chunks.simps) auto
qed

definition byte_at :: "u8 list \<Rightarrow> nat \<Rightarrow> u8" where
  "byte_at bytes i = (if i < length bytes then bytes ! i else 0)"

definition get_slice :: "u8 list \<Rightarrow> nat \<Rightarrow> nat \<Rightarrow> u8 list" where
  "get_slice bytes pos n = (if pos + n \<le> length bytes then take n (drop pos bytes) else [])"

lemma byte_at_append [simp]: "byte_at (pre @ b # suf) (length pre) = b"
  by (simp add: byte_at_def)

lemma get_slice_append [simp]: "get_slice (pre @ xs @ suf) (length pre) (length xs) = xs"
  by (simp add: get_slice_def)

lemma length_get_slice_le: "length (get_slice bytes pos n) \<le> n"
  by (simp add: get_slice_def)

end
