(* ===== verification/Bit_Fields.thy ===== *)
theory Bit_Fields imports Prelude begin

text \<open>
  The word-wise bit field access and the zig-zag code that every bit-packing codec of
  \<^verbatim>\<open>weft-physical-type/src/timestamp.rs\<close> is built on: \<open>read_bits\<close>, \<open>write_bits\<close>, \<open>zigzag\<close>,
  \<open>unzigzag\<close>. A buffer is viewed through \<open>bit_at\<close>, its bits in LSB-first order; each operation
  has one lemma that says what it does to those bits, and the round trips follow from these.
\<close>

unbundle bit_operations_syntax

subsection \<open>A byte buffer as a sequence of bits\<close>

definition bit_at :: "u8 list \<Rightarrow> nat \<Rightarrow> bool" where
  "bit_at data i \<longleftrightarrow> i div 8 < length data \<and> bit (data ! (i div 8)) (i mod 8)"

lemma bit_at_Nil [bit_at_simps, simp]: "\<not> bit_at [] i"
  by (simp add: bit_at_def)

lemma bit_at_Cons: "bit_at (b # bs) i = (if i < 8 then bit b i else bit_at bs (i - 8))"
proof (cases "i < 8")
  case True
  then show ?thesis by (simp add: bit_at_def)
next
  case False
  then obtain j where "i = j + 8" by (metis add.commute le_Suc_ex not_less)
  then have "i div 8 = Suc (j div 8)" "i mod 8 = j mod 8" by simp_all
  with \<open>i = j + 8\<close> show ?thesis by (simp add: bit_at_def)
qed

lemma bit_at_zeros [bit_at_simps, simp]: "\<not> bit_at (replicate n 0) i"
  by (simp add: bit_at_def)

lemma bit_at_drop [bit_at_simps]: "bit_at (drop n data) i = bit_at data (8 * n + i)"
  by (auto simp: bit_at_def)

lemma bit_at_take [bit_at_simps]: "bit_at (take n data) i = (i < 8 * n \<and> bit_at data i)"
  by (auto simp: bit_at_def div_less_iff_less_mult mult.commute)

lemma bit_at_append:
  "bit_at (xs @ ys) i = (if i < 8 * length xs then bit_at xs i else bit_at ys (i - 8 * length xs))"
proof (cases "i < 8 * length xs")
  case True
  then have "i div 8 < length xs" by (simp add: div_less_iff_less_mult mult.commute)
  with True show ?thesis by (simp add: bit_at_def nth_append)
next
  case False
  then obtain j where i: "i = 8 * length xs + j" by (metis le_Suc_ex not_less)
  then have "i div 8 = length xs + j div 8" "i mod 8 = j mod 8" by simp_all
  with False i show ?thesis by (simp add: bit_at_def nth_append)
qed

text \<open>\<open>from_le_bytes\<close> and \<open>to_le_bytes\<close> at any width.\<close>

fun from_le :: "u8 list \<Rightarrow> 'a::len word" where
  "from_le [] = 0"
| "from_le (b # bs) = ucast b OR push_bit 8 (from_le bs)"

definition to_le :: "nat \<Rightarrow> 'a::len word \<Rightarrow> u8 list" where
  "to_le n w = map (\<lambda>k. ucast (drop_bit (8 * k) w)) [0..<n]"

lemma length_to_le [simp]: "length (to_le n w) = n"
  by (simp add: to_le_def)

lemma bit_from_le [bit_at_simps]:
  "bit (from_le bs :: 'a::len word) i = (i < LENGTH('a) \<and> bit_at bs i)"
proof (induction bs arbitrary: i)
  case Nil
  then show ?case by simp
next
  case (Cons b bs)
  show ?case
  proof (cases "i < 8")
    case True
    then show ?thesis by (simp add: bit_at_Cons bit_or_iff bit_push_bit_iff bit_ucast_iff)
  next
    case False
    then have "\<not> bit b i" using bit_imp_le_length [of b i] by auto
    with False Cons.IH [of "i - 8"] show ?thesis
      by (auto simp: bit_at_Cons bit_or_iff bit_push_bit_iff bit_ucast_iff)
  qed
qed

lemma bit_at_to_le [bit_at_simps]:
  "bit_at (to_le n (w :: 'a::len word)) i = (i < 8 * n \<and> bit w i)"
proof -
  have "i div 8 < n \<longleftrightarrow> i < 8 * n" by (simp add: div_less_iff_less_mult mult.commute)
  moreover have "8 * (i div 8) + i mod 8 = i" by simp
  ultimately show ?thesis
    by (auto simp: bit_at_def to_le_def bit_ucast_iff bit_drop_bit_eq)
qed

lemma from_le_to_le:
  assumes "LENGTH('a) \<le> 8 * n"
  shows "from_le (to_le n (w :: 'a::len word)) = w"
  by (rule bit_word_eqI) (use assms in \<open>auto simp: bit_at_simps\<close>)

lemma bit_at_ext:
  assumes "length xs = length ys" and "\<And>i. bit_at xs i = bit_at ys i"
  shows "xs = ys"
proof (rule nth_equalityI)
  fix k
  assume k: "k < length xs"
  show "xs ! k = ys ! k"
  proof (rule bit_word_eqI)
    fix i
    assume "i < LENGTH(8)"
    with k assms(1) assms(2) [of "8 * k + i"] show "bit (xs ! k) i = bit (ys ! k) i"
      by (simp add: bit_at_def)
  qed
qed (rule assms(1))

subsection \<open>Reading and writing a field\<close>

text \<open>The mask \<open>u64::MAX >> (64 - width)\<close>.\<close>

definition field_mask :: "nat \<Rightarrow> u64" where
  "field_mask width = drop_bit (64 - width) (- 1)"

lemma bit_field_mask: "width \<le> 64 \<Longrightarrow> bit (field_mask width) i = (i < width)"
  by (auto simp: field_mask_def bit_mask_iff)

definition read_bits :: "u8 list \<Rightarrow> nat \<Rightarrow> nat \<Rightarrow> u64" where
  "read_bits data pos width0 =
    (if width0 = 0 then 0
     else let width = min width0 64; byte = pos div 8; shift = pos mod 8; mask = field_mask width
       in if shift + width \<le> 64 \<and> byte + 8 \<le> length data
          then drop_bit shift (from_le (take 8 (drop byte data))) AND mask
          else let tail = drop byte data; n = min (length tail) 16;
                   le = take n tail @ replicate (16 - n) 0;
                   wide = drop_bit shift (from_le le :: u128)
               in from_le (take 8 (to_le 16 wide)) AND mask)"

lemma bit_at_take_pad:
  "j < 128 \<Longrightarrow> bit_at (take (min (length xs) 16) xs @ replicate (16 - min (length xs) 16) 0) j = bit_at xs j"
proof (cases "j < 8 * length xs")
  case True
  then show "j < 128 \<Longrightarrow> ?thesis" by (auto simp: bit_at_append bit_at_simps)
next
  case False
  then have "\<not> j div 8 < length xs" by (simp add: less_eq_div_iff_mult_less_eq not_less)
  with False show "j < 128 \<Longrightarrow> ?thesis" by (auto simp: bit_at_append bit_at_simps bit_at_def nth_append)
qed

lemma bit_read_bits [bit_at_simps]:
  "bit (read_bits data pos w) i = (i < min w 64 \<and> bit_at data (pos + i))"
proof (cases "w = 0")
  case False
  define width where "width = min w 64"
  define tail where "tail = drop (pos div 8) data"
  have w64: "width \<le> 64" by (simp add: width_def)
  have tail: "bit_at tail (pos mod 8 + i) = bit_at data (pos + i)"
    by (simp add: tail_def bit_at_drop flip: add.assoc)
  have lt: "pos mod 8 + i < 128" if "i < width"
    using that w64 mod_less_divisor [of 8 pos] by linarith
  show ?thesis
  proof (cases "pos mod 8 + width \<le> 64 \<and> pos div 8 + 8 \<le> length data")
    case True
    then have "read_bits data pos w = drop_bit (pos mod 8) (from_le (take 8 tail)) AND field_mask width"
      using False by (simp add: read_bits_def Let_def width_def tail_def)
    then show ?thesis using True w64
      by (auto simp: bit_and_iff bit_drop_bit_eq bit_field_mask bit_at_simps tail simp flip: width_def)
  next
    case F: False
    let ?le = "take (min (length tail) 16) tail @ replicate (16 - min (length tail) 16) 0"
    have "read_bits data pos w =
        from_le (take 8 (to_le 16 (drop_bit (pos mod 8) (from_le ?le :: u128)))) AND field_mask width"
      using False F by (auto simp: read_bits_def Let_def width_def tail_def)
    then show ?thesis using lt w64
      by (auto simp: bit_and_iff bit_drop_bit_eq bit_field_mask bit_at_simps bit_at_take_pad tail
          simp flip: width_def)
  qed
qed (simp add: read_bits_def)

fun or_zip :: "u8 list \<Rightarrow> u8 list \<Rightarrow> u8 list" where
  "or_zip (d # ds) (s # ss) = (d OR s) # or_zip ds ss"
| "or_zip [] ss = []"
| "or_zip ds [] = ds"

definition write_bits :: "u8 list \<Rightarrow> nat \<Rightarrow> u64 \<Rightarrow> nat \<Rightarrow> u8 list" where
  "write_bits out pos v width0 =
    (if width0 = 0 then out
     else let width = min width0 64; byte = pos div 8; shift = pos mod 8;
              field = push_bit shift (ucast (v AND field_mask width)) :: u128
          in take byte out @
             or_zip (drop byte out) (take (div_ceil (shift + width) 8) (to_le 16 field)))"

lemma length_or_zip [simp]: "length (or_zip ds ss) = length ds"
  by (induction ds ss rule: or_zip.induct) auto

lemma length_write_bits [simp]: "length (write_bits out pos v w) = length out"
  by (auto simp: write_bits_def Let_def min_def)

lemma bit_at_or_zip:
  "bit_at (or_zip ds ss) i = (bit_at ds i \<or> (i div 8 < length ds \<and> bit_at ss i))"
proof (induction ds ss arbitrary: i rule: or_zip.induct)
  case (1 d ds s ss)
  have "i div 8 = Suc ((i - 8) div 8)" if "\<not> i < 8"
    using that by (simp add: div_nat_eqI [of _ _ _] le_div_geq not_less)
  with 1 show ?case by (auto simp: bit_at_Cons bit_or_iff)
qed (simp_all add: bit_at_def)

lemma bit_at_write_bits [bit_at_simps]:
  "bit_at (write_bits out pos v w) j =
    (bit_at out j \<or>
     (j div 8 < length out \<and> pos \<le> j \<and> j < pos + min w 64 \<and> bit v (j - pos)))"
proof (cases "w = 0")
  case False
  define width where "width = min w 64"
  define field where "field = (push_bit (pos mod 8) (ucast (v AND field_mask width)) :: u128)"
  define ss where "ss = take (div_ceil (pos mod 8 + width) 8) (to_le 16 field)"
  have pos: "8 * (pos div 8) + pos mod 8 = pos" by simp
  have fit: "pos mod 8 + width \<le> 8 * div_ceil (pos mod 8 + width) 8"
    by (rule div_ceil_le) simp
  have field: "bit field i = (pos mod 8 \<le> i \<and> i < pos mod 8 + width \<and> bit v (i - pos mod 8))" for i
  proof -
    have "i < 128" if "i < pos mod 8 + width"
    proof -
      have "pos mod 8 < 8" by simp
      then show ?thesis using that by (simp add: width_def)
    qed
    then show ?thesis
      by (auto simp: field_def bit_push_bit_iff bit_ucast_iff bit_and_iff bit_field_mask width_def)
  qed
  have src: "bit_at ss i = (pos mod 8 \<le> i \<and> i < pos mod 8 + width \<and> bit v (i - pos mod 8))" for i
  proof -
    have "i < 128" if "i < pos mod 8 + width"
    proof -
      have "pos mod 8 < 8" by simp
      then show ?thesis using that by (simp add: width_def)
    qed
    then show ?thesis using fit by (auto simp: ss_def bit_at_simps field)
  qed
  have w: "write_bits out pos v w = take (pos div 8) out @ or_zip (drop (pos div 8) out) ss"
    using False by (simp add: write_bits_def Let_def width_def field_def ss_def)
  show ?thesis
  proof (cases "j < 8 * (pos div 8)")
    case True
    then have "j < pos" using pos by linarith
    with True show ?thesis
      by (cases "pos div 8 \<le> length out") (auto simp: w bit_at_append bit_at_simps)
  next
    case F: False
    then obtain i where j: "j = 8 * (pos div 8) + i" by (metis le_Suc_ex not_less)
    have jd: "j div 8 = pos div 8 + i div 8" by (simp add: j)
    have c2: "(i < width + pos mod 8) = (i + 8 * (pos div 8) < pos + width)"
      using pos by linarith
    have cond: "pos mod 8 \<le> i \<longleftrightarrow> pos \<le> j" "i < pos mod 8 + width \<longleftrightarrow> j < pos + width"
      "i - pos mod 8 = j - pos" using pos j by linarith+
    show ?thesis
    proof (cases "pos div 8 \<le> length out")
      case True
      then show ?thesis
        by (auto simp: w bit_at_append bit_at_or_zip src cond width_def [symmetric] jd j
            bit_at_drop less_diff_conv add.commute c2)
    next
      case False
      then have "\<not> j div 8 < length out" by (simp add: jd)
      moreover from this have "\<not> bit_at out j" by (simp add: bit_at_def)
      moreover have "take (pos div 8) out @ or_zip (drop (pos div 8) out) ss = out"
        using False by simp
      ultimately show ?thesis by (simp add: w)
    qed
  qed
qed (auto simp: write_bits_def)

text \<open>
  A field that lies inside the buffer, over bits that were zero, reads back as the low \<open>width\<close>
  bits of the value; a field that does not meet it is not disturbed.
\<close>

lemma read_write_bits:
  assumes "pos + w \<le> 8 * length out" and "\<And>i. i < w \<Longrightarrow> \<not> bit_at out (pos + i)"
  shows "read_bits (write_bits out pos v w) pos w = take_bit w v"
proof (rule bit_word_eqI)
  fix i
  assume "i < LENGTH(64)"
  moreover have "(pos + i) div 8 < length out" if "i < w"
    using that assms(1) by (simp add: div_less_iff_less_mult mult.commute)
  ultimately show "bit (read_bits (write_bits out pos v w) pos w) i = bit (take_bit w v) i"
    using assms(2) by (auto simp: bit_at_simps bit_take_bit_iff)
qed

lemma read_write_bits_other:
  assumes "p + u \<le> pos \<or> pos + w \<le> p"
  shows "read_bits (write_bits out pos v w) p u = read_bits out p u"
  by (rule bit_word_eqI) (use assms in \<open>auto simp: bit_at_simps\<close>)

subsection \<open>Zig-zag\<close>

definition zigzag :: "i64 \<Rightarrow> u64" where
  "zigzag v = push_bit 1 v XOR signed_drop_bit 63 v"

definition unzigzag :: "u64 \<Rightarrow> i64" where
  "unzigzag z = drop_bit 1 z XOR - (z AND 1)"

lemma bit_zigzag: "bit (zigzag v) i = (i < 64 \<and> ((1 \<le> i \<and> bit v (i - 1)) \<noteq> bit v 63))"
  unfolding zigzag_def bit_xor_iff bit_push_bit_iff bit_signed_drop_bit_iff
  using bit_imp_le_length [of v "63 + i"] bit_imp_le_length [of v "i - 1"]
  by (cases i) auto

lemma bit_unzigzag: "bit (unzigzag z) i = (i < 64 \<and> ((i < 63 \<and> bit z (Suc i)) \<noteq> bit z 0))"
proof -
  have "z AND 1 = of_bool (bit z 0)" by (simp add: and_one_eq odd_iff_mod_2_eq_one mod2_eq_if bit_0)
  then show ?thesis
    using bit_imp_le_length [of z "Suc i"] bit_imp_le_length [of "unzigzag z" i]
    by (cases "bit z 0") (auto simp: unzigzag_def bit_xor_iff bit_drop_bit_eq bit_not_iff bit_minus_1_iff)
qed

lemma unzigzag_zigzag [simp]: "unzigzag (zigzag v) = v"
proof (rule bit_word_eqI)
  fix i
  assume "i < LENGTH(64)"
  then show "bit (unzigzag (zigzag v)) i = bit v i"
    by (cases "i = 63") (auto simp: bit_unzigzag bit_zigzag)
qed

lemma zigzag_unzigzag [simp]: "zigzag (unzigzag z) = z"
proof (rule bit_word_eqI)
  fix i
  assume "i < LENGTH(64)"
  then show "bit (zigzag (unzigzag z)) i = bit z i"
    by (cases i) (auto simp: bit_unzigzag bit_zigzag)
qed

lemma zigzag_inject [simp]: "zigzag v = zigzag w \<longleftrightarrow> v = w"
  by (metis unzigzag_zigzag)

lemma zigzag_eq_0_iff [simp]: "zigzag v = 0 \<longleftrightarrow> v = 0"
  by (metis unzigzag_zigzag zigzag_unzigzag bit.xor_self drop_bit_of_0 neg_equal_0_iff_equal unzigzag_def zero_and_eq)

lemma zigzag_0 [simp]: "zigzag 0 = 0"
  by simp

subsection \<open>A packed run of equal-width fields\<close>

text \<open>
  The loop the encoders share: field \<open>i\<close> of the stream is written at bit \<open>i * width\<close> of a
  zeroed buffer of \<open>div_ceil (n * width) 8\<close> bytes.
\<close>

fun write_fields :: "nat \<Rightarrow> nat \<Rightarrow> u64 list \<Rightarrow> u8 list \<Rightarrow> u8 list" where
  "write_fields i width [] out = out"
| "write_fields i width (x # xs) out = write_fields (Suc i) width xs (write_bits out (i * width) x width)"

definition pack_fields :: "nat \<Rightarrow> u64 list \<Rightarrow> u8 list" where
  "pack_fields width xs = write_fields 0 width xs (replicate (div_ceil (length xs * width) 8) 0)"

lemma length_write_fields [simp]: "length (write_fields i w xs out) = length out"
  by (induction i w xs out rule: write_fields.induct) auto

lemma write_fields_empty [simp]: "write_fields i w xs [] = []"
  by (rule length_0_conv [THEN iffD1]) simp

lemma length_pack_fields [simp]: "length (pack_fields w xs) = div_ceil (length xs * w) 8"
  by (simp add: pack_fields_def)

lemma read_write_fields:
  assumes "(i + length xs) * w \<le> 8 * length out"
    and "\<And>j. i * w \<le> j \<Longrightarrow> \<not> bit_at out j" and "k < i + length xs"
  shows "read_bits (write_fields i w xs out) (k * w) w =
    (if k < i then read_bits out (k * w) w else take_bit w (xs ! (k - i)))"
  using assms
proof (induction i w xs out rule: write_fields.induct)
  case (1 i w out)
  then show ?case by simp
next
  case (2 i w x xs out)
  let ?out = "write_bits out (i * w) x w"
  have room: "i * w + w \<le> 8 * length out" using "2.prems"(1) by (simp add: algebra_simps)
  have clear: "\<not> bit_at ?out j" if "Suc i * w \<le> j" for j
    using that "2.prems"(2) [of j] by (auto simp: bit_at_simps)
  have IH: "read_bits (write_fields (Suc i) w xs ?out) (k * w) w =
      (if k < Suc i then read_bits ?out (k * w) w else take_bit w (xs ! (k - Suc i)))"
    by (rule "2.IH") (use "2.prems" clear in \<open>auto simp: algebra_simps\<close>)
  consider "k < i" | "k = i" | "i < k" by linarith
  then show ?case
  proof cases
    case 1
    then have "k * w + w \<le> i * w" by (metis Suc_leI add.commute mult_Suc mult_le_mono1)
    with 1 IH show ?thesis by (simp add: read_write_bits_other)
  next
    case 2
    with IH room "2.prems"(2) show ?thesis by (simp add: read_write_bits)
  next
    case 3
    with IH show ?thesis by (simp add: nth_Cons')
  qed
qed

lemma read_pack_fields:
  assumes "k < length xs" and "\<forall>x\<in>set xs. bit_length x \<le> w"
  shows "read_bits (pack_fields w xs) (k * w) w = xs ! k"
proof -
  have "length xs * w \<le> 8 * div_ceil (length xs * w) 8" by (rule div_ceil_le) simp
  then have "read_bits (pack_fields w xs) (k * w) w = take_bit w (xs ! k)"
    using assms(1) by (simp add: pack_fields_def read_write_fields)
  also have "\<dots> = xs ! k"
    using assms by (intro take_bit_bit_length) simp
  finally show ?thesis .
qed

lemma map_read_pack_fields:
  assumes "\<forall>x\<in>set xs. bit_length x \<le> w"
  shows "map (\<lambda>k. read_bits (pack_fields w xs) (k * w) w) [0..<length xs] = xs"
  by (rule nth_equalityI) (use assms in \<open>simp_all add: read_pack_fields\<close>)

end
