(* ===== verification/Timestamps.thy ===== *)
theory Timestamps imports Prelude "HOL-Library.Signed_Division" begin

text \<open>
  The timestamp columns of \<^verbatim>\<open>weft-physical-type/src/timestamp.rs\<close>: the epoch unit with its
  conversions, the delta and delta-of-delta transforms with their inverses, the order check and
  the closed form of a regular column. All arithmetic is wrapping \<open>i64\<close> arithmetic, as in the
  code, so the round trips hold for every input.
\<close>

subsection \<open>The epoch unit\<close>

datatype time_unit = Seconds | Millis | Micros | Nanos

fun time_unit_name :: "time_unit \<Rightarrow> string" where
  "time_unit_name Seconds = ''seconds''"
| "time_unit_name Millis = ''millis''"
| "time_unit_name Micros = ''micros''"
| "time_unit_name Nanos = ''nanos''"

fun nanos_per_unit :: "time_unit \<Rightarrow> i64" where
  "nanos_per_unit Seconds = 1000000000"
| "nanos_per_unit Millis = 1000000"
| "nanos_per_unit Micros = 1000"
| "nanos_per_unit Nanos = 1"

text \<open>\<open>i64::checked_mul\<close>, and the truncating \<open>/\<close> and \<open>%\<close> of \<open>i64\<close> at a positive divisor.\<close>

definition i64_checked_mul :: "i64 \<Rightarrow> i64 \<Rightarrow> i64 option" where
  "i64_checked_mul a b =
    (let p = sint a * sint b in if - (2 ^ 63) \<le> p \<and> p < 2 ^ 63 then Some (a * b) else None)"

definition i64_div :: "i64 \<Rightarrow> i64 \<Rightarrow> i64" where
  "i64_div a b = word_of_int (sint a sdiv sint b)"

definition i64_rem :: "i64 \<Rightarrow> i64 \<Rightarrow> i64" where
  "i64_rem a b = word_of_int (sint a smod sint b)"

definition to_nanos :: "time_unit \<Rightarrow> i64 \<Rightarrow> i64 option" where
  "to_nanos u epoch = i64_checked_mul epoch (nanos_per_unit u)"

definition from_nanos :: "time_unit \<Rightarrow> i64 \<Rightarrow> i64" where
  "from_nanos u nanos =
    (let per = nanos_per_unit u; q = i64_div nanos per
     in if i64_rem nanos per \<noteq> 0 \<and> sint nanos < 0 then q - 1 else q)"

lemma sint_range: "- (2 ^ 63) \<le> sint (v :: i64)" "sint (v :: i64) < 2 ^ 63"
  using sint_ge [of v] sint_lt [of v] by simp_all

lemma sint_word_of_int_id:
  "- (2 ^ 63) \<le> i \<Longrightarrow> i < 2 ^ 63 \<Longrightarrow> sint (word_of_int i :: i64) = i"
  by (simp add: sint_sbintrunc' signed_take_bit_int_eq_self)

lemma sint_nanos_per_unit:
  "sint (nanos_per_unit u) = (case u of Seconds \<Rightarrow> 1000000000 | Millis \<Rightarrow> 1000000 | Micros \<Rightarrow> 1000 | Nanos \<Rightarrow> 1)"
  by (cases u) simp_all

lemma sint_nanos_per_unit_pos: "0 < sint (nanos_per_unit u)"
  by (cases u) simp_all

lemma sint_injD: "sint (a :: i64) = sint b \<Longrightarrow> a = b"
  by (rule signed_word_eqI)

lemma sint_i64_checked_mul:
  "i64_checked_mul a b = Some c \<longleftrightarrow> sint c = sint a * sint b"
proof -
  have "sint (a * b) = sint a * sint b" if "- (2 ^ 63) \<le> sint a * sint b" "sint a * sint b < 2 ^ 63"
  proof -
    have "a * b = word_of_int (sint a * sint b)" by simp
    then show ?thesis using that by (simp only: sint_word_of_int_id)
  qed
  then show ?thesis
    using sint_range [of c] by (auto simp: i64_checked_mul_def Let_def intro!: sint_injD)
qed

text \<open>Truncating division by a positive divisor, adjusted, is division towards minus infinity.\<close>

lemma sdiv_pos:
  fixes n d :: int
  assumes "0 < d"
  shows "n sdiv d = (if 0 \<le> n then n div d else - ((- n) div d))"
    and "n smod d = (if 0 \<le> n then n mod d else - ((- n) mod d))"
proof -
  show q: "n sdiv d = (if 0 \<le> n then n div d else - ((- n) div d))"
    using assms by (cases "n = 0") (auto simp: signed_divide_int_def sgn_if)
  show "n smod d = (if 0 \<le> n then n mod d else - ((- n) mod d))"
    using assms by (auto simp: signed_modulo_int_def sgn_if)
qed

lemma sdiv_floor:
  fixes n d :: int
  assumes "0 < d"
  shows "n div d = (if n smod d \<noteq> 0 \<and> n < 0 then n sdiv d - 1 else n sdiv d)"
proof (cases "n < 0")
  case False
  then show ?thesis using assms by (simp add: sdiv_pos)
next
  case True
  define m where "m = - n"
  have n: "n = - m" "0 < m" using True by (simp_all add: m_def)
  have "(- m) div d = (if m mod d = 0 then - (m div d) else - (m div d) - 1)"
    using assms by (simp add: zdiv_zminus1_eq_if)
  then show ?thesis using n assms by (simp add: sdiv_pos)
qed

lemma sint_i64_div_rem:
  assumes "0 < sint b"
  shows "sint (i64_div a b) = sint a sdiv sint b" and "sint (i64_rem a b) = sint a smod sint b"
proof -
  have d: "0 \<le> n div sint b \<and> n div sint b \<le> n" if "0 \<le> n" for n
    using that assms zdiv_mono2 [of n 1 "sint b"] by (simp add: pos_imp_zdiv_nonneg_iff)
  have m: "- (2 ^ 63) \<le> n mod sint b \<and> n mod sint b < 2 ^ 63 \<and> - (n mod sint b) < 2 ^ 63 \<and> n mod sint b \<le> 2 ^ 63" for n
    using pos_mod_bound [OF assms, of n] pos_mod_sign [OF assms, of n] sint_range [of b] by linarith
  note bounds = d [of "sint a"] d [of "- sint a"] m [of "sint a"] m [of "- sint a"]
    sint_range [of a] sint_range [of b]
  show "sint (i64_div a b) = sint a sdiv sint b"
    unfolding i64_div_def using bounds assms
    by (intro sint_word_of_int_id) (auto simp: sdiv_pos)
  show "sint (i64_rem a b) = sint a smod sint b"
    unfolding i64_rem_def using bounds assms
    by (intro sint_word_of_int_id) (auto simp: sdiv_pos)
qed

lemma sint_from_nanos: "sint (from_nanos u nanos) = sint nanos div sint (nanos_per_unit u)"
proof -
  let ?d = "sint (nanos_per_unit u)"
  have d: "0 < ?d" by (rule sint_nanos_per_unit_pos)
  have z: "i64_rem nanos (nanos_per_unit u) \<noteq> 0 \<longleftrightarrow> sint nanos smod ?d \<noteq> 0"
    using sint_i64_div_rem(2) [OF d, of nanos] by (metis sint_0 sint_injD)
  have "sint (q - 1) = sint q - 1" if "q = i64_div nanos (nanos_per_unit u)" "sint nanos < 0" 
     "sint nanos smod ?d \<noteq> 0" for q
  proof -
    have "sint q - 1 = sint nanos div ?d"
      using that sdiv_floor [OF d, of "sint nanos"] sint_i64_div_rem(1) [OF d] by simp
    moreover have "- (2 ^ 63) \<le> sint nanos div ?d" "sint nanos div ?d < 2 ^ 63"
      using sint_range [of nanos] d that(2) zdiv_mono2_neg [of "sint nanos" 1 ?d]
        div_neg_pos_less0 [of "sint nanos" ?d] by auto
    ultimately have "sint (word_of_int (sint q - 1) :: i64) = sint q - 1"
      by (intro sint_word_of_int_id) auto
    then show ?thesis by simp
  qed
  then show ?thesis
    using sdiv_floor [OF d, of "sint nanos"] sint_i64_div_rem(1) [OF d, of nanos] z
    by (simp add: from_nanos_def Let_def)
qed

subsection \<open>Delta and delta-of-delta columns\<close>

record delta_column =
  dc_first :: i64
  dc_deltas :: "i64 list"
  dc_unit :: time_unit

record delta_of_delta_column =
  dd_first :: i64
  dd_first_delta :: "i64 option"
  dd_dods :: "i64 list"
  dd_unit :: time_unit

text \<open>\<open>first().copied()\<close>, and \<open>windows(2)\<close> mapped to the wrapping difference.\<close>

fun first_of :: "'a list \<Rightarrow> 'a option" where
  "first_of [] = None"
| "first_of (x # xs) = Some x"

fun window_diffs :: "i64 list \<Rightarrow> i64 list" where
  "window_diffs (a # b # xs) = (b - a) # window_diffs (b # xs)"
| "window_diffs _ = []"

definition encode_delta :: "i64 list \<Rightarrow> time_unit \<Rightarrow> delta_column" where
  "encode_delta values unit =
    \<lparr>dc_first = (case first_of values of Some v \<Rightarrow> v | None \<Rightarrow> 0),
     dc_deltas = window_diffs values, dc_unit = unit\<rparr>"

fun delta_loop :: "i64 \<Rightarrow> i64 list \<Rightarrow> i64 list" where
  "delta_loop acc [] = []"
| "delta_loop acc (d # ds) = (acc + d) # delta_loop (acc + d) ds"

definition decode_delta :: "delta_column \<Rightarrow> i64 list" where
  "decode_delta col =
    (if dc_deltas col = [] then [dc_first col]
     else dc_first col # delta_loop (dc_first col) (dc_deltas col))"

definition encode_delta_of_delta :: "i64 list \<Rightarrow> time_unit \<Rightarrow> delta_of_delta_column" where
  "encode_delta_of_delta values unit =
    (let deltas = window_diffs values
     in \<lparr>dd_first = (case first_of values of Some v \<Rightarrow> v | None \<Rightarrow> 0),
         dd_first_delta = first_of deltas, dd_dods = window_diffs deltas, dd_unit = unit\<rparr>)"

text \<open>The loop of \<open>decode_delta_of_delta\<close> after the second row: \<open>acc\<close> and \<open>delta\<close> of the row before.\<close>

fun dod_loop :: "i64 \<Rightarrow> i64 \<Rightarrow> i64 list \<Rightarrow> i64 list" where
  "dod_loop acc delta [] = []"
| "dod_loop acc delta (d # ds) = (acc + (delta + d)) # dod_loop (acc + (delta + d)) (delta + d) ds"

definition decode_delta_of_delta :: "delta_of_delta_column \<Rightarrow> i64 list" where
  "decode_delta_of_delta col =
    (case dd_first_delta col of
       None \<Rightarrow> [dd_first col]
     | Some first_delta \<Rightarrow>
         let acc = dd_first col + first_delta
         in dd_first col # acc # dod_loop acc first_delta (dd_dods col))"

fun position :: "('a \<Rightarrow> bool) \<Rightarrow> 'a list \<Rightarrow> nat option" where
  "position p [] = None"
| "position p (x # xs) = (if p x then Some 0 else map_option Suc (position p xs))"

fun windows2 :: "'a list \<Rightarrow> ('a \<times> 'a) list" where
  "windows2 (a # b # xs) = (a, b) # windows2 (b # xs)"
| "windows2 _ = []"

definition first_order_violation :: "i64 list \<Rightarrow> (nat \<times> i64 \<times> i64) option" where
  "first_order_violation timestamps =
    map_option (\<lambda>i. (i + 1, timestamps ! i, timestamps ! (i + 1)))
      (position (\<lambda>w. sint (snd w) < sint (fst w)) (windows2 timestamps))"

definition delta_column_len :: "delta_column \<Rightarrow> nat" where
  "delta_column_len col = length (dc_deltas col) + 1"

definition dod_column_len :: "delta_of_delta_column \<Rightarrow> nat" where
  "dod_column_len col =
    (case dd_first_delta col of None \<Rightarrow> 1 | Some _ \<Rightarrow> length (dd_dods col) + 2)"

definition arithmetic_stride :: "delta_of_delta_column \<Rightarrow> (i64 \<times> i64) option" where
  "arithmetic_stride col =
    (case dd_first_delta col of
       Some step \<Rightarrow>
         if step \<noteq> 0 \<and> (\<forall>d\<in>set (dd_dods col). d = 0) then Some (dd_first col, step) else None
     | None \<Rightarrow> None)"

subsection \<open>The transforms and their inverses\<close>

lemma length_window_diffs [simp]: "length (window_diffs xs) = length xs - 1"
  by (induction xs rule: window_diffs.induct) auto

lemma length_delta_loop [simp]: "length (delta_loop acc ds) = length ds"
  by (induction ds arbitrary: acc) auto

lemma length_dod_loop [simp]: "length (dod_loop acc delta ds) = length ds"
  by (induction ds arbitrary: acc delta) auto

lemma delta_loop_window_diffs: "delta_loop a (window_diffs (a # xs)) = xs"
  by (induction xs arbitrary: a) auto

lemma dod_loop_as_delta_loop: "dod_loop acc delta ds = delta_loop acc (delta_loop delta ds)"
  by (induction ds arbitrary: acc delta) auto

lemma first_of_None [simp]: "first_of xs = None \<longleftrightarrow> xs = []"
  by (cases xs) auto

lemma decode_encode_delta: "values \<noteq> [] \<Longrightarrow> decode_delta (encode_delta values unit) = values"
proof (induction "values" rule: window_diffs.induct)
  case (1 a b xs)
  then show ?case
    using delta_loop_window_diffs [of a "b # xs"] by (simp add: decode_delta_def encode_delta_def)
qed (simp_all add: decode_delta_def encode_delta_def)

lemma decode_encode_delta_of_delta:
  assumes "values \<noteq> []"
  shows "decode_delta_of_delta (encode_delta_of_delta values unit) = values"
proof (cases "values" rule: window_diffs.cases)
  case (1 a b xs)
  then show ?thesis
    using delta_loop_window_diffs [of b xs] delta_loop_window_diffs [of "b - a" "window_diffs (b # xs)"]
    by (simp add: decode_delta_of_delta_def encode_delta_of_delta_def dod_loop_as_delta_loop)
qed (use assms in \<open>simp_all add: decode_delta_of_delta_def encode_delta_of_delta_def\<close>)

lemma length_decode_delta_of_delta: "length (decode_delta_of_delta col) = dod_column_len col"
  by (simp add: decode_delta_of_delta_def dod_column_len_def Let_def split: option.split)

lemma length_decode_delta: "length (decode_delta col) = delta_column_len col"
  by (simp add: decode_delta_def delta_column_len_def)

lemma dod_loop_zeros:
  "\<forall>d\<in>set ds. d = 0 \<Longrightarrow> i < length ds \<Longrightarrow> dod_loop acc delta ds ! i = acc + of_nat (Suc i) * delta"
proof (induction ds arbitrary: acc i)
  case (Cons d ds)
  then show ?case by (cases i) (auto simp: algebra_simps)
qed simp

lemma arithmetic_stride_nth:
  assumes "arithmetic_stride col = Some (first, step)" and "i < dod_column_len col"
  shows "decode_delta_of_delta col ! i = first + of_nat i * step"
proof -
  have c: "dd_first_delta col = Some step" "dd_first col = first" "\<forall>d\<in>set (dd_dods col). d = 0"
    using assms(1) by (auto simp: arithmetic_stride_def split: option.splits if_splits)
  show ?thesis
  proof (cases i)
    case (Suc j)
    note i = Suc
    show ?thesis
    proof (cases j)
      case (Suc k)
      have "k < length (dd_dods col)" using assms(2) c i Suc by (simp add: dod_column_len_def)
      then show ?thesis
        using c i Suc dod_loop_zeros [OF c(3), of k "first + step" step]
        by (simp add: decode_delta_of_delta_def Let_def algebra_simps)
    qed (use c i in \<open>simp add: decode_delta_of_delta_def Let_def\<close>)
  qed (use c in \<open>simp add: decode_delta_of_delta_def Let_def\<close>)
qed

subsection \<open>Order\<close>

abbreviation time_sorted :: "i64 list \<Rightarrow> bool" where
  "time_sorted ts \<equiv> sorted_wrt (\<lambda>a b. sint a \<le> sint b) ts"

lemma windows2_nth: "Suc i < length xs \<Longrightarrow> windows2 xs ! i = (xs ! i, xs ! Suc i)"
  by (induction xs arbitrary: i rule: windows2.induct) (auto simp: nth_Cons split: nat.splits)

lemma length_windows2 [simp]: "length (windows2 xs) = length xs - 1"
  by (induction xs rule: windows2.induct) auto

lemma position_Some:
  "position p xs = Some i \<longleftrightarrow> i < length xs \<and> p (xs ! i) \<and> (\<forall>j<i. \<not> p (xs ! j))"
  by (induction xs arbitrary: i) (auto simp: nth_Cons less_Suc_eq_0_disj split: nat.splits)

lemma position_None: "position p xs = None \<longleftrightarrow> (\<forall>x\<in>set xs. \<not> p x)"
  by (induction xs) auto

lemma time_sorted_adjacent:
  "time_sorted ts \<longleftrightarrow> (\<forall>i. Suc i < length ts \<longrightarrow> sint (ts ! i) \<le> sint (ts ! Suc i))"
  by (rule sorted_wrt_iff_nth_Suc_transp) (auto simp: transp_def)

lemma first_order_violation_Some:
  "first_order_violation ts = Some (i, p, c) \<longleftrightarrow>
    0 < i \<and> i < length ts \<and> p = ts ! (i - 1) \<and> c = ts ! i \<and> sint c < sint p \<and> time_sorted (take i ts)"
proof -
  have "first_order_violation ts = Some (i, p, c) \<longleftrightarrow>
    (\<exists>j. i = Suc j \<and> position (\<lambda>w. sint (snd w) < sint (fst w)) (windows2 ts) = Some j \<and>
      p = ts ! j \<and> c = ts ! i)"
    by (auto simp: first_order_violation_def)
  also have "\<dots> \<longleftrightarrow> 0 < i \<and> i < length ts \<and> p = ts ! (i - 1) \<and> c = ts ! i \<and> sint c < sint p \<and>
      (\<forall>j < i - 1. sint (ts ! j) \<le> sint (ts ! Suc j))"
    by (cases i) (auto simp: position_Some windows2_nth not_less)
  also have "\<dots> \<longleftrightarrow> 0 < i \<and> i < length ts \<and> p = ts ! (i - 1) \<and> c = ts ! i \<and> sint c < sint p \<and>
      time_sorted (take i ts)"
    by (cases i) (auto simp: time_sorted_adjacent)
  finally show ?thesis .
qed

lemma first_order_violation_None: "first_order_violation ts = None \<longleftrightarrow> time_sorted ts"
proof -
  have "first_order_violation ts = None \<longleftrightarrow>
      (\<forall>i<length ts - 1. sint (fst (windows2 ts ! i)) \<le> sint (snd (windows2 ts ! i)))"
    by (simp add: first_order_violation_def position_None all_set_conv_all_nth not_less)
  also have "\<dots> \<longleftrightarrow> time_sorted ts"
    by (auto simp: time_sorted_adjacent windows2_nth)
  finally show ?thesis .
qed

subsection \<open>Properties\<close>

text \<open>
  C37: Both transforms of a non-empty timestamp column, first differences and second differences,
  decode to the column they were taken of, for every input, differences that overflow i64
  included.
\<close>

theorem timestamp_transforms_lossless:
  assumes "ts \<noteq> []"
  shows "decode_delta (encode_delta ts unit) = ts \<and> decode_delta_of_delta (encode_delta_of_delta ts unit) = ts \<and>
    delta_column_len (encode_delta ts unit) = length ts \<and> dod_column_len (encode_delta_of_delta ts unit) = length ts"
  using decode_encode_delta [OF assms, of unit] decode_encode_delta_of_delta [OF assms, of unit]
    length_decode_delta [of "encode_delta ts unit"] length_decode_delta_of_delta [of "encode_delta_of_delta ts unit"]
  by simp

theorem timestamp_transforms_lossless_witness:
  "decode_delta (encode_delta [i64_max, i64_min, 3] Nanos) = [i64_max, i64_min, 3] \<and>
    decode_delta_of_delta (encode_delta_of_delta [i64_max, i64_min, 3] Nanos) = [i64_max, i64_min, 3] \<and>
    delta_column_len (encode_delta [i64_max, i64_min, 3] Nanos) = length [i64_max, i64_min, 3] \<and>
    dod_column_len (encode_delta_of_delta [i64_max, i64_min, 3] Nanos) = length [i64_max, i64_min, 3]"
  by (rule timestamp_transforms_lossless) simp

subsection \<open>Further facts\<close>

text \<open>
  Converting nanoseconds to a unit rounds towards minus infinity for every i64, and converting an
  epoch to nanoseconds succeeds exactly when the product fits i64 and is then undone by the other
  conversion.
\<close>

lemma unit_conversion_floor:
  shows "sint (from_nanos u n) = sint n div sint (nanos_per_unit u) \<and>
    (to_nanos u e = None \<longleftrightarrow> sint e * sint (nanos_per_unit u) \<notin> {- (2 ^ 63)..<2 ^ 63}) \<and>
    (\<forall>m. to_nanos u e = Some m \<longrightarrow> from_nanos u m = e)"
proof -
  have "from_nanos u m = e" if "to_nanos u e = Some m" for m
  proof -
    have "sint m = sint e * sint (nanos_per_unit u)" using that by (simp add: to_nanos_def sint_i64_checked_mul)
    then have "sint (from_nanos u m) = sint e" using sint_nanos_per_unit_pos [of u] by (simp add: sint_from_nanos)
    then show ?thesis by (rule sint_injD)
  qed
  moreover have "to_nanos u e = None \<longleftrightarrow> sint e * sint (nanos_per_unit u) \<notin> {- (2 ^ 63)..<2 ^ 63}"
    by (simp only: to_nanos_def i64_checked_mul_def Let_def atLeastLessThan_iff split: if_split) simp
  ultimately show ?thesis using sint_from_nanos by blast
qed

lemma unit_conversion_floor_witness:
  "sint (from_nanos Millis (- 1)) = - 1 \<and> from_nanos Millis (- 1000000) = - 1"
proof -
  have "to_nanos Millis (- 1) = Some (- 1000000)" by code_simp
  then show ?thesis using unit_conversion_floor [of Millis "- 1" "- 1"] by simp
qed

text \<open>
  When a column is reported as regular, with an anchor and a step, row i of it is the anchor plus
  i steps, and the step is not zero.
\<close>

lemma regular_column_closed_form:
  assumes "arithmetic_stride col = Some (a, step)" "i < dod_column_len col"
  shows "decode_delta_of_delta col ! i = a + of_nat i * step \<and> step \<noteq> 0"
  using arithmetic_stride_nth [OF assms] assms(1) by (auto simp: arithmetic_stride_def split: option.splits if_splits)

lemma regular_column_closed_form_witness:
  "decode_delta_of_delta (encode_delta_of_delta [100, 110, 120, 130] Seconds) ! 3 = 100 + of_nat 3 * 10 \<and> (10 :: i64) \<noteq> 0"
  by (rule regular_column_closed_form)
     (simp_all add: arithmetic_stride_def dod_column_len_def encode_delta_of_delta_def Let_def)

end
