(* ===== verification/Checkpoints.thy ===== *)
theory Checkpoints imports Timestamps begin

text \<open>
  The sparse checkpoint index over a delta-of-delta column
  (\<^verbatim>\<open>DodCheckpoints\<close> and \<^verbatim>\<open>DeltaOfDeltaColumn::checkpoints\<close> of
  \<^verbatim>\<open>weft-physical-type/src/timestamp.rs\<close>). The specification of a lookup is \<open>find\<close> over the rows
  of the fully decoded column; on a sorted column the indexed search meets it for every stride
  and every acceptance predicate.
\<close>

record dod_checkpoint =
  cp_row :: nat
  cp_timestamp :: i64
  cp_delta :: i64

record dod_checkpoints =
  cks_stride :: nat
  cks_points :: "dod_checkpoint list"
  cks_rows :: nat

subsection \<open>Building the index\<close>

fun checkpoint_loop :: "nat \<Rightarrow> nat \<Rightarrow> i64 \<Rightarrow> i64 \<Rightarrow> i64 list \<Rightarrow> dod_checkpoint list \<times> nat" where
  "checkpoint_loop stride row ts delta [] = ([], row)"
| "checkpoint_loop stride row ts delta (dod # dods) =
    (let delta' = delta + dod; ts' = ts + delta'; row' = row + 1;
         (points, last) = checkpoint_loop stride row' ts' delta' dods
     in (if row' mod stride = 0
         then \<lparr>cp_row = row', cp_timestamp = ts', cp_delta = delta'\<rparr> # points else points, last))"

definition checkpoints :: "delta_of_delta_column \<Rightarrow> nat \<Rightarrow> dod_checkpoints" where
  "checkpoints col stride0 =
    (let stride = max stride0 1 in
     case dd_first_delta col of
       None \<Rightarrow> \<lparr>cks_stride = stride, cks_points = [],
                cks_rows = max (if dd_dods col \<noteq> [] then 1 else 0) 1\<rparr>
     | Some first_delta \<Rightarrow>
         let ts = dd_first col + first_delta;
             (points, row) = checkpoint_loop stride 1 ts first_delta (dd_dods col)
         in \<lparr>cks_stride = stride,
             cks_points = \<lparr>cp_row = 1, cp_timestamp = ts, cp_delta = first_delta\<rparr> # points,
             cks_rows = row + 1\<rparr>)"

lemma fst_checkpoint_loop [simp]:
  "fst (checkpoint_loop stride row ts delta (dod # dods)) =
    (let rest = fst (checkpoint_loop stride (Suc row) (ts + (delta + dod)) (delta + dod) dods)
     in if Suc row mod stride = 0
        then \<lparr>cp_row = Suc row, cp_timestamp = ts + (delta + dod), cp_delta = delta + dod\<rparr> # rest else rest)"
  by (simp add: Let_def split: prod.split)

lemma snd_checkpoint_loop [simp]:
  "snd (checkpoint_loop stride row ts delta (dod # dods)) =
    snd (checkpoint_loop stride (Suc row) (ts + (delta + dod)) (delta + dod) dods)"
  by (simp add: Let_def split: prod.split)

declare checkpoint_loop.simps(2) [simp del]

lemma cks_points_checkpoints:
  "dd_first_delta col = Some d \<Longrightarrow> cks_points (checkpoints col stride) =
    \<lparr>cp_row = 1, cp_timestamp = dd_first col + d, cp_delta = d\<rparr> #
    fst (checkpoint_loop (max stride 1) 1 (dd_first col + d) d (dd_dods col))"
  by (simp add: checkpoints_def Let_def split: prod.split)

subsection \<open>Searching it\<close>

text \<open>\<open>partition_point\<close> on a partitioned slice: the number of leading elements that satisfy the
  predicate (\<open>points_partitioned\<close> below shows that the code calls it on such a slice).\<close>

definition partition_point :: "('a \<Rightarrow> bool) \<Rightarrow> 'a list \<Rightarrow> nat" where
  "partition_point p xs = length (takeWhile p xs)"

function scan_from ::
  "delta_of_delta_column \<Rightarrow> nat \<Rightarrow> i64 \<Rightarrow> i64 \<Rightarrow> i64 \<Rightarrow> (nat \<Rightarrow> bool) \<Rightarrow> nat option" where
  "scan_from col row ts delta target accept =
    (if ts = target \<and> accept row then Some row
     else if sint target < sint ts then None
     else if row = 0 then None
     else if row - 1 < length (dd_dods col)
     then let delta' = delta + dd_dods col ! (row - 1); ts' = ts + delta'
          in scan_from col (row + 1) ts' delta' target accept
     else None)"
  by pat_completeness auto
termination
  by (relation "measure (\<lambda>(col, row, _). length (dd_dods col) + 1 - row)") auto

declare scan_from.simps [simp del]

definition search_sorted_with ::
  "dod_checkpoints \<Rightarrow> delta_of_delta_column \<Rightarrow> i64 \<Rightarrow> (nat \<Rightarrow> bool) \<Rightarrow> nat option" where
  "search_sorted_with cks col target accept =
    (case dd_first_delta col of
       None \<Rightarrow> if dd_first col = target \<and> accept 0 then Some 0 else None
     | Some first_delta \<Rightarrow>
         if dd_first col = target \<and> accept 0 then Some 0
         else let idx = partition_point (\<lambda>c. sint (cp_timestamp c) < sint target) (cks_points cks);
                  start = (if idx = 0
                    then \<lparr>cp_row = 1, cp_timestamp = dd_first col + first_delta, cp_delta = first_delta\<rparr>
                    else cks_points cks ! (idx - 1))
              in scan_from col (cp_row start) (cp_timestamp start) (cp_delta start) target accept)"

definition search_sorted :: "dod_checkpoints \<Rightarrow> delta_of_delta_column \<Rightarrow> i64 \<Rightarrow> nat option" where
  "search_sorted cks col target = search_sorted_with cks col target (\<lambda>_. True)"

subsection \<open>Correctness\<close>

text \<open>The specification: the first row of the decoded column that holds \<open>target\<close> and is accepted.\<close>

definition first_match :: "i64 list \<Rightarrow> i64 \<Rightarrow> (nat \<Rightarrow> bool) \<Rightarrow> nat option" where
  "first_match ts target accept = find (\<lambda>r. ts ! r = target \<and> accept r) [0..<length ts]"

text \<open>
  A position from which the reconstruction of \<open>col\<close> can be resumed: \<open>ts\<close> is the timestamp of
  \<open>row\<close>, and running the decoder from here yields exactly the rows after it.
\<close>

definition resumes :: "delta_of_delta_column \<Rightarrow> nat \<Rightarrow> i64 \<Rightarrow> i64 \<Rightarrow> bool" where
  "resumes col row ts delta \<longleftrightarrow>
    0 < row \<and> drop row (decode_delta_of_delta col) = ts # dod_loop ts delta (drop (row - 1) (dd_dods col))"

lemma resumes_nth: "resumes col row ts delta \<Longrightarrow> row < dod_column_len col \<and> decode_delta_of_delta col ! row = ts"
  unfolding resumes_def length_decode_delta_of_delta [symmetric]
  by (metis Cons_nth_drop_Suc drop_all list.inject list.simps(3) not_less)

lemma resumes_Suc:
  assumes "resumes col row ts delta" and "row - 1 < length (dd_dods col)"
  shows "resumes col (row + 1) (ts + (delta + dd_dods col ! (row - 1))) (delta + dd_dods col ! (row - 1))"
proof -
  have "drop (row - 1) (dd_dods col) = dd_dods col ! (row - 1) # drop row (dd_dods col)"
    using assms by (metis Cons_nth_drop_Suc Suc_diff_1 resumes_def)
  moreover have "drop (row + 1) (decode_delta_of_delta col) = tl (drop row (decode_delta_of_delta col))"
    by (simp add: tl_drop drop_Suc)
  ultimately show ?thesis using assms(1) by (simp add: resumes_def)
qed

lemma resumes_last:
  assumes "resumes col row ts delta" and "\<not> row - 1 < length (dd_dods col)"
  shows "dod_column_len col = row + 1"
proof -
  have "length (drop row (decode_delta_of_delta col)) = 1"
    using assms by (simp add: resumes_def)
  then show ?thesis using resumes_nth [OF assms(1)] by (simp add: length_decode_delta_of_delta)
qed

lemma resumes_first:
  "dd_first_delta col = Some d \<Longrightarrow> resumes col 1 (dd_first col + d) d"
  by (simp add: resumes_def decode_delta_of_delta_def Let_def)

lemma time_sorted_nth_mono:
  "time_sorted ts \<Longrightarrow> i \<le> j \<Longrightarrow> j < length ts \<Longrightarrow> sint (ts ! i) \<le> sint (ts ! j)"
  by (cases "i = j") (auto simp: sorted_wrt_iff_nth_less)

lemma find_cong: "(\<And>x. x \<in> set xs \<Longrightarrow> p x = q x) \<Longrightarrow> find p xs = find q xs"
  by (induction xs) auto

lemma find_append: "find p (xs @ ys) = (case find p xs of None \<Rightarrow> find p ys | Some x \<Rightarrow> Some x)"
  by (induction xs) auto

lemma find_upt_skip:
  assumes "i \<le> j" "j \<le> n" and "\<And>r. i \<le> r \<Longrightarrow> r < j \<Longrightarrow> \<not> p r"
  shows "find p [i..<n] = find p [j..<n]"
proof -
  have "[i..<n] = [i..<j] @ [j..<n]"
    using assms(1,2) by (metis le_iff_add upt_add_eq_append)
  moreover have "find p [i..<j] = None"
    using assms(3) by (auto simp: find_None_iff)
  ultimately show ?thesis by (simp add: find_append)
qed

lemma scan_from_correct:
  assumes "time_sorted (decode_delta_of_delta col)" and "resumes col row ts delta"
  shows "scan_from col row ts delta target accept =
    find (\<lambda>r. decode_delta_of_delta col ! r = target \<and> accept r) [row..<dod_column_len col]"
  using assms
proof (induction col row ts delta target accept rule: scan_from.induct)
  case (1 col row ts delta target accept)
  let ?T = "decode_delta_of_delta col" and ?n = "dod_column_len col"
  let ?p = "\<lambda>r. ?T ! r = target \<and> accept r"
  have row: "0 < row" "row < ?n" "?T ! row = ts"
    using "1.prems"(2) resumes_nth by (auto simp: resumes_def)
  have split: "[row..<?n] = row # [row + 1..<?n]"
    using row(2) by (simp add: upt_conv_Cons)
  consider (hit) "?p row" | (passed) "\<not> ?p row" "sint target < sint ts"
    | (step) "\<not> ?p row" "\<not> sint target < sint ts" "row - 1 < length (dd_dods col)"
    | (last) "\<not> ?p row" "\<not> sint target < sint ts" "\<not> row - 1 < length (dd_dods col)"
    by blast
  then show ?case
  proof cases
    case hit
    then show ?thesis using row split by (simp add: scan_from.simps [of col row])
  next
    case passed
    have "\<not> ?p r" if "r \<in> set [row..<?n]" for r
    proof -
      have "sint ts \<le> sint (?T ! r)"
        using that "1.prems"(1) row time_sorted_nth_mono [of ?T row r]
        by (simp add: length_decode_delta_of_delta)
      then show ?thesis using passed(2) by auto
    qed
    then have "find ?p [row..<?n] = None" by (simp only: find_None_iff) blast
    with passed row show ?thesis by (simp add: scan_from.simps [of col row])
  next
    case step
    let ?d = "delta + dd_dods col ! (row - 1)"
    have "scan_from col row ts delta target accept = scan_from col (row + 1) (ts + ?d) ?d target accept"
      using step row by (subst scan_from.simps) (auto simp: Let_def)
    also have "\<dots> = find ?p [row + 1..<?n]"
      using step row "1.prems" resumes_Suc by (intro "1.IH") auto
    finally show ?thesis using step(1) split by auto
  next
    case last
    then show ?thesis
      using row resumes_last [OF "1.prems"(2)] split by (simp add: scan_from.simps [of col row])
  qed
qed

lemma checkpoint_loop_resumes:
  assumes "resumes col row ts delta" and "dods = drop (row - 1) (dd_dods col)"
    and "c \<in> set (fst (checkpoint_loop stride row ts delta dods))"
  shows "resumes col (cp_row c) (cp_timestamp c) (cp_delta c) \<and> row < cp_row c"
  using assms
proof (induction stride row ts delta dods rule: checkpoint_loop.induct)
  case (2 stride row ts delta dod dods)
  have row: "row - 1 < length (dd_dods col)" "dd_dods col ! (row - 1) = dod"
    "dods = drop (row + 1 - 1) (dd_dods col)"
    using "2.prems"(1,2) unfolding resumes_def
    by (metis drop_all list.distinct(1) not_less, metis nth_via_drop, metis Suc_diff_1 add_diff_cancel_right' drop_Suc list.sel(3) tl_drop)
  have nxt: "resumes col (row + 1) (ts + (delta + dod)) (delta + dod)"
    using resumes_Suc [OF "2.prems"(1) row(1)] unfolding row(2) .
  show ?case
  proof (cases "c \<in> set (fst (checkpoint_loop stride (row + 1) (ts + (delta + dod)) (delta + dod) dods))")
    case True
    then show ?thesis using "2.IH" [OF refl refl refl nxt row(3)] by auto
  next
    case False
    then show ?thesis using "2.prems"(3) nxt
      by (auto simp: Let_def split: if_splits)
  qed
qed simp

lemma checkpoints_resume:
  assumes "c \<in> set (cks_points (checkpoints col stride))"
  shows "resumes col (cp_row c) (cp_timestamp c) (cp_delta c)"
proof (cases "dd_first_delta col")
  case (Some d)
  then show ?thesis
    using assms resumes_first [OF Some]
      checkpoint_loop_resumes [OF resumes_first [OF Some], of "dd_dods col" c "max stride 1"]
    by (auto simp: cks_points_checkpoints [OF Some])
qed (use assms in \<open>simp add: checkpoints_def Let_def\<close>)

lemma search_sorted_with_correct:
  assumes "time_sorted (decode_delta_of_delta col)"
  shows "search_sorted_with (checkpoints col stride) col target accept =
    first_match (decode_delta_of_delta col) target accept"
proof (cases "dd_first_delta col")
  case None
  then show ?thesis
    by (simp add: search_sorted_with_def first_match_def decode_delta_of_delta_def)
next
  case (Some d)
  let ?T = "decode_delta_of_delta col" and ?n = "dod_column_len col"
  let ?p = "\<lambda>r. ?T ! r = target \<and> accept r"
  let ?P = "cks_points (checkpoints col stride)" and ?q = "\<lambda>c. sint (cp_timestamp c) < sint target"
  have n: "0 < ?n" "?T ! 0 = dd_first col" "[0..<?n] = 0 # [1..<?n]"
    using Some by (simp_all add: dod_column_len_def decode_delta_of_delta_def Let_def upt_rec)
  have spec: "first_match ?T target accept = (if ?p 0 then Some 0 else find ?p [1..<?n])"
    by (simp add: first_match_def length_decode_delta_of_delta n)
  show ?thesis
  proof (cases "partition_point ?q ?P = 0")
    case True
    then show ?thesis
      using spec n(2) scan_from_correct [OF assms resumes_first [OF Some]]
      by (simp add: search_sorted_with_def Some Let_def)
  next
    case False
    define c where "c = ?P ! (partition_point ?q ?P - 1)"
    have "c \<in> set (takeWhile ?q ?P)"
      using False unfolding c_def partition_point_def
      by (metis diff_less gr0I nth_mem takeWhile_nth zero_less_one)
    then have c: "?q c" "c \<in> set ?P" by (auto dest: set_takeWhileD)
    note r = checkpoints_resume [OF c(2)]
    note row = resumes_nth [OF r]
    have "\<not> ?p i" if "i \<le> cp_row c" for i
    proof -
      have "sint (?T ! i) \<le> sint (?T ! cp_row c)"
        using that row assms by (intro time_sorted_nth_mono) (auto simp: length_decode_delta_of_delta)
      then show ?thesis using row c(1) by auto
    qed
    then have "find ?p [1..<?n] = find ?p [cp_row c..<?n]"
      using r row by (intro find_upt_skip) (auto simp: resumes_def)
    then show ?thesis
      using False spec n(2) scan_from_correct [OF assms r]
      by (simp add: search_sorted_with_def Some Let_def c_def)
  qed
qed

text \<open>The index is ascending, so \<open>partition_point\<close> is called on a partitioned slice, and no row
  is further than \<open>stride\<close> from the checkpoint before it.\<close>

lemma checkpoint_loop_rows:
  assumes "0 < stride"
  shows "\<forall>c\<in>set (fst (checkpoint_loop stride row ts delta dods)). row < cp_row c"
    and "sorted_wrt (\<lambda>c d. cp_row c < cp_row d) (fst (checkpoint_loop stride row ts delta dods))"
    and "snd (checkpoint_loop stride row ts delta dods) = row + length dods"
    and "\<forall>c\<in>set (fst (checkpoint_loop stride row ts delta dods)). cp_row c mod stride = 0"
    and "\<forall>r. row < r \<and> r \<le> row + length dods \<and> r mod stride = 0 \<longrightarrow>
      r \<in> cp_row ` set (fst (checkpoint_loop stride row ts delta dods))"
proof (induction stride row ts delta dods rule: checkpoint_loop.induct)
  case (2 stride row ts delta dod dods)
  note IH = "2" [OF refl refl refl, simplified]
  let ?r = "checkpoint_loop stride (Suc row) (ts + (delta + dod)) (delta + dod) dods"
  { case 1 from IH(1) show ?case by (auto simp: Let_def intro: Suc_lessD)
  next
    case 2 from IH(1,2) show ?case by (fastforce simp: Let_def)
  next
    case 3 from IH(3) show ?case by simp
  next
    case 4 from IH(4) show ?case by (simp add: Let_def)
  next
    case 5
    show ?case
    proof (intro allI impI)
      fix r
      assume r: "row < r \<and> r \<le> row + length (dod # dods) \<and> r mod stride = 0"
      show "r \<in> cp_row ` set (fst (checkpoint_loop stride row ts delta (dod # dods)))"
      proof (cases "r = Suc row")
        case True
        then show ?thesis using r by (simp add: Let_def)
      next
        case False
        with r have "r \<in> cp_row ` set (fst ?r)" using IH(5) by auto
        then show ?thesis by (auto simp: Let_def)
      qed
    qed
  }
qed auto

lemma points_ascending:
  "sorted_wrt (\<lambda>c d. cp_row c < cp_row d) (cks_points (checkpoints col stride))"
proof (cases "dd_first_delta col")
  case (Some d)
  have "0 < max stride 1" by simp
  from checkpoint_loop_rows(1,2) [OF this, of 1 "dd_first col + d" d "dd_dods col"]
  show ?thesis by (simp add: cks_points_checkpoints [OF Some])
qed (simp add: checkpoints_def Let_def)

lemma points_partitioned:
  assumes "time_sorted (decode_delta_of_delta col)"
  shows "sorted_wrt (\<lambda>c d. sint (cp_timestamp c) \<le> sint (cp_timestamp d)) (cks_points (checkpoints col stride))"
proof (rule sorted_wrt_mono_rel [OF _ points_ascending])
  fix c d
  assume c: "c \<in> set (cks_points (checkpoints col stride))"
    and d: "d \<in> set (cks_points (checkpoints col stride))" and cd: "cp_row c < cp_row d"
  show "sint (cp_timestamp c) \<le> sint (cp_timestamp d)"
    using cd resumes_nth [OF checkpoints_resume [OF c]] resumes_nth [OF checkpoints_resume [OF d]]
      time_sorted_nth_mono [OF assms, of "cp_row c" "cp_row d"]
    by (simp add: length_decode_delta_of_delta)
qed

lemma checkpoint_before_row:
  assumes "0 < r" and "r < dod_column_len col" and "dd_first_delta col \<noteq> None"
  shows "\<exists>c\<in>set (cks_points (checkpoints col stride)). cp_row c \<le> r \<and> r < cp_row c + max stride 1"
proof -
  obtain d where d: "dd_first_delta col = Some d" using assms(3) by auto
  let ?s = "max stride 1" and ?k = "r - r mod max stride 1"
  let ?L = "checkpoint_loop ?s 1 (dd_first col + d) d (dd_dods col)"
  have P: "cks_points (checkpoints col stride) =
      \<lparr>cp_row = 1, cp_timestamp = dd_first col + d, cp_delta = d\<rparr> # fst ?L"
    by (rule cks_points_checkpoints [OF d])
  have k: "?k mod ?s = 0" "?k \<le> r" "r < ?k + ?s"
  proof -
    show "?k mod ?s = 0" by (simp only: minus_mod_eq_mult_div mod_mult_self1_is_0)
    have "r mod ?s < ?s" by (rule mod_less_divisor) simp
    then show "?k \<le> r" "r < ?k + ?s" by linarith+
  qed
  show ?thesis
  proof (cases "1 < ?k")
    case True
    then have "?k \<in> cp_row ` set (fst ?L)"
      using assms(2) d k checkpoint_loop_rows(5) [of ?s 1 "dd_dods col" "dd_first col + d" d]
      by (simp add: dod_column_len_def)
    then show ?thesis using k(2,3) unfolding P by fastforce
  next
    case False
    then have "r < 1 + ?s" using k(3) by linarith
    then show ?thesis using assms(1) unfolding P by simp
  qed
qed

lemma checkpoints_rows: "cks_rows (checkpoints col stride) = dod_column_len col"
proof (cases "dd_first_delta col")
  case (Some d)
  have "0 < max stride 1" by simp
  from checkpoint_loop_rows(3) [OF this, of 1 "dd_first col + d" d "dd_dods col"] Some
  show ?thesis by (simp add: checkpoints_def dod_column_len_def Let_def split: prod.split) (metis snd_conv)
qed (simp add: checkpoints_def dod_column_len_def Let_def)

lemma search_sorted_with_points:
  "cks_points c = cks_points c' \<Longrightarrow> search_sorted_with c col target accept = search_sorted_with c' col target accept"
  by (auto simp: search_sorted_with_def Let_def split: option.split)

text \<open>An empty column has no row, but the search compares its anchor, which is zero.\<close>

lemma empty_column_search:
  "search_sorted (checkpoints (encode_delta_of_delta [] unit) stride) (encode_delta_of_delta [] unit) 0 = Some 0 \<and>
   decode_delta (encode_delta [] unit) = [0] \<and> decode_delta_of_delta (encode_delta_of_delta [] unit) = [0]"
  by (simp add: search_sorted_def search_sorted_with_def encode_delta_of_delta_def encode_delta_def
      decode_delta_def decode_delta_of_delta_def Let_def)

subsection \<open>Properties\<close>

text \<open>
  C36: The checkpointed search of a time-ordered column returns the first row that holds the
  target and passes the filter, for every target, filter and stride, a stride of zero included.
\<close>

theorem checkpoint_search_exact:
  assumes "time_sorted (decode_delta_of_delta col)"
  shows "search_sorted_with (checkpoints col stride) col target accept =
    find (\<lambda>r. decode_delta_of_delta col ! r = target \<and> accept r) [0..<dod_column_len col]"
  using search_sorted_with_correct [OF assms] by (simp add: first_match_def length_decode_delta_of_delta)

theorem checkpoint_search_exact_witness:
  "search_sorted_with (checkpoints (encode_delta_of_delta [5, 7, 7, 12, 20] Seconds) 2) (encode_delta_of_delta [5, 7, 7, 12, 20] Seconds) 12 (\<lambda>_. True) = Some 3"
proof -
  let ?c = "encode_delta_of_delta [5, 7, 7, 12, 20] Seconds"
  have d: "decode_delta_of_delta ?c = [5, 7, 7, 12, 20]" by (rule decode_encode_delta_of_delta) simp
  have n: "dod_column_len ?c = 5" using length_decode_delta_of_delta [of ?c] d by simp
  have "search_sorted_with (checkpoints ?c 2) ?c 12 (\<lambda>_. True) =
      find (\<lambda>r. decode_delta_of_delta ?c ! r = 12 \<and> True) [0..<dod_column_len ?c]"
    by (rule checkpoint_search_exact) (simp add: d)
  then show ?thesis by (simp only: d n) (simp add: upt_rec)
qed

subsection \<open>Further facts\<close>

text \<open>
  The index is ascending in row and in time, every entry is a resumable position of the column,
  and between the start of the column and any row there is an entry less than one stride before
  it.
\<close>

lemma checkpoint_index_dense:
  assumes "time_sorted (decode_delta_of_delta col)" "dd_first_delta col \<noteq> None"
  shows "sorted_wrt (\<lambda>c d. cp_row c < cp_row d \<and> sint (cp_timestamp c) \<le> sint (cp_timestamp d)) (cks_points (checkpoints col stride)) \<and>
    (\<forall>c\<in>set (cks_points (checkpoints col stride)). cp_row c < dod_column_len col \<and>
      decode_delta_of_delta col ! cp_row c = cp_timestamp c) \<and>
    (\<forall>r. 0 < r \<and> r < dod_column_len col \<longrightarrow>
      (\<exists>c\<in>set (cks_points (checkpoints col stride)). cp_row c \<le> r \<and> r < cp_row c + max stride 1))"
  using points_ascending [of col stride] points_partitioned [OF assms(1), of stride]
    resumes_nth [OF checkpoints_resume] checkpoint_before_row [OF _ _ assms(2)]
  by (auto simp: sorted_wrt_iff_nth_less)

lemma checkpoint_index_dense_witness:
  "map cp_row (cks_points (checkpoints (encode_delta_of_delta [5, 7, 7, 12, 20] Seconds) 2)) = [1, 2, 4] \<and>
    (\<exists>c\<in>set (cks_points (checkpoints (encode_delta_of_delta [5, 7, 7, 12, 20] Seconds) 2)).
      cp_row c \<le> 3 \<and> 3 < cp_row c + max 2 1)"
proof -
  let ?c = "encode_delta_of_delta [5, 7, 7, 12, 20] Seconds"
  have d: "decode_delta_of_delta ?c = [5, 7, 7, 12, 20]" by (rule decode_encode_delta_of_delta) simp
  have n: "dod_column_len ?c = 5" using length_decode_delta_of_delta [of ?c] d by simp
  have "map cp_row (cks_points (checkpoints ?c 2)) = [1, 2, 4]" by code_simp
  moreover have "dd_first_delta ?c \<noteq> None" by (simp add: encode_delta_of_delta_def Let_def)
  ultimately show ?thesis using checkpoint_index_dense [of ?c 2] by (auto simp: d n)
qed

end
