(* ===== verification/Varint_Rle.thy ===== *)
theory Varint_Rle imports Bit_Fields begin

text \<open>
  The LEB128 varint and the run-length code of \<^verbatim>\<open>weft-physical-type/src/timestamp.rs\<close>, with the
  size estimates built on them.
\<close>

unbundle bit_operations_syntax

subsection \<open>Varints\<close>

definition uvarint_len :: "u64 \<Rightarrow> nat" where
  "uvarint_len v = (let bits = 64 - leading_zeros v in div_ceil (if bits = 0 then 1 else bits) 7)"

definition zigzag_varint_len :: "i64 \<Rightarrow> nat" where
  "zigzag_varint_len v =
    (let zz = push_bit 1 v XOR signed_drop_bit 63 v; bits = 64 - leading_zeros zz
     in div_ceil (if bits = 0 then 1 else bits) 7)"

definition zigzag_varint_bytes :: "i64 list \<Rightarrow> nat" where
  "zigzag_varint_bytes vs = sum_list (map zigzag_varint_len vs)"

function for_push_uvarint :: "u64 \<Rightarrow> u8 list" where
  "for_push_uvarint v =
    (let byte = ucast (v AND 0x7F) :: u8; rest = drop_bit 7 v
     in if rest \<noteq> 0 then (byte OR 0x80) # for_push_uvarint rest else [byte])"
  by pat_completeness auto
termination
proof (relation "measure bit_length", goal_cases)
  case (2 v byte rest)
  then show ?case
    using bit_length_drop_bit [of 7 v] bit_length_eq_0_iff [of rest] by auto
qed simp

declare for_push_uvarint.simps [simp del]

function for_read_uvarint_loop :: "u8 list \<Rightarrow> nat \<Rightarrow> nat \<Rightarrow> u64 \<Rightarrow> u64 \<times> nat" where
  "for_read_uvarint_loop bytes pos shift result =
    (let byte = byte_at bytes pos; result' = result OR push_bit shift (ucast (byte AND 0x7F))
     in if byte AND 0x80 = 0 \<or> 63 \<le> shift then (result', pos + 1)
        else for_read_uvarint_loop bytes (pos + 1) (shift + 7) result')"
  by pat_completeness auto
termination by (relation "measure (\<lambda>(bytes, pos, shift, result). 63 - shift)") auto

declare for_read_uvarint_loop.simps [simp del]

definition for_read_uvarint :: "u8 list \<Rightarrow> nat \<Rightarrow> u64 \<times> nat" where
  "for_read_uvarint bytes pos = for_read_uvarint_loop bytes pos 0 0"

lemma zigzag_varint_len_eq: "zigzag_varint_len v = uvarint_len (zigzag v)"
  by (simp add: zigzag_varint_len_def uvarint_len_def zigzag_def Let_def)

lemma for_push_uvarint_nonempty [simp]: "for_push_uvarint v \<noteq> []"
  by (subst for_push_uvarint.simps) (simp add: Let_def)

lemma uvarint_len_bit_length: "uvarint_len v = div_ceil (max 1 (bit_length v)) 7"
proof -
  have "uvarint_len v = div_ceil (if bit_length v = 0 then 1 else bit_length v) 7"
    by (simp add: uvarint_len_def bit_length_def Let_def)
  also have "(if bit_length v = 0 then 1 else bit_length v) = max 1 (bit_length v)" by simp
  finally show ?thesis .
qed

lemma length_for_push_uvarint [simp]: "length (for_push_uvarint v) = uvarint_len v"
proof (induction v rule: for_push_uvarint.induct)
  case (1 v)
  note step = for_push_uvarint.simps [of v]
  show ?case
  proof (cases "drop_bit 7 v = 0")
    case True
    then have "bit_length v - 7 = 0"
      using bit_length_drop_bit [of 7 v] bit_length_eq_0_iff [of "drop_bit 7 v"] by simp
    then have "max 1 (bit_length v) \<in> {1..7}" by simp
    then have "div_ceil (max 1 (bit_length v)) 7 = 1" by (auto simp: div_ceil_def le_less)
    with True step show ?thesis by (simp add: uvarint_len_bit_length Let_def)
  next
    case False
    then have "0 < bit_length (drop_bit 7 v)" using bit_length_eq_0_iff by blast
    then have b: "max 1 (bit_length v) = max 1 (bit_length (drop_bit 7 v)) + 7"
      using bit_length_drop_bit [of 7 v] by auto
    have "div_ceil (m + 7) 7 = Suc (div_ceil m 7)" for m by (simp add: div_ceil_def div_add_self2)
    then have "uvarint_len v = Suc (uvarint_len (drop_bit 7 v))"
      by (simp only: uvarint_len_bit_length b)
    with False step "1.IH" show ?thesis by (simp add: Let_def)
  qed
qed

lemma and_0x7F: "(v :: 'a::len word) AND 0x7F = take_bit 7 v"
  by (simp add: take_bit_eq_mask mask_eq_exp_minus_1)

lemma byte_0x80: "(0x80 :: u8) = push_bit 7 1"
  by simp

lemma varint_byte:
  fixes v :: u64
  defines "byte \<equiv> ucast (v AND 0x7F) :: u8"
  shows "ucast (byte AND 0x7F) = v AND 0x7F" and "ucast ((byte OR 0x80) AND 0x7F) = v AND 0x7F"
    and "byte AND 0x80 = 0" and "(byte OR 0x80) AND 0x80 \<noteq> 0"
proof -
  show "ucast (byte AND 0x7F) = v AND 0x7F" "ucast ((byte OR 0x80) AND 0x7F) = v AND 0x7F"
    unfolding byte_def and_0x7F byte_0x80
    by (rule bit_word_eqI; auto simp: bit_simps bit_push_bit_iff bit_1_iff simp del: push_bit_of_1)+
  show "byte AND 0x80 = 0"
    unfolding byte_def and_0x7F byte_0x80
    by (rule bit_word_eqI) (auto simp: bit_simps bit_1_iff simp del: push_bit_of_1)
  have "bit ((byte OR 0x80) AND 0x80) 7"
    unfolding byte_0x80 by (simp add: bit_and_iff bit_or_iff bit_push_bit_iff del: push_bit_of_1)
  then show "(byte OR 0x80) AND 0x80 \<noteq> 0" by (metis bit_0_eq bot_apply bot_bool_def)
qed

lemma varint_split:
  fixes v :: u64
  shows "push_bit shift (v AND 0x7F) OR push_bit (shift + 7) (drop_bit 7 v) = push_bit shift v"
  unfolding and_0x7F
proof (rule bit_word_eqI)
  fix n
  have "shift + 7 \<le> n \<Longrightarrow> 7 + (n - (shift + 7)) = n - shift" by simp
  then show "bit (push_bit shift (take_bit 7 v) OR push_bit (shift + 7) (drop_bit 7 v)) n = bit (push_bit shift v) n"
    by (cases "shift + 7 \<le> n") (auto simp: bit_simps)
qed

lemma for_read_uvarint_loop_push:
  assumes "bit_length v + shift \<le> 64"
  shows "for_read_uvarint_loop (pre @ for_push_uvarint v @ suf) (length pre) shift result =
    (result OR push_bit shift v, length pre + length (for_push_uvarint v))"
  using assms
proof (induction v arbitrary: pre shift result rule: for_push_uvarint.induct)
  case (1 v)
  let ?byte = "ucast (v AND 0x7F) :: u8" and ?rest = "drop_bit 7 v"
  have byte: "ucast (?byte AND 0x7F) = v AND 0x7F" "ucast ((?byte OR 0x80) AND 0x7F) = v AND 0x7F"
    and flag: "?byte AND 0x80 = 0" "(?byte OR 0x80) AND 0x80 \<noteq> 0"
    by (rule varint_byte)+
  show ?case
  proof (cases "?rest = 0")
    case True
    have "bit_length v \<le> 7"
      using True bit_length_drop_bit [of 7 v] bit_length_eq_0_iff [of ?rest] by simp
    then have "v AND 0x7F = v"
      using take_bit_bit_length [of v 7] by (simp add: and_0x7F)
    moreover have "for_push_uvarint v = [?byte]"
      using True by (subst for_push_uvarint.simps) (simp add: Let_def)
    moreover have "for_read_uvarint_loop (pre @ [?byte] @ suf) (length pre) shift result =
        (result OR push_bit shift (v AND 0x7F), length pre + 1)"
      by (subst for_read_uvarint_loop.simps) (simp add: Let_def byte flag)
    ultimately show ?thesis by (metis length_Cons list.size(3) One_nat_def)
  next
    case False
    have "bit_length v = bit_length ?rest + 7" "0 < bit_length ?rest"
      using False bit_length_drop_bit [of 7 v] bit_length_eq_0_iff [of ?rest] by auto
    then have fit: "bit_length ?rest + (shift + 7) \<le> 64" "\<not> 63 \<le> shift" using "1.prems" by auto
    have "for_read_uvarint_loop ((pre @ [?byte OR 0x80]) @ for_push_uvarint ?rest @ suf)
        (length (pre @ [?byte OR 0x80])) (shift + 7) (result OR push_bit shift (v AND 0x7F)) =
      ((result OR push_bit shift (v AND 0x7F)) OR push_bit (shift + 7) ?rest,
       length (pre @ [?byte OR 0x80]) + length (for_push_uvarint ?rest))"
      using False fit(1) by (intro "1.IH") auto
    moreover have "for_push_uvarint v = (?byte OR 0x80) # for_push_uvarint ?rest"
      using False by (subst for_push_uvarint.simps) (simp add: Let_def)
    ultimately show ?thesis
      using flag(2) fit(2) varint_split [of shift v]
      by (subst for_read_uvarint_loop.simps) (simp add: Let_def byte or.assoc)
  qed
qed

lemma for_read_push_uvarint:
  "for_read_uvarint (pre @ for_push_uvarint v @ suf) (length pre) = (v, length pre + uvarint_len v)"
  using bit_length_le [of v] by (simp add: for_read_uvarint_def for_read_uvarint_loop_push)

lemma for_read_uvarint_advances: "pos < snd (for_read_uvarint bytes pos)"
proof -
  have "pos < snd (for_read_uvarint_loop bytes pos shift result)" for shift result
    by (induction bytes pos shift result rule: for_read_uvarint_loop.induct)
       (subst for_read_uvarint_loop.simps, fastforce simp: Let_def)
  then show ?thesis by (simp add: for_read_uvarint_def)
qed

subsection \<open>Run-length coding\<close>

text \<open>One iteration of \<open>rle_encode\<close>: \<open>runs.last_mut()\<close> is extended or a new run is pushed.\<close>

definition rle_push :: "(i64 \<times> nat) list \<Rightarrow> i64 \<Rightarrow> (i64 \<times> nat) list" where
  "rle_push runs v =
    (if runs \<noteq> [] \<and> fst (last runs) = v then butlast runs @ [(v, snd (last runs) + 1)]
     else runs @ [(v, 1)])"

definition rle_encode :: "i64 list \<Rightarrow> (i64 \<times> nat) list" where
  "rle_encode vs = foldl rle_push [] vs"

fun rle_decode :: "(i64 \<times> nat) list \<Rightarrow> i64 list" where
  "rle_decode [] = []"
| "rle_decode ((v, count) # runs) = replicate count v @ rle_decode runs"

definition rle_varint_bytes :: "(i64 \<times> nat) list \<Rightarrow> nat" where
  "rle_varint_bytes runs =
    sum_list (map (\<lambda>(v, count). zigzag_varint_len v + uvarint_len (of_nat count)) runs)"

text \<open>Runs as the encoder leaves them: none is empty and neighbours differ.\<close>

fun canonical_runs :: "(i64 \<times> nat) list \<Rightarrow> bool" where
  "canonical_runs [] = True"
| "canonical_runs [(v, c)] = (0 < c)"
| "canonical_runs ((v, c) # (w, d) # rs) = (0 < c \<and> v \<noteq> w \<and> canonical_runs ((w, d) # rs))"

lemma rle_decode_append [simp]: "rle_decode (rs @ ss) = rle_decode rs @ rle_decode ss"
  by (induction rs rule: rle_decode.induct) auto

lemma rle_decode_push: "rle_decode (rle_push rs v) = rle_decode rs @ [v]"
proof (cases "rs \<noteq> [] \<and> fst (last rs) = v")
  case True
  then obtain qs c where "rs = qs @ [(v, c)]"
    by (metis append_butlast_last_id prod.collapse)
  then show ?thesis by (simp add: rle_push_def replicate_append_same)
qed (auto simp: rle_push_def)

lemma rle_decode_foldl: "rle_decode (foldl rle_push rs vs) = rle_decode rs @ vs"
  by (induction vs arbitrary: rs) (simp_all add: rle_decode_push)

lemma rle_decode_encode: "rle_decode (rle_encode vs) = vs"
  by (simp add: rle_encode_def rle_decode_foldl)

lemma canonical_runs_snoc:
  "canonical_runs (rs @ [(v, c)]) \<longleftrightarrow>
    canonical_runs rs \<and> 0 < c \<and> (rs \<noteq> [] \<longrightarrow> fst (last rs) \<noteq> v)"
  by (induction rs rule: canonical_runs.induct) auto

lemma canonical_runs_push:
  assumes "canonical_runs rs"
  shows "canonical_runs (rle_push rs v)"
proof (cases "rs \<noteq> [] \<and> fst (last rs) = v")
  case True
  then obtain qs c where "rs = qs @ [(v, c)]"
    by (metis append_butlast_last_id prod.collapse)
  with assms show ?thesis by (simp add: rle_push_def canonical_runs_snoc)
qed (use assms in \<open>auto simp: rle_push_def canonical_runs_snoc\<close>)

lemma canonical_rle_encode: "canonical_runs (rle_encode vs)"
proof -
  have "canonical_runs rs \<Longrightarrow> canonical_runs (foldl rle_push rs vs)" for rs
    by (induction vs arbitrary: rs) (simp_all add: canonical_runs_push)
  then show ?thesis by (simp add: rle_encode_def)
qed

lemma foldl_rle_push_replicate:
  "foldl rle_push (rs @ [(v, c)]) (replicate n v) = rs @ [(v, c + n)]"
  by (induction n arbitrary: c) (simp_all add: rle_push_def)

lemma rle_encode_decode: "canonical_runs rs \<Longrightarrow> rle_encode (rle_decode rs) = rs"
proof (induction rs rule: rev_induct)
  case (snoc r rs)
  obtain v c where r: "r = (v, c)" by (cases r)
  with snoc.prems have c: "canonical_runs rs" "0 < c" "rs \<noteq> [] \<longrightarrow> fst (last rs) \<noteq> v"
    by (simp_all add: canonical_runs_snoc)
  obtain n where n: "c = Suc n" using c(2) by (cases c) auto
  have "rle_encode (rle_decode (rs @ [r])) = foldl rle_push (rle_push rs v) (replicate n v)"
    using snoc.IH [OF c(1)] by (simp add: rle_encode_def r n)
  also have "\<dots> = rs @ [r]"
    using c(3) foldl_rle_push_replicate [of rs v 1 n] by (auto simp: rle_push_def r n)
  finally show ?case .
qed (simp add: rle_encode_def)

lemma rle_counts_le: "(v, c) \<in> set rs \<Longrightarrow> c \<le> length (rle_decode rs)"
  by (induction rs rule: rle_decode.induct) auto

subsection \<open>Properties\<close>

subsection \<open>Further facts\<close>

text \<open>
  Run-length encoding expands back to the values, always yields canonical runs (no empty run, no
  two neighbouring runs of one value), and is the only canonical form: encoding what canonical
  runs expand to gives them back.
\<close>

lemma run_length_bijection:
  shows "rle_decode (rle_encode vs) = vs \<and> canonical_runs (rle_encode vs) \<and>
    (canonical_runs rs \<longrightarrow> rle_encode (rle_decode rs) = rs)"
  by (simp add: rle_decode_encode canonical_rle_encode rle_encode_decode)

lemma run_length_bijection_witness:
  "rle_encode (rle_decode [(7, 3), (- 2, 1), (7, 2)]) = [(7, 3), (- 2, 1), (7, 2)]"
  using run_length_bijection [of "[]" "[(7, 3), (- 2, 1), (7, 2)]"] by simp

end
