(* ===== verification/Block_Format.thy ===== *)
theory Block_Format imports Varint_Rle begin

text \<open>
  The contract of the per-block formats of \<^verbatim>\<open>weft-physical-type/src/timestamp.rs\<close>: a stream is
  a concatenation of blocks, each a header (parsed by \<open>next_block\<close> into its length, the length of
  the data after it and a state) and its data. The blocked, frame-of-reference, decimal-exponent
  and bit-sliced codecs are the instances. What follows from the contract is proved here once:
  decoding a sub-range is slicing the whole decode, the shared gather walk returns and maps every
  index through the whole decode, for any bytes whatsoever, and an encoded stream decodes back.
\<close>

subsection \<open>The gather walk\<close>

text \<open>
  \<open>sort_unstable_by_key\<close> is the stable \<open>sort_key\<close>; \<open>gather_loop_correct\<close> below holds for every
  permutation in key order. The walk is a loop whose exit depends on the requested indices, so it
  is a partial function and that it returns is a theorem.
\<close>

definition gather_order :: "nat \<Rightarrow> nat list \<Rightarrow> nat list" where
  "gather_order count indices =
    sort_key (\<lambda>p. indices ! p) (filter (\<lambda>p. indices ! p < count) [0..<length indices])"

fun store_run :: "'a option list \<Rightarrow> nat list \<Rightarrow> 'a list \<Rightarrow> 'a option list" where
  "store_run out (p # run) (v # vs) = store_run (out[p := Some v]) run vs"
| "store_run out _ _ = out"

partial_function (option) gather_loop ::
  "u8 list \<Rightarrow> nat \<Rightarrow> nat \<Rightarrow> nat list \<Rightarrow> (u8 list \<Rightarrow> nat \<Rightarrow> nat \<Rightarrow> nat \<times> nat \<times> 's) \<Rightarrow>
   ('s \<Rightarrow> u8 list \<Rightarrow> nat \<Rightarrow> nat list \<Rightarrow> i64 list) \<Rightarrow> nat list \<Rightarrow> i64 option list \<Rightarrow> nat \<Rightarrow> nat \<Rightarrow> nat \<Rightarrow>
   i64 option list option" where
  "gather_loop bytes block count indices next_block decode order out nxt pos idx =
    (if nxt < length order
     then let block_len = min block (count - idx);
              block_end = idx + block_len;
              header = next_block bytes pos block_len;
              header_len = fst header; data_len = fst (snd header); state = snd (snd header);
              pos1 = pos + header_len;
              run_end = nxt + length (takeWhile (\<lambda>p. indices ! p < block_end) (drop nxt order));
              run = take (run_end - nxt) (drop nxt order);
              lanes = map (\<lambda>p. indices ! p - idx) run;
              out' = (if nxt < run_end
                      then store_run out run (decode state (get_slice bytes pos1 data_len) block_len lanes)
                      else out)
          in gather_loop bytes block count indices next_block decode order out' run_end
               (pos1 + data_len) block_end
     else Some out)"

definition gather_walk ::
  "u8 list \<Rightarrow> nat \<Rightarrow> nat \<Rightarrow> nat list \<Rightarrow> (u8 list \<Rightarrow> nat \<Rightarrow> nat \<Rightarrow> nat \<times> nat \<times> 's) \<Rightarrow>
   ('s \<Rightarrow> u8 list \<Rightarrow> nat \<Rightarrow> nat list \<Rightarrow> i64 list) \<Rightarrow> i64 option list option" where
  "gather_walk bytes block0 count indices next_block decode =
    gather_loop bytes (max block0 1) count indices next_block decode (gather_order count indices)
      (replicate (length indices) None) 0 0 0"

definition gather_whole_tile_threshold :: nat where
  "gather_whole_tile_threshold = 10"

lemma length_store_run [simp]: "length (store_run out run vs) = length out"
  by (induction out run vs rule: store_run.induct) auto

lemma nth_store_run:
  assumes "distinct run" "\<forall>p\<in>set run. p < length out" "j < length out"
  shows "store_run out run (map f run) ! j = (if j \<in> set run then Some (f j) else out ! j)"
  using assms
proof (induction run arbitrary: out)
  case (Cons p run)
  then show ?case by (auto simp: nth_list_update)
qed simp

subsection \<open>The contract\<close>

text \<open>\<open>parse\<close> and \<open>whole\<close> read one block; the two loops below are the reference the concrete loops of
  each codec are shown to satisfy.\<close>

locale block_format =
  fixes parse :: "u8 list \<Rightarrow> nat \<Rightarrow> nat \<Rightarrow> nat \<times> nat \<times> 's"
    and whole :: "'s \<Rightarrow> u8 list \<Rightarrow> nat \<Rightarrow> i64 list"
    and part :: "'s \<Rightarrow> u8 list \<Rightarrow> nat \<Rightarrow> nat \<Rightarrow> nat \<Rightarrow> i64 list"
    and decode_loop :: "u8 list \<Rightarrow> nat \<Rightarrow> nat \<Rightarrow> nat \<Rightarrow> i64 list"
    and range_loop :: "u8 list \<Rightarrow> nat \<Rightarrow> nat \<Rightarrow> nat \<Rightarrow> nat \<Rightarrow> nat \<Rightarrow> nat \<Rightarrow> i64 list"
  assumes length_whole: "length (whole s data n) = n"
    and part: "lo \<le> hi \<Longrightarrow> hi \<le> n \<Longrightarrow> part s data n lo hi = drop lo (take hi (whole s data n))"
    and decode_loop: "parse bytes pos (min remaining block) = (h, d, s) \<Longrightarrow> 0 < remaining \<Longrightarrow> 0 < block \<Longrightarrow>
      decode_loop bytes block pos remaining =
        whole s (get_slice bytes (pos + h) d) (min remaining block) @
        decode_loop bytes block (pos + h + d) (remaining - min remaining block)"
    and decode_loop_end: "decode_loop bytes block pos 0 = []"
    and range_loop: "parse bytes pos (min block (count - idx)) = (h, d, s) \<Longrightarrow> 0 < block \<Longrightarrow>
      idx < min (start + len) count \<Longrightarrow>
      range_loop bytes block count start len pos idx =
        (if start < idx + min block (count - idx)
         then part s (get_slice bytes (pos + h) d) (min block (count - idx)) (start - idx)
                (min (min (start + len) count - idx) (min block (count - idx)))
         else []) @
        range_loop bytes block count start len (pos + h + d) (idx + min block (count - idx))"
    and range_loop_end: "\<not> idx < min (start + len) count \<Longrightarrow>
      range_loop bytes block count start len pos idx = []"
begin

lemma length_decode_loop: "0 < block \<Longrightarrow> length (decode_loop bytes block pos remaining) = remaining"
proof (induction remaining arbitrary: pos rule: less_induct)
  case (less remaining)
  obtain h d s where "parse bytes pos (min remaining block) = (h, d, s)" by (metis prod.exhaust)
  note step = decode_loop [OF this]
  show ?case
  proof (cases "remaining = 0")
    case False
    then have "length (decode_loop bytes block (pos + h + d) (remaining - min remaining block)) =
        remaining - min remaining block"
      using less.prems by (intro less.IH) auto
    with False less.prems step show ?thesis by (simp add: length_whole)
  qed (simp add: decode_loop_end)
qed

text \<open>Decoding a sub-range is slicing the whole decode.\<close>

lemma drop_take_split:
  assumes "length xs = n" "n \<le> stop"
  shows "drop lo (take stop (xs @ ys)) = drop lo xs @ drop (lo - n) (take (stop - n) ys)"
  using assms by simp

lemma range_loop_slice:
  assumes "0 < block" and "idx \<le> count"
  shows "range_loop bytes block count start len pos idx =
    drop (start - idx) (take (min (start + len) count - idx) (decode_loop bytes block pos (count - idx)))"
  using assms(2)
proof (induction "count - idx" arbitrary: idx pos rule: less_induct)
  case less
  let ?stop = "min (start + len) count" and ?n = "min block (count - idx)"
  show ?case
  proof (cases "idx < ?stop")
    case True
    obtain h d s where p: "parse bytes pos ?n = (h, d, s)" by (metis prod.exhaust)
    let ?W = "whole s (get_slice bytes (pos + h) d) ?n"
    let ?R = "decode_loop bytes block (pos + h + d) (count - (idx + ?n))"
    have smaller: "count - (idx + ?n) < count - idx" "idx + ?n \<le> count"
      using True assms(1) by auto
    have D: "decode_loop bytes block pos (count - idx) = ?W @ ?R"
      using decode_loop [of bytes pos "count - idx" block h d s] p True assms(1)
      by (simp add: min.commute)
    have IH: "range_loop bytes block count start len (pos + h + d) (idx + ?n) =
        drop (start - (idx + ?n)) (take (?stop - (idx + ?n)) ?R)"
      by (rule less.hyps [OF smaller])
    have "part s (get_slice bytes (pos + h) d) ?n (start - idx) (min (?stop - idx) ?n) =
        drop (start - idx) (take (?stop - idx) ?W)" if "start < idx + ?n"
      using that True by (subst part) (auto simp: length_whole min_def)
    then show ?thesis
      unfolding range_loop [OF p assms(1) True] IH D
      by (auto simp: length_whole)
  next
    case False
    then have "min (start + len) count - idx = 0" by linarith
    with False show ?thesis by (simp only: range_loop_end [OF False] take_0 drop_Nil)
  qed
qed

lemma decode_range_slice:
  assumes "0 < block"
  shows "(if min (start + len) count \<le> start then [] else range_loop bytes block count start len 0 0) =
    take len (drop start (decode_loop bytes block 0 count))"
proof (cases "min (start + len) count \<le> start")
  case True
  then have "len = 0 \<or> count \<le> start" by linarith
  with True show ?thesis by (auto simp: length_decode_loop assms)
next
  case False
  with range_loop_slice [OF assms, of 0 count bytes start len 0] show ?thesis
    by (simp add: drop_take) (simp add: min_def length_decode_loop assms)
qed

end

subsection \<open>Gathering\<close>

locale gather_format = block_format +
  fixes pick :: "'a \<Rightarrow> u8 list \<Rightarrow> nat \<Rightarrow> nat list \<Rightarrow> i64 list"
  assumes pick: "\<forall>l\<in>set lanes. l < n \<Longrightarrow> pick s data n lanes = map (\<lambda>l. whole s data n ! l) lanes"
begin

lemma gather_loop_correct:
  assumes "0 < block" and "distinct order" and "sorted_wrt (\<lambda>p q. indices ! p \<le> indices ! q) order"
    and "\<forall>p\<in>set order. p < length indices \<and> indices ! p < count"
    and "idx \<le> count" and "\<forall>p\<in>set (drop nxt order). idx \<le> indices ! p"
    and "length out = length indices"
  shows "\<exists>res. gather_loop bytes block count indices parse pick order out nxt pos idx = Some res \<and>
    length res = length indices \<and>
    (\<forall>j<length indices. res ! j =
      (if j \<in> set (drop nxt order) then Some (decode_loop bytes block pos (count - idx) ! (indices ! j - idx))
       else out ! j))"
  using assms(5-)
proof (induction "count - idx" arbitrary: idx pos nxt out rule: less_induct)
  case less
  show ?case
  proof (cases "nxt < length order")
    case False
    then show ?thesis using less.prems by (subst gather_loop.simps) simp
  next
    case True
    let ?n = "min block (count - idx)"
    obtain h d s where p: "parse bytes pos ?n = (h, d, s)" by (metis prod.exhaust)
    let ?W = "whole s (get_slice bytes (pos + h) d) ?n"
    let ?P = "\<lambda>p. indices ! p < idx + ?n"
    let ?run = "takeWhile ?P (drop nxt order)" and ?rest = "dropWhile ?P (drop nxt order)"
    define out' where "out' = (if ?run \<noteq> []
      then store_run out ?run (pick s (get_slice bytes (pos + h) d) ?n (map (\<lambda>p. indices ! p - idx) ?run))
      else out)"
    have idx: "idx < count"
    proof -
      have "order ! nxt \<in> set (drop nxt order)"
        using True by (metis Cons_nth_drop_Suc list.set_intros(1))
      then show ?thesis using less.prems(2) assms(4) by (metis in_set_dropD le_less_trans)
    qed
    then have n: "0 < ?n" using assms(1) by simp
    have D: "decode_loop bytes block pos (count - idx) = ?W @ decode_loop bytes block (pos + h + d) (count - (idx + ?n))"
      using decode_loop [of bytes pos "count - idx" block h d s] p idx assms(1)
      by (simp add: min.commute)
    have rest: "drop (nxt + length ?run) order = ?rest"
      by (metis add.commute drop_drop dropWhile_eq_drop)
    have runrest: "set (drop nxt order) = set ?run \<union> set ?rest"
      by (metis set_append takeWhile_dropWhile_id)
    have srt: "sorted_wrt (\<lambda>p q. indices ! p \<le> indices ! q) (drop nxt order)"
      and dist: "distinct (drop nxt order)"
      using assms(2,3) by (simp_all add: sorted_wrt_drop)
    have disj: "set ?run \<inter> set ?rest = {}"
      using dist by (metis distinct_append takeWhile_dropWhile_id)
    have beyond: "idx + ?n \<le> indices ! p" if "p \<in> set ?rest" for p
    proof -
      note member = that
      obtain q qs where qs: "?rest = q # qs" using member by (metis empty_iff list.set(1) neq_Nil_conv)
      then have "\<not> ?P q" by (metis dropWhile_eq_Cons_conv)
      moreover have "sorted_wrt (\<lambda>p q. indices ! p \<le> indices ! q) ?rest"
        using sorted_wrt_drop [OF assms(3)] unfolding rest [symmetric] .
      ultimately show ?thesis using member qs by auto
    qed
    have inrun: "p \<in> set (drop nxt order)" "p \<in> set order" "idx \<le> indices ! p" "indices ! p - idx < ?n"
      if "p \<in> set ?run" for p
      using that less.prems(2) n set_takeWhileD [OF that] by (auto dest: in_set_dropD set_takeWhileD)
    have out'_nth: "out' ! j = (if j \<in> set ?run then Some (?W ! (indices ! j - idx)) else out ! j)"
      if "j < length indices" for j
    proof -
      have "pick s (get_slice bytes (pos + h) d) ?n (map (\<lambda>p. indices ! p - idx) ?run) =
          map (\<lambda>p. ?W ! (indices ! p - idx)) ?run"
        using inrun by (subst pick) auto
      then show ?thesis
        using that dist less.prems(3) inrun(2) assms(4)
        by (auto simp: out'_def nth_store_run distinct_takeWhile)
    qed
    have len': "length out' = length indices"
      using less.prems(3) by (simp add: out'_def)
    have unfold: "gather_loop bytes block count indices parse pick order out nxt pos idx =
        gather_loop bytes block count indices parse pick order out' (nxt + length ?run) (pos + h + d) (idx + ?n)"
      using True p by (subst gather_loop.simps) (simp add: Let_def out'_def takeWhile_eq_take [symmetric])
    have "\<exists>res. gather_loop bytes block count indices parse pick order out' (nxt + length ?run) (pos + h + d) (idx + ?n) = Some res \<and>
      length res = length indices \<and> (\<forall>j<length indices. res ! j =
      (if j \<in> set (drop (nxt + length ?run) order)
       then Some (decode_loop bytes block (pos + h + d) (count - (idx + ?n)) ! (indices ! j - (idx + ?n))) else out' ! j))"
      using n idx len' beyond by (intro less.hyps) (auto simp: rest)
    then obtain res where res: "gather_loop bytes block count indices parse pick order out nxt pos idx = Some res"
      "length res = length indices" "\<And>j. j < length indices \<Longrightarrow> res ! j =
        (if j \<in> set ?rest
         then Some (decode_loop bytes block (pos + h + d) (count - (idx + ?n)) ! (indices ! j - (idx + ?n))) else out' ! j)"
      unfolding unfold rest by blast
    have "res ! j = (if j \<in> set (drop nxt order)
        then Some (decode_loop bytes block pos (count - idx) ! (indices ! j - idx)) else out ! j)"
      if "j < length indices" for j
      using that disj inrun [of j] beyond [of j]
      by (auto simp: res(3) out'_nth runrest D nth_append length_whole)
    with res(1,2) show ?thesis by blast
  qed
qed

lemma gather_walk_correct:
  assumes "0 < block"
  shows "gather_walk bytes block count indices parse pick =
    Some (map (\<lambda>i. if i < count then Some (decode_loop bytes block 0 count ! i) else None) indices)"
proof -
  let ?order = "gather_order count indices"
  have order: "set ?order = {p. p < length indices \<and> indices ! p < count}" "distinct ?order"
    by (auto simp: gather_order_def)
  have "sorted (map (\<lambda>p. indices ! p) ?order)" by (simp add: gather_order_def)
  then have srt: "sorted_wrt (\<lambda>p q. indices ! p \<le> indices ! q) ?order" by (simp add: sorted_wrt_map)
  obtain res where res: "gather_walk bytes block count indices parse pick = Some res"
    "length res = length indices" "\<forall>j<length indices. res ! j =
      (if j \<in> set ?order then Some (decode_loop bytes block 0 count ! (indices ! j)) else None)"
    using gather_loop_correct [OF assms order(2) srt, of count 0 0 "replicate (length indices) None" bytes 0] assms order(1)
    unfolding gather_walk_def max_absorb1 [of 1 block, OF Suc_leI [OF assms, folded One_nat_def]]
    by (auto cong: conj_cong)
  have "res = map (\<lambda>i. if i < count then Some (decode_loop bytes block 0 count ! i) else None) indices"
    by (rule nth_equalityI) (use res(2,3) order(1) in auto)
  with res(1) show ?thesis by simp
qed

end

subsection \<open>Encoding\<close>

locale block_codec = block_format +
  fixes enc :: "i64 list \<Rightarrow> u8 list"
  assumes enc: "chunk \<noteq> [] \<Longrightarrow>
      \<exists>h d s. parse (pre @ enc chunk @ suf) (length pre) (length chunk) = (h, d, s) \<and>
        h + d = length (enc chunk) \<and>
        whole s (get_slice (pre @ enc chunk @ suf) (length pre + h) d) (length chunk) = chunk"
begin

lemma decode_loop_encoded:
  assumes "0 < block"
  shows "decode_loop (pre @ concat (map enc (chunks block vs)) @ suf) block (length pre) (length vs) = vs"
proof (induction "length vs" arbitrary: vs pre rule: less_induct)
  case less
  show ?case
  proof (cases "vs = []")
    case False
    let ?c = "take block vs" and ?vs = "drop block vs"
    have chunks: "chunks block vs = ?c # chunks block ?vs"
      using False assms by (subst chunks.simps) simp
    let ?bytes = "pre @ enc ?c @ concat (map enc (chunks block ?vs)) @ suf"
    have c: "?c \<noteq> []" "length ?c = min (length vs) block" using False assms by (auto simp: min.commute)
    obtain h d s where e: "parse ?bytes (length pre) (length ?c) = (h, d, s)" "h + d = length (enc ?c)"
      "whole s (get_slice ?bytes (length pre + h) d) (length ?c) = ?c"
      using enc [OF c(1)] by blast
    have "decode_loop ((pre @ enc ?c) @ concat (map enc (chunks block ?vs)) @ suf) block (length (pre @ enc ?c)) (length ?vs) = ?vs"
      using False assms by (intro less) simp
    moreover have "decode_loop ?bytes block (length pre) (length vs) =
        ?c @ decode_loop ?bytes block (length pre + h + d) (length vs - min (length vs) block)"
      using decode_loop [of ?bytes "length pre" "length vs" block h d s] e c(2) False assms by simp
    moreover have "length vs - min (length vs) block = length ?vs" by simp
    moreover have "length pre + h + d = length (pre @ enc ?c)" using e(2) by simp
    ultimately show ?thesis
      unfolding chunks by simp
  qed (simp add: decode_loop_end)
qed

end

end
