(* ===== verification/Bitpack.thy ===== *)
theory Bitpack imports Block_Format begin

text \<open>
  Fixed-width bit-packing and its per-block adaptive form (\<open>bitpack_*\<close> and \<open>blocked_bitpack_*\<close> of
  \<^verbatim>\<open>weft-physical-type/src/timestamp.rs\<close>). The blocked form is an instance of the block contract.
\<close>

subsection \<open>One width for the whole stream\<close>

text \<open>\<open>max().unwrap_or(0)\<close> of the bit lengths of a stream of codes.\<close>

fun max_bit_length :: "u64 list \<Rightarrow> nat" where
  "max_bit_length [] = 0"
| "max_bit_length (z # zs) = max (64 - leading_zeros z) (max_bit_length zs)"

definition bitpack_width :: "i64 list \<Rightarrow> nat" where
  "bitpack_width vs = max_bit_length (map zigzag vs)"

definition bitpack_bytes :: "i64 list \<Rightarrow> nat" where
  "bitpack_bytes vs = (let width = bitpack_width vs in 1 + div_ceil (length vs * width) 8)"

definition bitpack_encode :: "i64 list \<Rightarrow> nat \<times> u8 list" where
  "bitpack_encode vs =
    (let width = bitpack_width vs
     in if width = 0 then (0, [])
        else (width, write_fields 0 width (map zigzag vs) (replicate (div_ceil (length vs * width) 8) 0)))"

definition bitpack_decode_at :: "nat \<Rightarrow> u8 list \<Rightarrow> nat \<Rightarrow> i64" where
  "bitpack_decode_at width bytes index =
    (if width = 0 then 0 else unzigzag (read_bits bytes (index * width) width))"

definition bitpack_decode :: "nat \<Rightarrow> u8 list \<Rightarrow> nat \<Rightarrow> i64 list" where
  "bitpack_decode width bytes count =
    (if width = 0 then replicate count 0
     else map (\<lambda>i. unzigzag (read_bits bytes (i * width) width)) [0..<count])"

lemma max_bit_length_ge: "z \<in> set zs \<Longrightarrow> bit_length z \<le> max_bit_length zs"
  by (induction zs) (auto simp: bit_length_def)

lemma max_bit_length_le: "max_bit_length zs \<le> 64"
  by (induction zs) auto

lemma max_bit_length_eq_0: "max_bit_length zs = 0 \<longleftrightarrow> (\<forall>z\<in>set zs. z = 0)"
proof (induction zs)
  case (Cons z zs)
  have "64 - leading_zeros z = 0 \<longleftrightarrow> z = 0"
    using bit_length_eq_0_iff [of z] by (simp add: bit_length_def)
  with Cons show ?case by (simp del: diff_is_0_eq)
qed simp

lemma max_bit_length_attained: "zs \<noteq> [] \<Longrightarrow> \<exists>z\<in>set zs. max_bit_length zs = bit_length z"
proof (induction zs)
  case (Cons z zs)
  then show ?case by (cases "zs = []") (auto simp: max_def bit_length_def)
qed simp

lemma bitpack_width_le: "bitpack_width vs \<le> 64"
  by (simp add: bitpack_width_def max_bit_length_le)

lemma length_bitpack_decode [simp]: "length (bitpack_decode w bytes n) = n"
  by (simp add: bitpack_decode_def)

lemma bitpack_decode_nth: "i < n \<Longrightarrow> bitpack_decode w bytes n ! i = bitpack_decode_at w bytes i"
  by (simp add: bitpack_decode_def bitpack_decode_at_def)

lemma fst_bitpack_encode: "fst (bitpack_encode vs) = bitpack_width vs"
  by (simp add: bitpack_encode_def Let_def)

lemma length_bitpack_encode: "length (snd (bitpack_encode vs)) = div_ceil (length vs * bitpack_width vs) 8"
  by (simp add: bitpack_encode_def Let_def)

lemma snd_bitpack_encode: "bitpack_width vs \<noteq> 0 \<Longrightarrow> snd (bitpack_encode vs) = pack_fields (bitpack_width vs) (map zigzag vs)"
  by (simp add: bitpack_encode_def pack_fields_def Let_def)

lemma bitpack_decode_encode: "bitpack_decode (bitpack_width vs) (snd (bitpack_encode vs)) (length vs) = vs"
proof (cases "bitpack_width vs = 0")
  case True
  then have "\<forall>v\<in>set vs. v = 0" by (simp add: bitpack_width_def max_bit_length_eq_0)
  with True show ?thesis by (simp add: bitpack_decode_def) (metis replicate_length_same)
next
  case False
  let ?w = "bitpack_width vs"
  have "map (\<lambda>k. read_bits (pack_fields ?w (map zigzag vs)) (k * ?w) ?w) [0..<length (map zigzag vs)] = map zigzag vs"
    using max_bit_length_ge [of _ "map zigzag vs"]
    by (intro map_read_pack_fields) (simp only: bitpack_width_def; blast)
  then have "map unzigzag (map (\<lambda>k. read_bits (pack_fields ?w (map zigzag vs)) (k * ?w) ?w) [0..<length vs]) = vs"
    by (simp only: length_map) (simp add: comp_def)
  with False show ?thesis by (simp add: bitpack_decode_def snd_bitpack_encode comp_def)
qed

subsection \<open>A width per block\<close>

definition blocked_bitpack_block :: nat where "blocked_bitpack_block = 64"

text \<open>\<open>u8::try_from(n).unwrap_or(d)\<close>.\<close>

definition u8_try_from :: "nat \<Rightarrow> u8 \<Rightarrow> u8" where
  "u8_try_from n d = (if n < 256 then of_nat n else d)"

lemma unat_u8_try_from: "n < 256 \<Longrightarrow> unat (u8_try_from n d) = n"
  by (simp add: u8_try_from_def unat_of_nat)

definition blocked_bitpack_bytes :: "i64 list \<Rightarrow> nat \<Rightarrow> nat" where
  "blocked_bitpack_bytes vs block0 =
    (if vs = [] then 0
     else let block = max block0 1
       in sum_list (map (\<lambda>chunk. 1 + div_ceil (length chunk * bitpack_width chunk) 8) (chunks block vs)))"

text \<open>What one iteration of the encoder appends to \<open>out\<close>.\<close>

definition blocked_chunk :: "i64 list \<Rightarrow> u8 list" where
  "blocked_chunk chunk =
    (let (width, packed) = bitpack_encode chunk in u8_try_from width 64 # packed)"

definition blocked_bitpack_encode :: "i64 list \<Rightarrow> nat \<Rightarrow> u8 list" where
  "blocked_bitpack_encode vs block0 =
    (let block = max block0 1 in concat (map blocked_chunk (chunks block vs)))"

text \<open>The decode loops. \<open>block\<close> is at least 1 at every call; the test only makes the functions total.\<close>

function blocked_decode_loop :: "u8 list \<Rightarrow> nat \<Rightarrow> nat \<Rightarrow> nat \<Rightarrow> i64 list" where
  "blocked_decode_loop bytes block pos remaining =
    (if 0 < remaining \<and> 0 < block
     then let block_len = min remaining block;
              width = unat (byte_at bytes pos);
              pos1 = pos + 1;
              data_len = div_ceil (block_len * width) 8;
              chunk = get_slice bytes pos1 data_len
          in bitpack_decode width chunk block_len @
             blocked_decode_loop bytes block (pos1 + data_len) (remaining - block_len)
     else [])"
  by pat_completeness auto
termination by (relation "measure (\<lambda>(bytes, block, pos, remaining). remaining)") auto

definition blocked_bitpack_decode :: "u8 list \<Rightarrow> nat \<Rightarrow> nat \<Rightarrow> i64 list" where
  "blocked_bitpack_decode bytes block0 count = blocked_decode_loop bytes (max block0 1) 0 count"

function blocked_range_loop ::
  "u8 list \<Rightarrow> nat \<Rightarrow> nat \<Rightarrow> nat \<Rightarrow> nat \<Rightarrow> nat \<Rightarrow> nat \<Rightarrow> i64 list" where
  "blocked_range_loop bytes block count start len pos idx =
    (let fin = min (start + len) count
     in if idx < fin \<and> 0 < block
        then let block_len = min block (count - idx);
                 width = unat (byte_at bytes pos);
                 pos1 = pos + 1;
                 data_len = div_ceil (block_len * width) 8;
                 found = (if start < idx + block_len
                   then let chunk = get_slice bytes pos1 data_len;
                            decoded = bitpack_decode width chunk block_len;
                            lo = start - idx;
                            hi = min (fin - idx) block_len
                        in drop lo (take hi decoded)
                   else [])
             in found @ blocked_range_loop bytes block count start len (pos1 + data_len) (idx + block_len)
        else [])"
  by pat_completeness auto
termination by (relation "measure (\<lambda>(bytes, block, count, start, len, pos, idx). count - idx)") auto

declare blocked_decode_loop.simps [simp del] blocked_range_loop.simps [simp del]

definition blocked_bitpack_decode_range :: "u8 list \<Rightarrow> nat \<Rightarrow> nat \<Rightarrow> nat \<Rightarrow> nat \<Rightarrow> i64 list" where
  "blocked_bitpack_decode_range bytes block0 count start len =
    (let block = max block0 1; fin = min (start + len) count
     in if fin \<le> start then [] else blocked_range_loop bytes block count start len 0 0)"

definition blocked_next_block :: "u8 list \<Rightarrow> nat \<Rightarrow> nat \<Rightarrow> nat \<times> nat \<times> nat" where
  "blocked_next_block b pos block_len =
    (let width = unat (byte_at b pos) in (1, div_ceil (block_len * width) 8, width))"

definition blocked_pick :: "nat \<Rightarrow> u8 list \<Rightarrow> nat \<Rightarrow> nat list \<Rightarrow> i64 list" where
  "blocked_pick width data block_len lanes =
    (if gather_whole_tile_threshold \<le> length lanes
     then let decoded = bitpack_decode width data block_len in map (\<lambda>l. decoded ! l) lanes
     else map (\<lambda>l. bitpack_decode_at width data l) lanes)"

definition blocked_bitpack_decode_gather :: "u8 list \<Rightarrow> nat \<Rightarrow> nat \<Rightarrow> nat list \<Rightarrow> i64 option list option" where
  "blocked_bitpack_decode_gather bytes block count indices =
    gather_walk bytes block count indices blocked_next_block blocked_pick"

lemma blocked_chunk_eq: "blocked_chunk c = u8_try_from (bitpack_width c) 64 # snd (bitpack_encode c)"
  by (simp add: blocked_chunk_def split_def Let_def fst_bitpack_encode)

lemma length_blocked_chunk: "length (blocked_chunk c) = 1 + div_ceil (length c * bitpack_width c) 8"
  by (simp add: blocked_chunk_eq length_bitpack_encode)

lemma blocked_parse_chunk:
  "blocked_next_block (pre @ blocked_chunk c @ suf) (length pre) (length c) =
    (1, length (snd (bitpack_encode c)), bitpack_width c)"
proof -
  have "bitpack_width c < 256" using bitpack_width_le [of c] by simp
  then show ?thesis
    by (simp add: blocked_next_block_def blocked_chunk_eq length_bitpack_encode unat_u8_try_from Let_def)
qed

lemma blocked_data_chunk:
  "get_slice (pre @ blocked_chunk c @ suf) (length pre + 1) (length (snd (bitpack_encode c))) = snd (bitpack_encode c)"
  using get_slice_append [of "pre @ [u8_try_from (bitpack_width c) 64]" "snd (bitpack_encode c)" suf]
  by (simp add: blocked_chunk_eq)

lemma blocked_decode_loop_step:
  assumes "blocked_next_block bytes pos (min remaining block) = (h, d, s)" "0 < remaining" "0 < block"
  shows "blocked_decode_loop bytes block pos remaining =
      bitpack_decode s (get_slice bytes (pos + h) d) (min remaining block) @
      blocked_decode_loop bytes block (pos + h + d) (remaining - min remaining block)"
  using assms unfolding blocked_decode_loop.simps [of bytes block pos remaining]
  by (auto simp: Let_def blocked_next_block_def)

lemma blocked_range_loop_step:
  assumes "blocked_next_block bytes pos (min block (count - idx)) = (h, d, s)" "0 < block"
    "idx < min (start + len) count"
  shows "blocked_range_loop bytes block count start len pos idx =
      (if start < idx + min block (count - idx)
       then drop (start - idx) (take (min (min (start + len) count - idx) (min block (count - idx)))
              (bitpack_decode s (get_slice bytes (pos + h) d) (min block (count - idx))))
       else []) @
      blocked_range_loop bytes block count start len (pos + h + d) (idx + min block (count - idx))"
proof -
  have "h = 1" "s = unat (byte_at bytes pos)"
    "d = div_ceil (min block (count - idx) * unat (byte_at bytes pos)) 8"
    using assms(1) by (auto simp: blocked_next_block_def Let_def)
  then show ?thesis
    using assms(2,3) by (subst blocked_range_loop.simps) (simp only: Let_def if_True simp_thms)
qed

lemma blocked_range_loop_end:
  "\<not> idx < min (start + len) count \<Longrightarrow> blocked_range_loop bytes block count start len pos idx = []"
  by (subst blocked_range_loop.simps) (simp only: Let_def if_False simp_thms)

interpretation blocked: block_codec blocked_next_block bitpack_decode
  "\<lambda>w data n lo hi. drop lo (take hi (bitpack_decode w data n))" blocked_decode_loop blocked_range_loop blocked_chunk
proof unfold_locales
  fix chunk pre suf
  show "\<exists>h d s. blocked_next_block (pre @ blocked_chunk chunk @ suf) (length pre) (length chunk) = (h, d, s) \<and>
      h + d = length (blocked_chunk chunk) \<and>
      bitpack_decode s (get_slice (pre @ blocked_chunk chunk @ suf) (length pre + h) d) (length chunk) = chunk"
    using blocked_data_chunk [of pre chunk suf]
    by (simp add: blocked_parse_chunk length_blocked_chunk length_bitpack_encode bitpack_decode_encode)
qed (rule length_bitpack_decode, rule refl, erule (2) blocked_decode_loop_step, simp add: blocked_decode_loop.simps,
     erule (2) blocked_range_loop_step, erule blocked_range_loop_end)

interpretation blocked: gather_format blocked_next_block bitpack_decode
  "\<lambda>w data n lo hi. drop lo (take hi (bitpack_decode w data n))" blocked_decode_loop blocked_range_loop blocked_pick
  by unfold_locales (auto simp: blocked_pick_def Let_def bitpack_decode_nth)

lemma blocked_bitpack_decode_encode:
  "blocked_bitpack_decode (blocked_bitpack_encode vs block @ suf) block (length vs) = vs"
  using blocked.decode_loop_encoded [of "max block 1" "[]" vs suf]
  by (simp add: blocked_bitpack_decode_def blocked_bitpack_encode_def Let_def)

lemma length_blocked_bitpack_encode: "length (blocked_bitpack_encode vs block) = blocked_bitpack_bytes vs block"
  by (simp add: blocked_bitpack_encode_def blocked_bitpack_bytes_def Let_def length_concat comp_def length_blocked_chunk)

lemma blocked_bitpack_decode_range_eq:
  "blocked_bitpack_decode_range bytes block count start len =
    take len (drop start (blocked_bitpack_decode bytes block count))"
  unfolding blocked_bitpack_decode_range_def blocked_bitpack_decode_def Let_def
  by (rule blocked.decode_range_slice [OF max_one_pos])

lemma blocked_bitpack_decode_gather_eq:
  "blocked_bitpack_decode_gather bytes block count indices =
    Some (map (\<lambda>i. if i < count then Some (blocked_bitpack_decode bytes block count ! i) else None) indices)"
  using blocked.gather_walk_correct [OF max_one_pos, of bytes block count indices]
  by (simp add: blocked_bitpack_decode_gather_def blocked_bitpack_decode_def gather_walk_def)

subsection \<open>Properties\<close>

text \<open>
  C38: The per-block bit-packed stream decodes to the values it encodes whatever bytes follow it;
  any row range and any list of rows can be read out of it on their own, the gather always
  returning; and its length is the advertised size.
\<close>

theorem blocked_codec_exact:
  shows "blocked_bitpack_decode (blocked_bitpack_encode vs block @ suf) block (length vs) = vs \<and>
    blocked_bitpack_decode_range (blocked_bitpack_encode vs block @ suf) block (length vs) start len = take len (drop start vs) \<and>
    blocked_bitpack_decode_gather (blocked_bitpack_encode vs block @ suf) block (length vs) indices =
      Some (map (\<lambda>i. if i < length vs then Some (vs ! i) else None) indices) \<and>
    length (blocked_bitpack_encode vs block) = blocked_bitpack_bytes vs block"
  by (simp add: blocked_bitpack_decode_range_eq blocked_bitpack_decode_gather_eq blocked_bitpack_decode_encode
      length_blocked_bitpack_encode)

subsection \<open>Further facts\<close>

text \<open>
  A value of a bit-packed column can be read on its own, at its bit offset, for every column and
  width from 0 to 64; the width is the smallest that holds every value, and the stream has the
  advertised size.
\<close>

lemma bitpack_random_access:
  assumes "i < length vs"
  shows "bitpack_decode_at (bitpack_width vs) (snd (bitpack_encode vs)) i = vs ! i \<and> bitpack_width vs \<le> 64 \<and>
    (\<exists>v\<in>set vs. bit_length (zigzag v) = bitpack_width vs) \<and>
    length (snd (bitpack_encode vs)) = div_ceil (length vs * bitpack_width vs) 8"
proof -
  have "bitpack_decode_at (bitpack_width vs) (snd (bitpack_encode vs)) i = vs ! i"
    using bitpack_decode_nth [OF assms, of "bitpack_width vs" "snd (bitpack_encode vs)"] by (simp only: bitpack_decode_encode)
  moreover have "\<exists>v\<in>set vs. bit_length (zigzag v) = bitpack_width vs"
    using max_bit_length_attained [of "map zigzag vs"] assms by (fastforce simp: bitpack_width_def)
  ultimately show ?thesis using bitpack_width_le length_bitpack_encode by blast
qed

lemma bitpack_random_access_witness:
  "bitpack_decode_at (bitpack_width [3, - 1, 200]) (snd (bitpack_encode [3, - 1, 200])) 1 = [3, - 1, 200 :: i64] ! 1 \<and>
    bitpack_width [3, - 1, 200] \<le> 64 \<and> (\<exists>v\<in>set [3, - 1, 200]. bit_length (zigzag v) = bitpack_width [3, - 1, 200]) \<and>
    length (snd (bitpack_encode [3, - 1, 200])) = div_ceil (length [3, - 1, 200 :: i64] * bitpack_width [3, - 1, 200]) 8"
  by (rule bitpack_random_access) simp

end
