(* ===== verification/For_Codec.thy ===== *)
theory For_Codec imports Bitpack Timestamps begin

text \<open>
  The frame-of-reference codecs (\<open>for_*\<close> and \<open>dfor_*\<close> of
  \<^verbatim>\<open>weft-physical-type/src/timestamp.rs\<close>): each block is stored as the unsigned residuals from its
  minimum, in the decimal form after its common power of ten has been divided out. Both are
  instances of the block contract.
\<close>

unbundle bit_operations_syntax

subsection \<open>Residuals and the block minimum\<close>

definition for_residual :: "i64 \<Rightarrow> i64 \<Rightarrow> u64" where
  "for_residual v mn = v - mn"

definition for_reconstruct :: "i64 \<Rightarrow> u64 \<Rightarrow> i64" where
  "for_reconstruct mn r = mn + r"

text \<open>\<open>iter().copied().min().unwrap_or(0)\<close>, in signed order.\<close>

fun min_or_zero :: "i64 list \<Rightarrow> i64" where
  "min_or_zero [] = 0"
| "min_or_zero (v # vs) = foldl (\<lambda>m x. if sint x < sint m then x else m) v vs"

lemma for_reconstruct_residual [simp]: "for_reconstruct mn (for_residual v mn) = v"
  by (simp add: for_reconstruct_def for_residual_def)

lemma min_or_zero_le: "v \<in> set vs \<Longrightarrow> sint (min_or_zero vs) \<le> sint v"
proof -
  have "sint (foldl (\<lambda>m x. if sint x < sint m then x else m) a xs) \<le> sint a \<and>
    (\<forall>x\<in>set xs. sint (foldl (\<lambda>m x. if sint x < sint m then x else m) a xs) \<le> sint x)" for a :: i64 and xs
  proof (induction xs arbitrary: a)
    case (Cons x xs)
    from Cons [of "if sint x < sint a then x else a"] show ?case
      by (auto split: if_splits)
  qed simp
  then show "v \<in> set vs \<Longrightarrow> sint (min_or_zero vs) \<le> sint v" by (cases vs) auto
qed

text \<open>The residual is the exact difference, so its width is that of the block's range.\<close>

lemma uint_for_residual:
  assumes "sint mn \<le> sint v"
  shows "uint (for_residual v mn) = sint v - sint mn"
proof -
  have "for_residual v mn = word_of_int (sint v - sint mn)" by (simp add: for_residual_def)
  moreover have "0 \<le> sint v - sint mn" "sint v - sint mn < 2 ^ 64"
    using assms sint_range [of v] sint_range [of mn] by auto
  ultimately show ?thesis by (simp only: uint_word_of_int) (simp add: mod_pos_pos_trivial)
qed

subsection \<open>Frame of reference\<close>

definition for_bitpack_bytes :: "i64 list \<Rightarrow> nat \<Rightarrow> nat" where
  "for_bitpack_bytes vs block0 =
    (if vs = [] then 0
     else let block = max block0 1
       in sum_list (map (\<lambda>chunk.
            let mn = min_or_zero chunk; width = max_bit_length (map (\<lambda>v. for_residual v mn) chunk)
            in zigzag_varint_len mn + 1 + div_ceil (length chunk * width) 8) (chunks block vs)))"

definition for_chunk :: "i64 list \<Rightarrow> u8 list" where
  "for_chunk chunk =
    (let mn = min_or_zero chunk;
         residuals = map (\<lambda>v. for_residual v mn) chunk;
         width = max_bit_length residuals
     in for_push_uvarint (zigzag mn) @ [u8_try_from width 64] @
        (if width = 0 then []
         else write_fields 0 width residuals (replicate (div_ceil (length chunk * width) 8) 0)))"

definition for_bitpack_encode :: "i64 list \<Rightarrow> nat \<Rightarrow> u8 list" where
  "for_bitpack_encode vs block0 =
    (let block = max block0 1 in concat (map for_chunk (chunks block vs)))"

function for_decode_loop :: "u8 list \<Rightarrow> nat \<Rightarrow> nat \<Rightarrow> nat \<Rightarrow> i64 list" where
  "for_decode_loop bytes block pos remaining =
    (if 0 < remaining \<and> 0 < block
     then let block_len = min remaining block;
              (z, pos1) = for_read_uvarint bytes pos;
              mn = unzigzag z;
              width = unat (byte_at bytes pos1);
              pos2 = pos1 + 1;
              data_len = div_ceil (block_len * width) 8;
              data = get_slice bytes pos2 data_len
          in map (\<lambda>row. for_reconstruct mn (read_bits data (row * width) width)) [0..<block_len] @
             for_decode_loop bytes block (pos2 + data_len) (remaining - block_len)
     else [])"
  by pat_completeness auto
termination by (relation "measure (\<lambda>(bytes, block, pos, remaining). remaining)") auto

definition for_bitpack_decode :: "u8 list \<Rightarrow> nat \<Rightarrow> nat \<Rightarrow> i64 list" where
  "for_bitpack_decode bytes block0 count = for_decode_loop bytes (max block0 1) 0 count"

function for_range_loop :: "u8 list \<Rightarrow> nat \<Rightarrow> nat \<Rightarrow> nat \<Rightarrow> nat \<Rightarrow> nat \<Rightarrow> nat \<Rightarrow> i64 list" where
  "for_range_loop bytes block count start len pos idx =
    (let fin = min (start + len) count
     in if idx < fin \<and> 0 < block
        then let block_len = min block (count - idx);
                 (z, pos1) = for_read_uvarint bytes pos;
                 mn = unzigzag z;
                 width = unat (byte_at bytes pos1);
                 pos2 = pos1 + 1;
                 data_len = div_ceil (block_len * width) 8;
                 found = (if start < idx + block_len
                   then let data = get_slice bytes pos2 data_len;
                            lo = start - idx;
                            hi = min (fin - idx) block_len
                        in map (\<lambda>row. for_reconstruct mn (read_bits data (row * width) width)) [lo..<hi]
                   else [])
             in found @ for_range_loop bytes block count start len (pos2 + data_len) (idx + block_len)
        else [])"
  by pat_completeness auto
termination by (relation "measure (\<lambda>(bytes, block, count, start, len, pos, idx). count - idx)") auto

declare for_decode_loop.simps [simp del] for_range_loop.simps [simp del]

definition for_bitpack_decode_range :: "u8 list \<Rightarrow> nat \<Rightarrow> nat \<Rightarrow> nat \<Rightarrow> nat \<Rightarrow> i64 list" where
  "for_bitpack_decode_range bytes block0 count start len =
    (let block = max block0 1; fin = min (start + len) count
     in if fin \<le> start then [] else for_range_loop bytes block count start len 0 0)"

definition for_next_block :: "u8 list \<Rightarrow> nat \<Rightarrow> nat \<Rightarrow> nat \<times> nat \<times> i64 \<times> nat" where
  "for_next_block b pos block_len =
    (let (z, p) = for_read_uvarint b pos;
         mn = unzigzag z;
         width = unat (byte_at b p);
         p' = p + 1
     in (p' - pos, div_ceil (block_len * width) 8, (mn, width)))"

definition for_pick :: "i64 \<times> nat \<Rightarrow> u8 list \<Rightarrow> nat \<Rightarrow> nat list \<Rightarrow> i64 list" where
  "for_pick state data block_len lanes =
    (let (mn, width) = state
     in map (\<lambda>row. for_reconstruct mn (read_bits data (row * width) width)) lanes)"

definition for_bitpack_decode_gather :: "u8 list \<Rightarrow> nat \<Rightarrow> nat \<Rightarrow> nat list \<Rightarrow> i64 option list option" where
  "for_bitpack_decode_gather bytes block count indices =
    gather_walk bytes block count indices for_next_block for_pick"

subsection \<open>Its block contract\<close>

text \<open>Rows \<open>[lo..<hi]\<close> of one block, as every reader computes them.\<close>

definition for_rows :: "i64 \<times> nat \<Rightarrow> u8 list \<Rightarrow> nat \<Rightarrow> nat \<Rightarrow> nat \<Rightarrow> i64 list" where
  "for_rows state data n lo hi =
    map (\<lambda>row. for_reconstruct (fst state) (read_bits data (row * snd state) (snd state))) [lo..<hi]"

lemma drop_take_map_upt:
  "lo \<le> hi \<Longrightarrow> hi \<le> n \<Longrightarrow> drop lo (take hi (map f [0..<n])) = map f [lo..<hi]"
  by (simp add: take_map drop_map take_upt)

lemma length_for_chunk:
  "length (for_chunk c) =
    (let mn = min_or_zero c; width = max_bit_length (map (\<lambda>v. for_residual v mn) c)
     in zigzag_varint_len mn + 1 + div_ceil (length c * width) 8)"
  by (simp add: for_chunk_def Let_def zigzag_varint_len_eq)

lemma packed_residuals:
  fixes mn :: i64 and c :: "i64 list"
  defines "rs \<equiv> map (\<lambda>v. for_residual v mn) c"
  defines "w \<equiv> max_bit_length rs"
  shows "map (\<lambda>row. for_reconstruct mn (read_bits (write_fields 0 w rs (replicate (div_ceil (length c * w) 8) 0)) (row * w) w))
    [0..<length c] = c"
proof -
  have "map (\<lambda>k. read_bits (pack_fields w rs) (k * w) w) [0..<length rs] = rs"
    using max_bit_length_ge unfolding w_def by (intro map_read_pack_fields) blast
  then have "map (for_reconstruct mn) (map (\<lambda>k. read_bits (pack_fields w rs) (k * w) w) [0..<length c]) =
      map (for_reconstruct mn) rs"
    by (simp add: rs_def)
  then show ?thesis by (simp add: pack_fields_def rs_def comp_def)
qed

lemma for_parse_chunk:
  assumes "c \<noteq> []"
  shows "\<exists>h d s. for_next_block (pre @ for_chunk c @ suf) (length pre) (length c) = (h, d, s) \<and>
      h + d = length (for_chunk c) \<and>
      for_rows s (get_slice (pre @ for_chunk c @ suf) (length pre + h) d) (length c) 0 (length c) = c"
proof -
  define mn where "mn = min_or_zero c"
  define rs where "rs = map (\<lambda>v. for_residual v mn) c"
  define w where "w = max_bit_length rs"
  define data where "data = write_fields 0 w rs (replicate (div_ceil (length c * w) 8) 0)"
  define head where "head = for_push_uvarint (zigzag mn)"
  have w: "unat (u8_try_from w 64) = w"
    using max_bit_length_le [of rs] by (intro unat_u8_try_from) (simp add: w_def)
  have chunk: "for_chunk c = head @ u8_try_from w 64 # data"
    by (auto simp: for_chunk_def Let_def mn_def rs_def w_def data_def head_def)
  have lend: "length data = div_ceil (length c * w) 8" by (simp add: data_def)
  let ?B = "pre @ for_chunk c @ suf"
  have B: "?B = (pre @ head) @ u8_try_from w 64 # data @ suf" "?B = (pre @ head @ [u8_try_from w 64]) @ data @ suf"
    by (simp_all add: chunk)
  have "for_read_uvarint ?B (length pre) = (zigzag mn, length (pre @ head))"
    using for_read_push_uvarint [of pre "zigzag mn" "u8_try_from w 64 # data @ suf"] by (simp add: chunk head_def)
  moreover have "byte_at ?B (length (pre @ head)) = u8_try_from w 64"
    unfolding B(1) by (rule byte_at_append)
  moreover have "get_slice ?B (length (pre @ head @ [u8_try_from w 64])) (length data) = data"
    unfolding B(2) by (rule get_slice_append)
  moreover have "for_rows (mn, w) data (length c) 0 (length c) = c"
    using packed_residuals [of mn c] by (simp add: for_rows_def data_def w_def rs_def)
  ultimately show ?thesis
    by (simp add: for_next_block_def w lend [symmetric] Let_def) (simp add: chunk)
qed

lemma for_next_block_parts:
  assumes "for_next_block bytes pos n = (h, d, s)"
  obtains z p where "for_read_uvarint bytes pos = (z, p)" "pos + h = p + 1"
    "s = (unzigzag z, unat (byte_at bytes p))" "d = div_ceil (n * unat (byte_at bytes p)) 8"
proof -
  obtain z p where zp: "for_read_uvarint bytes pos = (z, p)" by fastforce
  then have "pos < p" using for_read_uvarint_advances [of pos bytes] by simp
  with assms zp show thesis by (intro that [OF zp]) (auto simp: for_next_block_def Let_def)
qed

lemma for_decode_loop_step:
  assumes "for_next_block bytes pos (min remaining block) = (h, d, s)" "0 < remaining" "0 < block"
  shows "for_decode_loop bytes block pos remaining =
      for_rows s (get_slice bytes (pos + h) d) (min remaining block) 0 (min remaining block) @
      for_decode_loop bytes block (pos + h + d) (remaining - min remaining block)"
  by (rule for_next_block_parts [OF assms(1)], subst for_decode_loop.simps)
     (simp add: assms Let_def for_rows_def)

lemma for_range_loop_step:
  assumes "for_next_block bytes pos (min block (count - idx)) = (h, d, s)" "0 < block"
    "idx < min (start + len) count"
  shows "for_range_loop bytes block count start len pos idx =
      (if start < idx + min block (count - idx)
       then for_rows s (get_slice bytes (pos + h) d) (min block (count - idx)) (start - idx)
              (min (min (start + len) count - idx) (min block (count - idx)))
       else []) @
      for_range_loop bytes block count start len (pos + h + d) (idx + min block (count - idx))"
  by (rule for_next_block_parts [OF assms(1)], subst for_range_loop.simps)
     (simp only: assms Let_def for_rows_def if_True simp_thms split fst_conv snd_conv)

lemma for_range_loop_end:
  "\<not> idx < min (start + len) count \<Longrightarrow> for_range_loop bytes block count start len pos idx = []"
  by (subst for_range_loop.simps) (simp only: Let_def if_False simp_thms)

interpretation for_fmt: block_codec for_next_block "\<lambda>s data n. for_rows s data n 0 n" for_rows
  for_decode_loop for_range_loop for_chunk
proof unfold_locales
  fix lo hi n s data
  assume "lo \<le> hi" "hi \<le> (n :: nat)"
  then show "for_rows s data n lo hi = drop lo (take hi (for_rows s data n 0 n))"
    by (simp add: for_rows_def drop_take_map_upt)
qed (simp add: for_rows_def, erule (2) for_decode_loop_step, simp add: for_decode_loop.simps,
     erule (2) for_range_loop_step, erule for_range_loop_end, erule for_parse_chunk)

interpretation for_fmt: gather_format for_next_block "\<lambda>s data n. for_rows s data n 0 n" for_rows
  for_decode_loop for_range_loop for_pick
  by unfold_locales (auto simp: for_pick_def for_rows_def split: prod.split)

lemma for_bitpack_decode_encode: "for_bitpack_decode (for_bitpack_encode vs block @ suf) block (length vs) = vs"
  using for_fmt.decode_loop_encoded [of "max block 1" "[]" vs suf]
  by (simp add: for_bitpack_decode_def for_bitpack_encode_def Let_def)

lemma length_for_bitpack_encode: "length (for_bitpack_encode vs block) = for_bitpack_bytes vs block"
  by (simp add: for_bitpack_encode_def for_bitpack_bytes_def length_concat comp_def length_for_chunk Let_def)

lemma for_bitpack_decode_range_eq:
  "for_bitpack_decode_range bytes block count start len = take len (drop start (for_bitpack_decode bytes block count))"
  unfolding for_bitpack_decode_range_def for_bitpack_decode_def Let_def
  by (rule for_fmt.decode_range_slice [OF max_one_pos])

lemma for_bitpack_decode_gather_eq:
  "for_bitpack_decode_gather bytes block count indices =
    Some (map (\<lambda>i. if i < count then Some (for_bitpack_decode bytes block count ! i) else None) indices)"
  using for_fmt.gather_walk_correct [OF max_one_pos, of bytes block count indices]
  by (simp add: for_bitpack_decode_gather_def for_bitpack_decode_def gather_walk_def)

subsection \<open>Decimal exponents\<close>

definition dfor_max_exponent :: nat where "dfor_max_exponent = 18"

definition unsigned_abs :: "i64 \<Rightarrow> u64" where
  "unsigned_abs v = (if sint v < 0 then - v else v)"

definition pow10 :: "nat \<Rightarrow> i64" where "pow10 k = 10 ^ k"

function dtz_loop :: "u64 \<Rightarrow> nat \<Rightarrow> nat" where
  "dtz_loop m k =
    (if k < dfor_max_exponent \<and> m mod 10 = 0 then dtz_loop (m div 10) (k + 1) else k)"
  by pat_completeness auto
termination by (relation "measure (\<lambda>(m, k). dfor_max_exponent - k)") auto

declare dtz_loop.simps [simp del]

definition decimal_trailing_zeros :: "i64 \<Rightarrow> nat" where
  "decimal_trailing_zeros v =
    (let m = unsigned_abs v in if m = 0 then dfor_max_exponent else dtz_loop m 0)"

fun min_or_zero_nat :: "nat list \<Rightarrow> nat" where
  "min_or_zero_nat [] = 0"
| "min_or_zero_nat [k] = k"
| "min_or_zero_nat (k # ks) = min k (min_or_zero_nat ks)"

definition dfor_block :: "i64 list \<Rightarrow> nat \<times> i64 list \<times> i64 \<times> nat" where
  "dfor_block chunk =
    (let k = min_or_zero_nat (map decimal_trailing_zeros chunk);
         divisor = pow10 k;
         reduced = map (\<lambda>v. i64_div v divisor) chunk;
         mn = min_or_zero reduced;
         width = max_bit_length (map (\<lambda>v. for_residual v mn) reduced)
     in (k, reduced, mn, width))"

definition dfor_bitpack_bytes :: "i64 list \<Rightarrow> nat \<Rightarrow> nat" where
  "dfor_bitpack_bytes vs block0 =
    sum_list (map (\<lambda>chunk. let (k, reduced, mn, width) = dfor_block chunk
      in zigzag_varint_len mn + 2 + div_ceil (length chunk * width) 8) (chunks (max block0 1) vs))"

definition dfor_chunk :: "i64 list \<Rightarrow> u8 list" where
  "dfor_chunk chunk =
    (let (k, reduced, mn, width) = dfor_block chunk
     in for_push_uvarint (zigzag mn) @ [u8_try_from k 0] @ [u8_try_from width 64] @
        write_fields 0 width (map (\<lambda>v. for_residual v mn) reduced)
          (replicate (div_ceil (length chunk * width) 8) 0))"

definition dfor_bitpack_encode :: "i64 list \<Rightarrow> nat \<Rightarrow> u8 list" where
  "dfor_bitpack_encode vs block0 = concat (map dfor_chunk (chunks (max block0 1) vs))"

text \<open>The header, and the position after it.\<close>

definition dfor_read_header :: "u8 list \<Rightarrow> nat \<Rightarrow> nat \<Rightarrow> (i64 \<times> i64 \<times> nat \<times> nat) \<times> nat" where
  "dfor_read_header bytes pos block_len =
    (let (z, pos1) = for_read_uvarint bytes pos;
         mn = unzigzag z;
         k = min (unat (byte_at bytes pos1)) dfor_max_exponent;
         width = unat (byte_at bytes (pos1 + 1))
     in ((mn, pow10 k, width, div_ceil (block_len * width) 8), pos1 + 2))"

function dfor_range_loop :: "u8 list \<Rightarrow> nat \<Rightarrow> nat \<Rightarrow> nat \<Rightarrow> nat \<Rightarrow> nat \<Rightarrow> nat \<Rightarrow> i64 list" where
  "dfor_range_loop bytes block count start len pos idx =
    (let fin = min (start + len) count
     in if idx < fin \<and> 0 < block
        then let block_len = min block (count - idx);
                 ((mn, multiplier, width, data_len), pos1) = dfor_read_header bytes pos block_len;
                 found = (if start < idx + block_len
                   then let data = get_slice bytes pos1 data_len;
                            lo = start - idx;
                            hi = min (fin - idx) block_len
                        in map (\<lambda>row. for_reconstruct mn (read_bits data (row * width) width) * multiplier) [lo..<hi]
                   else [])
             in found @ dfor_range_loop bytes block count start len (pos1 + data_len) (idx + block_len)
        else [])"
  by pat_completeness auto
termination by (relation "measure (\<lambda>(bytes, block, count, start, len, pos, idx). count - idx)") auto

declare dfor_range_loop.simps [simp del]

definition dfor_bitpack_decode_range :: "u8 list \<Rightarrow> nat \<Rightarrow> nat \<Rightarrow> nat \<Rightarrow> nat \<Rightarrow> i64 list" where
  "dfor_bitpack_decode_range bytes block0 count start len =
    (let block = max block0 1; fin = min (start + len) count
     in if fin \<le> start then [] else dfor_range_loop bytes block count start len 0 0)"

definition dfor_bitpack_decode :: "u8 list \<Rightarrow> nat \<Rightarrow> nat \<Rightarrow> i64 list" where
  "dfor_bitpack_decode bytes block count = dfor_bitpack_decode_range bytes block count 0 count"

text \<open>The power of ten that is factored out divides every value of the block.\<close>

lemma uint_unsigned_abs: "uint (unsigned_abs v) = \<bar>sint v\<bar>"
proof (cases "sint v < 0")
  case True
  have "- v = word_of_int (- sint v)" by simp
  moreover have "0 \<le> - sint v" "- sint v < 2 ^ 64" using True sint_range [of v] by auto
  ultimately have "uint (- v) = - sint v" by (simp only: uint_word_of_int) (simp add: mod_pos_pos_trivial)
  with True show ?thesis by (simp add: unsigned_abs_def)
next
  case False
  have "0 \<le> sint v" "sint v < 2 ^ 64" using False sint_range [of v] by auto
  then have "uint (word_of_int (sint v) :: i64) = sint v"
    by (simp only: uint_word_of_int) (simp add: mod_pos_pos_trivial)
  then have "uint v = sint v" by simp
  with False show ?thesis by (simp add: unsigned_abs_def)
qed

lemma dtz_loop_dvd: "k \<le> dtz_loop m k \<and> 10 ^ (dtz_loop m k - k) dvd uint m"
proof (induction m k rule: dtz_loop.induct)
  case (1 m k)
  show ?case
  proof (cases "k < dfor_max_exponent \<and> m mod 10 = 0")
    case True
    then have IH: "Suc k \<le> dtz_loop (m div 10) (Suc k)"
      "10 ^ (dtz_loop (m div 10) (Suc k) - Suc k) dvd uint (m div 10)"
      using 1 by simp_all
    have "uint (m mod 10) = 0" using True by simp
    then have "uint m mod 10 = 0" by (simp add: uint_mod_distrib)
    then have "uint m = 10 * uint (m div 10)"
      using mult_div_mod_eq [of 10 "uint m"] by (simp add: uint_div_distrib)
    moreover have "dtz_loop (m div 10) (Suc k) - k = Suc (dtz_loop (m div 10) (Suc k) - Suc k)"
      using IH(1) by linarith
    ultimately show ?thesis
      using IH True by (subst (1 2) dtz_loop.simps) (simp add: mult_dvd_mono)
  next
    case False
    then show ?thesis by (subst (1 2) dtz_loop.simps) auto
  qed
qed

lemma dtz_loop_le: "k \<le> dfor_max_exponent \<Longrightarrow> dtz_loop m k \<le> dfor_max_exponent"
  by (induction m k rule: dtz_loop.induct) (subst dtz_loop.simps, simp)

lemma decimal_trailing_zeros_le: "decimal_trailing_zeros v \<le> dfor_max_exponent"
  by (simp add: decimal_trailing_zeros_def Let_def dtz_loop_le)

lemma pow10_dvd:
  assumes "k \<le> decimal_trailing_zeros v"
  shows "10 ^ k dvd sint v"
proof (cases "unsigned_abs v = 0")
  case True
  then have "sint v = 0" using uint_unsigned_abs [of v] by simp
  then show ?thesis by simp
next
  case False
  then have "10 ^ decimal_trailing_zeros v dvd uint (unsigned_abs v)"
    using dtz_loop_dvd [of 0 "unsigned_abs v"] by (simp add: decimal_trailing_zeros_def Let_def)
  then have "10 ^ decimal_trailing_zeros v dvd sint v" by (simp add: uint_unsigned_abs)
  then show ?thesis using assms by (meson le_imp_power_dvd dvd_trans)
qed

lemma sint_pow10: "k \<le> 18 \<Longrightarrow> sint (pow10 k) = 10 ^ k"
proof -
  assume "k \<le> 18"
  then have "(10 :: int) ^ k \<le> 10 ^ 18" by (intro power_increasing) auto
  then have "sint (word_of_int (10 ^ k) :: i64) = 10 ^ k"
    by (intro sint_word_of_int_id) (auto intro: order_trans [of _ 0])
  then show ?thesis by (simp add: pow10_def)
qed

lemma i64_div_pow10_mult:
  assumes "k \<le> decimal_trailing_zeros v"
  shows "i64_div v (pow10 k) * pow10 k = v"
proof -
  have k: "k \<le> 18" using assms decimal_trailing_zeros_le [of v] by (simp add: dfor_max_exponent_def)
  have "sint v sdiv 10 ^ k * 10 ^ k = sint v"
    using pow10_dvd [OF assms] by (simp add: sdiv_pos)
  moreover have "pow10 k = word_of_int (10 ^ k)" by (simp add: pow10_def)
  ultimately have "i64_div v (pow10 k) * pow10 k = word_of_int (sint v)"
    unfolding i64_div_def sint_pow10 [OF k] by (metis wi_hom_mult)
  then show ?thesis by simp
qed

lemma min_or_zero_nat_le: "k \<in> set ks \<Longrightarrow> min_or_zero_nat ks \<le> k"
  by (induction ks rule: min_or_zero_nat.induct) auto

lemma min_or_zero_nat_in: "ks \<noteq> [] \<Longrightarrow> min_or_zero_nat ks \<in> set ks"
  by (induction ks rule: min_or_zero_nat.induct) (auto simp: min_def)

lemma dfor_block_expand:
  assumes "dfor_block chunk = (k, reduced, mn, width)"
  shows "map (\<lambda>r. r * pow10 k) reduced = chunk" "k \<le> dfor_max_exponent"
    "length reduced = length chunk" "width = max_bit_length (map (\<lambda>v. for_residual v mn) reduced)"
proof -
  have k: "k = min_or_zero_nat (map decimal_trailing_zeros chunk)"
    and r: "reduced = map (\<lambda>v. i64_div v (pow10 k)) chunk"
    and "width = max_bit_length (map (\<lambda>v. for_residual v mn) reduced)"
    using assms by (auto simp: dfor_block_def Let_def)
  then show "width = max_bit_length (map (\<lambda>v. for_residual v mn) reduced)" "length reduced = length chunk"
    by simp_all
  show "map (\<lambda>r. r * pow10 k) reduced = chunk"
    using min_or_zero_nat_le unfolding r k
    by (simp add: comp_def, intro map_idI i64_div_pow10_mult) simp
  show "k \<le> dfor_max_exponent"
    using min_or_zero_nat_in [of "map decimal_trailing_zeros chunk"] decimal_trailing_zeros_le
    by (cases "chunk = []") (auto simp: k)
qed

subsection \<open>Its block contract\<close>

definition dfor_parse :: "u8 list \<Rightarrow> nat \<Rightarrow> nat \<Rightarrow> nat \<times> nat \<times> i64 \<times> i64 \<times> nat" where
  "dfor_parse bytes pos n =
    (let ((mn, multiplier, width, data_len), pos') = dfor_read_header bytes pos n
     in (pos' - pos, data_len, (mn, multiplier, width)))"

definition dfor_rows :: "i64 \<times> i64 \<times> nat \<Rightarrow> u8 list \<Rightarrow> nat \<Rightarrow> nat \<Rightarrow> nat \<Rightarrow> i64 list" where
  "dfor_rows state data n lo hi =
    (let (mn, multiplier, width) = state
     in map (\<lambda>row. for_reconstruct mn (read_bits data (row * width) width) * multiplier) [lo..<hi])"

text \<open>The reference decode: every block in turn.\<close>

function dfor_reference_loop :: "u8 list \<Rightarrow> nat \<Rightarrow> nat \<Rightarrow> nat \<Rightarrow> i64 list" where
  "dfor_reference_loop bytes block pos remaining =
    (if 0 < remaining \<and> 0 < block
     then let n = min remaining block; (h, d, s) = dfor_parse bytes pos n
          in dfor_rows s (get_slice bytes (pos + h) d) n 0 n @
             dfor_reference_loop bytes block (pos + h + d) (remaining - n)
     else [])"
  by pat_completeness auto
termination by (relation "measure (\<lambda>(bytes, block, pos, remaining). remaining)") auto

declare dfor_reference_loop.simps [simp del]

lemma length_dfor_chunk:
  "length (dfor_chunk c) = (let (k, reduced, mn, width) = dfor_block c
    in zigzag_varint_len mn + 2 + div_ceil (length c * width) 8)"
  by (simp add: dfor_chunk_def zigzag_varint_len_eq split: prod.split)

lemma dfor_parse_chunk:
  assumes "c \<noteq> []"
  shows "\<exists>h d s. dfor_parse (pre @ dfor_chunk c @ suf) (length pre) (length c) = (h, d, s) \<and>
      h + d = length (dfor_chunk c) \<and>
      dfor_rows s (get_slice (pre @ dfor_chunk c @ suf) (length pre + h) d) (length c) 0 (length c) = c"
proof -
  obtain k reduced mn w where b: "dfor_block c = (k, reduced, mn, w)" by (metis prod_cases4)
  note e = dfor_block_expand [OF b]
  define data where "data = write_fields 0 w (map (\<lambda>v. for_residual v mn) reduced)
    (replicate (div_ceil (length c * w) 8) 0)"
  define head where "head = for_push_uvarint (zigzag mn)"
  have w: "unat (u8_try_from w 64) = w" and k: "min (unat (u8_try_from k 0)) dfor_max_exponent = k"
    using max_bit_length_le [of "map (\<lambda>v. for_residual v mn) reduced"] e(2,4)
    by (simp_all add: unat_u8_try_from dfor_max_exponent_def)
  have chunk: "dfor_chunk c = head @ u8_try_from k 0 # u8_try_from w 64 # data"
    by (simp add: dfor_chunk_def b data_def head_def)
  have lend: "length data = div_ceil (length c * w) 8" by (simp add: data_def)
  let ?B = "pre @ dfor_chunk c @ suf"
  have B: "?B = (pre @ head) @ u8_try_from k 0 # u8_try_from w 64 # data @ suf"
    "?B = (pre @ head @ [u8_try_from k 0]) @ u8_try_from w 64 # data @ suf"
    "?B = (pre @ head @ [u8_try_from k 0, u8_try_from w 64]) @ data @ suf"
    by (simp_all add: chunk)
  have "for_read_uvarint ?B (length pre) = (zigzag mn, length (pre @ head))"
    using for_read_push_uvarint [of pre "zigzag mn" "u8_try_from k 0 # u8_try_from w 64 # data @ suf"]
    by (simp add: chunk head_def)
  moreover have "byte_at ?B (length (pre @ head)) = u8_try_from k 0"
    unfolding B(1) by (rule byte_at_append)
  moreover have "byte_at ?B (length (pre @ head @ [u8_try_from k 0])) = u8_try_from w 64"
    unfolding B(2) by (rule byte_at_append)
  moreover have "get_slice ?B (length (pre @ head @ [u8_try_from k 0, u8_try_from w 64])) (length data) = data"
    unfolding B(3) by (rule get_slice_append)
  moreover have "dfor_rows (mn, pow10 k, w) data (length c) 0 (length c) = c"
  proof -
    have "map (\<lambda>row. for_reconstruct mn (read_bits data (row * w) w)) [0..<length c] = reduced"
      using packed_residuals [of mn reduced] by (simp add: data_def e(3) flip: e(4))
    then have "map (\<lambda>r. r * pow10 k) (map (\<lambda>row. for_reconstruct mn (read_bits data (row * w) w)) [0..<length c]) = c"
      using e(1) by simp
    then show ?thesis by (simp add: dfor_rows_def comp_def)
  qed
  ultimately show ?thesis
    by (simp add: dfor_parse_def dfor_read_header_def w k lend [symmetric] Let_def) (simp add: chunk)
qed

lemma dfor_parse_parts:
  assumes "dfor_parse bytes pos n = (h, d, s)"
  obtains mn multiplier w p where "dfor_read_header bytes pos n = ((mn, multiplier, w, d), pos + h)"
    "s = (mn, multiplier, w)"
proof -
  have "pos < snd (for_read_uvarint bytes pos)" by (rule for_read_uvarint_advances)
  with assms show thesis
    by (intro that [of "fst s" "fst (snd s)" "snd (snd s)"])
       (auto simp: dfor_parse_def dfor_read_header_def Let_def split: prod.splits)
qed

lemma dfor_reference_loop_step:
  assumes "dfor_parse bytes pos (min remaining block) = (h, d, s)" "0 < remaining" "0 < block"
  shows "dfor_reference_loop bytes block pos remaining =
      dfor_rows s (get_slice bytes (pos + h) d) (min remaining block) 0 (min remaining block) @
      dfor_reference_loop bytes block (pos + h + d) (remaining - min remaining block)"
  by (subst dfor_reference_loop.simps) (simp add: assms Let_def)

lemma dfor_range_loop_step:
  assumes "dfor_parse bytes pos (min block (count - idx)) = (h, d, s)" "0 < block"
    "idx < min (start + len) count"
  shows "dfor_range_loop bytes block count start len pos idx =
      (if start < idx + min block (count - idx)
       then dfor_rows s (get_slice bytes (pos + h) d) (min block (count - idx)) (start - idx)
              (min (min (start + len) count - idx) (min block (count - idx)))
       else []) @
      dfor_range_loop bytes block count start len (pos + h + d) (idx + min block (count - idx))"
  by (rule dfor_parse_parts [OF assms(1)], subst dfor_range_loop.simps)
     (simp only: assms Let_def dfor_rows_def if_True simp_thms split fst_conv snd_conv)

lemma dfor_range_loop_end:
  "\<not> idx < min (start + len) count \<Longrightarrow> dfor_range_loop bytes block count start len pos idx = []"
  by (subst dfor_range_loop.simps) (simp only: Let_def if_False simp_thms)

interpretation dfor: block_codec dfor_parse "\<lambda>s data n. dfor_rows s data n 0 n" dfor_rows
  dfor_reference_loop dfor_range_loop dfor_chunk
proof unfold_locales
  fix lo hi n s data
  assume "lo \<le> hi" "hi \<le> (n :: nat)"
  then show "dfor_rows s data n lo hi = drop lo (take hi (dfor_rows s data n 0 n))"
    by (simp add: dfor_rows_def drop_take_map_upt split: prod.split)
qed (simp add: dfor_rows_def split: prod.split, erule (2) dfor_reference_loop_step, simp add: dfor_reference_loop.simps,
     erule (2) dfor_range_loop_step, erule dfor_range_loop_end, erule dfor_parse_chunk)

lemma dfor_bitpack_decode_reference:
  "dfor_bitpack_decode bytes block count = dfor_reference_loop bytes (max block 1) 0 count"
  using dfor.decode_range_slice [OF max_one_pos, of 0 count count bytes block]
  unfolding dfor_bitpack_decode_def dfor_bitpack_decode_range_def Let_def
  by (simp only: drop_0 dfor.length_decode_loop [OF max_one_pos] take_all order_refl)

lemma dfor_bitpack_decode_encode: "dfor_bitpack_decode (dfor_bitpack_encode vs block @ suf) block (length vs) = vs"
  using dfor.decode_loop_encoded [OF max_one_pos, of "[]" block vs suf]
  by (simp add: dfor_bitpack_decode_reference dfor_bitpack_encode_def)

lemma length_dfor_bitpack_encode: "length (dfor_bitpack_encode vs block) = dfor_bitpack_bytes vs block"
  by (simp add: dfor_bitpack_encode_def dfor_bitpack_bytes_def length_concat comp_def length_dfor_chunk)

lemma dfor_bitpack_decode_range_eq:
  "dfor_bitpack_decode_range bytes block count start len = take len (drop start (dfor_bitpack_decode bytes block count))"
  unfolding dfor_bitpack_decode_range_def dfor_bitpack_decode_reference Let_def
  by (rule dfor.decode_range_slice [OF max_one_pos])

subsection \<open>Properties\<close>

text \<open>
  C39: The frame-of-reference stream decodes to the values it encodes, for any block size and
  whatever follows it; ranges and gathers read the same rows, the gather always returning; and its
  length is the advertised size.
\<close>

theorem for_codec_exact:
  shows "for_bitpack_decode (for_bitpack_encode vs block @ suf) block (length vs) = vs \<and>
    for_bitpack_decode_range (for_bitpack_encode vs block @ suf) block (length vs) start len = take len (drop start vs) \<and>
    for_bitpack_decode_gather (for_bitpack_encode vs block @ suf) block (length vs) indices =
      Some (map (\<lambda>i. if i < length vs then Some (vs ! i) else None) indices) \<and>
    length (for_bitpack_encode vs block) = for_bitpack_bytes vs block"
  by (simp add: for_bitpack_decode_range_eq for_bitpack_decode_gather_eq for_bitpack_decode_encode length_for_bitpack_encode)

subsection \<open>Further facts\<close>

text \<open>
  The decimal frame-of-reference stream, which first divides every block by its common power of
  ten, decodes to the values it encodes whatever follows it; a row range reads the same rows; and
  its length is the advertised size.
\<close>

lemma decimal_for_codec_exact:
  shows "dfor_bitpack_decode (dfor_bitpack_encode vs block @ suf) block (length vs) = vs \<and>
    dfor_bitpack_decode_range (dfor_bitpack_encode vs block @ suf) block (length vs) start len = take len (drop start vs) \<and>
    length (dfor_bitpack_encode vs block) = dfor_bitpack_bytes vs block"
  by (simp add: dfor_bitpack_decode_range_eq dfor_bitpack_decode_encode length_dfor_bitpack_encode)

end
