(* ===== verification/Gorilla.thy ===== *)
theory Gorilla imports Varint_Rle Timestamps begin

text \<open>
  The bucketed variable-length codec of second differences (\<open>gorilla_*\<close> of
  \<^verbatim>\<open>weft-physical-type/src/timestamp.rs\<close>). Both directions move a bit cursor over a buffer; the
  proof describes the bits one value occupies, \<open>gorilla_code\<close>, shows that writing puts exactly
  those bits down without touching earlier ones, and that reading them back recovers the value.
\<close>

unbundle bit_operations_syntax

definition gorilla_dod_bits :: "i64 \<Rightarrow> nat" where
  "gorilla_dod_bits dod =
    (if dod = 0 then 1
     else if - 63 \<le> sint dod \<and> sint dod \<le> 64 then 2 + 7
     else if - 255 \<le> sint dod \<and> sint dod \<le> 256 then 3 + 9
     else if - 2047 \<le> sint dod \<and> sint dod \<le> 2048 then 4 + 12
     else 4 + 64)"

definition gorilla_bytes :: "i64 list \<Rightarrow> nat" where
  "gorilla_bytes dods = (let bits = sum_list (map gorilla_dod_bits dods) in div_ceil bits 8)"

definition gorilla_control :: "i64 \<Rightarrow> nat \<times> nat" where
  "gorilla_control dod =
    (if dod = 0 then (0, 0)
     else if - 63 \<le> sint dod \<and> sint dod \<le> 64 then (1, 7)
     else if - 255 \<le> sint dod \<and> sint dod \<le> 256 then (2, 9)
     else if - 2047 \<le> sint dod \<and> sint dod \<le> 2048 then (3, 12)
     else (4, 64))"

text \<open>The cursor operations: the buffer and the cursor after, the value and the cursor after.\<close>

definition gorilla_put_bits :: "u8 list \<Rightarrow> nat \<Rightarrow> u64 \<Rightarrow> nat \<Rightarrow> u8 list \<times> nat" where
  "gorilla_put_bits out pos v n = (write_bits out pos v n, pos + n)"

definition gorilla_get_bits :: "u8 list \<Rightarrow> nat \<Rightarrow> nat \<Rightarrow> u64 \<times> nat" where
  "gorilla_get_bits bytes pos n = (read_bits bytes pos n, pos + n)"

fun put_ones :: "nat \<Rightarrow> u8 list \<Rightarrow> nat \<Rightarrow> u8 list \<times> nat" where
  "put_ones 0 out pos = (out, pos)"
| "put_ones (Suc n) out pos = (let (out', pos') = gorilla_put_bits out pos 1 1 in put_ones n out' pos')"

definition gorilla_bias :: "nat \<Rightarrow> i64" where
  "gorilla_bias width = push_bit (width - 1) 1 - 1"

text \<open>One iteration of the encoder's loop.\<close>

definition gorilla_put_dod :: "i64 \<Rightarrow> u8 list \<Rightarrow> nat \<Rightarrow> u8 list \<times> nat" where
  "gorilla_put_dod dod out pos =
    (let (ones, width) = gorilla_control dod;
         (out1, pos1) = put_ones ones out pos;
         (out2, pos2) = (if ones < 4 then gorilla_put_bits out1 pos1 0 1 else (out1, pos1))
     in if width = 64 then gorilla_put_bits out2 pos2 dod 64
        else if 0 < width then gorilla_put_bits out2 pos2 (dod + gorilla_bias width) width
        else (out2, pos2))"

fun gorilla_put_all :: "i64 list \<Rightarrow> u8 list \<Rightarrow> nat \<Rightarrow> u8 list" where
  "gorilla_put_all [] out pos = out"
| "gorilla_put_all (dod # dods) out pos =
    (let (out', pos') = gorilla_put_dod dod out pos in gorilla_put_all dods out' pos')"

definition encode_gorilla_dods :: "i64 list \<Rightarrow> u8 list" where
  "encode_gorilla_dods dods =
    (let total_bits = sum_list (map gorilla_dod_bits dods)
     in gorilla_put_all dods (replicate (div_ceil total_bits 8) 0) 0)"

text \<open>The \<open>while\<close> over the control prefix (a terminating \<open>0\<close> is consumed).\<close>

function get_ones :: "u8 list \<Rightarrow> nat \<Rightarrow> nat \<Rightarrow> nat \<times> nat" where
  "get_ones bytes ones pos =
    (if ones < 4
     then let (b, pos') = gorilla_get_bits bytes pos 1
          in if b = 1 then get_ones bytes (ones + 1) pos' else (ones, pos')
     else (ones, pos))"
  by pat_completeness auto
termination by (relation "measure (\<lambda>(bytes, ones, pos). 4 - ones)") auto

declare get_ones.simps [simp del]

definition gorilla_get_dod :: "u8 list \<Rightarrow> nat \<Rightarrow> i64 \<times> nat" where
  "gorilla_get_dod bytes pos =
    (let (ones, pos1) = get_ones bytes 0 pos
     in if ones = 0 then (0, pos1)
        else if ones = 1 then let (v, pos2) = gorilla_get_bits bytes pos1 7 in (v - (push_bit 6 1 - 1), pos2)
        else if ones = 2 then let (v, pos2) = gorilla_get_bits bytes pos1 9 in (v - (push_bit 8 1 - 1), pos2)
        else if ones = 3 then let (v, pos2) = gorilla_get_bits bytes pos1 12 in (v - (push_bit 11 1 - 1), pos2)
        else gorilla_get_bits bytes pos1 64)"

fun gorilla_get_all :: "u8 list \<Rightarrow> nat \<Rightarrow> nat \<Rightarrow> i64 list" where
  "gorilla_get_all bytes 0 pos = []"
| "gorilla_get_all bytes (Suc count) pos =
    (let (dod, pos') = gorilla_get_dod bytes pos in dod # gorilla_get_all bytes count pos')"

definition decode_gorilla_dods :: "u8 list \<Rightarrow> nat \<Rightarrow> i64 list" where
  "decode_gorilla_dods bytes count = gorilla_get_all bytes count 0"

subsection \<open>The bits of one value\<close>

definition gorilla_payload :: "i64 \<Rightarrow> u64" where
  "gorilla_payload dod =
    (let (ones, width) = gorilla_control dod in if width = 64 then dod else dod + gorilla_bias width)"

definition gorilla_code :: "i64 \<Rightarrow> nat \<Rightarrow> bool" where
  "gorilla_code dod i =
    (let (ones, width) = gorilla_control dod; head = (if ones < 4 then ones + 1 else ones)
     in i < ones \<or> (head \<le> i \<and> i < head + width \<and> bit (gorilla_payload dod) (i - head)))"

lemma gorilla_control_cases:
  obtains "dod = 0" "gorilla_control dod = (0, 0)" "gorilla_dod_bits dod = 1"
  | "- 63 \<le> sint dod" "sint dod \<le> 64" "gorilla_control dod = (1, 7)" "gorilla_dod_bits dod = 9"
  | "- 255 \<le> sint dod" "sint dod \<le> 256" "gorilla_control dod = (2, 9)" "gorilla_dod_bits dod = 12"
  | "- 2047 \<le> sint dod" "sint dod \<le> 2048" "gorilla_control dod = (3, 12)" "gorilla_dod_bits dod = 16"
  | "gorilla_control dod = (4, 64)" "gorilla_dod_bits dod = 68"
proof -
  consider (a) "dod = 0" | (b) "dod \<noteq> 0" "- 63 \<le> sint dod \<and> sint dod \<le> 64"
    | (c) "dod \<noteq> 0" "\<not> (- 63 \<le> sint dod \<and> sint dod \<le> 64)" "- 255 \<le> sint dod \<and> sint dod \<le> 256"
    | (d) "dod \<noteq> 0" "\<not> (- 63 \<le> sint dod \<and> sint dod \<le> 64)" "\<not> (- 255 \<le> sint dod \<and> sint dod \<le> 256)"
      "- 2047 \<le> sint dod \<and> sint dod \<le> 2048"
    | (e) "dod \<noteq> 0" "\<not> (- 63 \<le> sint dod \<and> sint dod \<le> 64)" "\<not> (- 255 \<le> sint dod \<and> sint dod \<le> 256)"
      "\<not> (- 2047 \<le> sint dod \<and> sint dod \<le> 2048)"
    by blast
  then show thesis
  proof cases
    case a then show ?thesis by (intro that(1)) (simp_all add: gorilla_control_def gorilla_dod_bits_def)
  next
    case b then show ?thesis by (intro that(2)) (simp_all add: gorilla_control_def gorilla_dod_bits_def)
  next
    case c then show ?thesis by (intro that(3)) (simp_all add: gorilla_control_def gorilla_dod_bits_def)
  next
    case d then show ?thesis by (intro that(4)) (simp_all add: gorilla_control_def gorilla_dod_bits_def)
  next
    case e then show ?thesis by (intro that(5)) (simp_all add: gorilla_control_def gorilla_dod_bits_def)
  qed
qed

lemma snd_put_ones [simp]: "snd (put_ones n out pos) = pos + n"
  by (induction n out pos rule: put_ones.induct) (simp_all add: gorilla_put_bits_def)

lemma length_put_ones [simp]: "length (fst (put_ones n out pos)) = length out"
  by (induction n out pos rule: put_ones.induct) (simp_all add: gorilla_put_bits_def)

lemma bit_at_put_ones:
  "bit_at (fst (put_ones n out pos)) j =
    (bit_at out j \<or> (j div 8 < length out \<and> pos \<le> j \<and> j < pos + n))"
  by (induction n out pos rule: put_ones.induct)
     (auto simp: gorilla_put_bits_def bit_at_simps bit_1_iff)

lemma gorilla_put_dod_bits:
  shows "snd (gorilla_put_dod dod out pos) = pos + gorilla_dod_bits dod"
    and "length (fst (gorilla_put_dod dod out pos)) = length out"
    and "bit_at (fst (gorilla_put_dod dod out pos)) j =
      (bit_at out j \<or> (j div 8 < length out \<and> pos \<le> j \<and> j < pos + gorilla_dod_bits dod \<and> gorilla_code dod (j - pos)))"
proof -
  obtain ones width where c: "gorilla_control dod = (ones, width)" by fastforce
  define head where "head = (if ones < 4 then ones + 1 else ones)"
  have w: "width \<le> 64" "gorilla_dod_bits dod = head + width" "ones \<le> head"
    using c by (cases dod rule: gorilla_control_cases; simp add: head_def)+
  define out2 where "out2 = (if ones < 4 then write_bits (fst (put_ones ones out pos)) (pos + ones) 0 1
      else fst (put_ones ones out pos))"
  have p: "put_ones ones out pos = (fst (put_ones ones out pos), pos + ones)"
    by (metis prod.collapse snd_put_ones)
  have put: "gorilla_put_dod dod out pos = (write_bits out2 (pos + head) (gorilla_payload dod) width, pos + head + width)"
    unfolding gorilla_put_dod_def c prod.case Let_def
    by (subst p) (simp add: gorilla_put_bits_def out2_def head_def gorilla_payload_def c write_bits_def [of _ _ _ 0])
  have len: "length out2 = length out" by (simp add: out2_def)
  have b2: "bit_at out2 j = (bit_at out j \<or> (j div 8 < length out \<and> pos \<le> j \<and> j < pos + ones))"
    by (simp add: out2_def bit_at_put_ones bit_at_simps)
  show "snd (gorilla_put_dod dod out pos) = pos + gorilla_dod_bits dod"
    and "length (fst (gorilla_put_dod dod out pos)) = length out"
    by (simp_all add: put w(2) len)
  show "bit_at (fst (gorilla_put_dod dod out pos)) j =
      (bit_at out j \<or> (j div 8 < length out \<and> pos \<le> j \<and> j < pos + gorilla_dod_bits dod \<and> gorilla_code dod (j - pos)))"
    using w by (auto simp: put bit_at_simps b2 len gorilla_code_def c Let_def simp flip: head_def)
qed

text \<open>What a buffer must hold at a cursor for a list of values to be read there.\<close>

fun holds_code :: "u8 list \<Rightarrow> nat \<Rightarrow> i64 list \<Rightarrow> bool" where
  "holds_code bytes pos [] = True"
| "holds_code bytes pos (d # ds) =
    ((\<forall>i < gorilla_dod_bits d. bit_at bytes (pos + i) = gorilla_code d i) \<and>
     holds_code bytes (pos + gorilla_dod_bits d) ds)"

lemma gorilla_put_all_holds:
  assumes "pos + sum_list (map gorilla_dod_bits dods) \<le> 8 * length out"
    and "\<And>j. pos \<le> j \<Longrightarrow> \<not> bit_at out j"
  shows "holds_code (gorilla_put_all dods out pos) pos dods \<and>
    (\<forall>j<pos. bit_at (gorilla_put_all dods out pos) j = bit_at out j) \<and>
    length (gorilla_put_all dods out pos) = length out"
  using assms
proof (induction dods arbitrary: out pos)
  case (Cons d ds)
  let ?out = "fst (gorilla_put_dod d out pos)" and ?pos = "pos + gorilla_dod_bits d"
  note put = gorilla_put_dod_bits [of d out pos]
  have all: "gorilla_put_all (d # ds) out pos = gorilla_put_all ds ?out ?pos"
    using put(1) by (simp add: split_def Let_def)
  have IH: "holds_code (gorilla_put_all ds ?out ?pos) ?pos ds \<and>
    (\<forall>j<?pos. bit_at (gorilla_put_all ds ?out ?pos) j = bit_at ?out j) \<and>
    length (gorilla_put_all ds ?out ?pos) = length ?out"
    using Cons.prems put(2) by (intro Cons.IH) (auto simp: put(3))
  have "bit_at ?out (pos + i) = gorilla_code d i" if "i < gorilla_dod_bits d" for i
  proof -
    have "(pos + i) div 8 < length out"
      using Cons.prems(1) that by (simp add: div_less_iff_less_mult mult.commute)
    then show ?thesis using that Cons.prems(2) [of "pos + i"] by (simp add: put(3))
  qed
  moreover have "bit_at ?out j = bit_at out j" if "j < pos" for j
    using that by (simp add: put(3))
  ultimately show ?case using IH put(2) unfolding all by simp
qed simp

lemma uint_bias:
  fixes d :: i64
  assumes "- c \<le> sint d" "0 \<le> c" "c < 2 ^ 20" "sint d \<le> 2 ^ 20"
  shows "uint (d + word_of_int c) = sint d + c"
proof -
  have "d + word_of_int c = word_of_int (sint d + c)" by simp
  moreover have "0 \<le> sint d + c" "sint d + c < 2 ^ 64" using assms by auto
  ultimately show ?thesis by (simp only: uint_word_of_int) (simp add: mod_pos_pos_trivial)
qed

lemma take_bit_uint_less: "uint (w :: u64) < 2 ^ n \<Longrightarrow> take_bit n w = w"
  by (metis take_bit_int_eq_self uint_ge_0 unsigned_take_bit_eq word_uint_eqI)

lemma gorilla_payload_fits:
  assumes "gorilla_control dod = (ones, width)" "width \<noteq> 0" "width \<noteq> 64"
  shows "take_bit width (dod + gorilla_bias width) = dod + gorilla_bias width"
  using assms
  by (cases dod rule: gorilla_control_cases)
     (auto simp: gorilla_bias_def intro!: take_bit_uint_less simp: uint_bias [of 63, simplified] uint_bias [of 255, simplified] uint_bias [of 2047, simplified])

lemma read_bits_code:
  assumes "\<And>i. i < width \<Longrightarrow> bit_at bytes (pos + i) = bit v i" "width \<le> 64"
  shows "read_bits bytes pos width = take_bit width v"
  by (rule bit_word_eqI) (use assms in \<open>auto simp: bit_at_simps bit_take_bit_iff\<close>)

lemma get_ones_step:
  "get_ones bytes ones pos =
    (if ones < 4 then if bit_at bytes pos then get_ones bytes (Suc ones) (Suc pos) else (ones, Suc pos) else (ones, pos))"
proof -
  have "read_bits bytes pos 1 = of_bool (bit_at bytes pos)"
    by (rule bit_word_eqI) (auto simp: bit_at_simps bit_of_bool_iff)
  then show ?thesis by (subst get_ones.simps) (simp add: gorilla_get_bits_def)
qed

lemma get_ones_run:
  "\<forall>i < n. bit_at bytes (pos + i) \<Longrightarrow> k + n \<le> 4 \<Longrightarrow> get_ones bytes k pos = get_ones bytes (k + n) (pos + n)"
proof (induction n arbitrary: k pos)
  case (Suc n)
  have "bit_at bytes pos" "\<forall>i < n. bit_at bytes (Suc pos + i)"
    using Suc.prems(1) by (force, metis Suc_less_eq add_Suc add_Suc_right)
  then show ?case
    using Suc.IH [of "Suc pos" "Suc k"] Suc.prems(2) by (subst get_ones_step) simp
qed simp

lemma gorilla_get_dod_code:
  assumes "\<forall>i < gorilla_dod_bits dod. bit_at bytes (pos + i) = gorilla_code dod i"
  shows "gorilla_get_dod bytes pos = (dod, pos + gorilla_dod_bits dod)"
proof -
  obtain ones width where c: "gorilla_control dod = (ones, width)" by fastforce
  define head where "head = (if ones < 4 then ones + 1 else ones)"
  have w: "width \<le> 64" "gorilla_dod_bits dod = head + width" "ones \<le> head" "ones \<le> 4"
    using c by (cases dod rule: gorilla_control_cases; simp add: head_def)+
  have "get_ones bytes 0 pos = get_ones bytes ones (pos + ones)"
    using assms w get_ones_run [of ones bytes pos 0] by (auto simp: gorilla_code_def c Let_def)
  also have "\<dots> = (ones, pos + head)"
    using assms w by (subst get_ones_step) (auto simp: head_def gorilla_code_def c Let_def)
  finally have ones: "get_ones bytes 0 pos = (ones, pos + head)" .
  have "read_bits bytes (pos + head) width = take_bit width (gorilla_payload dod)"
  proof (rule read_bits_code)
    fix i
    assume "i < width"
    moreover from this have "bit_at bytes (pos + (head + i)) = gorilla_code dod (head + i)"
      using assms w(2) by simp
    ultimately show "bit_at bytes (pos + head + i) = bit (gorilla_payload dod) i"
      using w(3) by (simp add: gorilla_code_def c Let_def add.assoc flip: head_def)
  qed (rule w(1))
  also have "take_bit width (gorilla_payload dod) = gorilla_payload dod" if "width \<noteq> 0"
    using gorilla_payload_fits [OF c] that
    by (auto simp: gorilla_payload_def c take_bit_word_eq_self)
  finally have read: "width \<noteq> 0 \<Longrightarrow> read_bits bytes (pos + head) width = gorilla_payload dod" .
  show ?thesis
    using c read w(2) ones
    by (cases dod rule: gorilla_control_cases)
       (auto simp: gorilla_get_dod_def gorilla_get_bits_def gorilla_payload_def gorilla_bias_def head_def)
qed

lemma gorilla_get_all_code: "holds_code bytes pos dods \<Longrightarrow> gorilla_get_all bytes (length dods) pos = dods"
proof (induction bytes pos dods rule: holds_code.induct)
  case (2 bytes pos d ds)
  then have "gorilla_get_dod bytes pos = (d, pos + gorilla_dod_bits d)"
    by (intro gorilla_get_dod_code) simp
  with 2 show ?case by simp
qed simp

lemma decode_encode_gorilla: "decode_gorilla_dods (encode_gorilla_dods dods) (length dods) = dods"
proof -
  let ?bits = "sum_list (map gorilla_dod_bits dods)"
  have "0 + ?bits \<le> 8 * length (replicate (div_ceil ?bits 8) 0 :: u8 list)"
    using div_ceil_le [of 8 ?bits] by simp
  then have "holds_code (encode_gorilla_dods dods) 0 dods"
    unfolding encode_gorilla_dods_def Let_def
    by (intro gorilla_put_all_holds [THEN conjunct1]) simp_all
  then show ?thesis by (simp add: decode_gorilla_dods_def gorilla_get_all_code)
qed

lemma length_encode_gorilla: "length (encode_gorilla_dods dods) = gorilla_bytes dods"
proof -
  have "length (gorilla_put_all dods out pos) = length out" for out pos
    by (induction dods arbitrary: out pos) (simp_all add: split_def Let_def gorilla_put_dod_bits(2))
  then show ?thesis by (simp add: encode_gorilla_dods_def gorilla_bytes_def Let_def)
qed

lemma length_decode_gorilla [simp]: "length (decode_gorilla_dods bytes count) = count"
proof -
  have "length (gorilla_get_all bytes count pos) = count" for pos
    by (induction count arbitrary: pos) (simp_all add: split_def Let_def)
  then show ?thesis by (simp add: decode_gorilla_dods_def)
qed

subsection \<open>Properties\<close>

subsection \<open>Further facts\<close>

text \<open>
  The Gorilla bit stream decodes to the second differences it encodes, for every i64 and every mix
  of its five buckets, and its length is the advertised size.
\<close>

lemma gorilla_codec_exact:
  shows "decode_gorilla_dods (encode_gorilla_dods dods) (length dods) = dods \<and>
    length (encode_gorilla_dods dods) = gorilla_bytes dods"
  by (simp add: decode_encode_gorilla length_encode_gorilla)

end
