(* ===== verification/Transpose.thy ===== *)
theory Transpose imports Bitpack begin

text \<open>
  The bit-sliced codec (\<open>transpose_*\<close> of \<^verbatim>\<open>weft-physical-type/src/timestamp.rs\<close>): a tile is stored
  as bit-planes. The whole-tile decoder gathers eight lanes and eight planes at a time through the
  \<open>SPREAD\<close> table; it is shown equal to reading every lane on its own, and the codec is an instance
  of the block contract. Plane \<open>b\<close> of a tile starts at byte \<open>b * plane_bytes\<close>, so bit \<open>b\<close> of lane
  \<open>l\<close> is bit \<open>8 * (b * plane_bytes) + l\<close> of the planes.
\<close>

unbundle bit_operations_syntax

definition transpose_tile :: nat where "transpose_tile = 1024"

definition transpose_bitpack_bytes :: "i64 list \<Rightarrow> nat \<Rightarrow> nat" where
  "transpose_bitpack_bytes vs tile0 =
    (if vs = [] then 0
     else let tile = max tile0 1
       in sum_list (map (\<lambda>chunk. 1 + bitpack_width chunk * div_ceil (length chunk) 8) (chunks tile vs)))"

text \<open>\<open>out[start + b * plane_bytes + byte] |= mask\<close> for every set bit of one lane.\<close>

definition transpose_put_lane :: "nat \<Rightarrow> nat \<Rightarrow> nat \<Rightarrow> i64 \<Rightarrow> u8 list \<Rightarrow> u8 list" where
  "transpose_put_lane width plane_bytes lane v out =
    (let zz = zigzag v; byte = lane div 8; mask = push_bit (lane mod 8) 1
     in foldl (\<lambda>o' b. if drop_bit b zz AND 1 = 1
                      then o'[b * plane_bytes + byte := (o' ! (b * plane_bytes + byte)) OR mask] else o')
          out [0..<width])"

fun transpose_put_lanes :: "nat \<Rightarrow> nat \<Rightarrow> nat \<Rightarrow> i64 list \<Rightarrow> u8 list \<Rightarrow> u8 list" where
  "transpose_put_lanes width plane_bytes lane [] out = out"
| "transpose_put_lanes width plane_bytes lane (v # vs) out =
    transpose_put_lanes width plane_bytes (Suc lane) vs (transpose_put_lane width plane_bytes lane v out)"

definition transpose_chunk :: "i64 list \<Rightarrow> u8 list" where
  "transpose_chunk chunk =
    (let width = bitpack_width chunk; plane_bytes = div_ceil (length chunk) 8
     in u8_try_from width 64 #
        (if width = 0 then []
         else transpose_put_lanes width plane_bytes 0 chunk (replicate (width * plane_bytes) 0)))"

definition transpose_bitpack_encode :: "i64 list \<Rightarrow> nat \<Rightarrow> u8 list" where
  "transpose_bitpack_encode vs tile0 =
    (let tile = max tile0 1 in concat (map transpose_chunk (chunks tile vs)))"

subsection \<open>Decoding a tile\<close>

definition spread_entry :: "nat \<Rightarrow> u64" where
  "spread_entry byte =
    foldl (\<lambda>t k. if drop_bit k byte AND 1 = 1 then t OR push_bit (8 * k) 1 else t) 0 [0..<8]"

definition spread_table :: "u64 list" where
  "spread_table = map spread_entry [0..<256]"

text \<open>The spread of one byte column: planes \<open>grp ..< min (grp + 8) width\<close> at \<open>column\<close>.\<close>

definition column_spread :: "u8 list \<Rightarrow> nat \<Rightarrow> nat \<Rightarrow> nat \<Rightarrow> nat \<Rightarrow> u64" where
  "column_spread planes width plane_bytes grp column =
    foldl (\<lambda>s j. s OR push_bit j (spread_table ! unat (planes ! ((grp + j) * plane_bytes + column))))
      0 [0..<min (grp + 8) width - grp]"

text \<open>\<open>lanes.chunks_mut(8).enumerate()\<close>: lane \<open>l\<close> is number \<open>l mod 8\<close> of column \<open>l div 8\<close>.\<close>

definition transpose_group :: "u8 list \<Rightarrow> nat \<Rightarrow> nat \<Rightarrow> nat \<Rightarrow> u64 list \<Rightarrow> u64 list" where
  "transpose_group planes width plane_bytes grp lanes =
    map (\<lambda>l. let column = l div 8; k = l mod 8; spread = column_spread planes width plane_bytes grp column
             in lanes ! l OR push_bit grp (drop_bit (8 * k) spread AND 0xFF)) [0..<length lanes]"

function transpose_groups :: "u8 list \<Rightarrow> nat \<Rightarrow> nat \<Rightarrow> nat \<Rightarrow> u64 list \<Rightarrow> u64 list" where
  "transpose_groups planes width plane_bytes grp lanes =
    (if grp < width
     then transpose_groups planes width plane_bytes (grp + 8) (transpose_group planes width plane_bytes grp lanes)
     else lanes)"
  by pat_completeness auto
termination by (relation "measure (\<lambda>(planes, width, plane_bytes, grp, lanes). width - grp)") auto

declare transpose_groups.simps [simp del]

definition transpose_tile_decode :: "u8 list \<Rightarrow> nat \<Rightarrow> nat \<Rightarrow> i64 list" where
  "transpose_tile_decode planes width0 len =
    (if width0 = 0 then replicate len 0
     else let width = min width0 64;
              plane_bytes = div_ceil len 8;
              need = width * plane_bytes;
              padded = (if need \<le> length planes then take need planes
                        else planes @ replicate (need - length planes) 0)
          in map unzigzag (transpose_groups padded width plane_bytes 0 (replicate len 0)))"

definition transpose_lane_decode :: "u8 list \<Rightarrow> nat \<Rightarrow> nat \<Rightarrow> nat \<Rightarrow> i64" where
  "transpose_lane_decode planes width len lane =
    (let plane_bytes = div_ceil len 8; byte = lane div 8; shift = lane mod 8
     in unzigzag (foldl (\<lambda>zz b.
          if b * plane_bytes + byte < length planes \<and>
             drop_bit shift (planes ! (b * plane_bytes + byte)) AND 1 = 1
          then zz OR push_bit b 1 else zz) 0 [0..<min width 64]))"

subsection \<open>Decoding a stream\<close>

function transpose_decode_loop :: "u8 list \<Rightarrow> nat \<Rightarrow> nat \<Rightarrow> nat \<Rightarrow> i64 list" where
  "transpose_decode_loop bytes tile pos remaining =
    (if 0 < remaining \<and> 0 < tile
     then let len = min remaining tile;
              width = unat (byte_at bytes pos);
              pos1 = pos + 1;
              plane_bytes = div_ceil len 8;
              data_len = width * plane_bytes;
              planes = get_slice bytes pos1 data_len
          in transpose_tile_decode planes width len @
             transpose_decode_loop bytes tile (pos1 + data_len) (remaining - len)
     else [])"
  by pat_completeness auto
termination by (relation "measure (\<lambda>(bytes, tile, pos, remaining). remaining)") auto

definition transpose_bitpack_decode :: "u8 list \<Rightarrow> nat \<Rightarrow> nat \<Rightarrow> i64 list" where
  "transpose_bitpack_decode bytes tile0 count = transpose_decode_loop bytes (max tile0 1) 0 count"

definition transpose_part :: "nat \<Rightarrow> u8 list \<Rightarrow> nat \<Rightarrow> nat \<Rightarrow> nat \<Rightarrow> i64 list" where
  "transpose_part width planes tile_len lo hi =
    (if hi - lo < gather_whole_tile_threshold
     then map (\<lambda>lane. transpose_lane_decode planes width tile_len lane) [lo..<hi]
     else drop lo (take hi (transpose_tile_decode planes width tile_len)))"

function transpose_range_loop ::
  "u8 list \<Rightarrow> nat \<Rightarrow> nat \<Rightarrow> nat \<Rightarrow> nat \<Rightarrow> nat \<Rightarrow> nat \<Rightarrow> i64 list" where
  "transpose_range_loop bytes tile count start len pos idx =
    (let fin = min (start + len) count
     in if idx < fin \<and> 0 < tile
        then let tile_len = min tile (count - idx);
                 width = unat (byte_at bytes pos);
                 pos1 = pos + 1;
                 data_len = width * div_ceil tile_len 8;
                 found = (if start < idx + tile_len
                   then let planes = get_slice bytes pos1 data_len;
                            lo = start - idx;
                            hi = min (fin - idx) tile_len
                        in transpose_part width planes tile_len lo hi
                   else [])
             in found @ transpose_range_loop bytes tile count start len (pos1 + data_len) (idx + tile_len)
        else [])"
  by pat_completeness auto
termination by (relation "measure (\<lambda>(bytes, tile, count, start, len, pos, idx). count - idx)") auto

declare transpose_decode_loop.simps [simp del] transpose_range_loop.simps [simp del]

definition transpose_bitpack_decode_range :: "u8 list \<Rightarrow> nat \<Rightarrow> nat \<Rightarrow> nat \<Rightarrow> nat \<Rightarrow> i64 list" where
  "transpose_bitpack_decode_range bytes tile0 count start len =
    (let tile = max tile0 1; fin = min (start + len) count
     in if fin \<le> start then [] else transpose_range_loop bytes tile count start len 0 0)"

definition transpose_next_block :: "u8 list \<Rightarrow> nat \<Rightarrow> nat \<Rightarrow> nat \<times> nat \<times> nat" where
  "transpose_next_block b pos tile_len =
    (let width = unat (byte_at b pos) in (1, width * div_ceil tile_len 8, width))"

definition transpose_pick :: "nat \<Rightarrow> u8 list \<Rightarrow> nat \<Rightarrow> nat list \<Rightarrow> i64 list" where
  "transpose_pick width planes tile_len lanes =
    (if gather_whole_tile_threshold \<le> length lanes
     then let decoded = transpose_tile_decode planes width tile_len in map (\<lambda>l. decoded ! l) lanes
     else map (\<lambda>l. transpose_lane_decode planes width tile_len l) lanes)"

definition transpose_bitpack_decode_gather :: "u8 list \<Rightarrow> nat \<Rightarrow> nat \<Rightarrow> nat list \<Rightarrow> i64 option list option" where
  "transpose_bitpack_decode_gather bytes tile count indices =
    gather_walk bytes tile count indices transpose_next_block transpose_pick"

subsection \<open>The spread decoder reads every lane\<close>

lemma foldl_or_bit:
  "bit (foldl (\<lambda>t k. t OR f k) (t :: 'a::len word) ks) i = (bit t i \<or> (\<exists>k\<in>set ks. bit (f k) i))"
  by (induction ks arbitrary: t) (auto simp: bit_or_iff)

lemma drop_bit_and_1: "drop_bit k (x :: 'a::semiring_bit_operations) AND 1 = 1 \<longleftrightarrow> bit x k"
  by (simp add: and_one_eq bit_iff_odd_drop_bit odd_iff_mod_2_eq_one)

lemma bit_spread_entry: "bit (spread_entry byte) i = (i < 64 \<and> i mod 8 = 0 \<and> bit byte (i div 8))"
proof -
  have "spread_entry byte = foldl (\<lambda>t k. t OR (if bit byte k then push_bit (8 * k) 1 else 0)) 0 [0..<8]"
    unfolding spread_entry_def drop_bit_and_1 by (rule foldl_cong) auto
  then have "bit (spread_entry byte) i = (\<exists>k<8. bit (if bit byte k then push_bit (8 * k) 1 else 0 :: u64) i)"
    by (simp add: foldl_or_bit Bex_def)
  also have "\<dots> = (\<exists>k<8. bit byte k \<and> i = 8 * k)"
    by (auto simp: bit_push_bit_iff bit_1_iff simp del: push_bit_of_1)
  also have "\<dots> = (i < 64 \<and> i mod 8 = 0 \<and> bit byte (i div 8))" by auto
  finally show ?thesis .
qed

lemma bit_spread_table: "bit (spread_table ! unat (b :: u8)) i = (i < 64 \<and> i mod 8 = 0 \<and> bit b (i div 8))"
proof -
  have "unat b < 256" using unsigned_less [of b] by simp
  moreover have "bit (unat b) j = bit b j" for j by (simp add: bit_unsigned_iff)
  ultimately show ?thesis by (simp add: spread_table_def bit_spread_entry)
qed

lemma spread_shift:
  assumes "j < 8" "r < (8 :: nat)"
  shows "j \<le> 8 * k + r \<and> (8 * k + r - j) mod 8 = 0 \<longleftrightarrow> j = r"
proof (cases "j \<le> r")
  case True
  then have "8 * k + r - j = (r - j) + 8 * k" by simp
  then have "(8 * k + r - j) mod 8 = (r - j) mod 8" by (simp only: mod_mult_self2)
  with True assms show ?thesis by auto
next
  case False
  show ?thesis
  proof (cases k)
    case (Suc m)
    then have "8 * k + r - j = (8 + r - j) + 8 * m" using False assms by simp
    then have "(8 * k + r - j) mod 8 = (8 + r - j) mod 8" by (simp only: mod_mult_self2)
    with False assms show ?thesis by auto
  qed (use False in simp)
qed

lemma bit_column_spread:
  assumes "k < 8" "r < 8"
  shows "bit (column_spread planes width pb grp column) (8 * k + r) =
    (grp + r < width \<and> bit (planes ! ((grp + r) * pb + column)) k)"
proof -
  have "bit (column_spread planes width pb grp column) (8 * k + r) =
    (\<exists>j < min (grp + 8) width - grp. bit (push_bit j (spread_table ! unat (planes ! ((grp + j) * pb + column)))) (8 * k + r))"
    by (simp add: column_spread_def foldl_or_bit Bex_def)
  also have "\<dots> = (\<exists>j. j = r \<and> j < min (grp + 8) width - grp \<and> bit (planes ! ((grp + j) * pb + column)) k)"
  proof (rule ex_cong1)
    fix j
    have "j \<le> 8 * k + r \<and> (8 * k + r - j) mod 8 = 0 \<longleftrightarrow> j = r" if "j < 8"
      using that assms(2) by (rule spread_shift)
    moreover have "8 * k + r < 64" using assms by linarith
    ultimately show "(j < min (grp + 8) width - grp \<and>
        bit (push_bit j (spread_table ! unat (planes ! ((grp + j) * pb + column)))) (8 * k + r)) =
      (j = r \<and> j < min (grp + 8) width - grp \<and> bit (planes ! ((grp + j) * pb + column)) k)"
      using assms by (cases "j = r") (auto simp: bit_push_bit_iff bit_spread_table)
  qed
  also have "\<dots> = (grp + r < width \<and> bit (planes ! ((grp + r) * pb + column)) k)"
    using assms(2) by auto
  finally show ?thesis .
qed

lemma and_0xFF: "(w :: u64) AND 0xFF = take_bit 8 w"
  by (simp add: take_bit_eq_mask mask_eq_exp_minus_1)

lemma bit_transpose_group:
  assumes "l < length lanes" "grp mod 8 = 0" "width \<le> 64"
  shows "bit (transpose_group planes width pb grp lanes ! l) i =
    (bit (lanes ! l) i \<or>
     (grp \<le> i \<and> i < grp + 8 \<and> i < width \<and> bit (planes ! (i * pb + l div 8)) (l mod 8)))"
proof (cases "grp \<le> i \<and> i < grp + 8")
  case True
  then obtain r where r: "i = grp + r" "r < 8" by (metis add_less_cancel_left le_Suc_ex)
  have "bit (transpose_group planes width pb grp lanes ! l) i =
      (bit (lanes ! l) i \<or> (i < 64 \<and> bit (column_spread planes width pb grp (l div 8)) (8 * (l mod 8) + r)))"
    using assms(1) r by (simp add: transpose_group_def and_0xFF Let_def bit_simps)
  also have "\<dots> = (bit (lanes ! l) i \<or> (i < width \<and> bit (planes ! (i * pb + l div 8)) (l mod 8)))"
    using r assms(3) by (auto simp: bit_column_spread)
  finally show ?thesis using True by simp
next
  case False
  then show ?thesis
    using assms(1) by (auto simp: transpose_group_def and_0xFF Let_def bit_simps)
qed

lemma length_transpose_group [simp]: "length (transpose_group planes width pb grp lanes) = length lanes"
  by (simp add: transpose_group_def)

lemma length_transpose_groups [simp]: "length (transpose_groups planes width pb grp lanes) = length lanes"
proof (induction planes width pb grp lanes rule: transpose_groups.induct)
  case (1 planes width pb grp lanes)
  then show ?case by (subst transpose_groups.simps) simp
qed

lemma bit_transpose_groups:
  assumes "l < length lanes" "grp mod 8 = 0" "width \<le> 64"
  shows "bit (transpose_groups planes width pb grp lanes ! l) i =
    (bit (lanes ! l) i \<or> (grp \<le> i \<and> i < width \<and> bit (planes ! (i * pb + l div 8)) (l mod 8)))"
  using assms
proof (induction planes width pb grp lanes rule: transpose_groups.induct)
  case (1 planes width pb grp lanes)
  show ?case
  proof (cases "grp < width")
    case True
    have "bit (transpose_groups planes width pb (grp + 8) (transpose_group planes width pb grp lanes) ! l) i =
      (bit (transpose_group planes width pb grp lanes ! l) i \<or>
       (grp + 8 \<le> i \<and> i < width \<and> bit (planes ! (i * pb + l div 8)) (l mod 8)))"
      using "1.prems" True by (intro "1.IH") auto
    with True "1.prems" show ?thesis
      by (subst transpose_groups.simps) (auto simp: bit_transpose_group)
  next
    case False
    then show ?thesis by (subst transpose_groups.simps) auto
  qed
qed

lemma plane_index:
  assumes "l < len" "b < width"
  shows "b * div_ceil len 8 + l div 8 < width * div_ceil len 8"
proof -
  have "l div 8 < div_ceil len 8" using assms(1) by (intro div_less_div_ceil) simp_all
  then have "b * div_ceil len 8 + l div 8 < Suc b * div_ceil len 8" by simp
  also have "\<dots> \<le> width * div_ceil len 8" using assms(2) by (intro mult_le_mono1) simp
  finally show ?thesis .
qed

lemma bit_at_planes:
  assumes "l < len"
  shows "bit_at planes (8 * (b * div_ceil len 8) + l) =
    (b * div_ceil len 8 + l div 8 < length planes \<and> bit (planes ! (b * div_ceil len 8 + l div 8)) (l mod 8))"
  by (simp add: bit_at_def)

lemma bit_lane_decode:
  assumes "l < len"
  shows "bit (zigzag (transpose_lane_decode planes width len l)) b =
    (b < min width 64 \<and> bit_at planes (8 * (b * div_ceil len 8) + l))"
proof -
  let ?g = "\<lambda>b. if b * div_ceil len 8 + l div 8 < length planes \<and> bit (planes ! (b * div_ceil len 8 + l div 8)) (l mod 8)
    then push_bit b 1 else (0 :: u64)"
  have "zigzag (transpose_lane_decode planes width len l) = foldl (\<lambda>zz b. zz OR ?g b) 0 [0..<min width 64]"
    unfolding transpose_lane_decode_def Let_def drop_bit_and_1 zigzag_unzigzag by (rule foldl_cong) auto
  then have "bit (zigzag (transpose_lane_decode planes width len l)) b = (\<exists>c<min width 64. bit (?g c) b)"
    by (simp add: foldl_or_bit Bex_def)
  also have "\<dots> = (b < min width 64 \<and> bit_at planes (8 * (b * div_ceil len 8) + l))"
    unfolding bit_at_planes [OF assms]
    by (auto simp: bit_push_bit_iff bit_1_iff simp del: push_bit_of_1 split: if_splits)
  finally show ?thesis .
qed

lemma length_tile_decode [simp]: "length (transpose_tile_decode planes width len) = len"
  by (simp add: transpose_tile_decode_def Let_def)

lemma bit_tile_decode:
  assumes "l < len"
  shows "bit (zigzag (transpose_tile_decode planes width len ! l)) b =
    (b < min width 64 \<and> bit_at planes (8 * (b * div_ceil len 8) + l))"
proof (cases "width = 0")
  case False
  let ?w = "min width 64" and ?need = "min width 64 * div_ceil len 8"
  let ?P = "if ?need \<le> length planes then take ?need planes else planes @ replicate (?need - length planes) 0"
  have "bit (zigzag (transpose_tile_decode planes width len ! l)) b =
      (b < ?w \<and> bit (?P ! (b * div_ceil len 8 + l div 8)) (l mod 8))"
    using False assms by (simp add: transpose_tile_decode_def Let_def bit_transpose_groups)
  also have "\<dots> = (b < ?w \<and> bit_at planes (8 * (b * div_ceil len 8) + l))"
    unfolding bit_at_planes [OF assms] using plane_index [OF assms, of b ?w] by (auto simp: nth_append)
  finally show ?thesis .
qed (use assms in \<open>simp add: transpose_tile_decode_def\<close>)

lemma tile_decode_lane:
  "l < len \<Longrightarrow> transpose_tile_decode planes width len ! l = transpose_lane_decode planes width len l"
  by (rule zigzag_inject [THEN iffD1], rule bit_word_eqI) (simp add: bit_tile_decode bit_lane_decode)

subsection \<open>What the encoder stores\<close>

lemma bit_at_set_bit:
  assumes "k < 8"
  shows "bit_at (out[i := (out ! i) OR push_bit k 1]) p = (bit_at out p \<or> (i < length out \<and> p = 8 * i + k))"
proof -
  have "p = 8 * i + k \<longleftrightarrow> p div 8 = i \<and> p mod 8 = k"
    using assms mult_div_mod_eq [of 8 p] by auto
  then show ?thesis
    by (cases "p div 8 = i") (auto simp: bit_at_def bit_simps nth_list_update simp del: push_bit_of_1)
qed

lemma put_lane:
  assumes "lane < 8 * pb" "n * pb \<le> length out"
  shows "length (foldl (\<lambda>o' b. if drop_bit b zz AND 1 = 1
        then o'[b * pb + lane div 8 := (o' ! (b * pb + lane div 8)) OR push_bit (lane mod 8) 1] else o') out [0..<n]) = length out \<and>
    bit_at (foldl (\<lambda>o' b. if drop_bit b (zz :: u64) AND 1 = 1
        then o'[b * pb + lane div 8 := (o' ! (b * pb + lane div 8)) OR push_bit (lane mod 8) 1] else o') out [0..<n]) p =
    (bit_at out p \<or> (\<exists>b<n. bit zz b \<and> p = 8 * (b * pb) + lane))"
  using assms(2)
proof (induction n)
  case (Suc n)
  have "n * pb + lane div 8 < Suc n * pb" using assms(1) by (simp add: div_less_iff_less_mult mult.commute)
  moreover have "8 * (n * pb + lane div 8) + lane mod 8 = 8 * (n * pb) + lane" by simp
  ultimately show ?case
    using Suc by (auto simp: drop_bit_and_1 bit_at_set_bit less_Suc_eq simp del: push_bit_of_1)
qed simp

lemma ex_nat_disj_Suc: "(\<exists>n. P n) \<longleftrightarrow> P 0 \<or> (\<exists>n. P (Suc n))"
  by (metis not0_implies_Suc)

lemma put_lanes:
  assumes "lane + length vs \<le> 8 * pb" "width * pb \<le> length out"
  shows "length (transpose_put_lanes width pb lane vs out) = length out \<and>
    bit_at (transpose_put_lanes width pb lane vs out) p =
    (bit_at out p \<or> (\<exists>l b. l < length vs \<and> b < width \<and> bit (zigzag (vs ! l)) b \<and> p = 8 * (b * pb) + (lane + l)))"
  using assms
proof (induction vs arbitrary: lane out)
  case (Cons v vs)
  have lane: "lane < 8 * pb" using Cons.prems(1) by simp
  note put = put_lane [OF lane Cons.prems(2), of "zigzag v"]
  have len: "length (transpose_put_lane width pb lane v out) = length out"
    unfolding transpose_put_lane_def Let_def using put by blast
  have one: "bit_at (transpose_put_lane width pb lane v out) p =
      (bit_at out p \<or> (\<exists>b<width. bit (zigzag v) b \<and> p = 8 * (b * pb) + lane))"
    unfolding transpose_put_lane_def Let_def using put by blast
  have IH: "length (transpose_put_lanes width pb (Suc lane) vs (transpose_put_lane width pb lane v out)) =
      length (transpose_put_lane width pb lane v out) \<and>
    bit_at (transpose_put_lanes width pb (Suc lane) vs (transpose_put_lane width pb lane v out)) p =
    (bit_at (transpose_put_lane width pb lane v out) p \<or>
     (\<exists>l b. l < length vs \<and> b < width \<and> bit (zigzag (vs ! l)) b \<and> p = 8 * (b * pb) + (Suc lane + l)))"
    using Cons.prems len by (intro Cons.IH) auto
  have "(\<exists>l b. l < length (v # vs) \<and> b < width \<and> bit (zigzag ((v # vs) ! l)) b \<and> p = 8 * (b * pb) + (lane + l)) =
    ((\<exists>b<width. bit (zigzag v) b \<and> p = 8 * (b * pb) + lane) \<or>
     (\<exists>l b. l < length vs \<and> b < width \<and> bit (zigzag (vs ! l)) b \<and> p = 8 * (b * pb) + (Suc lane + l)))"
    by (subst ex_nat_disj_Suc) simp
  then show ?case using IH one len by auto
qed simp

text \<open>The planes of a tile, and that no two lanes share a bit of them.\<close>

lemma plane_bit_unique:
  fixes b b' l l' pb :: nat
  assumes "8 * (b * pb) + l = 8 * (b' * pb) + l'" "l < 8 * pb" "l' < 8 * pb"
  shows "b = b' \<and> l = l'"
proof -
  have "(b * (8 * pb) + l) div (8 * pb) = b" "(b' * (8 * pb) + l') div (8 * pb) = b'"
    using assms(2,3) by simp_all
  moreover have "b * (8 * pb) + l = b' * (8 * pb) + l'"
    using assms(1) by (simp add: mult.assoc mult.left_commute)
  ultimately have "b = b'" by metis
  with assms(1) show ?thesis by simp
qed

lemma tile_round_trip:
  fixes c :: "i64 list"
  defines "w \<equiv> bitpack_width c" and "pb \<equiv> div_ceil (length c) 8"
  shows "transpose_tile_decode (transpose_put_lanes w pb 0 c (replicate (w * pb) 0)) w (length c) = c"
proof (rule nth_equalityI)
  fix l
  let ?planes = "transpose_put_lanes w pb 0 c (replicate (w * pb) 0)"
  assume "l < length (transpose_tile_decode ?planes w (length c))"
  then have l: "l < length c" by simp
  have fit: "length c \<le> 8 * pb" unfolding pb_def by (rule div_ceil_le) simp
  have w: "w \<le> 64" unfolding w_def by (rule bitpack_width_le)
  have planes: "bit_at ?planes p = (\<exists>l b. l < length c \<and> b < w \<and> bit (zigzag (c ! l)) b \<and> p = 8 * (b * pb) + l)" for p
    using put_lanes [of 0 c pb w "replicate (w * pb) 0" p] fit by simp
  have width: "b < w" if "bit (zigzag (c ! l)) b" for b
  proof (rule ccontr)
    assume "\<not> b < w"
    moreover have "bit_length (zigzag (c ! l)) \<le> w"
      using l unfolding w_def bitpack_width_def by (intro max_bit_length_ge) simp
    ultimately show False using that bit_length_bound by (meson le_trans not_less)
  qed
  have "bit (zigzag (transpose_tile_decode ?planes w (length c) ! l)) b = bit (zigzag (c ! l)) b" for b
  proof -
    have "bit (zigzag (transpose_tile_decode ?planes w (length c) ! l)) b =
        (b < w \<and> (\<exists>l' b'. l' < length c \<and> b' < w \<and> bit (zigzag (c ! l')) b' \<and> 8 * (b * pb) + l = 8 * (b' * pb) + l'))"
      using w by (simp add: bit_tile_decode [OF l] planes min_absorb1 flip: pb_def)
    also have "\<dots> = bit (zigzag (c ! l)) b"
    proof
      assume "b < w \<and> (\<exists>l' b'. l' < length c \<and> b' < w \<and> bit (zigzag (c ! l')) b' \<and> 8 * (b * pb) + l = 8 * (b' * pb) + l')"
      then obtain l' b' where "l' < length c" "bit (zigzag (c ! l')) b'" "8 * (b * pb) + l = 8 * (b' * pb) + l'"
        by blast
      moreover from this have "b = b' \<and> l = l'" using l fit by (intro plane_bit_unique) auto
      ultimately show "bit (zigzag (c ! l)) b" by simp
    next
      assume "bit (zigzag (c ! l)) b"
      with l width [OF this] show "b < w \<and> (\<exists>l' b'. l' < length c \<and> b' < w \<and> bit (zigzag (c ! l')) b' \<and> 8 * (b * pb) + l = 8 * (b' * pb) + l')"
        by blast
    qed
    finally show ?thesis .
  qed
  then show "transpose_tile_decode ?planes w (length c) ! l = c ! l"
    by - (rule zigzag_inject [THEN iffD1], rule bit_word_eqI, simp)
qed simp

lemma length_transpose_put_lanes [simp]: "length (transpose_put_lanes w pb lane vs out) = length out"
proof (induction vs arbitrary: lane out)
  case (Cons v vs)
  have "length (foldl (\<lambda>o' b. if p b then o'[f b := g o' b] else o') out bs) = length out"
    for p f and g :: "u8 list \<Rightarrow> nat \<Rightarrow> u8" and bs
    by (induction bs arbitrary: out) auto
  with Cons show ?case by (simp add: transpose_put_lane_def Let_def)
qed simp

lemma transpose_chunk_eq:
  "transpose_chunk c = u8_try_from (bitpack_width c) 64 #
    transpose_put_lanes (bitpack_width c) (div_ceil (length c) 8) 0 c (replicate (bitpack_width c * div_ceil (length c) 8) 0)"
proof -
  have "transpose_put_lanes 0 pb 0 c [] = []" for pb
    using length_transpose_put_lanes [of 0 pb 0 c "[]"] by (metis length_0_conv list.size(3))
  then show ?thesis by (simp add: transpose_chunk_def Let_def)
qed

lemma length_transpose_chunk: "length (transpose_chunk c) = 1 + bitpack_width c * div_ceil (length c) 8"
  by (simp add: transpose_chunk_eq)

lemma transpose_parse_chunk:
  "\<exists>h d s. transpose_next_block (pre @ transpose_chunk c @ suf) (length pre) (length c) = (h, d, s) \<and>
    h + d = length (transpose_chunk c) \<and>
    transpose_tile_decode (get_slice (pre @ transpose_chunk c @ suf) (length pre + h) d) s (length c) = c"
proof -
  let ?w = "bitpack_width c" and ?pb = "div_ceil (length c) 8"
  let ?planes = "transpose_put_lanes ?w ?pb 0 c (replicate (?w * ?pb) 0)"
  have w: "unat (u8_try_from ?w 64) = ?w"
    using bitpack_width_le [of c] by (intro unat_u8_try_from) simp
  have "get_slice ((pre @ [u8_try_from ?w 64]) @ ?planes @ suf) (length (pre @ [u8_try_from ?w 64])) (length ?planes) = ?planes"
    by (rule get_slice_append)
  then show ?thesis
    using tile_round_trip [of c]
    by (simp add: transpose_next_block_def transpose_chunk_eq w Let_def)
qed

lemma transpose_decode_loop_step:
  assumes "transpose_next_block bytes pos (min remaining tile) = (h, d, s)" "0 < remaining" "0 < tile"
  shows "transpose_decode_loop bytes tile pos remaining =
      transpose_tile_decode (get_slice bytes (pos + h) d) s (min remaining tile) @
      transpose_decode_loop bytes tile (pos + h + d) (remaining - min remaining tile)"
proof -
  have "h = 1" "s = unat (byte_at bytes pos)" "d = unat (byte_at bytes pos) * div_ceil (min remaining tile) 8"
    using assms(1) by (auto simp: transpose_next_block_def Let_def)
  then show ?thesis
    using assms(2,3) by (subst transpose_decode_loop.simps) (simp only: Let_def if_True simp_thms)
qed

lemma transpose_range_loop_step:
  assumes "transpose_next_block bytes pos (min tile (count - idx)) = (h, d, s)" "0 < tile"
    "idx < min (start + len) count"
  shows "transpose_range_loop bytes tile count start len pos idx =
      (if start < idx + min tile (count - idx)
       then transpose_part s (get_slice bytes (pos + h) d) (min tile (count - idx)) (start - idx)
              (min (min (start + len) count - idx) (min tile (count - idx)))
       else []) @
      transpose_range_loop bytes tile count start len (pos + h + d) (idx + min tile (count - idx))"
proof -
  have "h = 1" "s = unat (byte_at bytes pos)" "d = unat (byte_at bytes pos) * div_ceil (min tile (count - idx)) 8"
    using assms(1) by (auto simp: transpose_next_block_def Let_def)
  then show ?thesis
    using assms(2,3) by (subst transpose_range_loop.simps) (simp only: Let_def if_True simp_thms)
qed

lemma transpose_range_loop_end:
  "\<not> idx < min (start + len) count \<Longrightarrow> transpose_range_loop bytes tile count start len pos idx = []"
  by (subst transpose_range_loop.simps) (simp only: Let_def if_False simp_thms)

lemma transpose_part_slice:
  "lo \<le> hi \<Longrightarrow> hi \<le> n \<Longrightarrow>
    transpose_part s data n lo hi = drop lo (take hi (transpose_tile_decode data s n))"
  by (rule nth_equalityI) (auto simp: transpose_part_def tile_decode_lane)

interpretation transposed: block_codec transpose_next_block "\<lambda>w data n. transpose_tile_decode data w n"
  transpose_part transpose_decode_loop transpose_range_loop transpose_chunk
  by unfold_locales
    (rule length_tile_decode, erule (1) transpose_part_slice, erule (2) transpose_decode_loop_step,
     simp add: transpose_decode_loop.simps, erule (2) transpose_range_loop_step,
     erule transpose_range_loop_end, rule transpose_parse_chunk)

interpretation transposed: gather_format transpose_next_block "\<lambda>w data n. transpose_tile_decode data w n"
  transpose_part transpose_decode_loop transpose_range_loop transpose_pick
  by unfold_locales (auto simp: transpose_pick_def Let_def tile_decode_lane)

lemma transpose_bitpack_decode_encode:
  "transpose_bitpack_decode (transpose_bitpack_encode vs tile @ suf) tile (length vs) = vs"
  using transposed.decode_loop_encoded [OF max_one_pos, of "[]" tile vs suf]
  by (simp add: transpose_bitpack_decode_def transpose_bitpack_encode_def Let_def)

lemma length_transpose_bitpack_encode: "length (transpose_bitpack_encode vs tile) = transpose_bitpack_bytes vs tile"
  by (simp add: transpose_bitpack_encode_def transpose_bitpack_bytes_def Let_def length_concat comp_def length_transpose_chunk)

lemma transpose_bitpack_decode_range_eq:
  "transpose_bitpack_decode_range bytes tile count start len =
    take len (drop start (transpose_bitpack_decode bytes tile count))"
  unfolding transpose_bitpack_decode_range_def transpose_bitpack_decode_def Let_def
  by (rule transposed.decode_range_slice [OF max_one_pos])

lemma transpose_bitpack_decode_gather_eq:
  "transpose_bitpack_decode_gather bytes tile count indices =
    Some (map (\<lambda>i. if i < count then Some (transpose_bitpack_decode bytes tile count ! i) else None) indices)"
  using transposed.gather_walk_correct [OF max_one_pos, of bytes tile count indices]
  by (simp add: transpose_bitpack_decode_gather_def transpose_bitpack_decode_def gather_walk_def)

subsection \<open>Properties\<close>

subsection \<open>Further facts\<close>

text \<open>
  The bit-transposed stream decodes to the values it encodes whatever follows it; ranges and
  gathers read the same rows, the gather always returning; and its length is the advertised size.
\<close>

lemma transposed_codec_exact:
  shows "transpose_bitpack_decode (transpose_bitpack_encode vs tile @ suf) tile (length vs) = vs \<and>
    transpose_bitpack_decode_range (transpose_bitpack_encode vs tile @ suf) tile (length vs) start len = take len (drop start vs) \<and>
    transpose_bitpack_decode_gather (transpose_bitpack_encode vs tile @ suf) tile (length vs) indices =
      Some (map (\<lambda>i. if i < length vs then Some (vs ! i) else None) indices) \<and>
    length (transpose_bitpack_encode vs tile) = transpose_bitpack_bytes vs tile"
  by (simp add: transpose_bitpack_decode_range_eq transpose_bitpack_decode_gather_eq transpose_bitpack_decode_encode
      length_transpose_bitpack_encode)

text \<open>
  The tile decoder that gathers eight bit planes at a time through the spread table gives, on any
  bytes, in every lane the value that reading the lane bit by bit gives.
\<close>

lemma spread_decoder_is_lane_decoder:
  assumes "lane < len"
  shows "transpose_tile_decode planes width len ! lane = transpose_lane_decode planes width len lane"
  by (rule tile_decode_lane [OF assms])

lemma spread_decoder_is_lane_decoder_witness:
  "transpose_tile_decode [0xA5, 0x0F, 0x33] 3 8 ! 5 = transpose_lane_decode [0xA5, 0x0F, 0x33] 3 8 5"
  by (rule spread_decoder_is_lane_decoder) simp

end
