(* ===== verification/Codec_Choice.thy ===== *)
theory Codec_Choice imports For_Codec Gorilla begin

text \<open>
  The size estimates of a delta-of-delta column, the choice of its codec
  (\<open>best_estimated_bytes\<close>, \<open>best_encoding_name\<close>), the common multiple, and the FIRE forecaster of
  \<^verbatim>\<open>weft-physical-type/src/timestamp.rs\<close>. The estimates are tied to the encoders: the estimate of
  the chosen codec is the number of bytes its encoder emits.
\<close>

unbundle bit_operations_syntax

subsection \<open>Estimates\<close>

definition delta_estimated_bytes :: "delta_column \<Rightarrow> nat" where
  "delta_estimated_bytes col = 8 + zigzag_varint_bytes (dc_deltas col)"

definition first_delta_len :: "delta_of_delta_column \<Rightarrow> nat" where
  "first_delta_len col = (case dd_first_delta col of None \<Rightarrow> 0 | Some d \<Rightarrow> zigzag_varint_len d)"

definition estimated_bytes :: "delta_of_delta_column \<Rightarrow> nat" where
  "estimated_bytes col = 8 + first_delta_len col + zigzag_varint_bytes (dd_dods col)"

definition rle_estimated_bytes :: "delta_of_delta_column \<Rightarrow> nat" where
  "rle_estimated_bytes col = 8 + first_delta_len col + rle_varint_bytes (rle_encode (dd_dods col))"

definition bitpack_estimated_bytes :: "delta_of_delta_column \<Rightarrow> nat" where
  "bitpack_estimated_bytes col = 8 + first_delta_len col + bitpack_bytes (dd_dods col)"

definition gorilla_estimated_bytes :: "delta_of_delta_column \<Rightarrow> nat" where
  "gorilla_estimated_bytes col = 8 + first_delta_len col + gorilla_bytes (dd_dods col)"

definition blocked_estimated_bytes :: "delta_of_delta_column \<Rightarrow> nat" where
  "blocked_estimated_bytes col =
    8 + first_delta_len col + blocked_bitpack_bytes (dd_dods col) blocked_bitpack_block"

definition for_estimated_bytes :: "delta_of_delta_column \<Rightarrow> nat" where
  "for_estimated_bytes col = 8 + first_delta_len col + for_bitpack_bytes (dd_dods col) blocked_bitpack_block"

definition best_estimated_bytes :: "delta_of_delta_column \<Rightarrow> nat" where
  "best_estimated_bytes col =
    min (min (min (min (estimated_bytes col) (rle_estimated_bytes col)) (bitpack_estimated_bytes col))
      (gorilla_estimated_bytes col)) (blocked_estimated_bytes col)"

definition best_encoding_name :: "delta_of_delta_column \<Rightarrow> string" where
  "best_encoding_name col =
    (let plain = estimated_bytes col; rle = rle_estimated_bytes col; bitpack = bitpack_estimated_bytes col;
         gorilla = gorilla_estimated_bytes col; blocked = blocked_estimated_bytes col
     in if blocked < plain \<and> blocked < rle \<and> blocked < bitpack \<and> blocked < gorilla then ''delta_of_delta_blocked''
        else if gorilla < plain \<and> gorilla < rle \<and> gorilla < bitpack then ''delta_of_delta_gorilla''
        else if bitpack < plain \<and> bitpack < rle then ''delta_of_delta_bitpack''
        else if rle < plain then ''delta_of_delta_rle''
        else ''delta_of_delta'')"

subsection \<open>The common multiple\<close>

function gcd_loop :: "u64 \<Rightarrow> u64 \<Rightarrow> u64" where
  "gcd_loop a b = (if b \<noteq> 0 then gcd_loop b (a mod b) else a)"
  by pat_completeness auto
termination
proof (relation "measure (\<lambda>(a, b). unat b)", goal_cases)
  case (2 a b)
  then have "0 < unat b" by (simp add: unat_gt_0)
  then show ?case by (simp add: unat_mod_distrib)
qed simp

declare gcd_loop.simps [simp del]

definition common_multiple :: "delta_of_delta_column \<Rightarrow> u64 option" where
  "common_multiple col =
    (case dd_first_delta col of
       None \<Rightarrow> None
     | Some fd \<Rightarrow>
         let g = foldl (\<lambda>g d. if g = 1 then 1 else gcd_loop g (unsigned_abs d)) (unsigned_abs fd) (dd_dods col)
         in if 1 < g then Some g else None)"

definition reduced_column :: "delta_of_delta_column \<Rightarrow> i64 \<Rightarrow> delta_of_delta_column" where
  "reduced_column col divisor =
    \<lparr>dd_first = dd_first col, dd_first_delta = map_option (\<lambda>d. i64_div d divisor) (dd_first_delta col),
     dd_dods = map (\<lambda>d. i64_div d divisor) (dd_dods col), dd_unit = dd_unit col\<rparr>"

text \<open>\<open>i64::try_from(g).ok()\<close> fails on the upper half of \<open>u64\<close>.\<close>

definition common_multiple_estimated_bytes :: "delta_of_delta_column \<Rightarrow> nat option" where
  "common_multiple_estimated_bytes col =
    (case common_multiple col of
       None \<Rightarrow> None
     | Some g \<Rightarrow> if g \<le> i64_max
         then Some (best_estimated_bytes (reduced_column col g) + uvarint_len g) else None)"

fun delta_scan :: "i64 \<Rightarrow> i64 list \<Rightarrow> i64 list" where
  "delta_scan delta [] = []"
| "delta_scan delta (dod # dods) = (delta + dod) # delta_scan (delta + dod) dods"

definition first_order_deltas :: "delta_of_delta_column \<Rightarrow> i64 list" where
  "first_order_deltas col =
    (case dd_first_delta col of None \<Rightarrow> [] | Some d \<Rightarrow> d # delta_scan d (dd_dods col))"

definition delta_for_estimated_bytes :: "delta_of_delta_column \<Rightarrow> nat" where
  "delta_for_estimated_bytes col = 8 + for_bitpack_bytes (first_order_deltas col) blocked_bitpack_block"

subsection \<open>The FIRE forecaster\<close>

definition fire_shift :: nat where "fire_shift = 8"
definition fire_alpha_max :: i64 where "fire_alpha_max = 256"

definition signum :: "i64 \<Rightarrow> i64" where
  "signum v = (if sint v < 0 then - 1 else if v = 0 then 0 else 1)"

definition fire_clamp :: "i64 \<Rightarrow> i64" where
  "fire_clamp a = (if sint a < 0 then 0 else if sint fire_alpha_max < sint a then fire_alpha_max else a)"

definition fire_predict :: "i64 \<Rightarrow> i64 \<Rightarrow> i64 \<Rightarrow> i64" where
  "fire_predict alpha prev2 prev1 = prev1 + signed_drop_bit fire_shift (alpha * (prev1 - prev2))"

definition fire_learn :: "i64 \<Rightarrow> i64 \<Rightarrow> i64 \<Rightarrow> i64" where
  "fire_learn alpha err delta_prev = fire_clamp (alpha + signum err * signum delta_prev)"

fun fire_residual_loop :: "i64 \<Rightarrow> i64 \<Rightarrow> i64 \<Rightarrow> i64 list \<Rightarrow> i64 list" where
  "fire_residual_loop alpha prev2 prev1 [] = []"
| "fire_residual_loop alpha prev2 prev1 (v # vs) =
    (let err = v - fire_predict alpha prev2 prev1
     in err # fire_residual_loop (fire_learn alpha err (prev1 - prev2)) prev1 v vs)"

fun fire_residuals :: "i64 list \<Rightarrow> i64 list" where
  "fire_residuals [] = []"
| "fire_residuals [a] = [a]"
| "fire_residuals (a # b # vs) = a # (b - a) # fire_residual_loop fire_alpha_max a b vs"

fun fire_reconstruct_loop :: "i64 \<Rightarrow> i64 \<Rightarrow> i64 \<Rightarrow> i64 list \<Rightarrow> i64 list" where
  "fire_reconstruct_loop alpha prev2 prev1 [] = []"
| "fire_reconstruct_loop alpha prev2 prev1 (err # errs) =
    (let v = fire_predict alpha prev2 prev1 + err
     in v # fire_reconstruct_loop (fire_learn alpha err (prev1 - prev2)) prev1 v errs)"

fun fire_reconstruct :: "i64 list \<Rightarrow> i64 list" where
  "fire_reconstruct [] = []"
| "fire_reconstruct [a] = [a]"
| "fire_reconstruct (a # d # errs) = a # (a + d) # fire_reconstruct_loop fire_alpha_max a (a + d) errs"

fun fire_estimated_tail :: "i64 list \<Rightarrow> nat" where
  "fire_estimated_tail [] = 0"
| "fire_estimated_tail [a] = 8"
| "fire_estimated_tail (a # d # tail) =
    8 + zigzag_varint_len d +
    min (min (min (zigzag_varint_bytes tail) (bitpack_bytes tail)) (blocked_bitpack_bytes tail blocked_bitpack_block))
      (rle_varint_bytes (rle_encode tail))"

definition fire_estimated_bytes :: "i64 list \<Rightarrow> nat" where
  "fire_estimated_bytes vs = fire_estimated_tail (fire_residuals vs)"

lemma fire_reconstruct_residuals: "fire_reconstruct (fire_residuals vs) = vs"
proof -
  have "fire_reconstruct_loop alpha p2 p1 (fire_residual_loop alpha p2 p1 vs) = vs" for alpha p2 p1 vs
    by (induction alpha p2 p1 vs rule: fire_residual_loop.induct) (simp_all add: Let_def)
  then show ?thesis by (cases vs rule: fire_residuals.cases) simp_all
qed

subsection \<open>The estimate of the chosen codec is what its encoder emits\<close>

text \<open>The bytes of the second differences under each codec name, the row count apart.\<close>

definition dod_stream :: "string \<Rightarrow> i64 list \<Rightarrow> u8 list" where
  "dod_stream name dods =
    (if name = ''delta_of_delta_blocked'' then blocked_bitpack_encode dods blocked_bitpack_block
     else if name = ''delta_of_delta_gorilla'' then encode_gorilla_dods dods
     else if name = ''delta_of_delta_bitpack'' then u8_try_from (fst (bitpack_encode dods)) 64 # snd (bitpack_encode dods)
     else if name = ''delta_of_delta_rle''
     then concat (map (\<lambda>(v, c). for_push_uvarint (zigzag v) @ for_push_uvarint (of_nat c)) (rle_encode dods))
     else concat (map (\<lambda>d. for_push_uvarint (zigzag d)) dods))"

lemma zigzag_varint_len_fun: "zigzag_varint_len = (\<lambda>v. uvarint_len (zigzag v))"
  by (rule ext) (rule zigzag_varint_len_eq)

lemma length_dod_stream:
  "length (dod_stream ''delta_of_delta_blocked'' dods) = blocked_bitpack_bytes dods blocked_bitpack_block"
  "length (dod_stream ''delta_of_delta_gorilla'' dods) = gorilla_bytes dods"
  "length (dod_stream ''delta_of_delta_bitpack'' dods) = bitpack_bytes dods"
  "length (dod_stream ''delta_of_delta_rle'' dods) = rle_varint_bytes (rle_encode dods)"
  "length (dod_stream ''delta_of_delta'' dods) = zigzag_varint_bytes dods"
  by (simp_all add: dod_stream_def length_blocked_bitpack_encode length_encode_gorilla bitpack_bytes_def
      length_bitpack_encode rle_varint_bytes_def zigzag_varint_bytes_def length_concat comp_def
      zigzag_varint_len_fun split_def Let_def)

lemma first_smallest:
  fixes p r b g k :: nat
  shows "(if k < p \<and> k < r \<and> k < b \<and> k < g then k else if g < p \<and> g < r \<and> g < b then g
    else if b < p \<and> b < r then b else if r < p then r else p) = min (min (min (min p r) b) g) k"
  by (auto simp: min_def)

lemma best_estimated_bytes_emitted:
  "best_estimated_bytes col =
    8 + first_delta_len col + length (dod_stream (best_encoding_name col) (dd_dods col))"
  unfolding best_estimated_bytes_def first_smallest [symmetric]
  by (simp only: best_encoding_name_def Let_def if_distrib [of "\<lambda>n. length (dod_stream n (dd_dods col))"]
      if_distrib [of "\<lambda>n. 8 + first_delta_len col + n"] length_dod_stream estimated_bytes_def
      rle_estimated_bytes_def bitpack_estimated_bytes_def gorilla_estimated_bytes_def blocked_estimated_bytes_def)

lemma best_estimated_bytes_least:
  "name \<in> {''delta_of_delta'', ''delta_of_delta_rle'', ''delta_of_delta_bitpack'', ''delta_of_delta_gorilla'', ''delta_of_delta_blocked''} \<Longrightarrow>
    best_estimated_bytes col \<le> 8 + first_delta_len col + length (dod_stream name (dd_dods col))"
  by (auto simp: length_dod_stream best_estimated_bytes_def estimated_bytes_def
      rle_estimated_bytes_def bitpack_estimated_bytes_def gorilla_estimated_bytes_def blocked_estimated_bytes_def)

subsection \<open>The common multiple divides every delta\<close>

lemma unat_gcd_loop: "unat (gcd_loop a b) = gcd (unat a) (unat b)"
proof (induction a b rule: gcd_loop.induct)
  case (1 a b)
  show ?case
  proof (cases "b = 0")
    case False
    with 1 show ?thesis
      by (subst gcd_loop.simps) (simp add: unat_mod_distrib gcd_red_nat [of "unat a"])
  qed (subst gcd_loop.simps, simp)
qed

lemma unat_gcd_fold:
  "unat (foldl (\<lambda>g d. if g = 1 then 1 else gcd_loop g (unsigned_abs d)) g ds) =
    Gcd (insert (unat g) (set (map (\<lambda>d. unat (unsigned_abs d)) ds)))"
proof (induction ds arbitrary: g)
  case (Cons d ds)
  have "unat (if g = 1 then 1 else gcd_loop g (unsigned_abs d)) = gcd (unat g) (unat (unsigned_abs d))"
    by (simp add: unat_gcd_loop)
  with Cons show ?case by (simp add: gcd.assoc)
qed simp

lemma common_multiple_Gcd:
  assumes "dd_first_delta col = Some fd"
  shows "common_multiple col = Some g \<longleftrightarrow>
    1 < g \<and> unat g = Gcd (set (map (\<lambda>d. unat (unsigned_abs d)) (fd # dd_dods col)))"
proof -
  let ?f = "foldl (\<lambda>g d. if g = 1 then 1 else gcd_loop g (unsigned_abs d)) (unsigned_abs fd) (dd_dods col)"
  have "unat ?f = Gcd (set (map (\<lambda>d. unat (unsigned_abs d)) (fd # dd_dods col)))"
    by (simp add: unat_gcd_fold)
  moreover have "common_multiple col = Some g \<longleftrightarrow> 1 < g \<and> g = ?f"
    using assms by (auto simp: common_multiple_def Let_def)
  ultimately show ?thesis by (simp only: word_unat_eq_iff [of g])
qed

lemma i64_div_dvd_mult:
  assumes "0 < sint b" "sint b dvd sint a"
  shows "i64_div a b * b = a"
proof -
  have "sint a sdiv sint b * sint b = sint a"
    using assms by (simp add: sdiv_pos)
  then have "word_of_int (sint a sdiv sint b) * word_of_int (sint b) = (word_of_int (sint a) :: i64)"
    by (metis wi_hom_mult)
  then show ?thesis by (simp add: i64_div_def)
qed

lemma reduced_column_exact:
  assumes "common_multiple col = Some g" and "g \<le> i64_max"
  shows "map_option (\<lambda>d. d * g) (dd_first_delta (reduced_column col g)) = dd_first_delta col"
    and "map (\<lambda>d. d * g) (dd_dods (reduced_column col g)) = dd_dods col"
proof -
  obtain fd where fd: "dd_first_delta col = Some fd"
    using assms(1) by (cases "dd_first_delta col") (auto simp: common_multiple_def)
  have g: "1 < g" "unat g = Gcd (set (map (\<lambda>d. unat (unsigned_abs d)) (fd # dd_dods col)))"
    using assms(1) common_multiple_Gcd [OF fd] by blast+
  have "uint g \<le> uint i64_max" using assms(2) by (simp add: word_le_def)
  also have "uint i64_max = 2 ^ 63 - 1" by (simp add: i64_max_def)
  finally have "uint g < 2 ^ 63" by simp
  moreover have "- (2 ^ 63) \<le> uint g" by (rule order_trans [OF _ uint_ge_0]) simp
  ultimately have "sint g = uint g"
    by (subst sint_uint, intro signed_take_bit_int_eq_self) simp_all
  moreover have "0 < uint g" using g(1) by (simp add: word_less_def)
  ultimately have pos: "0 < sint g" and sg: "sint g = int (unat g)" by simp_all
  have exact: "i64_div d g * g = d" if "d \<in> set (fd # dd_dods col)" for d
  proof (rule i64_div_dvd_mult [OF pos])
    have "unat g dvd unat (unsigned_abs d)" unfolding g(2) unfolding set_map by (intro Gcd_dvd imageI that)
    then have "sint g dvd uint (unsigned_abs d)" by (simp add: sg flip: of_nat_dvd_iff [where 'a = int])
    then show "sint g dvd sint d" by (simp add: uint_unsigned_abs)
  qed
  show "map_option (\<lambda>d. d * g) (dd_first_delta (reduced_column col g)) = dd_first_delta col"
    using exact [of fd] by (simp add: reduced_column_def fd)
  show "map (\<lambda>d. d * g) (dd_dods (reduced_column col g)) = dd_dods col"
    using exact by (simp add: reduced_column_def comp_def map_idI)
qed

lemma first_order_deltas_decode: "first_order_deltas col = window_diffs (decode_delta_of_delta col)"
proof -
  have "delta_scan d ds = window_diffs (acc # dod_loop acc d ds)" for acc d ds
    by (induction ds arbitrary: acc d) simp_all
  then show ?thesis
    by (simp add: first_order_deltas_def decode_delta_of_delta_def Let_def split: option.split)
qed

lemma length_fire_reconstruct: "length (fire_reconstruct rs) = length rs"
proof -
  have "length (fire_reconstruct_loop alpha p2 p1 rs) = length rs" for alpha p2 p1 rs
    by (induction alpha p2 p1 rs rule: fire_reconstruct_loop.induct) (simp_all add: Let_def)
  then show ?thesis by (cases rs rule: fire_reconstruct.cases) simp_all
qed

subsection \<open>Properties\<close>

subsection \<open>Further facts\<close>

text \<open>
  The size reported for the best codec is the size of the stream that the named codec emits, and
  no other of the five codecs emits a smaller one.
\<close>

lemma chosen_codec_is_smallest:
  assumes "name \<in> {''delta_of_delta'', ''delta_of_delta_rle'', ''delta_of_delta_bitpack'', ''delta_of_delta_gorilla'', ''delta_of_delta_blocked''}"
  shows "best_estimated_bytes col = 8 + first_delta_len col + length (dod_stream (best_encoding_name col) (dd_dods col)) \<and>
    length (dod_stream (best_encoding_name col) (dd_dods col)) \<le> length (dod_stream name (dd_dods col))"
  using best_estimated_bytes_emitted [of col] best_estimated_bytes_least [OF assms, of col] by simp

lemma chosen_codec_is_smallest_witness:
  "best_estimated_bytes (encode_delta_of_delta [5, 7, 12, 12] Seconds) =
      8 + first_delta_len (encode_delta_of_delta [5, 7, 12, 12] Seconds) +
      length (dod_stream (best_encoding_name (encode_delta_of_delta [5, 7, 12, 12] Seconds)) (dd_dods (encode_delta_of_delta [5, 7, 12, 12] Seconds))) \<and>
    length (dod_stream (best_encoding_name (encode_delta_of_delta [5, 7, 12, 12] Seconds)) (dd_dods (encode_delta_of_delta [5, 7, 12, 12] Seconds))) \<le>
      length (dod_stream ''delta_of_delta_rle'' (dd_dods (encode_delta_of_delta [5, 7, 12, 12] Seconds)))"
  by (rule chosen_codec_is_smallest) simp

text \<open>
  The common multiple of a column is the greatest common divisor of its differences, reported when
  it exceeds one, and when it fits i64 dividing the column by it loses nothing.
\<close>

lemma common_multiple_exact:
  assumes "dd_first_delta col = Some fd"
  shows "(common_multiple col = Some g \<longleftrightarrow>
      1 < g \<and> unat g = Gcd (set (map (\<lambda>d. unat (unsigned_abs d)) (fd # dd_dods col)))) \<and>
    (common_multiple col = Some g \<and> g \<le> i64_max \<longrightarrow>
      map_option (\<lambda>d. d * g) (dd_first_delta (reduced_column col g)) = Some fd \<and>
      map (\<lambda>d. d * g) (dd_dods (reduced_column col g)) = dd_dods col)"
  using common_multiple_Gcd [OF assms, of g] reduced_column_exact [of col g] assms by simp

lemma common_multiple_exact_witness:
  "common_multiple (encode_delta_of_delta [0, 60, 180] Seconds) = Some 60 \<and>
    map (\<lambda>d. d * 60) (dd_dods (reduced_column (encode_delta_of_delta [0, 60, 180] Seconds) 60)) =
      dd_dods (encode_delta_of_delta [0, 60, 180] Seconds)"
proof -
  have fd: "dd_first_delta (encode_delta_of_delta [0, 60, 180] Seconds) = Some 60"
    by (simp add: encode_delta_of_delta_def Let_def)
  have "common_multiple (encode_delta_of_delta [0, 60, 180] Seconds) = Some 60" by code_simp
  then show ?thesis using common_multiple_exact [OF fd, of 60] by (simp add: i64_max_def)
qed

text \<open>
  The residuals of the adaptive FIRE predictor reconstruct the series exactly: the decoder replays
  the same predictions and the same learning steps, for every input.
\<close>

lemma fire_predictor_lossless:
  shows "fire_reconstruct (fire_residuals vs) = vs \<and> length (fire_residuals vs) = length vs"
proof -
  have "fire_reconstruct (fire_residuals vs) = vs" by (rule fire_reconstruct_residuals)
  then show ?thesis using length_fire_reconstruct [of "fire_residuals vs"] by simp
qed

end
