(* ===== verification/Crc32.thy ===== *)
theory Crc32 imports Bit_Fields begin

text \<open>
  The frame checksum of \<^verbatim>\<open>weft-physical-type/src/weftseg.rs\<close>: the byte table, the slicing-by-16
  tables and \<open>crc32\<close>. The reference is the bit-serial CRC register. The register step is linear
  over exclusive-or and injective; from these two facts follow the equivalence of the sliced
  computation with the reference and the detection of any corruption within four bytes.
\<close>

unbundle bit_operations_syntax

subsection \<open>The code\<close>

definition crc_bit :: "u32 \<Rightarrow> u32" where
  "crc_bit crc = (if crc AND 1 = 1 then drop_bit 1 crc XOR 0xEDB88320 else drop_bit 1 crc)"

definition crc32_table :: "u32 list" where
  "crc32_table = map (\<lambda>i. (crc_bit ^^ 8) (of_nat i)) [0..<256]"

fun crc32_slice :: "nat \<Rightarrow> u32 list" where
  "crc32_slice 0 = crc32_table"
| "crc32_slice (Suc k) = map (\<lambda>prev. drop_bit 8 prev XOR crc32_table ! unat (prev AND 0xFF)) (crc32_slice k)"

definition crc32_slices :: "u32 list list" where
  "crc32_slices = map crc32_slice [0..<16]"

text \<open>One sixteen-byte step, and one byte of the tail.\<close>

definition crc32_chunk :: "u32 \<Rightarrow> u8 list \<Rightarrow> u32" where
  "crc32_chunk crc c =
    (let t = crc32_slices; a = crc XOR from_le (take 4 c)
     in t ! 15 ! unat (a AND 0xFF) XOR t ! 14 ! unat (drop_bit 8 a AND 0xFF) XOR
        t ! 13 ! unat (drop_bit 16 a AND 0xFF) XOR t ! 12 ! unat (drop_bit 24 a) XOR
        t ! 11 ! unat (c ! 4) XOR t ! 10 ! unat (c ! 5) XOR t ! 9 ! unat (c ! 6) XOR
        t ! 8 ! unat (c ! 7) XOR t ! 7 ! unat (c ! 8) XOR t ! 6 ! unat (c ! 9) XOR
        t ! 5 ! unat (c ! 10) XOR t ! 4 ! unat (c ! 11) XOR t ! 3 ! unat (c ! 12) XOR
        t ! 2 ! unat (c ! 13) XOR t ! 1 ! unat (c ! 14) XOR t ! 0 ! unat (c ! 15))"

definition crc32_byte :: "u32 \<Rightarrow> u8 \<Rightarrow> u32" where
  "crc32_byte crc byte =
    (let idx = unat ((crc XOR ucast byte) AND 0xFF) in drop_bit 8 crc XOR crc32_table ! idx)"

function crc32_loop :: "u32 \<Rightarrow> u8 list \<Rightarrow> u32" where
  "crc32_loop crc data =
    (if 16 \<le> length data then crc32_loop (crc32_chunk crc (take 16 data)) (drop 16 data)
     else foldl crc32_byte crc data)"
  by pat_completeness auto
termination by (relation "measure (\<lambda>(crc, data). length data)") auto

declare crc32_loop.simps [simp del]

definition crc32 :: "u8 list \<Rightarrow> u32" where
  "crc32 data = crc32_loop 0xFFFFFFFF data XOR 0xFFFFFFFF"

subsection \<open>The bit-serial reference\<close>

definition crc_shift8 :: "u32 \<Rightarrow> u32" where
  "crc_shift8 = crc_bit ^^ 8"

definition crc_feed :: "u32 \<Rightarrow> u8 \<Rightarrow> u32" where
  "crc_feed crc byte = crc_shift8 (crc XOR ucast byte)"

definition crc32_reference :: "u8 list \<Rightarrow> u32" where
  "crc32_reference data = foldl crc_feed 0xFFFFFFFF data XOR 0xFFFFFFFF"

lemma crc_bit_alt: "crc_bit c = drop_bit 1 c XOR (if bit c 0 then 0xEDB88320 else 0)"
  by (simp add: crc_bit_def and_one_eq bit_0 odd_iff_mod_2_eq_one mod2_eq_if)

lemma xor_cancel_right: "(a :: u32) XOR c = b XOR c \<longleftrightarrow> a = b"
proof
  assume "a XOR c = b XOR c"
  then have "(a XOR c) XOR c = (b XOR c) XOR c" by simp
  then show "a = b" by (simp only: xor.assoc xor_self_eq xor.right_neutral)
qed simp

lemma crc_bit_xor: "crc_bit (a XOR b) = crc_bit a XOR crc_bit b"
proof -
  have "drop_bit 1 (a XOR b) = drop_bit 1 a XOR drop_bit 1 b" by (rule drop_bit_xor)
  then show ?thesis
    by (cases "bit a 0"; cases "bit b 0") (simp_all add: crc_bit_alt bit_xor_iff ac_simps)
qed

lemma crc_bit_inj: "crc_bit a = crc_bit b \<longleftrightarrow> a = b"
proof -
  have z: "c = 0" if "crc_bit c = 0" for c
  proof (rule bit_word_eqI)
    fix i
    have "bit (crc_bit c) 31 = bit c 0"
      unfolding crc_bit_alt by (cases "bit c 0") (auto simp: bit_xor_iff bit_drop_bit_eq dest: bit_imp_le_length)
    then have c0: "\<not> bit c 0" using that by simp
    then have "drop_bit 1 c = 0" using that by (simp add: crc_bit_alt)
    moreover have "bit (drop_bit 1 c) j = bit c (Suc j)" for j by (simp add: bit_drop_bit_eq)
    ultimately have "\<not> bit c (Suc j)" for j by simp
    with c0 show "bit c i = bit 0 i" by (cases i) simp_all
  qed
  show ?thesis
  proof
    assume "crc_bit a = crc_bit b"
    then have "crc_bit (a XOR b) = 0" by (simp add: crc_bit_xor)
    then have "a XOR b = 0" by (rule z)
    moreover have "a = (a XOR b) XOR b" by (simp add: xor.assoc)
    ultimately show "a = b" by simp
  qed simp
qed

lemma crc_bit_pow_xor: "(crc_bit ^^ n) (a XOR b) = (crc_bit ^^ n) a XOR (crc_bit ^^ n) b"
  by (induction n) (simp_all add: crc_bit_xor)

lemma crc_bit_pow_inj: "(crc_bit ^^ n) a = (crc_bit ^^ n) b \<longleftrightarrow> a = b"
  by (induction n) (simp_all add: crc_bit_inj)

lemma crc_bit_pow_push:
  "\<forall>i. bit y i \<longrightarrow> i + n < 32 \<Longrightarrow> (crc_bit ^^ n) (push_bit n y) = y"
proof (induction n arbitrary: y)
  case (Suc n)
  have low: "\<not> bit (push_bit 1 y) 0" unfolding bit_push_bit_iff by simp
  have eq: "crc_bit (push_bit 1 y) = drop_bit 1 (push_bit 1 y)"
    by (simp only: crc_bit_alt low if_False xor.right_neutral)
  have "crc_bit (push_bit 1 y) = y"
  proof (rule bit_word_eqI)
    fix i
    have "bit y i \<Longrightarrow> Suc i < 32" using Suc.prems by fastforce
    then show "bit (crc_bit (push_bit 1 y)) i = bit y i"
      unfolding eq bit_drop_bit_eq comp_apply bit_push_bit_iff by auto
  qed
  moreover have "\<forall>i. bit (push_bit 1 y) i \<longrightarrow> i + n < 32"
    unfolding bit_push_bit_iff using Suc.prems by fastforce
  then have "(crc_bit ^^ n) (push_bit n (push_bit 1 y)) = push_bit 1 y" by (rule Suc.IH)
  moreover have "push_bit (Suc n) y = push_bit n (push_bit 1 y)" by (simp add: push_bit_push_bit)
  ultimately show ?case by (simp only: funpow.simps comp_apply)
qed simp

lemma crc_shift8_xor: "crc_shift8 (a XOR b) = crc_shift8 a XOR crc_shift8 b"
  by (simp only: crc_shift8_def crc_bit_pow_xor)

lemma crc_shift8_inj: "crc_shift8 a = crc_shift8 b \<longleftrightarrow> a = b"
  by (simp only: crc_shift8_def crc_bit_pow_inj)

lemma crc_shift8_pow_xor: "(crc_shift8 ^^ n) (a XOR b) = (crc_shift8 ^^ n) a XOR (crc_shift8 ^^ n) b"
  by (induction n) (simp_all add: crc_shift8_xor)

lemma crc_shift8_pow_inj: "(crc_shift8 ^^ n) a = (crc_shift8 ^^ n) b \<longleftrightarrow> a = b"
  by (induction n) (simp_all add: crc_shift8_inj)

lemma crc_shift8_push: "\<forall>i. bit y i \<longrightarrow> i < 24 \<Longrightarrow> crc_shift8 (push_bit 8 y) = y"
  unfolding crc_shift8_def by (rule crc_bit_pow_push) auto

subsection \<open>The tables\<close>

lemma and_0xFF_32: "(w :: u32) AND 0xFF = take_bit 8 w"
  by (simp add: take_bit_eq_mask mask_eq_exp_minus_1)

lemma crc32_table_nth: "b < 256 \<Longrightarrow> crc32_table ! b = crc_shift8 (of_nat b)"
  by (simp add: crc32_table_def crc_shift8_def)

lemma unat_low_byte: "unat (take_bit 8 (w :: u32)) < 256"
  using take_bit_nat_less_exp [of 8 "unat w"] by (simp add: unsigned_take_bit_eq)

lemma crc_shift8_table: "drop_bit 8 c XOR crc32_table ! unat (c AND 0xFF) = crc_shift8 c"
proof -
  have c: "c = push_bit 8 (drop_bit 8 c) XOR take_bit 8 c"
    by (rule bit_word_eqI) (auto simp: bit_simps)
  have "crc_shift8 (push_bit 8 (drop_bit 8 c)) = drop_bit 8 c"
    by (rule crc_shift8_push) (auto simp: bit_drop_bit_eq dest: bit_imp_le_length)
  moreover have "crc32_table ! unat (c AND 0xFF) = crc_shift8 (take_bit 8 c)"
    by (simp add: and_0xFF_32 crc32_table_nth unat_low_byte)
  ultimately show ?thesis
    using crc_shift8_xor [of "push_bit 8 (drop_bit 8 c)" "take_bit 8 c"] by (simp flip: c)
qed

lemma crc32_byte_feed: "crc32_byte crc b = crc_feed crc b"
proof -
  have "drop_bit 8 (crc XOR ucast b) = drop_bit 8 crc"
    by (rule bit_word_eqI) (auto simp: bit_simps dest: bit_imp_le_length)
  then show ?thesis
    using crc_shift8_table [of "crc XOR ucast b"] by (simp add: crc32_byte_def crc_feed_def Let_def)
qed

lemma crc32_slice_nth: "b < 256 \<Longrightarrow> length (crc32_slice k) = 256 \<and> crc32_slice k ! b = (crc_shift8 ^^ Suc k) (of_nat b)"
proof (induction k)
  case 0
  then show ?case by (simp add: crc32_table_nth) (simp add: crc32_table_def)
next
  case (Suc k)
  then show ?case by (simp add: crc_shift8_table)
qed

lemma crc32_slices_nth: "k < 16 \<Longrightarrow> b < 256 \<Longrightarrow> crc32_slices ! k ! b = (crc_shift8 ^^ Suc k) (of_nat b)"
  by (simp add: crc32_slices_def crc32_slice_nth)

subsection \<open>Sixteen bytes at once\<close>

text \<open>Feeding bytes into the register, in closed form.\<close>

lemma foldl_crc_feed_xor:
  "foldl crc_feed (a XOR b) bs = (crc_shift8 ^^ length bs) a XOR foldl crc_feed b bs"
proof (induction bs arbitrary: a b)
  case (Cons x bs)
  have "crc_feed (a XOR b) x = crc_shift8 a XOR crc_feed b x"
    by (simp add: crc_feed_def crc_shift8_xor xor.assoc)
  then show ?case using Cons [of "crc_shift8 a" "crc_feed b x"] by (simp add: funpow_swap1)
qed simp

lemma foldl_crc_feed_4:
  "foldl crc_feed crc [b0, b1, b2, b3] = (crc_shift8 ^^ 4) (crc XOR from_le [b0, b1, b2, b3])"
proof -
  have p: "crc_shift8 (push_bit 8 (ucast b)) = ucast b" for b :: u8
    by (rule crc_shift8_push) (auto simp: bit_simps dest: bit_imp_le_length)
  have p2: "crc_shift8 (crc_shift8 (push_bit 16 (ucast b))) = ucast b" for b :: u8
  proof -
    have "crc_shift8 (push_bit 8 (push_bit 8 (ucast b :: u32))) = push_bit 8 (ucast b)"
      by (rule crc_shift8_push) (auto simp: bit_simps dest: bit_imp_le_length)
    then show ?thesis using p by (simp add: push_bit_push_bit)
  qed
  have p3: "crc_shift8 (crc_shift8 (crc_shift8 (push_bit 24 (ucast b)))) = ucast b" for b :: u8
  proof -
    have "crc_shift8 (push_bit 8 (push_bit 16 (ucast b :: u32))) = push_bit 16 (ucast b)"
      by (rule crc_shift8_push) (auto simp: bit_simps dest: bit_imp_le_length)
    then show ?thesis using p2 by (simp add: push_bit_push_bit)
  qed
  have le: "from_le [b0, b1, b2, b3] =
      (((ucast b0 :: u32) XOR push_bit 8 (ucast b1)) XOR push_bit 16 (ucast b2)) XOR push_bit 24 (ucast b3)"
  proof (rule bit_word_eqI)
    fix n
    assume n: "n < LENGTH(32)"
    have idx: "n - 8 < 8 \<longleftrightarrow> n < 16" "n - 16 < 8 \<longleftrightarrow> n < 24" "n - 24 < 8 \<longleftrightarrow> n < 32"
      by linarith+
    have top: "8 \<le> k \<Longrightarrow> \<not> bit b k" for b :: u8 and k
      using bit_imp_le_length [of b k] by auto
    consider "n < 8" | "8 \<le> n" "n < 16" | "16 \<le> n" "n < 24" | "24 \<le> n" by linarith
    then show "bit (from_le [b0, b1, b2, b3] :: u32) n = bit ((((ucast b0 :: u32) XOR push_bit 8 (ucast b1)) XOR
        push_bit 16 (ucast b2)) XOR push_bit 24 (ucast b3)) n"
      unfolding bit_from_le bit_at_Cons bit_xor_iff bit_push_bit_iff bit_ucast_iff
      using n top [of n b0] top [of "n - 8" b1] top [of "n - 16" b2] top [of "n - 24" b3]
      by cases (auto simp: idx)
  qed
  have pow: "(crc_shift8 ^^ 4) x = crc_shift8 (crc_shift8 (crc_shift8 (crc_shift8 x)))" for x
    by (simp add: eval_nat_numeral)
  show ?thesis
    unfolding le pow by (simp only: foldl.simps crc_feed_def crc_shift8_xor p p2 p3 xor.assoc)
qed

lemma foldl_crc_feed_0_Cons:
  "foldl crc_feed 0 (b # bs) = (crc_shift8 ^^ Suc (length bs)) (ucast b) XOR foldl crc_feed 0 bs"
  using foldl_crc_feed_xor [of "crc_shift8 (ucast b)" 0 bs] by (simp add: crc_feed_def funpow_swap1)

lemma crc_shift8_pow_bytes:
  "(crc_shift8 ^^ (n + 4)) a = (crc_shift8 ^^ (n + 4)) (a AND 0xFF) XOR
    (crc_shift8 ^^ (n + 3)) (drop_bit 8 a AND 0xFF) XOR
    (crc_shift8 ^^ (n + 2)) (drop_bit 16 a AND 0xFF) XOR (crc_shift8 ^^ (n + 1)) (drop_bit 24 a)"
proof -
  have b: "ucast (ucast x :: u8) = take_bit 8 x" for x :: u32
    by (rule bit_word_eqI) (auto simp: bit_simps)
  have d: "take_bit 8 (drop_bit 24 a) = drop_bit 24 a"
    by (rule bit_word_eqI) (auto simp: bit_simps dest: bit_imp_le_length)
  have le: "a = 0 XOR from_le [ucast a, ucast (drop_bit 8 a), ucast (drop_bit 16 a), ucast (drop_bit 24 a)]"
  proof (rule bit_word_eqI)
    fix n
    assume n: "n < LENGTH(32)"
    consider "n < 8" | "8 \<le> n" "n < 16" | "16 \<le> n" "n < 24" | "24 \<le> n" by linarith
    then show "bit a n = bit (0 XOR from_le [ucast a, ucast (drop_bit 8 a), ucast (drop_bit 16 a), ucast (drop_bit 24 a)] :: u32) n"
      unfolding xor.left_neutral bit_from_le bit_at_Cons bit_ucast_iff bit_drop_bit_eq comp_apply
      using n by cases auto
  qed
  have four: "(crc_shift8 ^^ 4) a = (crc_shift8 ^^ 4) (a AND 0xFF) XOR (crc_shift8 ^^ 3) (drop_bit 8 a AND 0xFF) XOR
      (crc_shift8 ^^ 2) (drop_bit 16 a AND 0xFF) XOR crc_shift8 (drop_bit 24 a)"
    by (subst le, subst foldl_crc_feed_4 [symmetric])
       (simp only: foldl_crc_feed_0_Cons list.size foldl_Nil b d and_0xFF_32 xor.right_neutral xor.assoc,
        simp add: eval_nat_numeral)
  have "(crc_shift8 ^^ (n + k)) x = (crc_shift8 ^^ n) ((crc_shift8 ^^ k) x)" for k x
    by (simp add: funpow_add)
  moreover have "(crc_shift8 ^^ (n + 1)) x = (crc_shift8 ^^ n) (crc_shift8 x)" for x
    by (simp add: funpow_swap1)
  ultimately show ?thesis
    by (simp only: four crc_shift8_pow_xor)
qed

lemma crc32_chunk_feed:
  assumes "length c = 16"
  shows "crc32_chunk crc c = foldl crc_feed crc c"
proof -
  define a where "a = crc XOR from_le (take 4 c)"
  have c: "c = map ((!) c) [0..<16]" using map_nth [of c] assms by simp
  have c4: "take 4 c = [c ! 0, c ! 1, c ! 2, c ! 3]"
    by (subst c) (simp add: take_map upt_rec eval_nat_numeral)
  have c12: "drop 4 c = [c ! 4, c ! 5, c ! 6, c ! 7, c ! 8, c ! 9, c ! 10, c ! 11, c ! 12, c ! 13, c ! 14, c ! 15]"
    by (subst c) (simp add: drop_map upt_rec eval_nat_numeral)
  have "foldl crc_feed crc c = foldl crc_feed (foldl crc_feed crc (take 4 c)) (drop 4 c)"
    by (simp flip: foldl_append)
  also have "foldl crc_feed crc (take 4 c) = (crc_shift8 ^^ 4) a XOR 0"
    by (simp add: c4 foldl_crc_feed_4 a_def del: foldl_Cons)
  also have "foldl crc_feed \<dots> (drop 4 c) = (crc_shift8 ^^ 12) ((crc_shift8 ^^ 4) a) XOR foldl crc_feed 0 (drop 4 c)"
    using assms by (subst foldl_crc_feed_xor) simp
  also have "(crc_shift8 ^^ 12) ((crc_shift8 ^^ 4) a) = (crc_shift8 ^^ (12 + 4)) a"
    by (simp only: funpow_add comp_apply)
  also note crc_shift8_pow_bytes [of 12 a]
  finally have ref: "foldl crc_feed crc c = ((crc_shift8 ^^ 16) (a AND 0xFF) XOR
    (crc_shift8 ^^ 15) (drop_bit 8 a AND 0xFF) XOR
    (crc_shift8 ^^ 14) (drop_bit 16 a AND 0xFF) XOR (crc_shift8 ^^ 13) (drop_bit 24 a)) XOR foldl crc_feed 0 (drop 4 c)"
    by simp
  have byte: "unat (b :: u8) < 256" for b using unsigned_less [of b] by simp
  have "drop_bit 24 a = take_bit 8 (drop_bit 24 a)"
    by (rule bit_word_eqI) (auto simp: bit_simps dest: bit_imp_le_length)
  then have top: "unat (drop_bit 24 a) < 256" using unat_low_byte [of "drop_bit 24 a"] by simp
  show ?thesis
    unfolding ref c12 foldl_crc_feed_0_Cons
    by (simp add: crc32_chunk_def Let_def crc32_slices_nth byte top and_0xFF_32 unat_low_byte xor.assoc
        del: funpow.simps flip: a_def)
       (simp add: numeral_eq_Suc del: funpow.simps)
qed

lemma crc32_loop_feed: "crc32_loop crc data = foldl crc_feed crc data"
proof (induction crc data rule: crc32_loop.induct)
  case (1 crc data)
  show ?case
  proof (cases "16 \<le> length data")
    case True
    then have "crc32_loop crc data = foldl crc_feed (foldl crc_feed crc (take 16 data)) (drop 16 data)"
      using 1 by (subst crc32_loop.simps) (simp add: crc32_chunk_feed)
    then show ?thesis by (simp flip: foldl_append)
  next
    case False
    have "crc32_byte = crc_feed" by (intro ext) (rule crc32_byte_feed)
    with False show ?thesis by (subst crc32_loop.simps) simp
  qed
qed

lemma crc32_eq_reference: "crc32 data = crc32_reference data"
  by (simp add: crc32_def crc32_reference_def crc32_loop_feed)

subsection \<open>Detected corruption\<close>

lemma foldl_crc_feed_inj: "foldl crc_feed a bs = foldl crc_feed b bs \<longleftrightarrow> a = b"
proof -
  have x: "foldl crc_feed x bs = (crc_shift8 ^^ length bs) x XOR foldl crc_feed 0 bs" for x
    using foldl_crc_feed_xor [of x 0 bs] by simp
  have "foldl crc_feed a bs = foldl crc_feed b bs \<longleftrightarrow>
      (crc_shift8 ^^ length bs) a XOR foldl crc_feed 0 bs = (crc_shift8 ^^ length bs) b XOR foldl crc_feed 0 bs"
    unfolding x [of a] x [of b] ..
  also have "\<dots> \<longleftrightarrow> (crc_shift8 ^^ length bs) a = (crc_shift8 ^^ length bs) b"
    by (rule xor_cancel_right)
  finally show ?thesis by (simp add: crc_shift8_pow_inj)
qed

lemma foldl_crc_feed_window:
  assumes "length xs = length ys" "length xs \<le> 4" "foldl crc_feed s xs = foldl crc_feed s ys"
  shows "xs = ys"
proof -
  let ?pad = "replicate (4 - length xs) (0 :: u8)"
  have four: "\<exists>a b c d. zs = [a, b, c, d]" if "length zs = 4" for zs :: "u8 list"
    using that by (auto simp: length_Suc_conv eval_nat_numeral)
  have "foldl crc_feed s (xs @ ?pad) = foldl crc_feed s (ys @ ?pad)" using assms(3) by simp
  moreover obtain a b c d where x: "xs @ ?pad = [a, b, c, d]" using four [of "xs @ ?pad"] assms(2) by auto
  moreover obtain a' b' c' d' where y: "ys @ ?pad = [a', b', c', d']" using four [of "ys @ ?pad"] assms(1,2) by auto
  ultimately have "s XOR from_le (xs @ ?pad) = s XOR (from_le (ys @ ?pad) :: u32)"
    by (simp only: foldl_crc_feed_4 crc_shift8_pow_inj)
  then have le: "(from_le (xs @ ?pad) :: u32) = from_le (ys @ ?pad)"
    by (simp only: xor.commute [of s] xor_cancel_right)
  have "xs @ ?pad = ys @ ?pad"
  proof (rule bit_at_ext)
    show "length (xs @ ?pad) = length (ys @ ?pad)" using assms(1) by simp
    fix i
    have out: "\<not> bit_at zs i" if "length zs = 4" "\<not> i < 32" for zs
      using that by (simp add: bit_at_def div_less_iff_less_mult)
    show "bit_at (xs @ ?pad) i = bit_at (ys @ ?pad) i"
    proof (cases "i < 32")
      case True
      then show ?thesis
        using bit_from_le [of "xs @ ?pad" i, where 'a = 32] bit_from_le [of "ys @ ?pad" i, where 'a = 32] le by simp
    next
      case False
      then show ?thesis using assms(1,2) by (simp add: out)
    qed
  qed
  then show ?thesis by simp
qed

lemma crc32_detects_window:
  assumes "length xs = length ys" "length xs \<le> 4" "xs \<noteq> ys"
  shows "crc32 (pre @ xs @ suf) \<noteq> crc32 (pre @ ys @ suf)"
proof
  assume "crc32 (pre @ xs @ suf) = crc32 (pre @ ys @ suf)"
  then have "foldl crc_feed 0xFFFFFFFF (pre @ xs @ suf) = foldl crc_feed 0xFFFFFFFF (pre @ ys @ suf)"
    by (simp only: crc32_eq_reference crc32_reference_def xor_cancel_right)
  then show False
    using foldl_crc_feed_window [OF assms(1,2)] assms(3) by (simp add: foldl_crc_feed_inj)
qed

subsection \<open>Properties\<close>

text \<open>
  C20: The slice-by-sixteen checksum, with its sixteen tables and its byte-at-a-time tail, is the
  bitwise reflected CRC-32 of the data, of any length.
\<close>

theorem crc32_is_bitwise_crc:
  shows "crc32 data = foldl (\<lambda>crc b. (crc_bit ^^ 8) (crc XOR ucast b)) 0xFFFFFFFF data XOR 0xFFFFFFFF"
proof -
  have "crc_feed = (\<lambda>crc b. (crc_bit ^^ 8) (crc XOR ucast b))" by (intro ext) (simp add: crc_feed_def crc_shift8_def)
  then show ?thesis by (simp only: crc32_eq_reference crc32_reference_def)
qed

end
