(* ===== verification/Null_Mask.thy ===== *)
theory Null_Mask imports Bit_Fields begin

text \<open>
  The per-row presence mask of \<^verbatim>\<open>weft-physical-type/src/nulls.rs\<close>: its representation invariant,
  what \<open>is_present\<close> answers on a mask built from presence flags, and the integrity check that
  \<open>from_raw\<close> applies to the parts read from a frame.
\<close>

unbundle bit_operations_syntax

record null_mask =
  nm_row_count :: nat
  nm_null_count :: nat
  nm_bits :: "u8 list option"

datatype null_mask_error = BitmapLength nat nat | NullCountMismatch nat nat

definition all_present :: "nat \<Rightarrow> null_mask" where
  "all_present row_count = \<lparr>nm_row_count = row_count, nm_null_count = 0, nm_bits = None\<rparr>"

text \<open>\<open>bits[i / 8] |= 1 << (i % 8)\<close> for every present row.\<close>

fun set_present_bits :: "nat \<Rightarrow> bool list \<Rightarrow> u8 list \<Rightarrow> u8 list" where
  "set_present_bits i [] bits = bits"
| "set_present_bits i (p # ps) bits =
    set_present_bits (Suc i) ps
      (if p then bits[i div 8 := (bits ! (i div 8)) OR push_bit (i mod 8) 1] else bits)"

definition from_presence :: "bool list \<Rightarrow> null_mask" where
  "from_presence present =
    (let row_count = length present; null_count = length (filter (\<lambda>p. \<not> p) present)
     in if null_count = 0 then all_present row_count
        else \<lparr>nm_row_count = row_count, nm_null_count = null_count,
              nm_bits = Some (set_present_bits 0 present (replicate (div_ceil row_count 8) 0))\<rparr>)"

definition from_raw :: "nat \<Rightarrow> nat \<Rightarrow> u8 list option \<Rightarrow> null_mask_error + null_mask" where
  "from_raw row_count null_count bits =
    (case bits of
       None \<Rightarrow> if null_count \<noteq> 0 then Inl (NullCountMismatch null_count 0) else Inr (all_present row_count)
     | Some bytes \<Rightarrow>
         let expected = div_ceil row_count 8
         in if length bytes \<noteq> expected then Inl (BitmapLength expected (length bytes))
            else let clear = length (filter (\<lambda>i. drop_bit (i mod 8) (bytes ! (i div 8)) AND 1 = 0) [0..<row_count])
                 in if clear \<noteq> null_count then Inl (NullCountMismatch null_count clear)
                    else Inr \<lparr>nm_row_count = row_count, nm_null_count = null_count, nm_bits = Some bytes\<rparr>)"

definition is_present :: "null_mask \<Rightarrow> nat \<Rightarrow> bool" where
  "is_present m index =
    (if nm_row_count m \<le> index then False
     else case nm_bits m of
       None \<Rightarrow> True
     | Some bits \<Rightarrow> drop_bit (index mod 8) (bits ! (index div 8)) AND 1 = 1)"

definition present_count :: "null_mask \<Rightarrow> nat" where
  "present_count m = nm_row_count m - nm_null_count m"

definition is_dense :: "null_mask \<Rightarrow> bool" where
  "is_dense m \<longleftrightarrow> nm_bits m = None"

definition null_mask_estimated_bytes :: "null_mask \<Rightarrow> nat" where
  "null_mask_estimated_bytes m = (case nm_bits m of None \<Rightarrow> 0 | Some bits \<Rightarrow> length bits)"

text \<open>The representation invariant.\<close>

definition null_mask_ok :: "null_mask \<Rightarrow> bool" where
  "null_mask_ok m \<longleftrightarrow>
    (case nm_bits m of
       None \<Rightarrow> nm_null_count m = 0
     | Some bits \<Rightarrow> length bits = div_ceil (nm_row_count m) 8 \<and>
         nm_null_count m = length (filter (\<lambda>i. \<not> is_present m i) [0..<nm_row_count m]))"

lemma and_1_eq_0: "(w :: u8) AND 1 = 0 \<longleftrightarrow> \<not> bit w 0"
  by (simp add: and_one_eq bit_0 odd_iff_mod_2_eq_one mod2_eq_if)

lemma and_1_eq_1: "(w :: u8) AND 1 = 1 \<longleftrightarrow> bit w 0"
  by (simp add: and_one_eq bit_0 odd_iff_mod_2_eq_one mod2_eq_if)

lemma length_set_present_bits [simp]: "length (set_present_bits i ps bits) = length bits"
  by (induction i ps bits rule: set_present_bits.induct) auto

lemma set_present_bits_nth:
  assumes "i + length ps \<le> 8 * length bits" "\<forall>j\<ge>i. \<not> bit_at bits j"
  shows "bit_at (set_present_bits i ps bits) j =
    (if j < i then bit_at bits j else j < i + length ps \<and> ps ! (j - i))"
  using assms
proof (induction i ps bits rule: set_present_bits.induct)
  case (2 i p ps bits)
  let ?b = "if p then bits[i div 8 := (bits ! (i div 8)) OR push_bit (i mod 8) 1] else bits"
  have in_range: "i div 8 < length bits"
    using "2.prems"(1) by (simp add: div_less_iff_less_mult mult.commute)
  have "8 * (i div 8) + i mod 8 = i" by simp
  then have pos: "j = i" if "j div 8 = i div 8" "j mod 8 = i mod 8" for j
    using that mult_div_mod_eq [of 8 j] by metis
  have b: "bit_at ?b j = (bit_at bits j \<or> (p \<and> j = i))" for j
    using in_range pos [of j]
    by (cases "j div 8 = i div 8")
       (auto simp: bit_at_def nth_list_update bit_or_iff bit_push_bit_iff bit_1_iff simp del: push_bit_of_1)
  have IH: "bit_at (set_present_bits (Suc i) ps ?b) j =
      (if j < Suc i then bit_at ?b j else j < Suc i + length ps \<and> ps ! (j - Suc i))"
    using "2.prems" by (intro "2.IH") (auto simp: b)
  show ?case
    using IH b [of j] "2.prems"(2) by (auto simp: nth_Cons' not_less less_Suc_eq)
qed auto

lemma nm_bits_bit_at:
  assumes "i < n" "length bits = div_ceil n 8"
  shows "bit_at bits i = bit (drop_bit (i mod 8) (bits ! (i div 8))) 0"
  using div_less_div_ceil [OF assms(1), of 8] assms(2) by (simp add: bit_at_def bit_drop_bit_eq)

lemma is_present_from_presence: "is_present (from_presence ps) i = (i < length ps \<and> ps ! i)"
proof (cases "\<exists>p\<in>set ps. \<not> p")
  case False
  then have all: "\<forall>i<length ps. ps ! i" and no: "filter (\<lambda>p. \<not> p) ps = []"
    by (auto simp: filter_empty_conv)
  then show ?thesis by (auto simp: from_presence_def Let_def all_present_def is_present_def)
next
  case True
  then have nz: "filter (\<lambda>p. \<not> p) ps \<noteq> []" by (auto simp: filter_empty_conv)
  let ?bits = "set_present_bits 0 ps (replicate (div_ceil (length ps) 8) 0)"
  have fit: "length ps \<le> 8 * div_ceil (length ps) 8" by (rule div_ceil_le) simp
  have "bit_at ?bits i = ps ! i" if "i < length ps"
    using that fit set_present_bits_nth [of 0 ps "replicate (div_ceil (length ps) 8) 0" i] by simp
  moreover have "bit_at ?bits i = bit (drop_bit (i mod 8) (?bits ! (i div 8))) 0" if "i < length ps"
    using that by (intro nm_bits_bit_at) auto
  ultimately show ?thesis
    using nz by (auto simp: from_presence_def Let_def is_present_def and_1_eq_1)
qed

lemma null_mask_ok_all_present [simp]: "null_mask_ok (all_present n)"
  by (simp add: null_mask_ok_def all_present_def)

lemma null_mask_ok_from_presence: "null_mask_ok (from_presence ps)"
proof (cases "nm_bits (from_presence ps)")
  case None
  then show ?thesis
    by (auto simp: null_mask_ok_def from_presence_def all_present_def Let_def split: if_splits)
next
  case (Some bits)
  then have c: "length bits = div_ceil (length ps) 8" "nm_row_count (from_presence ps) = length ps"
    "nm_null_count (from_presence ps) = length (filter (\<lambda>p. \<not> p) ps)"
    by (auto simp: from_presence_def all_present_def Let_def split: if_splits)
  have "length (filter (\<lambda>i. \<not> is_present (from_presence ps) i) [0..<length ps]) =
      length (filter (\<lambda>i. \<not> ps ! i) [0..<length ps])"
    by (rule arg_cong [of _ _ length], rule filter_cong) (auto simp: is_present_from_presence)
  also have "\<dots> = length (filter (\<lambda>p. \<not> p) (map ((!) ps) [0..<length ps]))"
    by (simp add: filter_map comp_def)
  finally show ?thesis using Some c by (simp add: null_mask_ok_def map_nth)
qed

lemma from_raw_ok_iff:
  "from_raw n k bits = Inr m \<longleftrightarrow> null_mask_ok m \<and> m = \<lparr>nm_row_count = n, nm_null_count = k, nm_bits = bits\<rparr>"
proof (cases bits)
  case None
  then show ?thesis by (auto simp: from_raw_def null_mask_ok_def all_present_def)
next
  case (Some bytes)
  let ?m = "\<lparr>nm_row_count = n, nm_null_count = k, nm_bits = Some bytes\<rparr>"
  have "filter (\<lambda>i. \<not> is_present ?m i) [0..<n] =
      filter (\<lambda>i. drop_bit (i mod 8) (bytes ! (i div 8)) AND 1 = 0) [0..<n]"
    by (rule filter_cong) (auto simp: is_present_def and_1_eq_0 and_1_eq_1)
  then show ?thesis
    using Some by (auto simp: from_raw_def null_mask_ok_def Let_def)
qed

lemma from_raw_round_trip:
  "null_mask_ok m \<Longrightarrow> from_raw (nm_row_count m) (nm_null_count m) (nm_bits m) = Inr m"
  by (simp add: from_raw_ok_iff)

lemma filter_split_length: "length (filter P xs) + length (filter (\<lambda>x. \<not> P x) xs) = length xs"
  by (induction xs) auto

lemma present_count_eq:
  "null_mask_ok m \<Longrightarrow> present_count m = length (filter (is_present m) [0..<nm_row_count m])"
proof (cases "nm_bits m")
  case None
  assume "null_mask_ok m"
  moreover have "filter (is_present m) [0..<nm_row_count m] = [0..<nm_row_count m]"
    using None by (auto simp: filter_id_conv is_present_def)
  ultimately show ?thesis using None by (simp add: present_count_def null_mask_ok_def)
next
  case (Some bits)
  assume "null_mask_ok m"
  then show ?thesis
    using Some filter_split_length [of "is_present m" "[0..<nm_row_count m]"]
    by (simp add: present_count_def null_mask_ok_def)
qed

subsection \<open>Properties\<close>

subsection \<open>Further facts\<close>

text \<open>
  The integrity check on the parts of a mask read from a frame accepts exactly the parts whose
  bitmap has the right length and whose clear bits are the claimed nulls, and an accepted mask
  counts its present rows right.
\<close>

lemma raw_mask_integrity:
  shows "from_raw n k bits = Inr m \<longleftrightarrow> m = \<lparr>nm_row_count = n, nm_null_count = k, nm_bits = bits\<rparr> \<and>
    (case bits of None \<Rightarrow> k = 0
     | Some bs \<Rightarrow> length bs = div_ceil n 8 \<and> k = length (filter (\<lambda>i. \<not> is_present m i) [0..<n])) \<and>
    present_count m = length (filter (is_present m) [0..<n])"
  using present_count_eq [of m] by (auto simp: from_raw_ok_iff null_mask_ok_def split: option.splits)

end
