(* ===== verification/Byte_Io.thy ===== *)
theory Byte_Io imports Varint_Rle Null_Mask begin

text \<open>
  The byte primitives of \<^verbatim>\<open>weft-physical-type/src/weftseg.rs\<close>: the error type, \<open>ByteWriter\<close> (a
  writer operation is the bytes it appends), \<open>ByteReader\<close> (an operation returns an error or the
  value and the advanced reader) and the decode limits. The contract between the two is the locale
  \<open>wire\<close>: what was put is read back, wherever it stands in the buffer and whatever follows it. A
  float is its bit pattern, a string its bytes.
\<close>

unbundle bit_operations_syntax

subsection \<open>Errors\<close>

datatype weft_seg_error =
    UnexpectedEof nat nat
  | VarintTooLong
  | InvalidUtf8
  | InvalidDecimal
  | DecimalOutOfRange nat
  | BadMagic
  | UnsupportedVersion u16
  | InvalidTag string u8
  | ChecksumMismatch u32 u32
  | TrailingBytes nat
  | InvalidNullMask null_mask_error
  | CodecNotEnabled string string
  | UnknownCriticalExtension u32
  | EnvelopeBodyMismatch u16 u16
  | DecodeLimit string nat nat
  | ColumnLengthMismatch string nat nat

text \<open>The \<open>?\<close> operator: an error ends the function, a value and the reader are passed on.\<close>

fun rbind :: "weft_seg_error + 'a \<times> 'r \<Rightarrow> ('a \<Rightarrow> 'r \<Rightarrow> weft_seg_error + 'b) \<Rightarrow> weft_seg_error + 'b" where
  "rbind (Inl e) f = Inl e"
| "rbind (Inr (a, r)) f = f a r"

lemma rbind_Inr_iff: "rbind m f = Inr y \<longleftrightarrow> (\<exists>a r. m = Inr (a, r) \<and> f a r = Inr y)"
  by (cases m) auto

subsection \<open>The writer\<close>

definition put_u8 :: "u8 \<Rightarrow> u8 list" where "put_u8 v = [v]"
definition put_raw :: "u8 list \<Rightarrow> u8 list" where "put_raw bytes = bytes"
definition put_u16_le :: "u16 \<Rightarrow> u8 list" where "put_u16_le v = to_le 2 v"
definition put_u32_le :: "u32 \<Rightarrow> u8 list" where "put_u32_le v = to_le 4 v"
definition put_i64_le :: "i64 \<Rightarrow> u8 list" where "put_i64_le v = to_le 8 v"
definition put_i128_le :: "i128 \<Rightarrow> u8 list" where "put_i128_le v = to_le 16 v"
definition put_f64_le :: "u64 \<Rightarrow> u8 list" where "put_f64_le v = to_le 8 v"
definition put_f32_le :: "u32 \<Rightarrow> u8 list" where "put_f32_le v = to_le 4 v"

function put_uvarint :: "u64 \<Rightarrow> u8 list" where
  "put_uvarint v =
    (let byte = ucast (v AND 0x7F) :: u8; rest = drop_bit 7 v
     in if rest \<noteq> 0 then (byte OR 0x80) # put_uvarint rest else [byte])"
  by pat_completeness auto
termination
proof (relation "measure bit_length", goal_cases)
  case (2 v byte rest)
  then show ?case
    using bit_length_drop_bit [of 7 v] bit_length_eq_0_iff [of rest] by auto
qed simp

declare put_uvarint.simps [simp del]

definition put_svarint :: "i64 \<Rightarrow> u8 list" where
  "put_svarint v = put_uvarint (push_bit 1 v XOR signed_drop_bit 63 v)"

definition put_bytes :: "u8 list \<Rightarrow> u8 list" where
  "put_bytes bytes = put_uvarint (of_nat (length bytes)) @ bytes"

definition put_str :: "u8 list \<Rightarrow> u8 list" where
  "put_str s = put_bytes s"

subsection \<open>The reader\<close>

record byte_reader =
  br_buf :: "u8 list"
  br_pos :: nat

definition new_reader :: "u8 list \<Rightarrow> byte_reader" where
  "new_reader buf = \<lparr>br_buf = buf, br_pos = 0\<rparr>"

definition remaining :: "byte_reader \<Rightarrow> nat" where
  "remaining r = length (br_buf r) - br_pos r"

definition reader_is_empty :: "byte_reader \<Rightarrow> bool" where
  "reader_is_empty r \<longleftrightarrow> length (br_buf r) \<le> br_pos r"

definition read_take :: "nat \<Rightarrow> byte_reader \<Rightarrow> weft_seg_error + u8 list \<times> byte_reader" where
  "read_take n r =
    (if remaining r < n then Inl (UnexpectedEof n (remaining r))
     else Inr (take n (drop (br_pos r) (br_buf r)), r\<lparr>br_pos := br_pos r + n\<rparr>))"

definition read_u8 :: "byte_reader \<Rightarrow> weft_seg_error + u8 \<times> byte_reader" where
  "read_u8 r = rbind (read_take 1 r) (\<lambda>b r. Inr (b ! 0, r))"

definition read_u16_le :: "byte_reader \<Rightarrow> weft_seg_error + u16 \<times> byte_reader" where
  "read_u16_le r = rbind (read_take 2 r) (\<lambda>b r. Inr (from_le [b ! 0, b ! 1], r))"

definition read_u32_le :: "byte_reader \<Rightarrow> weft_seg_error + u32 \<times> byte_reader" where
  "read_u32_le r = rbind (read_take 4 r) (\<lambda>b r. Inr (from_le [b ! 0, b ! 1, b ! 2, b ! 3], r))"

definition read_i64_le :: "byte_reader \<Rightarrow> weft_seg_error + i64 \<times> byte_reader" where
  "read_i64_le r = rbind (read_take 8 r)
    (\<lambda>b r. Inr (from_le [b ! 0, b ! 1, b ! 2, b ! 3, b ! 4, b ! 5, b ! 6, b ! 7], r))"

definition read_i128_le :: "byte_reader \<Rightarrow> weft_seg_error + i128 \<times> byte_reader" where
  "read_i128_le r = rbind (read_take 16 r)
    (\<lambda>b r. Inr (from_le [b ! 0, b ! 1, b ! 2, b ! 3, b ! 4, b ! 5, b ! 6, b ! 7,
                         b ! 8, b ! 9, b ! 10, b ! 11, b ! 12, b ! 13, b ! 14, b ! 15], r))"

definition read_f64_le :: "byte_reader \<Rightarrow> weft_seg_error + u64 \<times> byte_reader" where
  "read_f64_le r = rbind (read_take 8 r)
    (\<lambda>b r. Inr (from_le [b ! 0, b ! 1, b ! 2, b ! 3, b ! 4, b ! 5, b ! 6, b ! 7], r))"

definition read_f32_le :: "byte_reader \<Rightarrow> weft_seg_error + u32 \<times> byte_reader" where
  "read_f32_le r = rbind (read_take 4 r) (\<lambda>b r. Inr (from_le [b ! 0, b ! 1, b ! 2, b ! 3], r))"

function read_uvarint_loop :: "nat \<Rightarrow> u64 \<Rightarrow> byte_reader \<Rightarrow> weft_seg_error + u64 \<times> byte_reader" where
  "read_uvarint_loop shift result r =
    (case read_u8 r of
       Inl e \<Rightarrow> Inl e
     | Inr (byte, r') \<Rightarrow>
         let result' = result OR push_bit shift (ucast (byte AND 0x7F))
         in if byte AND 0x80 = 0 then Inr (result', r')
            else if 64 \<le> shift + 7 then Inl VarintTooLong
            else read_uvarint_loop (shift + 7) result' r')"
  by pat_completeness auto
termination by (relation "measure (\<lambda>(shift, result, r). 64 - shift)") auto

declare read_uvarint_loop.simps [simp del]

definition read_uvarint :: "byte_reader \<Rightarrow> weft_seg_error + u64 \<times> byte_reader" where
  "read_uvarint r = read_uvarint_loop 0 0 r"

definition read_svarint :: "byte_reader \<Rightarrow> weft_seg_error + i64 \<times> byte_reader" where
  "read_svarint r = rbind (read_uvarint r) (\<lambda>zz r. Inr (drop_bit 1 zz XOR - (zz AND 1), r))"

text \<open>\<open>usize::try_from(u64)\<close> never fails on a 64-bit target.\<close>

definition read_usize :: "byte_reader \<Rightarrow> weft_seg_error + nat \<times> byte_reader" where
  "read_usize r = rbind (read_uvarint r) (\<lambda>n r. Inr (unat n, r))"

definition read_bytes :: "byte_reader \<Rightarrow> weft_seg_error + u8 list \<times> byte_reader" where
  "read_bytes r = rbind (read_usize r) (\<lambda>len r. read_take len r)"

text \<open>\<open>str::from_utf8\<close>: the well-formed byte sequences of the Unicode standard.\<close>

definition utf8_tail :: "u8 \<Rightarrow> bool" where
  "utf8_tail b \<longleftrightarrow> 0x80 \<le> b \<and> b \<le> 0xBF"

fun utf8_valid :: "u8 list \<Rightarrow> bool" where
  "utf8_valid [] = True"
| "utf8_valid (a # bs) =
    (if a < 0x80 then utf8_valid bs
     else case bs of
       [] \<Rightarrow> False
     | b # cs \<Rightarrow>
       if 0xC2 \<le> a \<and> a \<le> 0xDF then utf8_tail b \<and> utf8_valid cs
       else case cs of
         [] \<Rightarrow> False
       | c # ds \<Rightarrow>
         if a = 0xE0 then 0xA0 \<le> b \<and> b \<le> 0xBF \<and> utf8_tail c \<and> utf8_valid ds
         else if (0xE1 \<le> a \<and> a \<le> 0xEC) \<or> a = 0xEE \<or> a = 0xEF then utf8_tail b \<and> utf8_tail c \<and> utf8_valid ds
         else if a = 0xED then 0x80 \<le> b \<and> b \<le> 0x9F \<and> utf8_tail c \<and> utf8_valid ds
         else case ds of
           [] \<Rightarrow> False
         | d # es \<Rightarrow>
           if a = 0xF0 then 0x90 \<le> b \<and> b \<le> 0xBF \<and> utf8_tail c \<and> utf8_tail d \<and> utf8_valid es
           else if 0xF1 \<le> a \<and> a \<le> 0xF3 then utf8_tail b \<and> utf8_tail c \<and> utf8_tail d \<and> utf8_valid es
           else if a = 0xF4 then 0x80 \<le> b \<and> b \<le> 0x8F \<and> utf8_tail c \<and> utf8_tail d \<and> utf8_valid es
           else False)"

definition read_str :: "byte_reader \<Rightarrow> weft_seg_error + u8 list \<times> byte_reader" where
  "read_str r = rbind (read_bytes r)
    (\<lambda>bytes r. if utf8_valid bytes then Inr (bytes, r) else Inl InvalidUtf8)"

subsection \<open>Decode limits\<close>

definition max_rows :: nat where "max_rows = 16777216"
definition max_pages :: nat where "max_pages = 1048576"
definition max_extensions :: nat where "max_extensions = 1024"

definition check_decode_limit :: "string \<Rightarrow> nat \<Rightarrow> nat \<Rightarrow> weft_seg_error + unit" where
  "check_decode_limit limit found mx = (if mx < found then Inl (DecodeLimit limit found mx) else Inr ())"

definition check_count_fits :: "nat \<Rightarrow> nat \<Rightarrow> weft_seg_error + unit" where
  "check_count_fits count rem = (if rem < count then Inl (UnexpectedEof count rem) else Inr ())"

text \<open>\<open>try_fold\<close> with \<open>checked_add\<close>: a partial sum past \<open>usize\<close> makes the whole fold \<open>None\<close>.\<close>

fun checked_rle_total_from :: "nat \<Rightarrow> (i64 \<times> nat) list \<Rightarrow> nat option" where
  "checked_rle_total_from acc [] = Some acc"
| "checked_rle_total_from acc ((v, len) # runs) =
    (if acc + len < 2 ^ 64 then checked_rle_total_from (acc + len) runs else None)"

definition checked_rle_total :: "(i64 \<times> nat) list \<Rightarrow> nat option" where
  "checked_rle_total runs = checked_rle_total_from 0 runs"

subsection \<open>The contract of a wire type\<close>

text \<open>A reader standing between what was consumed and what is left.\<close>

definition rd :: "u8 list \<Rightarrow> u8 list \<Rightarrow> byte_reader" where
  "rd pre s = \<lparr>br_buf = pre @ s, br_pos = length pre\<rparr>"

lemma new_reader_rd: "new_reader buf = rd [] buf"
  by (simp add: new_reader_def rd_def)

lemma remaining_rd [simp]: "remaining (rd pre s) = length s"
  by (simp add: remaining_def rd_def)

lemma reader_is_empty_rd [simp]: "reader_is_empty (rd pre s) \<longleftrightarrow> s = []"
  by (auto simp: reader_is_empty_def rd_def)

lemma read_take_rd: "length xs = n \<Longrightarrow> read_take n (rd pre (xs @ s)) = Inr (xs, rd (pre @ xs) s)"
  by (auto simp: read_take_def rd_def remaining_def)

locale wire =
  fixes put :: "'a \<Rightarrow> u8 list"
    and get :: "byte_reader \<Rightarrow> weft_seg_error + 'a \<times> byte_reader"
    and valid :: "'a \<Rightarrow> bool"
  assumes get_put: "valid a \<Longrightarrow> get (rd pre (put a @ s)) = Inr (a, rd (pre @ put a) s)"
begin

lemma get_put_last: "valid a \<Longrightarrow> get (rd pre (put a)) = Inr (a, rd (pre @ put a) [])"
  using get_put [of a pre "[]"] by simp

lemma get_put_new: "valid a \<Longrightarrow> get (new_reader (put a)) = Inr (a, rd (put a) [])"
  by (simp add: new_reader_rd get_put_last)

text \<open>What is put in front of equal remainders tells equal values apart.\<close>

lemma put_prefix_free: "valid a \<Longrightarrow> valid b \<Longrightarrow> put a @ s = put b @ t \<Longrightarrow> a = b \<and> s = t"
  using get_put [of a "[]" s] get_put [of b "[]" t] by (auto simp: rd_def)

end

text \<open>The counted loops of the readers: \<open>n\<close> values in turn.\<close>

fun read_many :: "(byte_reader \<Rightarrow> weft_seg_error + 'a \<times> byte_reader) \<Rightarrow> nat \<Rightarrow> byte_reader \<Rightarrow>
    weft_seg_error + 'a list \<times> byte_reader" where
  "read_many get 0 r = Inr ([], r)"
| "read_many get (Suc n) r = rbind (get r) (\<lambda>x r. rbind (read_many get n r) (\<lambda>xs r. Inr (x # xs, r)))"

definition put_many :: "('a \<Rightarrow> u8 list) \<Rightarrow> 'a list \<Rightarrow> u8 list" where
  "put_many put xs = concat (map put xs)"

context wire begin

lemma read_many_put: "\<forall>x\<in>set xs. valid x \<Longrightarrow>
    read_many get (length xs) (rd pre (put_many put xs @ s)) = Inr (xs, rd (pre @ put_many put xs) s)"
  by (induction xs arbitrary: pre) (simp_all add: put_many_def get_put)

lemma read_many_put_last: "\<forall>x\<in>set xs. valid x \<Longrightarrow>
    read_many get (length xs) (rd pre (put_many put xs)) = Inr (xs, rd (pre @ put_many put xs) [])"
  using read_many_put [of xs pre "[]"] by simp

end

subsection \<open>The primitives satisfy it\<close>

lemma list_of_length: "length xs = n \<Longrightarrow> map ((!) xs) [0..<n] = xs"
  using map_nth [of xs] by simp

lemma read_u8_rd: "read_u8 (rd pre (b # s)) = Inr (b, rd (pre @ [b]) s)"
  using read_take_rd [of "[b]" 1 pre s] by (simp add: read_u8_def)

lemma read_u8_rd_Nil: "read_u8 (rd pre []) = Inl (UnexpectedEof 1 0)"
  by (simp add: read_u8_def read_take_def)

interpretation u8: wire put_u8 read_u8 "\<lambda>_. True"
  by unfold_locales (simp add: put_u8_def read_u8_rd)

lemma to_le_nths:
  "[to_le 2 w ! 0, to_le 2 w ! 1] = to_le 2 w"
  "[to_le 4 w ! 0, to_le 4 w ! 1, to_le 4 w ! 2, to_le 4 w ! 3] = to_le 4 w"
  "[to_le 8 w ! 0, to_le 8 w ! 1, to_le 8 w ! 2, to_le 8 w ! 3, to_le 8 w ! 4, to_le 8 w ! 5, to_le 8 w ! 6, to_le 8 w ! 7] = to_le 8 w"
  "[to_le 16 w ! 0, to_le 16 w ! 1, to_le 16 w ! 2, to_le 16 w ! 3, to_le 16 w ! 4, to_le 16 w ! 5, to_le 16 w ! 6, to_le 16 w ! 7,
    to_le 16 w ! 8, to_le 16 w ! 9, to_le 16 w ! 10, to_le 16 w ! 11, to_le 16 w ! 12, to_le 16 w ! 13, to_le 16 w ! 14, to_le 16 w ! 15] = to_le 16 w"
  by (simp_all add: to_le_def upt_rec)

interpretation u16: wire put_u16_le read_u16_le "\<lambda>_. True"
  by unfold_locales (simp add: put_u16_le_def read_u16_le_def read_take_rd to_le_nths from_le_to_le del: from_le.simps One_nat_def)

interpretation u32: wire put_u32_le read_u32_le "\<lambda>_. True"
  by unfold_locales (simp add: put_u32_le_def read_u32_le_def read_take_rd to_le_nths from_le_to_le del: from_le.simps One_nat_def)

interpretation i64: wire put_i64_le read_i64_le "\<lambda>_. True"
  by unfold_locales (simp add: put_i64_le_def read_i64_le_def read_take_rd to_le_nths from_le_to_le del: from_le.simps One_nat_def)

interpretation i128: wire put_i128_le read_i128_le "\<lambda>_. True"
  by unfold_locales (simp add: put_i128_le_def read_i128_le_def read_take_rd to_le_nths from_le_to_le del: from_le.simps One_nat_def)

interpretation f64: wire put_f64_le read_f64_le "\<lambda>_. True"
  by unfold_locales (simp add: put_f64_le_def read_f64_le_def read_take_rd to_le_nths from_le_to_le del: from_le.simps One_nat_def)

interpretation f32: wire put_f32_le read_f32_le "\<lambda>_. True"
  by unfold_locales (simp add: put_f32_le_def read_f32_le_def read_take_rd to_le_nths from_le_to_le del: from_le.simps One_nat_def)

text \<open>The writer's varint is the one of the frame-of-reference codec, so they share their length.\<close>

lemma put_uvarint_eq: "put_uvarint v = for_push_uvarint v"
proof (induction v rule: put_uvarint.induct)
  case (1 v)
  then show ?case by (subst put_uvarint.simps, subst for_push_uvarint.simps) (simp add: Let_def)
qed

lemma length_put_uvarint: "length (put_uvarint v) = uvarint_len v"
  by (simp add: put_uvarint_eq)

lemma put_svarint_eq: "put_svarint v = put_uvarint (zigzag v)"
  by (simp add: put_svarint_def zigzag_def)

lemma length_put_svarint: "length (put_svarint v) = zigzag_varint_len v"
  by (simp add: put_svarint_eq length_put_uvarint zigzag_varint_len_eq)

lemma read_uvarint_loop_push:
  assumes "bit_length v + shift \<le> 64"
  shows "read_uvarint_loop shift result (rd pre (for_push_uvarint v @ s)) =
    Inr (result OR push_bit shift v, rd (pre @ for_push_uvarint v) s)"
  using assms
proof (induction v arbitrary: pre shift result rule: for_push_uvarint.induct)
  case (1 v)
  let ?byte = "ucast (v AND 0x7F) :: u8" and ?rest = "drop_bit 7 v"
  have byte: "ucast (?byte AND 0x7F) = v AND 0x7F" "ucast ((?byte OR 0x80) AND 0x7F) = v AND 0x7F"
    and flag: "?byte AND 0x80 = 0" "(?byte OR 0x80) AND 0x80 \<noteq> 0"
    by (rule varint_byte)+
  show ?case
  proof (cases "?rest = 0")
    case True
    have "bit_length v \<le> 7"
      using True bit_length_drop_bit [of 7 v] bit_length_eq_0_iff [of ?rest] by simp
    then have "v AND 0x7F = v"
      using take_bit_bit_length [of v 7] by (simp add: and_0x7F)
    moreover have "for_push_uvarint v = [?byte]"
      using True by (subst for_push_uvarint.simps) (simp add: Let_def)
    moreover have "read_uvarint_loop shift result (rd pre (?byte # s)) =
        Inr (result OR push_bit shift (v AND 0x7F), rd (pre @ [?byte]) s)"
      by (subst read_uvarint_loop.simps) (simp add: Let_def byte flag read_u8_rd)
    ultimately show ?thesis by (metis append_Cons append_Nil)
  next
    case False
    have "bit_length v = bit_length ?rest + 7" "0 < bit_length ?rest"
      using False bit_length_drop_bit [of 7 v] bit_length_eq_0_iff [of ?rest] by auto
    then have fit: "bit_length ?rest + (shift + 7) \<le> 64" "\<not> 64 \<le> shift + 7" using "1.prems" by auto
    have "read_uvarint_loop (shift + 7) (result OR push_bit shift (v AND 0x7F))
        (rd (pre @ [?byte OR 0x80]) (for_push_uvarint ?rest @ s)) =
      Inr ((result OR push_bit shift (v AND 0x7F)) OR push_bit (shift + 7) ?rest,
        rd ((pre @ [?byte OR 0x80]) @ for_push_uvarint ?rest) s)"
      using False fit(1) by (intro "1.IH") auto
    moreover have "for_push_uvarint v = (?byte OR 0x80) # for_push_uvarint ?rest"
      using False by (subst for_push_uvarint.simps) (simp add: Let_def)
    ultimately show ?thesis
      using flag(2) fit(2) varint_split [of shift v]
      by (subst read_uvarint_loop.simps) (simp add: Let_def byte or.assoc read_u8_rd)
  qed
qed

interpretation uvarint: wire put_uvarint read_uvarint "\<lambda>_. True"
proof unfold_locales
  fix v pre s
  show "read_uvarint (rd pre (put_uvarint v @ s)) = Inr (v, rd (pre @ put_uvarint v) s)"
    using bit_length_le [of v] by (simp add: read_uvarint_def put_uvarint_eq read_uvarint_loop_push)
qed

lemma read_svarint_unzigzag: "read_svarint r = rbind (read_uvarint r) (\<lambda>zz r. Inr (unzigzag zz, r))"
  by (simp add: read_svarint_def unzigzag_def)

interpretation svarint: wire put_svarint read_svarint "\<lambda>_. True"
  by unfold_locales (simp add: put_svarint_eq read_svarint_unzigzag uvarint.get_put)

definition put_usize :: "nat \<Rightarrow> u8 list" where
  "put_usize n = put_uvarint (of_nat n)"

interpretation usize: wire put_usize read_usize "\<lambda>n. n < 2 ^ 64"
  by unfold_locales (simp add: put_usize_def read_usize_def uvarint.get_put unat_of_nat)

interpretation bytes: wire put_bytes read_bytes "\<lambda>bs. length bs < 2 ^ 64"
proof unfold_locales
  fix bs pre s
  assume "length (bs :: u8 list) < 2 ^ 64"
  then show "read_bytes (rd pre (put_bytes bs @ s)) = Inr (bs, rd (pre @ put_bytes bs) s)"
    by (simp add: put_bytes_def read_bytes_def read_usize_def uvarint.get_put unat_of_nat read_take_rd)
qed

interpretation str: wire put_str read_str "\<lambda>bs. length bs < 2 ^ 64 \<and> utf8_valid bs"
  by unfold_locales (simp add: put_str_def read_str_def bytes.get_put)

lemmas wire_reads =
  u8.get_put u8.get_put_last u16.get_put u16.get_put_last u32.get_put u32.get_put_last
  i64.get_put i64.get_put_last i128.get_put i128.get_put_last f64.get_put f64.get_put_last
  f32.get_put f32.get_put_last uvarint.get_put uvarint.get_put_last svarint.get_put svarint.get_put_last
  usize.get_put usize.get_put_last bytes.get_put bytes.get_put_last str.get_put str.get_put_last

declare wire_reads [wire_simps] rd_def [symmetric, wire_simps]

text \<open>A reader never moves backwards, and what it returns it has consumed.\<close>

lemma read_u8_cases:
  "read_u8 r = (if br_pos r < length (br_buf r)
     then Inr (br_buf r ! br_pos r, r\<lparr>br_pos := Suc (br_pos r)\<rparr>) else Inl (UnexpectedEof 1 0))"
proof (cases "br_pos r < length (br_buf r)")
  case True
  then have "take (Suc 0) (drop (br_pos r) (br_buf r)) = [br_buf r ! br_pos r]"
    by (metis One_nat_def Cons_nth_drop_Suc take0 take_Suc_Cons)
  with True show ?thesis by (simp add: read_u8_def read_take_def remaining_def)
next
  case False
  then show ?thesis by (simp add: read_u8_def read_take_def remaining_def)
qed

lemma checked_rle_total_eq:
  "checked_rle_total runs = (let n = length (rle_decode runs) in if n < 2 ^ 64 then Some n else None)"
proof -
  have "acc < 2 ^ 64 \<Longrightarrow> checked_rle_total_from acc runs =
      (let n = acc + length (rle_decode runs) in if n < 2 ^ 64 then Some n else None)" for acc
    by (induction acc runs rule: checked_rle_total_from.induct) (auto simp: Let_def add.assoc)
  from this [of 0] show ?thesis by (simp add: checked_rle_total_def)
qed

subsection \<open>Properties\<close>

subsection \<open>Further facts\<close>

text \<open>
  An unsigned varint is read back by both readers, wherever it stands and whatever follows, takes
  one byte per started group of seven significant bits, and no varint is a prefix of another.
\<close>

lemma varint_exact:
  shows "read_uvarint (rd pre (put_uvarint v @ s)) = Inr (v, rd (pre @ put_uvarint v) s) \<and>
    for_read_uvarint (pre @ put_uvarint v @ s) (length pre) = (v, length pre + length (put_uvarint v)) \<and>
    length (put_uvarint v) = div_ceil (max 1 (bit_length v)) 7 \<and>
    (put_uvarint v @ s = put_uvarint w @ t \<longrightarrow> v = w \<and> s = t)"
proof -
  have "for_read_uvarint (pre @ put_uvarint v @ s) (length pre) = (v, length pre + length (put_uvarint v))"
    by (simp only: put_uvarint_eq for_read_push_uvarint length_for_push_uvarint)
  moreover have "length (put_uvarint v) = div_ceil (max 1 (bit_length v)) 7"
    by (simp only: length_put_uvarint uvarint_len_bit_length)
  ultimately show ?thesis
    using uvarint.put_prefix_free [where a = v and b = w and s = s and t = t] uvarint.get_put [where a = v and pre = pre and s = s] by blast
qed

lemma varint_exact_witness:
  "read_uvarint (rd [1] (put_uvarint 300 @ [9])) = Inr (300, rd ([1] @ put_uvarint 300) [9]) \<and>
    for_read_uvarint ([1] @ put_uvarint 300 @ [9]) (length [1 :: u8]) = (300, length [1 :: u8] + length (put_uvarint 300)) \<and>
    put_uvarint 300 @ [9] \<noteq> put_uvarint 301 @ [9]"
  using varint_exact [where pre = "[1]" and v = 300 and s = "[9]" and w = 301 and t = "[9]"]
  by (auto simp del: put_uvarint.simps)

end
