(* ===== verification/Ts_Block.thy ===== *)
theory Ts_Block imports Byte_Io Codec_Choice Checkpoints begin

text \<open>
  The timestamp-column block of \<^verbatim>\<open>weft-physical-type/src/weftseg.rs\<close>: the writers, with and
  without a persisted checkpoint index, the reader of the codec-tagged second differences, and the
  lazy reader that looks a timestamp up without decoding the stream. What is shown: every block
  reads back as the column it was written from, whichever codec was chosen; a lazy lookup finds
  what a search of the decoded column finds; and two places where the code departs from its
  comments.
\<close>

unbundle bit_operations_syntax

subsection \<open>Tags\<close>

definition ts_codec_varint :: u8 where "ts_codec_varint = 0"
definition ts_codec_bitpack :: u8 where "ts_codec_bitpack = 1"
definition ts_codec_gorilla :: u8 where "ts_codec_gorilla = 2"
definition ts_codec_rle :: u8 where "ts_codec_rle = 3"
definition ts_codec_blocked :: u8 where "ts_codec_blocked = 4"
definition ts_codec_checkpointed :: u8 where "ts_codec_checkpointed = 5"

lemmas ts_codec_defs = ts_codec_varint_def ts_codec_bitpack_def ts_codec_gorilla_def ts_codec_rle_def
  ts_codec_blocked_def ts_codec_checkpointed_def

fun time_unit_tag :: "time_unit \<Rightarrow> u8" where
  "time_unit_tag Seconds = 0"
| "time_unit_tag Millis = 1"
| "time_unit_tag Micros = 2"
| "time_unit_tag Nanos = 3"

definition time_unit_from_tag :: "u8 \<Rightarrow> weft_seg_error + time_unit" where
  "time_unit_from_tag tag =
    (if tag = 0 then Inr Seconds else if tag = 1 then Inr Millis
     else if tag = 2 then Inr Micros else if tag = 3 then Inr Nanos
     else Inl (InvalidTag ''time_unit'' tag))"

subsection \<open>Writing\<close>

definition put_run :: "i64 \<times> nat \<Rightarrow> u8 list" where
  "put_run run = (let (v, count) = run in put_svarint v @ put_usize count)"

definition write_dod_codec :: "delta_of_delta_column \<Rightarrow> u8 list" where
  "write_dod_codec col =
    (let name = best_encoding_name col; dods = dd_dods col in
     if name = ''delta_of_delta_gorilla'' then put_u8 ts_codec_gorilla @ put_bytes (encode_gorilla_dods dods)
     else if name = ''delta_of_delta_rle''
     then let runs = rle_encode dods
          in put_u8 ts_codec_rle @ put_usize (length runs) @ put_many put_run runs
     else if name = ''delta_of_delta_blocked''
     then put_u8 ts_codec_blocked @ put_usize blocked_bitpack_block @
          put_bytes (blocked_bitpack_encode dods blocked_bitpack_block)
     else if name = ''delta_of_delta_bitpack''
     then let (width, packed) = bitpack_encode dods
          in put_u8 ts_codec_bitpack @ put_u8 (u8_try_from width 64) @ put_raw packed
     else put_u8 ts_codec_varint @ put_many put_svarint dods)"

text \<open>The part before the codec tag, which both writers emit.\<close>

definition put_ts_head :: "delta_of_delta_column \<Rightarrow> u8 list" where
  "put_ts_head col =
    put_u8 (time_unit_tag (dd_unit col)) @ put_i64_le (dd_first col) @
    (case dd_first_delta col of Some delta \<Rightarrow> put_u8 1 @ put_svarint delta | None \<Rightarrow> put_u8 0) @
    put_usize (length (dd_dods col))"

definition write_timestamp_column :: "delta_of_delta_column \<Rightarrow> u8 list" where
  "write_timestamp_column col = put_ts_head col @ write_dod_codec col"

fun put_points :: "nat \<Rightarrow> i64 \<Rightarrow> dod_checkpoint list \<Rightarrow> u8 list" where
  "put_points prev_row prev_ts [] = []"
| "put_points prev_row prev_ts (cp # cps) =
    put_usize (cp_row cp - prev_row) @ put_svarint (cp_timestamp cp - prev_ts) @
    put_svarint (cp_delta cp) @ put_points (cp_row cp) (cp_timestamp cp) cps"

definition write_timestamp_column_checkpointed :: "delta_of_delta_column \<Rightarrow> nat \<Rightarrow> u8 list" where
  "write_timestamp_column_checkpointed col stride =
    (let cks = checkpoints col stride; block = blocked_bitpack_block in
     if cks_points cks = [] then write_timestamp_column col
     else put_ts_head col @ put_u8 ts_codec_checkpointed @ put_usize (cks_stride cks) @
          put_usize (length (cks_points cks)) @ put_points 0 0 (cks_points cks) @
          put_u8 ts_codec_blocked @ put_usize block @
          put_bytes (blocked_bitpack_encode (dd_dods col) block))"

subsection \<open>Reading\<close>

definition read_run :: "byte_reader \<Rightarrow> weft_seg_error + (i64 \<times> nat) \<times> byte_reader" where
  "read_run r = rbind (read_svarint r) (\<lambda>v r. rbind (read_usize r) (\<lambda>n r. Inr ((v, n), r)))"

definition rcheck :: "weft_seg_error + unit \<Rightarrow> weft_seg_error + 'b \<Rightarrow> weft_seg_error + 'b" where
  "rcheck c k = (case c of Inl e \<Rightarrow> Inl e | Inr _ \<Rightarrow> k)"

text \<open>The entries of the index. Rows are summed in \<open>usize\<close>, which wraps in a release build.\<close>

fun read_points :: "nat \<Rightarrow> nat \<Rightarrow> i64 \<Rightarrow> byte_reader \<Rightarrow> weft_seg_error + dod_checkpoint list \<times> byte_reader" where
  "read_points 0 row ts r = Inr ([], r)"
| "read_points (Suc n) row ts r =
    rbind (read_usize r) (\<lambda>d r. rbind (read_svarint r) (\<lambda>t r. rbind (read_svarint r) (\<lambda>delta r.
      let row' = (row + d) mod 2 ^ 64; ts' = ts + t
      in rbind (read_points n row' ts' r) (\<lambda>cps r.
           Inr (\<lparr>cp_row = row', cp_timestamp = ts', cp_delta = delta\<rparr> # cps, r)))))"

definition read_index :: "byte_reader \<Rightarrow> weft_seg_error + (nat \<times> dod_checkpoint list) \<times> byte_reader" where
  "read_index r =
    rbind (read_usize r) (\<lambda>stride r. rbind (read_usize r) (\<lambda>entries r.
      rcheck (check_count_fits entries (remaining r div 3))
        (rbind (read_points entries 0 0 r) (\<lambda>points r. Inr ((stride, points), r)))))"

text \<open>The codecs proper, after their tag.\<close>

definition read_plain_dods :: "u8 \<Rightarrow> nat \<Rightarrow> byte_reader \<Rightarrow> weft_seg_error + i64 list \<times> byte_reader" where
  "read_plain_dods tag count r =
    (if tag = ts_codec_varint
     then rcheck (check_count_fits count (remaining r)) (read_many read_svarint count r)
     else if tag = ts_codec_bitpack
     then rbind (read_u8 r) (\<lambda>w r. let width = unat w; data_len = div_ceil (count * width) 8
            in rbind (read_take data_len r) (\<lambda>bytes r. Inr (bitpack_decode width bytes count, r)))
     else if tag = ts_codec_gorilla
     then rbind (read_bytes r) (\<lambda>bytes r. Inr (decode_gorilla_dods bytes count, r))
     else if tag = ts_codec_blocked
     then rbind (read_usize r) (\<lambda>block r. rbind (read_bytes r) (\<lambda>bytes r.
            Inr (blocked_bitpack_decode bytes block count, r)))
     else if tag = ts_codec_rle
     then rbind (read_usize r) (\<lambda>run_count r.
            rcheck (check_count_fits run_count (remaining r div 2))
              (rbind (read_many read_run run_count r) (\<lambda>runs r.
                 case checked_rle_total runs of
                   Some n \<Rightarrow> if n \<le> count then Inr (rle_decode runs, r)
                             else Inl (ColumnLengthMismatch ''timestamp_column_rle'' count n)
                 | None \<Rightarrow> Inl (DecodeLimit ''timestamp_column_rle'' (2 ^ 64 - 1) count))))
     else Inl (InvalidTag ''timestamp_codec'' tag))"

text \<open>That the readers only move forward makes the recursion of \<open>read_dod_codec\<close> terminate.\<close>

definition forward :: "(byte_reader \<Rightarrow> weft_seg_error + 'a \<times> byte_reader) \<Rightarrow> bool" where
  "forward get \<longleftrightarrow> (\<forall>r a r'. get r = Inr (a, r') \<longrightarrow> br_buf r' = br_buf r \<and> br_pos r \<le> br_pos r')"

lemma forwardD: "forward get \<Longrightarrow> get r = Inr (a, r') \<Longrightarrow> br_buf r' = br_buf r \<and> br_pos r \<le> br_pos r'"
  by (auto simp: forward_def)

lemma forward_rbind:
  assumes "forward m" "\<And>a. forward (f a)"
  shows "forward (\<lambda>r. rbind (m r) f)"
  unfolding forward_def
proof (intro allI impI)
  fix r b r''
  assume bind: "rbind (m r) f = Inr (b, r'')"
  then obtain a r' where "m r = Inr (a, r')" by (cases "m r") auto
  then show "br_buf r'' = br_buf r \<and> br_pos r \<le> br_pos r''"
    using bind assms forwardD [OF assms(1)] forwardD [OF assms(2)] by fastforce
qed

lemma forward_pure: "forward (\<lambda>r. Inr (g r, r))" "forward (\<lambda>r. Inl e)"
  by (auto simp: forward_def)

lemma forward_rcheck: "forward k \<Longrightarrow> forward (\<lambda>r. rcheck (c r) (k r))"
  unfolding rcheck_def forward_def by (auto split: sum.split)

lemma forward_u8: "forward read_u8"
  by (auto simp: forward_def read_u8_cases)

lemma forward_uvarint: "forward read_uvarint"
proof -
  have "read_uvarint_loop shift res r = Inr (a, r') \<Longrightarrow> br_buf r' = br_buf r \<and> br_pos r \<le> br_pos r'" for shift res r a r'
  proof (induction shift res r rule: read_uvarint_loop.induct)
    case (1 shift res r)
    obtain e where "read_u8 r = Inl e \<or> (\<exists>b r1. read_u8 r = Inr (b, r1))" by (cases "read_u8 r") auto
    moreover have False if "read_u8 r = Inl e" for e
      using "1.prems" that by (subst (asm) read_uvarint_loop.simps) simp
    ultimately obtain b r1 where r1: "read_u8 r = Inr (b, r1)" by blast
    note step = forwardD [OF forward_u8 r1]
    have "(a, r') = (res OR push_bit shift (ucast (b AND 0x7F)), r1) \<or>
        (\<not> b AND 0x80 = 0 \<and> \<not> 64 \<le> shift + 7 \<and>
         read_uvarint_loop (shift + 7) (res OR push_bit shift (ucast (b AND 0x7F))) r1 = Inr (a, r'))"
      using "1.prems" r1 by (subst (asm) read_uvarint_loop.simps) (auto simp: Let_def split: if_splits)
    then show ?case
      using step "1.IH" [OF r1 refl refl] by fastforce
  qed
  then show ?thesis by (auto simp: forward_def read_uvarint_def)
qed

lemma forward_svarint: "forward read_svarint"
  unfolding read_svarint_def [abs_def] by (intro forward_rbind forward_uvarint forward_pure)

lemma forward_usize: "forward read_usize"
  unfolding read_usize_def [abs_def] by (intro forward_rbind forward_uvarint forward_pure)

lemma forward_points: "forward (read_points n row ts)"
proof (induction n arbitrary: row ts)
  case 0
  then show ?case by (simp add: forward_def)
next
  case (Suc n)
  then show ?case
    unfolding read_points.simps [abs_def] Let_def
    by (intro forward_rbind forward_usize forward_svarint forward_pure)
qed

lemma forward_index: "forward read_index"
  unfolding read_index_def [abs_def]
  by (intro forward_rbind forward_usize forward_rcheck forward_points forward_pure)

text \<open>The wrapper is read before the stream inside it.\<close>

function read_dod_codec :: "byte_reader \<Rightarrow> nat \<Rightarrow>
    weft_seg_error + (i64 list \<times> dod_checkpoints option) \<times> byte_reader" where
  "read_dod_codec r count =
    (case read_u8 r of
       Inl e \<Rightarrow> Inl e
     | Inr (tag, r1) \<Rightarrow>
         if tag = ts_codec_checkpointed
         then (case read_index r1 of
                 Inl e \<Rightarrow> Inl e
               | Inr ((stride, points), r2) \<Rightarrow>
                   (case read_dod_codec r2 count of
                      Inl e \<Rightarrow> Inl e
                    | Inr ((dods, nested), r3) \<Rightarrow>
                        if nested \<noteq> None then Inl (InvalidTag ''timestamp_codec'' ts_codec_checkpointed)
                        else let rows = (if count = 0 then 1 else count + 2)
                             in Inr ((dods, Some \<lparr>cks_stride = max stride 1, cks_points = points, cks_rows = rows\<rparr>), r3)))
         else rbind (read_plain_dods tag count r1) (\<lambda>dods r. Inr ((dods, None), r)))"
  by pat_completeness auto
termination
proof (relation "measure (\<lambda>(r, count). remaining r)", goal_cases)
  case (2 r count x2 tag r1 y2 x y2a stride points)
  then have r1: "read_u8 r = Inr (tag, r1)" and r2: "\<exists>r2. read_index r1 = Inr ((stride, points), r2) \<and> y2a = r2"
    by auto
  from r1 have "br_pos r < length (br_buf r)" "br_buf r1 = br_buf r" "br_pos r1 = Suc (br_pos r)"
    by (auto simp: read_u8_cases split: if_splits)
  moreover from r2 have "br_buf y2a = br_buf r1" "br_pos r1 \<le> br_pos y2a"
    using forwardD [OF forward_index] by blast+
  ultimately show ?case by (simp add: remaining_def)
qed simp

declare read_dod_codec.simps [simp del]

definition read_opt_delta :: "byte_reader \<Rightarrow> weft_seg_error + i64 option \<times> byte_reader" where
  "read_opt_delta r = rbind (read_u8 r) (\<lambda>flag r.
    if flag = 0 then Inr (None, r) else rbind (read_svarint r) (\<lambda>d r. Inr (Some d, r)))"

definition read_timestamp_column_with_checkpoints ::
  "byte_reader \<Rightarrow> weft_seg_error + (delta_of_delta_column \<times> dod_checkpoints option) \<times> byte_reader" where
  "read_timestamp_column_with_checkpoints r =
    rbind (read_u8 r) (\<lambda>tag r.
    case time_unit_from_tag tag of Inl e \<Rightarrow> Inl e | Inr unit \<Rightarrow>
    rbind (read_i64_le r) (\<lambda>first r.
    rbind (read_opt_delta r) (\<lambda>first_delta r.
    rbind (read_usize r) (\<lambda>count r.
    rcheck (check_decode_limit ''timestamp_count'' count max_rows)
      (rbind (read_dod_codec r count) (\<lambda>(dods, cks) r.
         Inr ((\<lparr>dd_first = first, dd_first_delta = first_delta, dd_dods = dods, dd_unit = unit\<rparr>, cks), r)))))))"

definition read_timestamp_column :: "byte_reader \<Rightarrow> weft_seg_error + delta_of_delta_column \<times> byte_reader" where
  "read_timestamp_column r =
    rbind (read_u8 r) (\<lambda>tag r.
    case time_unit_from_tag tag of Inl e \<Rightarrow> Inl e | Inr unit \<Rightarrow>
    rbind (read_i64_le r) (\<lambda>first r.
    rbind (read_opt_delta r) (\<lambda>first_delta r.
    rbind (read_usize r) (\<lambda>count r.
    rcheck (check_decode_limit ''timestamp_count'' count max_rows)
      (rbind (read_dod_codec r count) (\<lambda>(dods, _) r.
         Inr (\<lparr>dd_first = first, dd_first_delta = first_delta, dd_dods = dods, dd_unit = unit\<rparr>, r)))))))"

subsection \<open>The lazy reader\<close>

record lazy_checkpointed_ts =
  lz_first :: i64
  lz_first_delta :: i64
  lz_checkpoints :: dod_checkpoints
  lz_dod_bytes :: "u8 list"
  lz_block :: nat
  lz_count :: nat

text \<open>The walk over one decoded window: an answer, or the position after it.\<close>

fun window_scan :: "i64 list \<Rightarrow> nat \<Rightarrow> i64 \<Rightarrow> i64 \<Rightarrow> i64 \<Rightarrow> (nat \<Rightarrow> bool) \<Rightarrow>
    nat option + nat \<times> i64 \<times> i64" where
  "window_scan [] row ts delta target accept = Inr (row, ts, delta)"
| "window_scan (dod # dods) row ts delta target accept =
    (let delta' = delta + dod; ts' = ts + delta'; row' = row + 1
     in if ts' = target \<and> accept row' then Inl (Some row')
        else if sint target < sint ts' then Inl None
        else window_scan dods row' ts' delta' target accept)"

lemma window_scan_row:
  "window_scan dods row ts delta target accept = Inr (row', ts', delta') \<Longrightarrow> row' = row + length dods"
  by (induction dods row ts delta target accept rule: window_scan.induct)
     (auto simp: Let_def split: if_splits)

function lazy_walk :: "lazy_checkpointed_ts \<Rightarrow> nat \<Rightarrow> i64 \<Rightarrow> i64 \<Rightarrow> i64 \<Rightarrow> (nat \<Rightarrow> bool) \<Rightarrow> nat option" where
  "lazy_walk lz row ts delta target accept =
    (if ts = target \<and> accept row then Some row
     else if sint target < sint ts then None
     else if row = 0 then None
     else if lz_count lz \<le> row - 1 then None
     else let window = blocked_bitpack_decode_range (lz_dod_bytes lz) (lz_block lz) (lz_count lz) (row - 1)
                         (max (cks_stride (lz_checkpoints lz)) 1)
          in if window = [] then None
             else case window_scan window row ts delta target accept of
               Inl found \<Rightarrow> found
             | Inr (row', ts', delta') \<Rightarrow> lazy_walk lz row' ts' delta' target accept)"
  by pat_completeness auto
termination
proof (relation "measure (\<lambda>(lz, row, _). lz_count lz + 1 - row)", goal_cases)
  case (2 lz row ts delta target accept w st row' st' ts' delta')
  then have "row' = row + length w" by (auto dest!: window_scan_row)
  moreover have "w \<noteq> []" using 2 by simp
  ultimately have "row < row'" by simp
  then show ?case using 2 by auto
qed simp

declare lazy_walk.simps [simp del]

definition lazy_lookup :: "lazy_checkpointed_ts \<Rightarrow> i64 \<Rightarrow> (nat \<Rightarrow> bool) \<Rightarrow> nat option" where
  "lazy_lookup lz target accept =
    (if lz_first lz = target \<and> accept 0 then Some 0
     else let points = cks_points (lz_checkpoints lz);
              idx = partition_point (\<lambda>c. sint (cp_timestamp c) < sint target) points;
              start = (if idx = 0
                then \<lparr>cp_row = 1, cp_timestamp = lz_first lz + lz_first_delta lz, cp_delta = lz_first_delta lz\<rparr>
                else points ! (idx - 1))
          in lazy_walk lz (cp_row start) (cp_timestamp start) (cp_delta start) target accept)"

text \<open>\<open>None\<close> leaves the reader where it was.\<close>

definition read_lazy_checkpointed_ts ::
  "byte_reader \<Rightarrow> weft_seg_error + lazy_checkpointed_ts option \<times> byte_reader" where
  "read_lazy_checkpointed_ts r0 =
    rbind (read_u8 r0) (\<lambda>tag r.
    case time_unit_from_tag tag of Inl e \<Rightarrow> Inl e | Inr _ \<Rightarrow>
    rbind (read_i64_le r) (\<lambda>first r.
    rbind (read_opt_delta r) (\<lambda>fd r.
    case fd of None \<Rightarrow> Inr (None, r0) | Some first_delta \<Rightarrow>
    rbind (read_usize r) (\<lambda>count r.
    rbind (read_u8 r) (\<lambda>codec r.
    if codec \<noteq> ts_codec_checkpointed then Inr (None, r0) else
    rbind (read_index r) (\<lambda>(stride, points) r.
    rbind (read_u8 r) (\<lambda>inner r.
    if inner \<noteq> ts_codec_blocked then Inr (None, r0) else
    rbind (read_usize r) (\<lambda>block r.
    rbind (read_bytes r) (\<lambda>dod_bytes r.
    let rows = (if count = 0 then 1 else count + 2)
    in Inr (Some \<lparr>lz_first = first, lz_first_delta = first_delta,
               lz_checkpoints = \<lparr>cks_stride = max stride 1, cks_points = points, cks_rows = rows\<rparr>,
               lz_dod_bytes = dod_bytes, lz_block = max block 1, lz_count = count\<rparr>, r))))))))))"

subsection \<open>The codecs read back\<close>

lemma time_unit_from_tag_tag [simp]: "time_unit_from_tag (time_unit_tag u) = Inr u"
  by (cases u) (simp_all add: time_unit_from_tag_def)

lemma gorilla_bytes_bound: "gorilla_bytes dods \<le> 9 * length dods"
proof -
  have "gorilla_dod_bits d \<le> 68" for d by (simp add: gorilla_dod_bits_def)
  then have "sum_list (map gorilla_dod_bits dods) \<le> 68 * length dods"
    using sum_list_mono [of dods gorilla_dod_bits "\<lambda>_. 68"] by (simp add: sum_list_triv mult.commute)
  then show ?thesis using div_ceil_8_bound [of "sum_list (map gorilla_dod_bits dods)"]
    by (cases dods) (auto simp: gorilla_bytes_def Let_def)
qed

lemma blocked_bytes_bound: "0 < block \<Longrightarrow> blocked_bitpack_bytes dods block \<le> 9 * length dods"
proof -
  assume b: "0 < block"
  have chunk: "1 + div_ceil (length c * bitpack_width c) 8 \<le> 9 * length c" if "c \<noteq> []" for c
  proof -
    have "length c * bitpack_width c \<le> length c * 64" using bitpack_width_le by simp
    then have "div_ceil (length c * bitpack_width c) 8 \<le> 8 * length c"
      using div_ceil_8_bound [of "length c * bitpack_width c"] by linarith
    moreover have "1 \<le> length c" using that by (cases c) auto
    ultimately show ?thesis by linarith
  qed
  have "[] \<notin> set (chunks block dods)"
    by (induction block dods rule: chunks.induct) (subst chunks.simps, auto)
  then have "sum_list (map (\<lambda>c. 1 + div_ceil (length c * bitpack_width c) 8) (chunks block dods)) \<le>
      sum_list (map (\<lambda>c. 9 * length c) (chunks block dods))"
    using chunk by (intro sum_list_mono) metis
  also have "\<dots> = 9 * length (concat (chunks block dods))"
    by (simp add: length_concat sum_list_const_mult)
  also have "\<dots> = 9 * length dods" using b by (simp add: concat_chunks)
  finally have "sum_list (map (\<lambda>c. 1 + div_ceil (length c * bitpack_width c) 8) (chunks block dods)) \<le> 9 * length dods" .
  moreover have "max block 1 = block" using b by simp
  ultimately show ?thesis by (simp add: blocked_bitpack_bytes_def Let_def)
qed

lemma put_usize_nonempty: "1 \<le> length (put_usize n)" "1 \<le> length (put_svarint v)"
  by (simp_all add: put_usize_def put_svarint_eq put_uvarint_eq Suc_le_eq del: length_for_push_uvarint)

lemma length_put_many_ge: "(\<And>x. k \<le> length (put x)) \<Longrightarrow> k * length xs \<le> length (put_many put xs)"
  by (induction xs) (auto simp: put_many_def add_mono)

interpretation run: wire put_run read_run "\<lambda>(v, n). n < 2 ^ 64"
  by unfold_locales (auto simp: put_run_def read_run_def svarint.get_put usize.get_put)

lemma rle_counts_bound: "\<forall>x\<in>set (rle_encode dods). case x of (v, n) \<Rightarrow> n \<le> length dods"
  using rle_counts_le [of _ _ "rle_encode dods"] by (auto simp: rle_decode_encode)

lemma rle_runs_le: "length (rle_encode dods) \<le> length dods"
proof -
  have "canonical_runs rs \<Longrightarrow> length rs \<le> length (rle_decode rs)" for rs
    by (induction rs rule: canonical_runs.induct) auto
  from this [OF canonical_rle_encode] show ?thesis by (simp add: rle_decode_encode)
qed

lemma read_plain_dods_written:
  assumes "length (dd_dods col) \<le> max_rows"
  obtains tag body where "write_dod_codec col = tag # body" "tag \<noteq> ts_codec_checkpointed"
    "\<And>pre s. read_plain_dods tag (length (dd_dods col)) (rd pre (body @ s)) = Inr (dd_dods col, rd (pre @ body) s)"
proof -
  let ?d = "dd_dods col"
  have small: "9 * length ?d < 2 ^ 64" using assms by (simp add: max_rows_def)
  have "best_encoding_name col \<in> {''delta_of_delta_gorilla'', ''delta_of_delta_rle'', ''delta_of_delta_blocked'',
      ''delta_of_delta_bitpack'', ''delta_of_delta''}"
    unfolding best_encoding_name_def Let_def by simp
  then consider (gorilla) "best_encoding_name col = ''delta_of_delta_gorilla''"
    | (rle) "best_encoding_name col = ''delta_of_delta_rle''"
    | (blocked) "best_encoding_name col = ''delta_of_delta_blocked''"
    | (bitpack) "best_encoding_name col = ''delta_of_delta_bitpack''"
    | (plain) "best_encoding_name col = ''delta_of_delta''"
    by blast
  then show thesis
  proof cases
    case gorilla
    have "length (encode_gorilla_dods ?d) < 2 ^ 64"
      using small gorilla_bytes_bound [of ?d] by (simp add: length_encode_gorilla)
    then show thesis
      by (intro that [of ts_codec_gorilla "put_bytes (encode_gorilla_dods ?d)"])
         (simp_all add: write_dod_codec_def gorilla put_u8_def read_plain_dods_def ts_codec_defs
           bytes.get_put decode_encode_gorilla)
  next
    case rle
    let ?runs = "rle_encode ?d"
    have valid: "\<forall>x\<in>set ?runs. case x of (v, n) \<Rightarrow> n < 2 ^ 64"
      using rle_counts_bound [of ?d] small by fastforce
    have n: "length ?runs < 2 ^ 64" using rle_runs_le [of ?d] small by linarith
    have "2 \<le> length (put_run run)" for run
      using add_mono [OF put_usize_nonempty(2) put_usize_nonempty(1), of "fst run" "snd run"]
      by (simp add: put_run_def split_def)
    then have "2 * length ?runs \<le> length (put_many put_run ?runs)" by (rule length_put_many_ge)
    then have fits: "check_count_fits (length ?runs) ((length (put_many put_run ?runs) + length s) div 2) = Inr ()" for s :: "u8 list"
      by (auto simp: check_count_fits_def)
    show thesis
      using small n
      by (intro that [of ts_codec_rle "put_usize (length ?runs) @ put_many put_run ?runs"])
         (simp_all add: write_dod_codec_def rle put_u8_def read_plain_dods_def ts_codec_defs Let_def
           usize.get_put fits rcheck_def run.read_many_put [OF valid] checked_rle_total_eq rle_decode_encode)
  next
    case blocked
    have "length (blocked_bitpack_encode ?d blocked_bitpack_block) < 2 ^ 64"
      using small blocked_bytes_bound [of blocked_bitpack_block ?d]
      by (simp add: length_blocked_bitpack_encode blocked_bitpack_block_def)
    then show thesis
      using blocked_bitpack_decode_encode [of ?d blocked_bitpack_block "[]"]
      by (intro that [of ts_codec_blocked "put_usize blocked_bitpack_block @ put_bytes (blocked_bitpack_encode ?d blocked_bitpack_block)"])
         (simp_all add: write_dod_codec_def blocked put_u8_def read_plain_dods_def ts_codec_defs
           bytes.get_put usize.get_put blocked_bitpack_block_def)
  next
    case bitpack
    let ?w = "bitpack_width ?d" and ?p = "snd (bitpack_encode ?d)"
    have w: "unat (u8_try_from ?w 64) = ?w"
      using bitpack_width_le [of ?d] by (intro unat_u8_try_from) simp
    have "read_take (div_ceil (length ?d * ?w) 8) (rd pre (?p @ s)) = Inr (?p, rd (pre @ ?p) s)" for pre s
      by (rule read_take_rd) (rule length_bitpack_encode)
    then show thesis
      by (intro that [of ts_codec_bitpack "u8_try_from ?w 64 # ?p"])
         (simp_all add: write_dod_codec_def bitpack put_u8_def read_plain_dods_def ts_codec_defs put_raw_def
           read_u8_rd w split_def fst_bitpack_encode Let_def bitpack_decode_encode)
  next
    case plain
    have "1 * length ?d \<le> length (put_many put_svarint ?d)"
      by (rule length_put_many_ge) (rule put_usize_nonempty)
    then have fits: "check_count_fits (length ?d) (length (put_many put_svarint ?d) + length s) = Inr ()" for s :: "u8 list"
      by (auto simp: check_count_fits_def)
    show thesis
      by (intro that [of ts_codec_varint "put_many put_svarint ?d"])
         (simp_all add: write_dod_codec_def plain put_u8_def read_plain_dods_def ts_codec_defs fits rcheck_def
           svarint.read_many_put)
  qed
qed

lemma read_dod_codec_written:
  assumes "length (dd_dods col) \<le> max_rows"
  shows "read_dod_codec (rd pre (write_dod_codec col @ s)) (length (dd_dods col)) =
    Inr ((dd_dods col, None), rd (pre @ write_dod_codec col) s)"
proof -
  obtain tag body where w: "write_dod_codec col = tag # body" "tag \<noteq> ts_codec_checkpointed"
    "\<And>pre s. read_plain_dods tag (length (dd_dods col)) (rd pre (body @ s)) = Inr (dd_dods col, rd (pre @ body) s)"
    by (rule read_plain_dods_written [OF assms], rule that, assumption+)
  then show ?thesis by (subst read_dod_codec.simps) (simp add: read_u8_rd)
qed

lemma read_opt_delta_put:
  "read_opt_delta (rd pre ((case fd of Some d \<Rightarrow> put_u8 1 @ put_svarint d | None \<Rightarrow> put_u8 0) @ s)) =
    Inr (fd, rd (pre @ (case fd of Some d \<Rightarrow> put_u8 1 @ put_svarint d | None \<Rightarrow> put_u8 0)) s)"
  by (cases fd) (simp_all add: read_opt_delta_def put_u8_def read_u8_rd svarint.get_put)

lemma ts_block_round_trip:
  assumes "length (dd_dods col) \<le> max_rows"
  shows "read_timestamp_column (rd pre (write_timestamp_column col @ s)) =
    Inr (col, rd (pre @ write_timestamp_column col) s)"
  using assms
  by (simp add: read_timestamp_column_def write_timestamp_column_def put_ts_head_def u8.get_put i64.get_put
      read_opt_delta_put usize.get_put max_rows_def check_decode_limit_def rcheck_def read_dod_codec_written)

subsection \<open>The checkpointed block reads back\<close>

fun rows_ascend :: "nat \<Rightarrow> dod_checkpoint list \<Rightarrow> bool" where
  "rows_ascend row [] = True"
| "rows_ascend row (c # cs) = (row \<le> cp_row c \<and> cp_row c < 2 ^ 64 \<and> rows_ascend (cp_row c) cs)"

lemma read_points_put:
  "rows_ascend row cps \<Longrightarrow>
    read_points (length cps) row ts (rd pre (put_points row ts cps @ s)) =
      Inr (cps, rd (pre @ put_points row ts cps) s)"
proof (induction cps arbitrary: row ts pre)
  case (Cons c cps)
  then have "(row + (cp_row c - row)) mod 2 ^ 64 = cp_row c" "cp_row c - row < 2 ^ 64" by auto
  with Cons show ?case
    by (simp add: usize.get_put svarint.get_put Let_def del: mod_less)
qed simp

lemma length_put_points: "3 * length cps \<le> length (put_points row ts cps)"
proof (induction cps arbitrary: row ts)
  case (Cons c cps)
  have "3 * length cps \<le> length (put_points (cp_row c) (cp_timestamp c) cps)" by (rule Cons.IH)
  with put_usize_nonempty(1) [of "cp_row c - row"] put_usize_nonempty(2) [of "cp_timestamp c - ts"]
    put_usize_nonempty(2) [of "cp_delta c"] show ?case by simp
qed simp

lemma rows_ascend_sorted:
  "sorted_wrt (\<lambda>c d. cp_row c < cp_row d) cs \<Longrightarrow> \<forall>c\<in>set cs. row \<le> cp_row c \<and> cp_row c < 2 ^ 64 \<Longrightarrow> rows_ascend row cs"
  by (induction cs arbitrary: row) (auto simp: less_imp_le)

lemma checkpoint_rows_small:
  assumes "length (dd_dods col) \<le> max_rows" "c \<in> set (cks_points (checkpoints col stride))"
  shows "cp_row c < 2 ^ 64"
  using resumes_nth [OF checkpoints_resume [OF assms(2)]] assms(1)
  by (auto simp: dod_column_len_def max_rows_def split: option.splits)

lemma points_rows_ascend:
  "length (dd_dods col) \<le> max_rows \<Longrightarrow> rows_ascend 0 (cks_points (checkpoints col stride))"
  using checkpoint_rows_small by (intro rows_ascend_sorted points_ascending) blast

lemma checkpoint_loop_count: "length (fst (checkpoint_loop stride row ts delta dods)) \<le> length dods"
proof (induction dods arbitrary: row ts delta)
  case (Cons d dods)
  from Cons [of "Suc row" "ts + (delta + d)" "delta + d"] show ?case by (simp add: Let_def)
qed simp

lemma points_count: "length (cks_points (checkpoints col stride)) \<le> Suc (length (dd_dods col))"
proof (cases "dd_first_delta col")
  case (Some d)
  show ?thesis
    using checkpoint_loop_count [of "max stride 1" 1 "dd_first col + d" d "dd_dods col"]
    by (simp add: cks_points_checkpoints [OF Some])
qed (simp add: checkpoints_def Let_def)

definition put_index :: "dod_checkpoints \<Rightarrow> u8 list" where
  "put_index cks = put_usize (cks_stride cks) @ put_usize (length (cks_points cks)) @ put_points 0 0 (cks_points cks)"

lemma read_index_put:
  assumes "length (dd_dods col) \<le> max_rows" "stride < 2 ^ 64"
  shows "read_index (rd pre (put_index (checkpoints col stride) @ s)) =
    Inr ((max stride 1, cks_points (checkpoints col stride)), rd (pre @ put_index (checkpoints col stride)) s)"
proof -
  let ?P = "cks_points (checkpoints col stride)"
  have stride: "cks_stride (checkpoints col stride) = max stride 1"
    by (simp add: checkpoints_def Let_def split: option.split prod.split)
  have fits: "check_count_fits (length ?P) ((length (put_points 0 0 ?P) + length s) div 3) = Inr ()"
    using length_put_points [of ?P 0 0] by (auto simp: check_count_fits_def)
  have "length ?P < 2 ^ 64" using points_count [of col stride] assms(1) by (simp add: max_rows_def)
  moreover have "max stride 1 < 2 ^ 64" using assms(2) by simp
  ultimately show ?thesis
    using read_points_put [OF points_rows_ascend [OF assms(1), of stride], of 0]
    by (simp add: read_index_def put_index_def stride usize.get_put fits rcheck_def del: max_less_iff_conj)
qed

text \<open>What the persisted index says of the height of the column.\<close>

definition persisted_rows :: "nat \<Rightarrow> nat" where
  "persisted_rows count = (if count = 0 then 1 else count + 2)"

definition blocked_body :: "i64 list \<Rightarrow> u8 list" where
  "blocked_body dods = put_u8 ts_codec_blocked @ put_usize blocked_bitpack_block @
    put_bytes (blocked_bitpack_encode dods blocked_bitpack_block)"

lemma checkpointed_block:
  assumes "dd_first_delta col = Some fd"
  shows "write_timestamp_column_checkpointed col stride =
    put_ts_head col @ put_u8 ts_codec_checkpointed @ put_index (checkpoints col stride) @ blocked_body (dd_dods col)"
  by (simp add: write_timestamp_column_checkpointed_def Let_def put_index_def blocked_body_def
      cks_points_checkpoints [OF assms])

lemma blocked_stream_small:
  "length dods \<le> max_rows \<Longrightarrow> length (blocked_bitpack_encode dods blocked_bitpack_block) < 2 ^ 64"
  using blocked_bytes_bound [of blocked_bitpack_block dods]
  by (simp add: length_blocked_bitpack_encode blocked_bitpack_block_def max_rows_def)

lemma read_blocked_body:
  assumes "length dods \<le> max_rows"
  shows "read_dod_codec (rd pre (blocked_body dods @ s)) (length dods) = Inr ((dods, None), rd (pre @ blocked_body dods) s)"
  using blocked_stream_small [OF assms] blocked_bitpack_decode_encode [of dods blocked_bitpack_block "[]"]
  by (subst read_dod_codec.simps)
     (simp add: blocked_body_def put_u8_def read_u8_rd ts_codec_defs read_plain_dods_def usize.get_put bytes.get_put
       blocked_bitpack_block_def)

lemma read_checkpointed_codec:
  assumes "length (dd_dods col) \<le> max_rows" "stride < 2 ^ 64"
  shows "read_dod_codec (rd pre (put_u8 ts_codec_checkpointed @ put_index (checkpoints col stride) @ blocked_body (dd_dods col) @ s))
      (length (dd_dods col)) =
    Inr ((dd_dods col, Some \<lparr>cks_stride = max stride 1, cks_points = cks_points (checkpoints col stride),
        cks_rows = persisted_rows (length (dd_dods col))\<rparr>),
      rd (pre @ put_u8 ts_codec_checkpointed @ put_index (checkpoints col stride) @ blocked_body (dd_dods col)) s)"
  using assms
  by (subst read_dod_codec.simps)
     (simp add: u8.get_put read_index_put read_blocked_body persisted_rows_def Let_def)

lemma checkpointed_round_trip:
  assumes "length (dd_dods col) \<le> max_rows" "stride < 2 ^ 64" "dd_first_delta col \<noteq> None"
  shows "read_timestamp_column_with_checkpoints (rd pre (write_timestamp_column_checkpointed col stride @ s)) =
    Inr ((col, Some ((checkpoints col stride)\<lparr>cks_rows := persisted_rows (length (dd_dods col))\<rparr>)),
      rd (pre @ write_timestamp_column_checkpointed col stride) s)"
proof -
  obtain fd where fd: "dd_first_delta col = Some fd" using assms(3) by auto
  have cks: "(checkpoints col stride)\<lparr>cks_rows := n\<rparr> =
      \<lparr>cks_stride = max stride 1, cks_points = cks_points (checkpoints col stride), cks_rows = n\<rparr>" for n
    by (simp add: checkpoints_def Let_def split: option.split prod.split)
  have small: "length (dd_dods col) < 2 ^ 64" using assms(1) by (simp add: max_rows_def)
  show ?thesis
    using assms(1,2) small read_opt_delta_put [of _ "Some fd"]
    by (simp add: read_timestamp_column_with_checkpoints_def checkpointed_block [OF fd] put_ts_head_def fd u8.get_put
        i64.get_put usize.get_put check_decode_limit_def rcheck_def read_checkpointed_codec cks)
qed

lemma lazy_read_checkpointed:
  assumes "length (dd_dods col) \<le> max_rows" "stride < 2 ^ 64" "dd_first_delta col = Some fd"
  shows "read_lazy_checkpointed_ts (rd pre (write_timestamp_column_checkpointed col stride @ s)) =
    Inr (Some \<lparr>lz_first = dd_first col, lz_first_delta = fd,
        lz_checkpoints = \<lparr>cks_stride = max stride 1, cks_points = cks_points (checkpoints col stride),
          cks_rows = persisted_rows (length (dd_dods col))\<rparr>,
        lz_dod_bytes = blocked_bitpack_encode (dd_dods col) blocked_bitpack_block,
        lz_block = blocked_bitpack_block, lz_count = length (dd_dods col)\<rparr>,
      rd (pre @ write_timestamp_column_checkpointed col stride) s)"
proof -
  have small: "length (dd_dods col) < 2 ^ 64" using assms(1) by (simp add: max_rows_def)
  show ?thesis
    using assms small read_opt_delta_put [of _ "Some fd"] blocked_stream_small [OF assms(1)]
    by (simp add: read_lazy_checkpointed_ts_def checkpointed_block [OF assms(3)] put_ts_head_def u8.get_put
        i64.get_put usize.get_put bytes.get_put read_index_put blocked_body_def persisted_rows_def ts_codec_defs
        blocked_bitpack_block_def)
qed

subsection \<open>A lazy lookup is a search of the decoded column\<close>

lemma window_scan_scan_from:
  assumes "drop (row - 1) (dd_dods col) = window @ later" "0 < row"
    and "\<not> (ts = target \<and> accept row)" "\<not> sint target < sint ts"
  shows "case window_scan window row ts delta target accept of
      Inl found \<Rightarrow> scan_from col row ts delta target accept = found
    | Inr (row', ts', delta') \<Rightarrow> scan_from col row ts delta target accept = scan_from col row' ts' delta' target accept"
  using assms
proof (induction window arbitrary: row ts delta)
  case (Cons dod window)
  let ?d = "delta + dod" and ?t = "ts + (delta + dod)"
  have r: "row - 1 < length (dd_dods col)" "dd_dods col ! (row - 1) = dod"
    using Cons.prems(1) by (metis append_Cons drop_all list.distinct(1) not_less, metis append_Cons nth_via_drop)
  have next_window: "drop (row + 1 - 1) (dd_dods col) = window @ later"
  proof -
    have "drop (Suc (row - 1)) (dd_dods col) = tl (drop (row - 1) (dd_dods col))" by (simp add: drop_Suc tl_drop)
    then show ?thesis using Cons.prems(1,2) by simp
  qed
  have step: "scan_from col row ts delta target accept = scan_from col (row + 1) ?t ?d target accept"
    using Cons.prems(2-4) r by (subst scan_from.simps) (auto simp: Let_def)
  consider (hit) "?t = target \<and> accept (row + 1)" | (passed) "\<not> (?t = target \<and> accept (row + 1))" "sint target < sint ?t"
    | (on) "\<not> (?t = target \<and> accept (row + 1))" "\<not> sint target < sint ?t" by blast
  then show ?case
  proof cases
    case hit
    then have "scan_from col (row + 1) ?t ?d target accept = Some (row + 1)" by (subst scan_from.simps) simp
    with hit step show ?thesis by simp
  next
    case passed
    then have "scan_from col (row + 1) ?t ?d target accept = None" by (subst scan_from.simps) auto
    with passed step show ?thesis by auto
  next
    case on
    then have "window_scan (dod # window) row ts delta target accept = window_scan window (row + 1) ?t ?d target accept"
      by (auto simp: Let_def)
    moreover have "case window_scan window (row + 1) ?t ?d target accept of
        Inl found \<Rightarrow> scan_from col (row + 1) ?t ?d target accept = found
      | Inr (row', ts', delta') \<Rightarrow> scan_from col (row + 1) ?t ?d target accept = scan_from col row' ts' delta' target accept"
      using next_window on by (intro Cons.IH) simp_all
    ultimately show ?thesis unfolding step by simp
  qed
qed simp

lemma lazy_walk_scan_from:
  assumes "lz_count lz = length (dd_dods col)"
    and "blocked_bitpack_decode (lz_dod_bytes lz) (lz_block lz) (lz_count lz) = dd_dods col"
  shows "lazy_walk lz row ts delta target accept = scan_from col row ts delta target accept"
  using assms
proof (induction lz row ts delta target accept rule: lazy_walk.induct)
  case (1 lz row ts delta target accept)
  let ?chunk = "max (cks_stride (lz_checkpoints lz)) 1"
  let ?w = "take ?chunk (drop (row - 1) (dd_dods col))"
  have window: "blocked_bitpack_decode_range (lz_dod_bytes lz) (lz_block lz) (lz_count lz) (row - 1) ?chunk = ?w"
    using "1.prems"(2) by (simp only: blocked_bitpack_decode_range_eq)
  consider (stop) "ts = target \<and> accept row \<or> sint target < sint ts \<or> row = 0 \<or> length (dd_dods col) \<le> row - 1"
    | (on) "\<not> (ts = target \<and> accept row)" "\<not> sint target < sint ts" "0 < row" "row - 1 < length (dd_dods col)"
    by linarith
  then show ?case
  proof cases
    case stop
    then show ?thesis
      using "1.prems"(1) by (subst lazy_walk.simps, subst scan_from.simps) auto
  next
    case on
    then have nonempty: "?w \<noteq> []" by simp
    have scan: "case window_scan ?w row ts delta target accept of
        Inl found \<Rightarrow> scan_from col row ts delta target accept = found
      | Inr (row', ts', delta') \<Rightarrow> scan_from col row ts delta target accept = scan_from col row' ts' delta' target accept"
      by (rule window_scan_scan_from [where accept = accept, OF _ on(3) on(1) on(2)]) (rule append_take_drop_id [symmetric])
    have walk: "lazy_walk lz row ts delta target accept = (case window_scan ?w row ts delta target accept of
        Inl found \<Rightarrow> found | Inr (row', ts', delta') \<Rightarrow> lazy_walk lz row' ts' delta' target accept)"
    proof -
      have "\<not> row = 0" "\<not> length (dd_dods col) \<le> row - 1" using on by simp_all
      with on nonempty show ?thesis
        by (subst lazy_walk.simps) (simp only: "1.prems"(1) window [unfolded "1.prems"(1)] Let_def if_False)
    qed
    show ?thesis
    proof (cases "window_scan ?w row ts delta target accept")
      case (Inl found)
      with scan walk show ?thesis by simp
    next
      case (Inr p)
      obtain row' ts' delta' where p: "p = (row', ts', delta')" by (cases p)
      have "lazy_walk lz row' ts' delta' target accept = scan_from col row' ts' delta' target accept"
        using on nonempty Inr p "1.prems" window
        by (intro "1.IH" [of "blocked_bitpack_decode_range (lz_dod_bytes lz) (lz_block lz) (lz_count lz) (row - 1) ?chunk" p row' "(ts', delta')" ts' delta'])
           simp_all
      with scan walk Inr p show ?thesis by simp
    qed
  qed
qed

lemma lazy_lookup_search:
  assumes "dd_first_delta col = Some (lz_first_delta lz)" "dd_first col = lz_first lz"
    and "lz_count lz = length (dd_dods col)"
    and "blocked_bitpack_decode (lz_dod_bytes lz) (lz_block lz) (lz_count lz) = dd_dods col"
  shows "lazy_lookup lz target accept = search_sorted_with (lz_checkpoints lz) col target accept"
  by (simp add: lazy_lookup_def search_sorted_with_def assms(1,2) lazy_walk_scan_from [OF assms(3,4)] Let_def)

text \<open>A column of two rows stores no second difference, and its persisted index reads back with one row.\<close>

lemma two_row_index_rows:
  "cks_rows (checkpoints (encode_delta_of_delta [t, u] unit) stride) = 2 \<and>
   persisted_rows (length (dd_dods (encode_delta_of_delta [t, u] unit))) = 1"
  by (simp add: checkpoints_rows dod_column_len_def persisted_rows_def encode_delta_of_delta_def Let_def)

subsection \<open>Properties\<close>

text \<open>
  C11: A point lookup on a written checkpointed timestamp block, which reads only the blocks
  between the nearest checkpoint and the target, answers the first accepted row of the original
  column that holds the target, for every target and every row filter.
\<close>

theorem lazy_lookup_finds_first:
  assumes "2 \<le> length ts" "length ts \<le> max_rows" "stride < 2 ^ 64" "time_sorted ts"
  shows "\<exists>lz r. read_lazy_checkpointed_ts
      (new_reader (write_timestamp_column_checkpointed (encode_delta_of_delta ts unit) stride @ s)) = Inr (Some lz, r) \<and>
    (\<forall>target accept. lazy_lookup lz target accept = first_match ts target accept)"
proof -
  let ?col = "encode_delta_of_delta ts unit"
  obtain a b xs where ts: "ts = a # b # xs" using assms(1) by (metis Suc_le_length_iff numeral_2_eq_2)
  obtain fd where fd: "dd_first_delta ?col = Some fd" by (auto simp: ts encode_delta_of_delta_def Let_def)
  have n: "length (dd_dods ?col) \<le> max_rows" using assms(2) by (simp add: ts encode_delta_of_delta_def Let_def)
  have dec: "decode_delta_of_delta ?col = ts" by (rule decode_encode_delta_of_delta) (simp add: ts)
  have dods: "blocked_bitpack_decode (blocked_bitpack_encode (dd_dods ?col) blocked_bitpack_block) blocked_bitpack_block
      (length (dd_dods ?col)) = dd_dods ?col"
    using blocked_bitpack_decode_encode [of "dd_dods ?col" blocked_bitpack_block "[]"] by simp
  have search: "search_sorted_with \<lparr>cks_stride = x, cks_points = cks_points (checkpoints ?col stride), cks_rows = y\<rparr>
      ?col target accept = first_match ts target accept" for x y target accept
    using search_sorted_with_correct [of ?col stride target accept] assms(4) dec
      search_sorted_with_points [of "\<lparr>cks_stride = x, cks_points = cks_points (checkpoints ?col stride), cks_rows = y\<rparr>"]
    by simp
  then show ?thesis
    using lazy_read_checkpointed [OF n assms(3) fd, of "[]" s] lazy_lookup_search fd dods search
    by (simp add: new_reader_rd)
qed

theorem lazy_lookup_finds_first_witness:
  "\<exists>lz r. read_lazy_checkpointed_ts
      (new_reader (write_timestamp_column_checkpointed (encode_delta_of_delta [1000, 1010, 1025, 1025, 1060] Millis) 2 @ [7])) =
      Inr (Some lz, r) \<and>
    (\<forall>target accept. lazy_lookup lz target accept = first_match [1000, 1010, 1025, 1025, 1060] target accept)"
  by (rule lazy_lookup_finds_first) (simp_all add: max_rows_def)

text \<open>
  C12: A checkpointed timestamp block reads back as the same column together with the index that
  was built over it; only the row count of the index is the one the reader derives from the stored
  count.
\<close>

theorem checkpointed_block_round_trip:
  assumes "length (dd_dods col) \<le> max_rows" "stride < 2 ^ 64" "dd_first_delta col \<noteq> None"
  shows "read_timestamp_column_with_checkpoints (rd pre (write_timestamp_column_checkpointed col stride @ s)) =
    Inr ((col, Some ((checkpoints col stride)\<lparr>cks_rows := persisted_rows (length (dd_dods col))\<rparr>)),
      rd (pre @ write_timestamp_column_checkpointed col stride) s)"
  by (rule checkpointed_round_trip [OF assms])

theorem checkpointed_block_round_trip_witness:
  "read_timestamp_column_with_checkpoints
      (rd [] (write_timestamp_column_checkpointed (encode_delta_of_delta [5, 7, 12, 12] Seconds) 2 @ [])) =
    Inr ((encode_delta_of_delta [5, 7, 12, 12] Seconds,
        Some ((checkpoints (encode_delta_of_delta [5, 7, 12, 12] Seconds) 2)
          \<lparr>cks_rows := persisted_rows (length (dd_dods (encode_delta_of_delta [5, 7, 12, 12] Seconds)))\<rparr>)),
      rd ([] @ write_timestamp_column_checkpointed (encode_delta_of_delta [5, 7, 12, 12] Seconds) 2) [])"
  by (rule checkpointed_block_round_trip) (simp_all add: max_rows_def encode_delta_of_delta_def Let_def)

subsection \<open>Further facts\<close>

text \<open>
  The timestamp block written for a column, under whichever of the codecs is the smallest, reads
  back as the same column wherever it stands in the buffer, and the reader ends exactly behind it.
\<close>

lemma timestamp_block_round_trip:
  assumes "length (dd_dods col) \<le> max_rows"
  shows "read_timestamp_column (rd pre (write_timestamp_column col @ s)) =
    Inr (col, rd (pre @ write_timestamp_column col) s)"
  by (rule ts_block_round_trip [OF assms])

lemma timestamp_block_round_trip_witness:
  "read_timestamp_column (rd [9] (write_timestamp_column (encode_delta_of_delta [5, 7, 12, 12] Seconds) @ [1, 2])) =
    Inr (encode_delta_of_delta [5, 7, 12, 12] Seconds,
      rd ([9] @ write_timestamp_column (encode_delta_of_delta [5, 7, 12, 12] Seconds)) [1, 2])"
  by (rule timestamp_block_round_trip) (simp add: max_rows_def encode_delta_of_delta_def Let_def)

end
