(* ===== verification/Frame.thy ===== *)
theory Frame imports Byte_Io Crc32 begin

text \<open>
  The frame registry (\<^verbatim>\<open>weft-physical-type/src/frame_registry.rs\<close>) and the frame envelope and
  quality-column block of \<^verbatim>\<open>weft-physical-type/src/weftseg.rs\<close>: routing a frame by the version it
  names, wrapping a frozen frame with an extension table, taking a frame apart after its checksum
  has been verified, and the class of every failure.
\<close>

unbundle bit_operations_syntax

subsection \<open>The registry\<close>

definition frame_single_block :: u16 where "frame_single_block = 5"
definition frame_paged :: u16 where "frame_paged = 6"
definition frame_envelope :: u16 where "frame_envelope = 7"
definition frame_version_max_known :: u16 where "frame_version_max_known = frame_envelope"

datatype frame_layout = SingleBlock | Paged

definition layout_of :: "u16 \<Rightarrow> frame_layout option" where
  "layout_of version =
    (if version = frame_single_block then Some SingleBlock
     else if version = frame_paged then Some Paged else None)"

record frame_extension =
  fe_id :: u32
  fe_critical :: bool
  fe_payload :: "u8 list"

definition ext_series_key :: u32 where "ext_series_key = 1"

definition known_extensions :: "u32 list" where
  "known_extensions = [ext_series_key]"

definition is_known_extension :: "u32 \<Rightarrow> bool" where
  "is_known_extension i \<longleftrightarrow> list_ex (\<lambda>k. k = i) known_extensions"

record frame_info =
  fi_version :: u16
  fi_body_version :: u16
  fi_layout :: "frame_layout option"
  fi_extensions :: "frame_extension list"
  fi_unknown_critical :: bool

definition decodable :: "frame_info \<Rightarrow> bool" where
  "decodable i \<longleftrightarrow> fi_layout i \<noteq> None \<and> \<not> fi_unknown_critical i"

datatype frame_fault = Integrity | Undecodable bool

fun fault_class :: "frame_fault \<Rightarrow> string" where
  "fault_class Integrity = ''integrity''"
| "fault_class (Undecodable True) = ''newer_format''"
| "fault_class (Undecodable False) = ''undecodable''"

fun is_integrity :: "frame_fault \<Rightarrow> bool" where
  "is_integrity Integrity = True"
| "is_integrity (Undecodable _) = False"

fun frame_fault_of :: "weft_seg_error \<Rightarrow> frame_fault" where
  "frame_fault_of (UnsupportedVersion found) = Undecodable (frame_version_max_known < found)"
| "frame_fault_of (CodecNotEnabled _ _) = Undecodable False"
| "frame_fault_of (UnknownCriticalExtension _) = Undecodable False"
| "frame_fault_of _ = Integrity"

subsection \<open>Headers\<close>

text \<open>\<open>b"WEFTSEG"\<close> and \<open>b"DSPSEG\0"\<close>.\<close>

definition magic :: "u8 list" where
  "magic = [0x57, 0x45, 0x46, 0x54, 0x53, 0x45, 0x47]"

definition legacy_magic :: "u8 list" where
  "legacy_magic = [0x44, 0x53, 0x50, 0x53, 0x45, 0x47, 0x00]"

definition is_known_magic :: "u8 list \<Rightarrow> bool" where
  "is_known_magic prefix \<longleftrightarrow> prefix = magic \<or> prefix = legacy_magic"

definition frame_version :: "u8 list \<Rightarrow> weft_seg_error + u16" where
  "frame_version bytes =
    (if length bytes < length magic + 2 then Inl (UnexpectedEof (length magic + 2) (length bytes))
     else if \<not> is_known_magic (take (length magic) bytes) then Inl BadMagic
     else Inr (from_le [bytes ! length magic, bytes ! (length magic + 1)]))"

definition frame_layout_of :: "u8 list \<Rightarrow> weft_seg_error + frame_layout" where
  "frame_layout_of bytes =
    (case frame_version bytes of Inl e \<Rightarrow> Inl e | Inr version \<Rightarrow>
     case layout_of version of Some layout \<Rightarrow> Inr layout | None \<Rightarrow>
     if version \<noteq> frame_envelope then Inl (UnsupportedVersion version)
     else if length bytes < length magic + 4 then Inl (UnexpectedEof (length magic + 4) (length bytes))
     else rbind (read_u16_le (new_reader (drop (length magic + 2) bytes))) (\<lambda>body_version r.
       case layout_of body_version of
         Some layout \<Rightarrow> Inr layout | None \<Rightarrow> Inl (UnsupportedVersion body_version)))"

subsection \<open>Taking a frame apart\<close>

record frame_parts =
  fp_version :: u16
  fp_body_version :: u16
  fp_extensions :: "frame_extension list"
  fp_unknown_critical :: bool
  fp_body :: "u8 list"

text \<open>\<open>u32::try_from\<close> of a varint, the critical flag, the payload.\<close>

definition read_extension :: "byte_reader \<Rightarrow> weft_seg_error + frame_extension \<times> byte_reader" where
  "read_extension r =
    rbind (read_uvarint r) (\<lambda>i r.
    if 2 ^ 32 \<le> unat i then Inl VarintTooLong else
    rbind (read_u8 r) (\<lambda>flag r.
    if flag \<noteq> 0 \<and> flag \<noteq> 1 then Inl (InvalidTag ''extension critical flag'' flag) else
    rbind (read_bytes r) (\<lambda>payload r.
    Inr (\<lparr>fe_id = ucast i, fe_critical = (flag = 1), fe_payload = payload\<rparr>, r))))"

definition unknown_critical :: "frame_extension \<Rightarrow> bool" where
  "unknown_critical e \<longleftrightarrow> fe_critical e \<and> \<not> is_known_extension (fe_id e)"

text \<open>What follows the header of an envelope: body version, extension table, wrapped frame.\<close>

definition read_envelope :: "u16 \<Rightarrow> u8 list \<Rightarrow> weft_seg_error + frame_parts" where
  "read_envelope version rest =
    rbind (read_u16_le (new_reader rest)) (\<lambda>body_version r.
    rbind (read_uvarint r) (\<lambda>count r.
    if max_extensions < unat count then Inl (DecodeLimit ''extension_count'' (unat count) max_extensions)
    else rbind (read_many read_extension (unat count) r) (\<lambda>exts r.
    let body = drop (br_pos r) rest
    in case frame_version body of Inl e \<Rightarrow> Inl e | Inr found \<Rightarrow>
       if found \<noteq> body_version then Inl (EnvelopeBodyMismatch body_version found)
       else Inr \<lparr>fp_version = version, fp_body_version = body_version, fp_extensions = exts,
                 fp_unknown_critical = list_ex unknown_critical exts, fp_body = body\<rparr>)))"

definition frame_parts_of :: "u8 list \<Rightarrow> weft_seg_error + frame_parts" where
  "frame_parts_of bytes =
    (case frame_version bytes of Inl e \<Rightarrow> Inl e | Inr version \<Rightarrow>
     if length bytes < length magic + 6 then Inl (UnexpectedEof (length magic + 6) (length bytes))
     else let framed = take (length bytes - 4) bytes; trailer = drop (length bytes - 4) bytes;
              stored = from_le [trailer ! 0, trailer ! 1, trailer ! 2, trailer ! 3]; computed = crc32 framed
     in if stored \<noteq> computed then Inl (ChecksumMismatch stored computed)
     else if version \<noteq> frame_envelope
     then Inr \<lparr>fp_version = version, fp_body_version = version, fp_extensions = [],
               fp_unknown_critical = False, fp_body = bytes\<rparr>
     else read_envelope version (drop (length magic + 2) framed))"

definition put_extension :: "frame_extension \<Rightarrow> u8 list" where
  "put_extension e =
    put_uvarint (ucast (fe_id e)) @ put_u8 (if fe_critical e then 1 else 0) @ put_bytes (fe_payload e)"

definition wrap_frame_envelope :: "u8 list \<Rightarrow> frame_extension list \<Rightarrow> weft_seg_error + u8 list" where
  "wrap_frame_envelope inner extensions =
    (case frame_version inner of Inl e \<Rightarrow> Inl e | Inr body_version \<Rightarrow>
     if layout_of body_version = None then Inl (UnsupportedVersion body_version)
     else let w = put_raw magic @ put_u16_le frame_envelope @ put_u16_le body_version @
                  put_usize (length extensions) @ put_many put_extension extensions @ put_raw inner
          in Inr (w @ put_u32_le (crc32 w)))"

text \<open>The critical extension a refusal names.\<close>

definition critical_refusal :: "frame_parts \<Rightarrow> u32 option" where
  "critical_refusal parts =
    (if fp_unknown_critical parts then map_option fe_id (find unknown_critical (fp_extensions parts)) else None)"

definition unwrap_frame_envelope :: "u8 list \<Rightarrow> weft_seg_error + u8 list" where
  "unwrap_frame_envelope bytes =
    (case frame_parts_of bytes of Inl e \<Rightarrow> Inl e | Inr parts \<Rightarrow>
     case critical_refusal parts of
       Some i \<Rightarrow> Inl (UnknownCriticalExtension i) | None \<Rightarrow> Inr (fp_body parts))"

definition describe_frame :: "u8 list \<Rightarrow> frame_fault + frame_info" where
  "describe_frame bytes =
    (case frame_parts_of bytes of
       Inr parts \<Rightarrow> Inr \<lparr>fi_version = fp_version parts, fi_body_version = fp_body_version parts,
         fi_layout = layout_of (fp_body_version parts), fi_extensions = fp_extensions parts,
         fi_unknown_critical = fp_unknown_critical parts\<rparr>
     | Inl e \<Rightarrow> Inl (frame_fault_of e))"

definition read_frame_body :: "u8 list \<Rightarrow> weft_seg_error + u8 list \<times> frame_layout" where
  "read_frame_body bytes =
    (case frame_parts_of bytes of Inl e \<Rightarrow> Inl e | Inr parts \<Rightarrow>
     case critical_refusal parts of Some i \<Rightarrow> Inl (UnknownCriticalExtension i) | None \<Rightarrow>
     let body = (if fp_version parts = frame_envelope then fp_body parts else bytes)
     in case layout_of (fp_body_version parts) of
          Some layout \<Rightarrow> Inr (body, layout) | None \<Rightarrow> Inl (UnsupportedVersion (fp_body_version parts)))"

subsection \<open>The quality-column block\<close>

definition write_null_column :: "null_mask \<Rightarrow> u8 list" where
  "write_null_column nulls =
    (case nm_bits nulls of None \<Rightarrow> put_u8 0 | Some bytes \<Rightarrow> put_u8 1 @ put_bytes bytes)"

definition read_null_column :: "nat \<Rightarrow> nat \<Rightarrow> byte_reader \<Rightarrow> weft_seg_error + null_mask \<times> byte_reader" where
  "read_null_column row_count null_count r =
    rbind (rbind (read_u8 r) (\<lambda>flag r.
        if flag = 0 then Inr (None, r)
        else if flag = 1 then rbind (read_bytes r) (\<lambda>b r. Inr (Some b, r))
        else Inl (InvalidTag ''null_column'' flag)))
      (\<lambda>bits r. case from_raw row_count null_count bits of
         Inl e \<Rightarrow> Inl (InvalidNullMask e) | Inr m \<Rightarrow> Inr (m, r))"

lemma null_column_round_trip:
  assumes "null_mask_ok m" "nm_row_count m \<le> max_rows"
  shows "read_null_column (nm_row_count m) (nm_null_count m) (rd pre (write_null_column m @ s)) =
    Inr (m, rd (pre @ write_null_column m) s)"
proof (cases "nm_bits m")
  case None
  then show ?thesis
    using from_raw_round_trip [OF assms(1)]
    by (simp add: read_null_column_def write_null_column_def put_u8_def read_u8_rd)
next
  case (Some bits)
  then have "length bits = div_ceil (nm_row_count m) 8" using assms(1) by (simp add: null_mask_ok_def)
  then have "length bits < 2 ^ 64"
    using assms(2) div_ceil_8_bound [of "nm_row_count m"] by (simp add: max_rows_def)
  then show ?thesis
    using from_raw_round_trip [OF assms(1)] Some
    by (simp add: read_null_column_def write_null_column_def put_u8_def read_u8_rd bytes.get_put)
qed

lemma read_null_column_ok:
  "read_null_column n k r = Inr (m, r') \<Longrightarrow> null_mask_ok m \<and> nm_row_count m = n \<and> nm_null_count m = k"
  unfolding read_null_column_def
  by (cases "read_u8 r") (auto simp: from_raw_ok_iff split: if_splits sum.splits elim!: rbind.elims)

subsection \<open>Wrapping and unwrapping\<close>

lemma unat_ucast_32_64: "unat (ucast (i :: u32) :: u64) = unat i"
  by (simp add: unsigned_ucast_eq take_bit_nat_eq_self_iff order_less_le_trans [OF unsigned_less])

interpretation ext: wire put_extension read_extension "\<lambda>e. length (fe_payload e) < 2 ^ 64"
proof unfold_locales
  fix e :: frame_extension and pre s
  assume "length (fe_payload e) < 2 ^ 64"
  moreover have "unat (ucast (fe_id e) :: u64) < 2 ^ 32"
    using unsigned_less [of "fe_id e"] by (simp add: unat_ucast_32_64)
  moreover have "ucast (ucast (fe_id e) :: u64) = fe_id e"
    by (rule bit_word_eqI) (simp add: bit_ucast_iff)
  ultimately show "read_extension (rd pre (put_extension e @ s)) = Inr (e, rd (pre @ put_extension e) s)"
    by (simp add: read_extension_def put_extension_def uvarint.get_put u8.get_put bytes.get_put not_le)
qed

lemma list4: "length xs = 4 \<Longrightarrow> [xs ! 0, xs ! 1, xs ! 2, xs ! 3] = xs"
  by (auto simp: length_Suc_conv numeral_eq_Suc)

lemma length_magic [simp]: "length magic = 7"
  by (simp add: magic_def)

text \<open>The checksum test of a frame, over the codeword of body and trailer.\<close>

definition crc_residue :: u32 where
  "crc_residue = (crc_shift8 ^^ 4) 0xFFFFFFFF"

lemma trailer_residue:
  assumes "length trailer = 4"
  shows "from_le trailer = crc32 framed \<longleftrightarrow> foldl crc_feed 0xFFFFFFFF (framed @ trailer) = crc_residue"
proof -
  define s where "s = foldl crc_feed 0xFFFFFFFF framed"
  have "foldl crc_feed s trailer = (crc_shift8 ^^ 4) (s XOR from_le trailer)"
    using foldl_crc_feed_4 [of s "trailer ! 0" "trailer ! 1" "trailer ! 2" "trailer ! 3"]
    by (simp only: list4 [OF assms])
  then have "foldl crc_feed s trailer = crc_residue \<longleftrightarrow> s XOR from_le trailer = 0xFFFFFFFF"
    by (simp only: crc_residue_def crc_shift8_pow_inj)
  also have "\<dots> \<longleftrightarrow> from_le trailer XOR s = (s XOR 0xFFFFFFFF) XOR s"
    by (simp add: ac_simps del: xor_numerals)
  also have "\<dots> \<longleftrightarrow> from_le trailer = s XOR 0xFFFFFFFF"
    by (rule xor_cancel_right)
  finally show ?thesis by (simp only: foldl_append crc32_eq_reference crc32_reference_def s_def)
qed

lemma stored_trailer:
  "11 \<le> length bytes \<Longrightarrow> from_le [drop (length bytes - 4) bytes ! 0, drop (length bytes - 4) bytes ! 1,
      drop (length bytes - 4) bytes ! 2, drop (length bytes - 4) bytes ! 3] = from_le (drop (length bytes - 4) bytes)"
  by (subst list4) simp_all

lemma frame_checksum_residue:
  assumes "11 \<le> length bytes"
  shows "from_le (drop (length bytes - 4) bytes) = crc32 (take (length bytes - 4) bytes) \<longleftrightarrow>
    foldl crc_feed 0xFFFFFFFF bytes = crc_residue"
  using trailer_residue [of "drop (length bytes - 4) bytes" "take (length bytes - 4) bytes"] assms by simp

lemma frame_parts_of_alt:
  assumes "13 \<le> length bytes"
  shows "frame_parts_of bytes = (case frame_version bytes of Inl e \<Rightarrow> Inl e | Inr version \<Rightarrow>
    let framed = take (length bytes - 4) bytes; stored = from_le (drop (length bytes - 4) bytes)
    in if stored \<noteq> crc32 framed then Inl (ChecksumMismatch stored (crc32 framed))
       else if version \<noteq> frame_envelope
       then Inr \<lparr>fp_version = version, fp_body_version = version, fp_extensions = [],
                 fp_unknown_critical = False, fp_body = bytes\<rparr>
       else read_envelope version (drop (length magic + 2) framed))"
proof -
  have "11 \<le> length bytes" "\<not> length bytes < length magic + 6" using assms by auto
  then show ?thesis
    unfolding frame_parts_of_def Let_def by (simp only: stored_trailer if_False)
qed

lemma read_envelope_version:
  assumes "read_envelope v rest = Inr parts"
  shows "fp_version parts = v"
proof -
  let ?body = "\<lambda>b exts body. case frame_version body of Inl e \<Rightarrow> Inl e | Inr found \<Rightarrow>
       if found \<noteq> b then Inl (EnvelopeBodyMismatch b found)
       else Inr \<lparr>fp_version = v, fp_body_version = b, fp_extensions = exts,
                 fp_unknown_critical = list_ex unknown_critical exts, fp_body = body\<rparr>"
  obtain b r' and count :: u64 where
    "(if max_extensions < unat count then Inl (DecodeLimit ''extension_count'' (unat count) max_extensions)
      else rbind (read_many read_extension (unat count) r') (\<lambda>exts r. ?body b exts (drop (br_pos r) rest))) = Inr parts"
    using assms unfolding read_envelope_def Let_def rbind_Inr_iff [where m = "read_u16_le _"] rbind_Inr_iff [where m = "read_uvarint _"]
    by (elim exE conjE) (rule that)
  then obtain exts and r'' :: byte_reader where "?body b exts (drop (br_pos r'') rest) = Inr parts"
    by (simp split: if_split_asm) (auto simp only: rbind_Inr_iff intro: that)
  then show ?thesis by (auto split: sum.split_asm if_split_asm)
qed

lemma frame_parts_checksum:
  assumes "frame_parts_of bytes = Inr parts"
  shows "foldl crc_feed 0xFFFFFFFF bytes = crc_residue"
proof -
  have "11 \<le> length bytes"
    using assms by (auto simp: frame_parts_of_def Let_def split: sum.splits if_splits)
  moreover from this have "from_le (drop (length bytes - 4) bytes) = crc32 (take (length bytes - 4) bytes)"
    using assms by (auto simp only: frame_parts_of_def Let_def stored_trailer sum.simps split: sum.splits if_splits)
  ultimately show ?thesis by (simp add: frame_checksum_residue)
qed

lemma frame_parts_bad_checksum:
  assumes "13 \<le> length bytes" "foldl crc_feed 0xFFFFFFFF bytes \<noteq> crc_residue"
  shows "\<exists>e. frame_parts_of bytes = Inl e \<and> frame_fault_of e = Integrity"
proof (cases "frame_version bytes")
  case (Inl e)
  then have "e = BadMagic" using assms(1) by (auto simp: frame_version_def split: if_splits)
  with Inl show ?thesis by (simp add: frame_parts_of_def)
next
  case (Inr v)
  have "from_le (drop (length bytes - 4) bytes) \<noteq> crc32 (take (length bytes - 4) bytes)"
    using assms by (simp add: frame_checksum_residue)
  with Inr assms(1) show ?thesis
    by (simp only: frame_parts_of_def Let_def stored_trailer) simp
qed

lemma frame_parts_window:
  assumes "frame_parts_of (pre @ xs @ suf) = Inr parts"
    and "length xs = length ys" "length xs \<le> 4" "xs \<noteq> ys"
  shows "\<exists>e. frame_parts_of (pre @ ys @ suf) = Inl e \<and> frame_fault_of e = Integrity"
proof (rule frame_parts_bad_checksum)
  show "13 \<le> length (pre @ ys @ suf)"
    using assms(1,2) by (auto simp: frame_parts_of_def Let_def split: sum.splits if_splits)
  have "foldl crc_feed 0xFFFFFFFF (pre @ xs @ suf) = crc_residue"
    by (rule frame_parts_checksum [OF assms(1)])
  then show "foldl crc_feed 0xFFFFFFFF (pre @ ys @ suf) \<noteq> crc_residue"
    using foldl_crc_feed_window [OF assms(2,3)] assms(4) by (metis foldl_append foldl_crc_feed_inj)
qed

lemma frame_version_header: "frame_version (magic @ put_u16_le v @ s) = Inr v"
proof -
  have "length (to_le 2 v) = 2" by simp
  moreover have "from_le [to_le 2 v ! 0, to_le 2 v ! 1] = v" by (simp add: to_le_nths from_le_to_le del: from_le.simps One_nat_def)
  ultimately show ?thesis
    by (simp add: frame_version_def is_known_magic_def put_u16_le_def nth_append del: from_le.simps)
qed

lemma br_pos_rd [simp]: "br_pos (rd pre s) = length pre"
  by (simp add: rd_def)

definition envelope_of :: "u16 \<Rightarrow> u8 list \<Rightarrow> frame_extension list \<Rightarrow> u8 list" where
  "envelope_of v inner exts =
    put_u16_le v @ put_usize (length exts) @ put_many put_extension exts @ inner"

lemma wrap_eq:
  assumes "frame_version inner = Inr v" "layout_of v = Some l"
  shows "wrap_frame_envelope inner exts =
    (let w = magic @ put_u16_le frame_envelope @ envelope_of v inner exts in Inr (w @ put_u32_le (crc32 w)))"
  using assms by (simp add: wrap_frame_envelope_def envelope_of_def put_raw_def Let_def)

lemma length_put_4 [simp]: "length (put_u32_le v) = 4" "length (put_u16_le w) = 2"
  by (simp_all add: put_u32_le_def put_u16_le_def)

lemma frame_parts_wrap:
  assumes v: "frame_version inner = Inr v" and l: "layout_of v = Some l"
    and n: "length exts \<le> max_extensions" and p: "\<forall>e\<in>set exts. length (fe_payload e) < 2 ^ 64"
    and w: "wrap_frame_envelope inner exts = Inr bytes"
  shows "frame_parts_of bytes = Inr \<lparr>fp_version = frame_envelope, fp_body_version = v,
    fp_extensions = exts, fp_unknown_critical = list_ex unknown_critical exts, fp_body = inner\<rparr>"
proof -
  define head where "head = magic @ put_u16_le frame_envelope @ envelope_of v inner exts"
  have b: "bytes = head @ put_u32_le (crc32 head)"
    using w by (simp add: wrap_eq [OF v l] head_def Let_def)
  have len: "13 \<le> length bytes" by (simp add: b head_def envelope_of_def)
  have fv: "frame_version bytes = Inr frame_envelope"
    using frame_version_header by (simp add: b head_def)
  have cut: "take (length bytes - 4) bytes = head" "drop (length bytes - 4) bytes = put_u32_le (crc32 head)"
    by (simp_all add: b)
  have crc: "from_le (put_u32_le (crc32 head)) = crc32 head"
    by (simp add: put_u32_le_def from_le_to_le del: from_le.simps)
  have rest: "drop (length magic + 2) head = envelope_of v inner exts" by (simp add: head_def)
  have n64: "length exts < 2 ^ 64" "unat (of_nat (length exts) :: u64) = length exts"
    using n by (simp_all add: max_extensions_def unat_of_nat)
  have body: "drop (length (put_u16_le v) + length (put_usize (length exts)) + length (put_many put_extension exts))
      (envelope_of v inner exts) = inner"
    by (simp add: envelope_of_def)
  have "frame_parts_of bytes = read_envelope frame_envelope (envelope_of v inner exts)"
    by (simp only: frame_parts_of_alt [OF len] fv cut crc rest sum.case Let_def) simp
  also have "\<dots> = Inr \<lparr>fp_version = frame_envelope, fp_body_version = v,
    fp_extensions = exts, fp_unknown_critical = list_ex unknown_critical exts, fp_body = inner\<rparr>"
    using n n64 p v body
    by (simp add: read_envelope_def Let_def new_reader_rd envelope_of_def put_usize_def u16.get_put
        uvarint.get_put ext.read_many_put add.assoc)
  finally show ?thesis .
qed

lemma frame_parts_long: "frame_parts_of bytes = Inr parts \<Longrightarrow> 13 \<le> length bytes"
  by (auto simp: frame_parts_of_def Let_def split: sum.splits if_splits)

lemma plain_frame_parts:
  assumes "frame_parts_of bytes = Inr parts" "fp_version parts \<noteq> frame_envelope"
  shows "fp_body parts = bytes \<and> fp_extensions parts = [] \<and> \<not> fp_unknown_critical parts"
  using assms read_envelope_version
  by (auto simp: frame_parts_of_alt [OF frame_parts_long [OF assms(1)]] Let_def
      simp del: from_le.simps split: sum.splits if_splits)

subsection \<open>Properties\<close>

text \<open>
  C13: Wrapping a frame of a readable layout with an extension table and unwrapping it gives the
  frame back byte for byte, and the description of the envelope lists the layout and the table,
  when no critical extension is unknown.
\<close>

theorem envelope_round_trip:
  assumes "frame_version inner = Inr v" "layout_of v = Some l" "length exts \<le> max_extensions"
    and "\<forall>e\<in>set exts. length (fe_payload e) < 2 ^ 64 \<and> \<not> unknown_critical e"
  shows "\<exists>bytes. wrap_frame_envelope inner exts = Inr bytes \<and> unwrap_frame_envelope bytes = Inr inner \<and>
    read_frame_body bytes = Inr (inner, l) \<and>
    describe_frame bytes = Inr \<lparr>fi_version = frame_envelope, fi_body_version = v, fi_layout = Some l,
      fi_extensions = exts, fi_unknown_critical = False\<rparr>"
proof -
  obtain bytes where w: "wrap_frame_envelope inner exts = Inr bytes"
    using wrap_eq [OF assms(1,2)] by (simp add: Let_def)
  have "\<not> list_ex unknown_critical exts" using assms(4) by (auto simp: list_ex_iff)
  with frame_parts_wrap [OF assms(1-3) _ w] assms(2,4) w show ?thesis
    by (simp add: unwrap_frame_envelope_def read_frame_body_def describe_frame_def critical_refusal_def)
qed

theorem envelope_round_trip_witness:
  "\<exists>bytes. wrap_frame_envelope (magic @ put_u16_le 5 @ [1, 2, 3]) [\<lparr>fe_id = 1, fe_critical = True, fe_payload = [9]\<rparr>] = Inr bytes \<and>
    unwrap_frame_envelope bytes = Inr (magic @ put_u16_le 5 @ [1, 2, 3]) \<and>
    read_frame_body bytes = Inr (magic @ put_u16_le 5 @ [1, 2, 3], SingleBlock) \<and>
    describe_frame bytes = Inr \<lparr>fi_version = frame_envelope, fi_body_version = 5, fi_layout = Some SingleBlock,
      fi_extensions = [\<lparr>fe_id = 1, fe_critical = True, fe_payload = [9]\<rparr>], fi_unknown_critical = False\<rparr>"
  by (rule envelope_round_trip [OF frame_version_header])
     (simp_all add: layout_of_def frame_single_block_def max_extensions_def unknown_critical_def
        is_known_extension_def known_extensions_def ext_series_key_def)

text \<open>
  C14: When a frame is intact, replacing any up to four consecutive bytes of it by others, the
  trailing checksum included, makes every entry point refuse it, and the refusal is classified as
  damage.
\<close>

theorem damaged_frame_refused:
  assumes "describe_frame (pre @ xs @ suf) = Inr info"
    and "length xs = length ys" "length xs \<le> 4" "xs \<noteq> ys"
  shows "describe_frame (pre @ ys @ suf) = Inl Integrity \<and>
    (\<exists>e. unwrap_frame_envelope (pre @ ys @ suf) = Inl e \<and> read_frame_body (pre @ ys @ suf) = Inl e)"
proof -
  obtain parts where "frame_parts_of (pre @ xs @ suf) = Inr parts"
    using assms(1) by (auto simp: describe_frame_def split: sum.splits)
  from frame_parts_window [OF this assms(2-4)] show ?thesis
    by (auto simp: describe_frame_def unwrap_frame_envelope_def read_frame_body_def)
qed

theorem damaged_frame_refused_witness:
  "describe_frame ((magic @ put_u16_le 5 @ [1]) @ [9] @ put_u32_le (crc32 (magic @ put_u16_le 5 @ [1, 2]))) = Inl Integrity \<and>
    (\<exists>e. unwrap_frame_envelope ((magic @ put_u16_le 5 @ [1]) @ [9] @ put_u32_le (crc32 (magic @ put_u16_le 5 @ [1, 2]))) = Inl e \<and>
      read_frame_body ((magic @ put_u16_le 5 @ [1]) @ [9] @ put_u32_le (crc32 (magic @ put_u16_le 5 @ [1, 2]))) = Inl e)"
proof (rule damaged_frame_refused)
  let ?crc = "put_u32_le (crc32 (magic @ put_u16_le 5 @ [1, 2]))"
  have v: "frame_version ((magic @ put_u16_le 5 @ [1]) @ [2] @ ?crc) = Inr 5"
    using frame_version_header [of 5 "[1] @ [2] @ ?crc"] by simp
  have len: "13 \<le> length ((magic @ put_u16_le 5 @ [1]) @ [2] @ ?crc)" by simp
  have crc: "from_le ?crc = crc32 (magic @ put_u16_le 5 @ [1, 2])"
    by (simp add: put_u32_le_def from_le_to_le del: from_le.simps)
  show "describe_frame ((magic @ put_u16_le 5 @ [1]) @ [2] @ ?crc) = Inr \<lparr>fi_version = 5, fi_body_version = 5,
      fi_layout = layout_of 5, fi_extensions = [], fi_unknown_critical = False\<rparr>"
    unfolding describe_frame_def frame_parts_of_alt [OF len] v sum.case Let_def
    by (simp add: crc frame_envelope_def)
qed simp_all

text \<open>
  C15: An envelope that carries a critical extension this build does not implement is refused by
  every reader of a body with an error that names the first such extension, is classified as
  undecodable and not as damage, and is described as not decodable.
\<close>

theorem unknown_critical_refused:
  assumes "frame_version inner = Inr v" "layout_of v = Some l" "length exts \<le> max_extensions"
    and "\<forall>e\<in>set exts. length (fe_payload e) < 2 ^ 64" "find unknown_critical exts = Some bad"
  shows "\<exists>bytes info. wrap_frame_envelope inner exts = Inr bytes \<and>
    unwrap_frame_envelope bytes = Inl (UnknownCriticalExtension (fe_id bad)) \<and>
    read_frame_body bytes = Inl (UnknownCriticalExtension (fe_id bad)) \<and>
    frame_fault_of (UnknownCriticalExtension (fe_id bad)) = Undecodable False \<and>
    describe_frame bytes = Inr info \<and> fi_extensions info = exts \<and> \<not> decodable info"
proof -
  obtain bytes where w: "wrap_frame_envelope inner exts = Inr bytes"
    using wrap_eq [OF assms(1,2)] by (simp add: Let_def)
  have "list_ex unknown_critical exts" using assms(5) by (auto simp: find_Some_iff list_ex_iff)
  with frame_parts_wrap [OF assms(1-4) w] assms(5) w show ?thesis
    by (simp add: unwrap_frame_envelope_def read_frame_body_def describe_frame_def critical_refusal_def decodable_def)
qed

theorem unknown_critical_refused_witness:
  "\<exists>bytes info. wrap_frame_envelope (magic @ put_u16_le 6 @ [1]) [\<lparr>fe_id = 1, fe_critical = True, fe_payload = []\<rparr>, \<lparr>fe_id = 40, fe_critical = True, fe_payload = [9]\<rparr>] = Inr bytes \<and>
    unwrap_frame_envelope bytes = Inl (UnknownCriticalExtension (fe_id \<lparr>fe_id = 40, fe_critical = True, fe_payload = [9]\<rparr>)) \<and>
    read_frame_body bytes = Inl (UnknownCriticalExtension (fe_id \<lparr>fe_id = 40, fe_critical = True, fe_payload = [9]\<rparr>)) \<and>
    frame_fault_of (UnknownCriticalExtension (fe_id \<lparr>fe_id = 40, fe_critical = True, fe_payload = [9]\<rparr>)) = Undecodable False \<and>
    describe_frame bytes = Inr info \<and>
    fi_extensions info = [\<lparr>fe_id = 1, fe_critical = True, fe_payload = []\<rparr>, \<lparr>fe_id = 40, fe_critical = True, fe_payload = [9]\<rparr>] \<and> \<not> decodable info"
  by (rule unknown_critical_refused [OF frame_version_header, where l = Paged])
     (simp_all add: layout_of_def frame_single_block_def frame_paged_def max_extensions_def unknown_critical_def
        is_known_extension_def known_extensions_def ext_series_key_def)

subsection \<open>Further facts\<close>

text \<open>
  The quality column written for a presence list reads back, against the counts of the header, as
  a mask that answers every row as the list does and no row beyond it.
\<close>

lemma null_column_presence:
  assumes "length present \<le> max_rows"
  shows "\<exists>m. read_null_column (length present) (length (filter (\<lambda>p. \<not> p) present))
      (rd pre (write_null_column (from_presence present) @ s)) = Inr (m, rd (pre @ write_null_column (from_presence present)) s) \<and>
    null_mask_ok m \<and> (\<forall>i. is_present m i \<longleftrightarrow> i < length present \<and> present ! i)"
proof -
  have n: "nm_row_count (from_presence present) = length present"
    "nm_null_count (from_presence present) = length (filter (\<lambda>p. \<not> p) present)"
    by (simp_all add: from_presence_def all_present_def Let_def)
  show ?thesis
    using null_column_round_trip [OF null_mask_ok_from_presence [of present], of pre s] assms
    by (intro exI [of _ "from_presence present"]) (simp add: n null_mask_ok_from_presence is_present_from_presence)
qed

lemma null_column_presence_witness:
  "\<exists>m. read_null_column (length [True, False, True]) (length (filter (\<lambda>p. \<not> p) [True, False, True]))
      (rd [4] (write_null_column (from_presence [True, False, True]) @ [9])) =
      Inr (m, rd ([4] @ write_null_column (from_presence [True, False, True])) [9]) \<and>
    null_mask_ok m \<and> (\<forall>i. is_present m i \<longleftrightarrow> i < length [True, False, True] \<and> [True, False, True] ! i)"
  by (rule null_column_presence) (simp add: max_rows_def)

end
