(* ===== verification/Split.thy ===== *)
theory Split imports Checkpoints "HOL-Library.Multiset" begin

text \<open>
  The split geometry of \<^verbatim>\<open>weft-physical-type/src/split.rs\<close>: when late data splits a sealed segment
  rather than rewriting it, where the boundary falls, and the two-pointer merge in which the newer
  rows win at a shared timestamp. The merge is shown to be the stable sort of the surviving rows.
\<close>

subsection \<open>The policy\<close>

datatype split_decision = FullRewrite | SplitSegment

fun is_split :: "split_decision \<Rightarrow> bool" where
  "is_split SplitSegment = True"
| "is_split FullRewrite = False"

record split_policy =
  min_split_bytes :: u64

definition questdb_default_min_split_bytes :: u64 where
  "questdb_default_min_split_bytes = 50 * 1024 * 1024"

definition questdb_default :: split_policy where
  "questdb_default = \<lparr>min_split_bytes = questdb_default_min_split_bytes\<rparr>"

definition u64_saturating_add :: "u64 \<Rightarrow> u64 \<Rightarrow> u64" where
  "u64_saturating_add a b = (if unat a + unat b < 2 ^ 64 then a + b else - 1)"

definition decide :: "split_policy \<Rightarrow> u64 \<Rightarrow> u64 \<Rightarrow> u64 \<Rightarrow> split_decision" where
  "decide policy prefix_bytes suffix_bytes new_data_bytes =
    (let merge_bytes = u64_saturating_add suffix_bytes new_data_bytes
     in if min_split_bytes policy \<le> prefix_bytes \<and> merge_bytes < prefix_bytes
        then SplitSegment else FullRewrite)"

lemma decide_eq:
  "decide policy p s n = SplitSegment \<longleftrightarrow>
    unat (min_split_bytes policy) \<le> unat p \<and> unat s + unat n < unat p"
proof (cases "unat s + unat n < 2 ^ 64")
  case True
  then have "unat (s + n) = unat s + unat n" by (simp add: unat_word_ariths)
  with True show ?thesis
    by (simp add: decide_def u64_saturating_add_def word_le_nat_alt word_less_nat_alt)
next
  case False
  have "unat p < 2 ^ 64" using unsigned_less [of p] by simp
  moreover have "\<not> (- 1 :: u64) < p"
    using word_order.extremum [of p] by (simp add: not_less)
  ultimately show ?thesis using False by (simp add: decide_def u64_saturating_add_def)
qed

subsection \<open>The boundary\<close>

definition split_index :: "i64 list \<Rightarrow> i64 \<Rightarrow> nat" where
  "split_index existing_ts late_min = partition_point (\<lambda>t. sint t < sint late_min) existing_ts"

lemma split_index_spec:
  assumes "time_sorted ts"
  shows "split_index ts m \<le> length ts"
    and "\<And>i. i < length ts \<Longrightarrow> i < split_index ts m \<longleftrightarrow> sint (ts ! i) < sint m"
proof -
  let ?p = "\<lambda>t. sint t < sint m"
  show le: "split_index ts m \<le> length ts"
    by (simp add: split_index_def partition_point_def length_takeWhile_le)
  fix i assume i: "i < length ts"
  show "i < split_index ts m \<longleftrightarrow> ?p (ts ! i)"
  proof
    assume "i < split_index ts m"
    then show "?p (ts ! i)"
      by (metis nth_mem partition_point_def set_takeWhileD split_index_def takeWhile_nth)
  next
    assume p: "?p (ts ! i)"
    show "i < split_index ts m"
    proof (rule ccontr)
      assume "\<not> i < split_index ts m"
      then have k: "split_index ts m \<le> i" by simp
      then have "\<not> ?p (ts ! split_index ts m)"
        using i nth_length_takeWhile [of ?p ts] by (simp add: split_index_def partition_point_def)
      moreover have "sint (ts ! split_index ts m) \<le> sint (ts ! i)"
        using time_sorted_nth_mono [OF assms k i] .
      ultimately show False using p by simp
    qed
  qed
qed

subsection \<open>The merge\<close>

text \<open>The two pointers are the unread parts of the inputs; the inner loops of the \<open>Equal\<close> arm drop
  the run of \<open>older\<close> and push the run of \<open>newer\<close>.\<close>

function merge_newer_wins :: "(i64 \<times> 'v) list \<Rightarrow> (i64 \<times> 'v) list \<Rightarrow> (i64 \<times> 'v) list" where
  "merge_newer_wins (o1 # older) (n1 # newer) =
    (if sint (fst o1) < sint (fst n1) then o1 # merge_newer_wins older (n1 # newer)
     else if sint (fst n1) < sint (fst o1) then n1 # merge_newer_wins (o1 # older) newer
     else let t = fst o1
          in takeWhile (\<lambda>r. fst r = t) (n1 # newer) @
             merge_newer_wins (dropWhile (\<lambda>r. fst r = t) (o1 # older)) (dropWhile (\<lambda>r. fst r = t) (n1 # newer)))"
| "merge_newer_wins [] newer = newer"
| "merge_newer_wins (o1 # older) [] = o1 # older"
  by pat_completeness auto
termination
proof (relation "measure (\<lambda>(a, b). length a + length b)", goal_cases)
  case (4 o1 older n1 newer x)
  then have "length (dropWhile (\<lambda>r. fst r = x) (o1 # older)) < length (o1 # older)"
    by (simp add: length_dropWhile_le le_imp_less_Suc)
  moreover have "length (dropWhile (\<lambda>r. fst r = x) (n1 # newer)) \<le> length (n1 # newer)"
    by (rule length_dropWhile_le)
  ultimately show ?case by (simp only: in_measure prod.case)
qed auto

abbreviation rows_sorted :: "(i64 \<times> 'v) list \<Rightarrow> bool" where
  "rows_sorted rows \<equiv> sorted (map (\<lambda>r. sint (fst r)) rows)"

abbreviation at_time :: "i64 \<Rightarrow> (i64 \<times> 'v) list \<Rightarrow> (i64 \<times> 'v) list" where
  "at_time t rows \<equiv> filter (\<lambda>r. fst r = t) rows"

lemma rows_sorted_run:
  assumes "rows_sorted rows" "\<forall>r\<in>set rows. sint t \<le> sint (fst r)"
  shows "takeWhile (\<lambda>r. fst r = t) rows = at_time t rows"
    and "dropWhile (\<lambda>r. fst r = t) rows = filter (\<lambda>r. sint t < sint (fst r)) rows"
  using assms
proof (induction rows)
  case (Cons r rows)
  { case 1
    show ?case
    proof (cases "fst r = t")
      case False
      then have "sint t < sint (fst r)" using 1 sint_injD [of t "fst r"] by force
      then have "\<forall>q\<in>set rows. fst q \<noteq> t" using 1 by fastforce
      with False show ?thesis by (simp add: filter_False)
    qed (use 1 Cons.IH in simp)
  next
    case 2
    show ?case
    proof (cases "fst r = t")
      case False
      then have "sint t < sint (fst r)" using 2 sint_injD [of t "fst r"] by force
      moreover from this have "\<forall>q\<in>set rows. sint t < sint (fst q)" using 2 by fastforce
      ultimately show ?thesis using False by simp
    qed (use 2 Cons.IH in simp)
  }
qed simp_all

text \<open>The rows that survive: the older ones at a timestamp no newer row carries, and the newer.\<close>

definition surviving_rows :: "(i64 \<times> 'v) list \<Rightarrow> (i64 \<times> 'v) list \<Rightarrow> (i64 \<times> 'v) list" where
  "surviving_rows older newer = filter (\<lambda>r. fst r \<notin> fst ` set newer) older @ newer"

lemma at_time_absent: "t \<notin> fst ` set rows \<Longrightarrow> at_time t rows = []"
  by (auto simp: filter_empty_conv)

lemma at_time_surviving:
  "at_time t (surviving_rows older newer) = (if t \<in> fst ` set newer then at_time t newer else at_time t older)"
proof (cases "t \<in> fst ` set newer")
  case True
  then have "filter (\<lambda>r. fst r = t) (filter (\<lambda>r. fst r \<notin> fst ` set newer) older) = []"
    by (auto simp: filter_empty_conv)
  with True show ?thesis by (simp add: surviving_rows_def)
next
  case False
  then have "filter (\<lambda>r. fst r = t) (filter (\<lambda>r. fst r \<notin> fst ` set newer) older) = at_time t older"
    by (auto simp: intro!: filter_cong)
  with False show ?thesis by (simp add: surviving_rows_def at_time_absent)
qed

lemma set_merge: "set (merge_newer_wins older newer) \<subseteq> set older \<union> set newer"
proof (induction older newer rule: merge_newer_wins.induct)
  case (1 o1 older n1 newer)
  consider "sint (fst o1) < sint (fst n1)" | "sint (fst n1) < sint (fst o1)"
    | "\<not> sint (fst o1) < sint (fst n1)" "\<not> sint (fst n1) < sint (fst o1)" by blast
  then show ?case
  proof cases
    case 3
    then show ?thesis
      using 1(3) [OF 3 refl] by (simp only: merge_newer_wins.simps if_False Let_def set_append)
        (blast dest: set_takeWhileD set_dropWhileD)
  qed (use 1 in auto)
qed simp_all

lemma rows_sorted_filter: "rows_sorted rows \<Longrightarrow> rows_sorted (filter p rows)"
  by (simp add: sorted_filter)

text \<open>In the \<open>Equal\<close> arm both inputs start at the shared timestamp.\<close>

lemma merge_equal_arm:
  assumes "rows_sorted (o1 # older)" "rows_sorted (n1 # newer)" "fst o1 = t" "fst n1 = t"
  shows "merge_newer_wins (o1 # older) (n1 # newer) = at_time t (n1 # newer) @
    merge_newer_wins (filter (\<lambda>r. sint t < sint (fst r)) (o1 # older)) (filter (\<lambda>r. sint t < sint (fst r)) (n1 # newer))"
proof -
  have le: "\<forall>r\<in>set (o1 # older). sint t \<le> sint (fst r)" "\<forall>r\<in>set (n1 # newer). sint t \<le> sint (fst r)"
    using assms by auto
  show ?thesis
    unfolding rows_sorted_run(1) [OF assms(2) le(2), symmetric] rows_sorted_run(2) [OF assms(1) le(1), symmetric]
      rows_sorted_run(2) [OF assms(2) le(2), symmetric]
    by (subst merge_newer_wins.simps) (simp only: assms(3,4) less_irrefl if_False Let_def)
qed

lemma merge_spec:
  assumes "rows_sorted older" "rows_sorted newer"
  shows "rows_sorted (merge_newer_wins older newer) \<and>
    (\<forall>t. at_time t (merge_newer_wins older newer) = at_time t (surviving_rows older newer))"
  using assms
proof (induction "length older + length newer" arbitrary: older newer rule: less_induct)
  case less
  show ?case
  proof (cases older)
    case Nil
    then show ?thesis using less.prems by (simp add: surviving_rows_def)
  next
    case o: (Cons o1 older')
    show ?thesis
    proof (cases newer)
      case Nil
      then show ?thesis using o less.prems by (simp add: surviving_rows_def)
    next
      case n: (Cons n1 newer')
      consider "sint (fst o1) < sint (fst n1)" | "sint (fst n1) < sint (fst o1)" | "fst n1 = fst o1"
        using sint_injD by (metis linorder_cases)
      then show ?thesis
      proof cases
        case 1
        have ih: "rows_sorted (merge_newer_wins older' newer)"
          "at_time t (merge_newer_wins older' newer) = at_time t (surviving_rows older' newer)" for t
          using less.hyps [of older' newer] less.prems o by auto
        have "\<forall>r\<in>set (merge_newer_wins older' newer). sint (fst o1) \<le> sint (fst r)"
          using set_merge [of older' newer] 1 less.prems by (fastforce simp: o n)
        moreover have "fst o1 \<notin> fst ` set newer" using 1 less.prems(2) by (fastforce simp: n)
        ultimately show ?thesis
          using 1 ih by (auto simp: o n at_time_surviving)
      next
        case 2
        have ih: "rows_sorted (merge_newer_wins older newer')"
          "at_time t (merge_newer_wins older newer') = at_time t (surviving_rows older newer')" for t
          using less.hyps [of older newer'] less.prems n by auto
        have "\<forall>r\<in>set (merge_newer_wins older newer'). sint (fst n1) \<le> sint (fst r)"
          using set_merge [of older newer'] 2 less.prems by (fastforce simp: o n)
        moreover have "at_time (fst n1) older = []"
          using 2 less.prems(1) by (fastforce simp: o filter_empty_conv)
        moreover have "at_time t (n1 # newer') = (if t = fst n1 then n1 # at_time t newer' else at_time t newer')" for t
          by simp
        moreover have "t \<notin> fst ` set newer' \<Longrightarrow> at_time t newer' = []" for t by (rule at_time_absent)
        ultimately show ?thesis
          using 2 ih by (auto simp: o n at_time_surviving)
      next
        case 3
        let ?t = "fst o1"
        let ?D = "filter (\<lambda>r. sint ?t < sint (fst r)) older" and ?E = "filter (\<lambda>r. sint ?t < sint (fst r)) newer"
        have "length ?D < length older" using length_filter_le [of _ older'] by (simp add: o le_imp_less_Suc)
        moreover have "length ?E \<le> length newer" by (rule length_filter_le)
        ultimately have "length ?D + length ?E < length older + length newer" by linarith
        then have ih: "rows_sorted (merge_newer_wins ?D ?E)"
          "at_time t (merge_newer_wins ?D ?E) = at_time t (surviving_rows ?D ?E)" for t
          using less.hyps [of ?D ?E] less.prems rows_sorted_filter by blast+
        have eq: "merge_newer_wins older newer = at_time ?t newer @ merge_newer_wins ?D ?E"
          using merge_equal_arm [of o1 older' n1 newer' ?t] less.prems 3 by (simp only: o n)
        have "\<forall>r\<in>set (merge_newer_wins ?D ?E). sint ?t \<le> sint (fst r)"
          using set_merge [of ?D ?E] by fastforce
        then have "rows_sorted (merge_newer_wins older newer)"
          using ih(1) less.prems(2) by (auto simp: eq sorted_append sorted_filter)
        moreover have "at_time t (merge_newer_wins older newer) = at_time t (surviving_rows older newer)" for t
        proof (cases "t = ?t")
          case True
          have "?t \<in> fst ` set newer" using 3 by (auto simp: n)
          moreover have "at_time ?t ?E = []" "at_time ?t ?D = []" by (auto simp: filter_empty_conv)
          ultimately show ?thesis by (simp add: True eq ih(2) at_time_surviving)
        next
          case False
          have gt: "sint ?t < sint t" if "r \<in> set older \<union> set newer" "fst r = t" for r
            using less.prems that 3 False sint_injD [of t ?t] by (force simp: o n)
          then have "at_time t ?E = at_time t newer" "at_time t ?D = at_time t older"
            by (auto intro!: filter_cong)
          moreover have "t \<in> fst ` set ?E \<longleftrightarrow> t \<in> fst ` set newer" using gt by force
          moreover have "at_time t (at_time ?t newer) = []" using False by (auto simp: filter_empty_conv)
          ultimately show ?thesis by (simp add: eq ih(2) at_time_surviving)
        qed
        ultimately show ?thesis by blast
      qed
    qed
  qed
qed

lemma count_at_time: "count (mset rows) r = count (mset (at_time (fst r) rows)) r"
  by (induction rows) auto

lemma merge_eq_sort:
  assumes "rows_sorted older" "rows_sorted newer"
  shows "merge_newer_wins older newer = sort_key (\<lambda>r. sint (fst r)) (surviving_rows older newer)"
proof -
  let ?m = "merge_newer_wins older newer" and ?s = "surviving_rows older newer"
  note spec = merge_spec [OF assms]
  have "mset ?m = mset ?s"
    by (rule multiset_eqI) (metis count_at_time spec)
  moreover have "(\<lambda>x :: i64 \<times> 'a. sint (fst k) = sint (fst x)) = (\<lambda>x. fst x = fst k)" for k :: "i64 \<times> 'a"
    using sint_injD by fastforce
  ultimately show ?thesis
    using spec by (intro sym [OF properties_for_sort_key]) simp_all
qed

subsection \<open>Properties\<close>

text \<open>
  C25: The two-pointer merge of two time-ordered row sequences is the stable sort by time of the
  rows that survive the upsert: the older rows at a time no newer row carries, and all newer rows.
\<close>

theorem merge_is_stable_upsert:
  assumes "rows_sorted older" "rows_sorted newer"
  shows "merge_newer_wins older newer =
    sort_key (\<lambda>r. sint (fst r)) (filter (\<lambda>r. fst r \<notin> fst ` set newer) older @ newer)"
  using merge_eq_sort [OF assms] by (simp add: surviving_rows_def)

theorem merge_is_stable_upsert_witness:
  "merge_newer_wins [(1, ''a''), (3, ''b''), (3, ''c''), (7, ''d'')] [(3, ''x''), (5, ''y'')] =
    sort_key (\<lambda>r. sint (fst r)) (filter (\<lambda>r. fst r \<notin> fst ` set [(3, ''x''), (5, ''y'')])
      [(1, ''a''), (3, ''b''), (3, ''c''), (7, ''d'')] @ [(3, ''x''), (5, ''y'')])"
  by (rule merge_is_stable_upsert) simp_all

subsection \<open>Further facts\<close>

text \<open>
  The boundary separates exactly the rows before the late window from the rows at or after it, and
  a split is chosen exactly when the prefix reaches the floor and is larger than the true,
  unwrapped sum of suffix and new data.
\<close>

lemma split_geometry:
  assumes "time_sorted ts"
  shows "(\<forall>t\<in>set (take (split_index ts m) ts). sint t < sint m) \<and>
    (\<forall>t\<in>set (drop (split_index ts m) ts). sint m \<le> sint t) \<and>
    (decide policy p s n = SplitSegment \<longleftrightarrow>
      unat (min_split_bytes policy) \<le> unat p \<and> unat s + unat n < unat p)"
proof -
  note k = split_index_spec [OF assms, where m = m]
  have "sint t < sint m" if t: "t \<in> set (take (split_index ts m) ts)" for t
  proof -
    obtain i where "i < split_index ts m" "i < length ts" "t = ts ! i" using t by (auto simp: in_set_conv_nth)
    then show ?thesis using k(2) [of i] by simp
  qed
  moreover have "sint m \<le> sint t" if t: "t \<in> set (drop (split_index ts m) ts)" for t
  proof -
    obtain i where i: "i < length ts - split_index ts m" "t = ts ! (split_index ts m + i)"
      using t k(1) by (auto simp: in_set_conv_nth)
    then have "split_index ts m + i < length ts" by simp
    from k(2) [OF this] i(2) show ?thesis by simp
  qed
  ultimately show ?thesis using decide_eq by blast
qed

lemma split_geometry_witness:
  "split_index [1, 4, 4, 9] 4 = 1 \<and> sint (9 :: i64) \<in> {sint (4 :: i64)..} \<and>
    decide questdb_default 70000000 60000000 1 = SplitSegment"
proof -
  have s: "time_sorted [1, 4, 4, 9]" by simp
  have "split_index [1, 4, 4, 9] 4 = 1" by code_simp
  moreover have "decide questdb_default 70000000 60000000 1 = SplitSegment"
    using split_geometry [OF s, of 4 questdb_default 70000000 60000000 1]
    by (simp add: questdb_default_def questdb_default_min_split_bytes_def)
  ultimately show ?thesis using split_geometry [OF s, of 4 questdb_default 70000000 60000000 1] by simp
qed

end
