(* ===== verification/Segments.thy ===== *)
theory Segments imports Split Null_Mask begin

text \<open>
  The in-memory segment of \<^verbatim>\<open>weft-physical-type/src/segment.rs\<close>: its statistics, its builders with
  the order gate, the reconstruction of a nullable column, data skipping and the point lookup. The
  logical value is a type \<open>'v\<close> with the total order of \<open>BigDecimal\<close>; the typed value column is a
  type \<open>'c\<close>, with its encoder \<open>enc\<close> and its decoder \<open>dec\<close> arguments of the operations that use
  them.
\<close>

subsection \<open>Statistics\<close>

datatype segment_error =
    LengthMismatch nat nat
  | EmptyPageSize
  | OutOfOrder nat i64 i64

record 'v segment_stats =
  st_row_count :: nat
  st_null_count :: nat
  st_time_sorted :: bool
  st_min_ts :: "i64 option"
  st_max_ts :: "i64 option"
  st_min_value :: "'v option"
  st_max_value :: "'v option"

text \<open>\<open>Iterator::min\<close> keeps the first of equal elements, \<open>Iterator::max\<close> the last.\<close>

fun iter_min :: "('a \<Rightarrow> 'a \<Rightarrow> bool) \<Rightarrow> 'a list \<Rightarrow> 'a option" where
  "iter_min lt [] = None"
| "iter_min lt (x # xs) = Some (foldl (\<lambda>acc y. if lt y acc then y else acc) x xs)"

fun iter_max :: "('a \<Rightarrow> 'a \<Rightarrow> bool) \<Rightarrow> 'a list \<Rightarrow> 'a option" where
  "iter_max lt [] = None"
| "iter_max lt (x # xs) = Some (foldl (\<lambda>acc y. if lt y acc then acc else y) x xs)"

definition ts_less :: "i64 \<Rightarrow> i64 \<Rightarrow> bool" where
  "ts_less a b \<longleftrightarrow> sint a < sint b"

definition from_columns_nullable :: "i64 list \<Rightarrow> 'v::ord list \<Rightarrow> nat \<Rightarrow> 'v segment_stats" where
  "from_columns_nullable timestamps present_values null_count =
    \<lparr>st_row_count = length timestamps, st_null_count = null_count,
     st_time_sorted = list_all (\<lambda>w. sint (fst w) \<le> sint (snd w)) (windows2 timestamps),
     st_min_ts = iter_min ts_less timestamps, st_max_ts = iter_max ts_less timestamps,
     st_min_value = iter_min (<) present_values, st_max_value = iter_max (<) present_values\<rparr>"

definition from_columns :: "i64 list \<Rightarrow> 'v::ord list \<Rightarrow> 'v segment_stats" where
  "from_columns timestamps values = from_columns_nullable timestamps values 0"

definition stats_is_all_null :: "'v segment_stats \<Rightarrow> bool" where
  "stats_is_all_null st \<longleftrightarrow> 0 < st_row_count st \<and> st_null_count st = st_row_count st"

subsection \<open>The segment and its builders\<close>

text \<open>\<open>values.iter().flatten()\<close>.\<close>

fun flatten_present :: "'v option list \<Rightarrow> 'v list" where
  "flatten_present [] = []"
| "flatten_present (None # vs) = flatten_present vs"
| "flatten_present (Some v # vs) = v # flatten_present vs"

definition segment_format_version :: u16 where "segment_format_version = 5"

record ('c, 'v) segment =
  sg_version :: u16
  sg_values :: 'c
  sg_timestamps :: delta_of_delta_column
  sg_nulls :: null_mask
  sg_stats :: "'v segment_stats"

definition build ::
  "('v::ord list \<Rightarrow> 'c) \<Rightarrow> i64 list \<Rightarrow> 'v list \<Rightarrow> time_unit \<Rightarrow> segment_error + ('c, 'v) segment" where
  "build enc timestamps values unit =
    (if length timestamps \<noteq> length values then Inl (LengthMismatch (length timestamps) (length values))
     else Inr \<lparr>sg_version = segment_format_version, sg_values = enc values,
               sg_timestamps = encode_delta_of_delta timestamps unit,
               sg_nulls = all_present (length values), sg_stats = from_columns timestamps values\<rparr>)"

definition build_nullable ::
  "('v::ord list \<Rightarrow> 'c) \<Rightarrow> i64 list \<Rightarrow> 'v option list \<Rightarrow> time_unit \<Rightarrow> segment_error + ('c, 'v) segment" where
  "build_nullable enc timestamps values unit =
    (if length timestamps \<noteq> length values then Inl (LengthMismatch (length timestamps) (length values))
     else let nulls = from_presence (map (\<lambda>v. v \<noteq> None) values);
              present_values = flatten_present values
          in Inr \<lparr>sg_version = segment_format_version, sg_values = enc present_values,
                  sg_timestamps = encode_delta_of_delta timestamps unit, sg_nulls = nulls,
                  sg_stats = from_columns_nullable timestamps present_values (nm_null_count nulls)\<rparr>)"

definition check_order :: "i64 list \<Rightarrow> nat \<Rightarrow> segment_error + unit" where
  "check_order timestamps values_len =
    (if length timestamps \<noteq> values_len then Inl (LengthMismatch (length timestamps) values_len)
     else case first_order_violation timestamps of
       Some (index, previous, current) \<Rightarrow> Inl (OutOfOrder index previous current)
     | None \<Rightarrow> Inr ())"

definition build_sorted ::
  "('v::ord list \<Rightarrow> 'c) \<Rightarrow> i64 list \<Rightarrow> 'v list \<Rightarrow> time_unit \<Rightarrow> segment_error + ('c, 'v) segment" where
  "build_sorted enc timestamps values unit =
    (case check_order timestamps (length values) of Inl e \<Rightarrow> Inl e | Inr _ \<Rightarrow> build enc timestamps values unit)"

definition build_nullable_sorted ::
  "('v::ord list \<Rightarrow> 'c) \<Rightarrow> i64 list \<Rightarrow> 'v option list \<Rightarrow> time_unit \<Rightarrow> segment_error + ('c, 'v) segment" where
  "build_nullable_sorted enc timestamps values unit =
    (case check_order timestamps (length values) of
       Inl e \<Rightarrow> Inl e | Inr _ \<Rightarrow> build_nullable enc timestamps values unit)"

subsection \<open>Reading it\<close>

definition segment_row_count :: "('c, 'v) segment \<Rightarrow> nat" where
  "segment_row_count s = st_row_count (sg_stats s)"

definition is_time_sorted :: "('c, 'v) segment \<Rightarrow> bool" where
  "is_time_sorted s = st_time_sorted (sg_stats s)"

definition is_all_null :: "('c, 'v) segment \<Rightarrow> bool" where
  "is_all_null s = stats_is_all_null (sg_stats s)"

definition segment_present_count :: "('c, 'v) segment \<Rightarrow> nat" where
  "segment_present_count s = st_row_count (sg_stats s) - st_null_count (sg_stats s)"

definition decode_timestamps :: "('c, 'v) segment \<Rightarrow> i64 list" where
  "decode_timestamps s =
    (if st_row_count (sg_stats s) = 0 then [] else decode_delta_of_delta (sg_timestamps s))"

text \<open>The loop of \<open>decode_nullable\<close>: rows from \<open>row\<close>, with the cursor into the present values.\<close>

function nullable_loop :: "null_mask \<Rightarrow> 'v list \<Rightarrow> nat \<Rightarrow> nat \<Rightarrow> nat \<Rightarrow> 'v option list" where
  "nullable_loop nulls present row_count row cursor =
    (if row_count \<le> row then []
     else if is_present nulls row
     then (if cursor < length present then Some (present ! cursor) else None)
          # nullable_loop nulls present row_count (row + 1) (cursor + 1)
     else None # nullable_loop nulls present row_count (row + 1) cursor)"
  by pat_completeness auto
termination by (relation "measure (\<lambda>(nulls, present, n, row, cursor). n - row)") auto

declare nullable_loop.simps [simp del]

definition decode_nullable :: "('c \<Rightarrow> 'v list) \<Rightarrow> ('c, 'v) segment \<Rightarrow> i64 list \<times> 'v option list" where
  "decode_nullable dec s =
    (decode_timestamps s,
     nullable_loop (sg_nulls s) (dec (sg_values s)) (st_row_count (sg_stats s)) 0 0)"

subsection \<open>Data skipping and lookup\<close>

fun span_of :: "'a option \<Rightarrow> 'a option \<Rightarrow> ('a \<times> 'a) option" where
  "span_of (Some lo) (Some hi) = Some (lo, hi)"
| "span_of _ _ = None"

definition time_range :: "('c, 'v) segment \<Rightarrow> (i64 \<times> i64) option" where
  "time_range s = span_of (st_min_ts (sg_stats s)) (st_max_ts (sg_stats s))"

definition value_range :: "('c, 'v) segment \<Rightarrow> ('v \<times> 'v) option" where
  "value_range s = span_of (st_min_value (sg_stats s)) (st_max_value (sg_stats s))"

definition span_overlaps :: "(i64 \<times> i64) option \<Rightarrow> i64 \<Rightarrow> i64 \<Rightarrow> bool" where
  "span_overlaps span from_ts to_ts =
    (case span of Some (lo, hi) \<Rightarrow> sint lo \<le> sint to_ts \<and> sint from_ts \<le> sint hi | None \<Rightarrow> False)"

definition overlaps_time :: "('c, 'v) segment \<Rightarrow> i64 \<Rightarrow> i64 \<Rightarrow> bool" where
  "overlaps_time s from_ts to_ts = span_overlaps (time_range s) from_ts to_ts"

definition contains_timestamp :: "('c, 'v) segment \<Rightarrow> i64 \<Rightarrow> bool" where
  "contains_timestamp s t = overlaps_time s t t"

definition may_contain_value :: "('c, 'v::ord) segment \<Rightarrow> 'v \<Rightarrow> 'v \<Rightarrow> bool" where
  "may_contain_value s lo hi =
    (case value_range s of Some (mn, mx) \<Rightarrow> mn \<le> hi \<and> lo \<le> mx | None \<Rightarrow> False)"

definition present_count_in_range :: "('c, 'v) segment \<Rightarrow> i64 \<Rightarrow> i64 \<Rightarrow> nat" where
  "present_count_in_range s from_ts to_ts =
    (if \<not> overlaps_time s from_ts to_ts then 0
     else length (filter (\<lambda>(row, ts). sint from_ts \<le> sint ts \<and> sint ts \<le> sint to_ts \<and> is_present (sg_nulls s) row)
            (enumerate 0 (decode_timestamps s))))"

text \<open>The \<open>while\<close> loop over the run of equal timestamps, and the linear scan.\<close>

function lookup_run :: "i64 list \<Rightarrow> 'v option list \<Rightarrow> i64 \<Rightarrow> nat \<Rightarrow> 'v option" where
  "lookup_run timestamps values t row =
    (if row < length timestamps \<and> timestamps ! row = t
     then case values ! row of Some v \<Rightarrow> Some v | None \<Rightarrow> lookup_run timestamps values t (row + 1)
     else None)"
  by pat_completeness auto
termination by (relation "measure (\<lambda>(ts, vs, t, row). length ts - row)") auto

declare lookup_run.simps [simp del]

fun find_map :: "('a \<Rightarrow> 'b option) \<Rightarrow> 'a list \<Rightarrow> 'b option" where
  "find_map f [] = None"
| "find_map f (x # xs) = (case f x of Some y \<Rightarrow> Some y | None \<Rightarrow> find_map f xs)"

definition point_lookup :: "i64 list \<Rightarrow> 'v option list \<Rightarrow> bool \<Rightarrow> i64 \<Rightarrow> 'v option" where
  "point_lookup timestamps values is_sorted t =
    (if is_sorted
     then lookup_run timestamps values t (partition_point (\<lambda>x. sint x < sint t) timestamps)
     else find_map (\<lambda>(ts, v). if ts = t then v else None) (zip timestamps values))"

definition value_at :: "('c \<Rightarrow> 'v list) \<Rightarrow> ('c, 'v) segment \<Rightarrow> i64 \<Rightarrow> 'v option" where
  "value_at dec s t =
    (if \<not> contains_timestamp s t then None
     else let (timestamps, values) = decode_nullable dec s
          in point_lookup timestamps values (is_time_sorted s) t)"

definition prune_by_time :: "('c, 'v) segment list \<Rightarrow> i64 \<Rightarrow> i64 \<Rightarrow> nat list" where
  "prune_by_time segments from_ts to_ts =
    map fst (filter (\<lambda>(i, s). overlaps_time s from_ts to_ts) (enumerate 0 segments))"

definition prune_by_value :: "('c, 'v::ord) segment list \<Rightarrow> 'v \<Rightarrow> 'v \<Rightarrow> nat list" where
  "prune_by_value segments lo hi =
    map fst (filter (\<lambda>(i, s). may_contain_value s lo hi) (enumerate 0 segments))"

definition prune_present_by_time :: "('c, 'v) segment list \<Rightarrow> i64 \<Rightarrow> i64 \<Rightarrow> nat list" where
  "prune_present_by_time segments from_ts to_ts =
    map fst (filter (\<lambda>(i, s). 0 < present_count_in_range s from_ts to_ts) (enumerate 0 segments))"

subsection \<open>The statistics bound the columns\<close>

text \<open>An ordering that compares a key, as both columns of a segment are ordered.\<close>

locale key_order =
  fixes lt :: "'a \<Rightarrow> 'a \<Rightarrow> bool"
    and key :: "'a \<Rightarrow> 'k::linorder"
  assumes lt_key: "lt a b \<longleftrightarrow> key a < key b"
begin

lemma foldl_min:
  "foldl (\<lambda>acc y. if lt y acc then y else acc) x xs \<in> insert x (set xs) \<and>
   (\<forall>y\<in>insert x (set xs). key (foldl (\<lambda>acc y. if lt y acc then y else acc) x xs) \<le> key y)"
proof (induction xs arbitrary: x)
  case (Cons z zs)
  from Cons [of "if lt z x then z else x"] show ?case by (auto simp: lt_key split: if_splits)
qed simp

lemma foldl_max:
  "foldl (\<lambda>acc y. if lt y acc then acc else y) x xs \<in> insert x (set xs) \<and>
   (\<forall>y\<in>insert x (set xs). key y \<le> key (foldl (\<lambda>acc y. if lt y acc then acc else y) x xs))"
proof (induction xs arbitrary: x)
  case (Cons z zs)
  from Cons [of "if lt z x then x else z"] show ?case by (auto simp: lt_key split: if_splits)
qed simp

lemma iter_min_bound: "iter_min lt xs = Some m \<Longrightarrow> m \<in> set xs \<and> (\<forall>x\<in>set xs. key m \<le> key x)"
  using foldl_min by (cases xs) auto

lemma iter_max_bound: "iter_max lt xs = Some m \<Longrightarrow> m \<in> set xs \<and> (\<forall>x\<in>set xs. key x \<le> key m)"
  using foldl_max by (cases xs) auto

lemma iter_min_None: "iter_min lt xs = None \<longleftrightarrow> xs = []"
  by (cases xs) simp_all

lemma iter_max_None: "iter_max lt xs = None \<longleftrightarrow> xs = []"
  by (cases xs) simp_all

lemma span_bound: "span_of (iter_min lt xs) (iter_max lt xs) = Some (lo, hi) \<Longrightarrow>
    lo \<in> set xs \<and> hi \<in> set xs \<and> (\<forall>x\<in>set xs. key lo \<le> key x \<and> key x \<le> key hi)"
  by (cases "iter_min lt xs"; cases "iter_max lt xs") (auto dest: iter_min_bound iter_max_bound)

lemma span_None: "span_of (iter_min lt xs) (iter_max lt xs) = None \<longleftrightarrow> xs = []"
  by (cases xs) simp_all

end

interpretation ts_order: key_order ts_less sint
  by unfold_locales (simp add: ts_less_def)

interpretation value_order: key_order "(<) :: 'v::linorder \<Rightarrow> 'v \<Rightarrow> bool" "\<lambda>v. v"
  by unfold_locales simp

text \<open>What every builder establishes: the statistics are those of the rows.\<close>

lemma stats_time_sorted: "list_all (\<lambda>w. sint (fst w) \<le> sint (snd w)) (windows2 ts) \<longleftrightarrow> time_sorted ts"
proof -
  have "list_all (\<lambda>w. sint (fst w) \<le> sint (snd w)) (windows2 ts) \<longleftrightarrow> first_order_violation ts = None"
    by (simp add: first_order_violation_def position_None list_all_iff not_less)
  then show ?thesis by (simp add: first_order_violation_None)
qed

lemma span_overlaps_covers:
  assumes "span = span_of (iter_min ts_less ts) (iter_max ts_less ts)"
    and "t \<in> set ts" "sint a \<le> sint t" "sint t \<le> sint b"
  shows "span_overlaps span a b"
proof (cases span)
  case None
  then show ?thesis using assms(1,2) ts_order.span_None [of ts] by simp
next
  case (Some p)
  then obtain lo hi where p: "span = Some (lo, hi)" by (cases p) auto
  then have "sint lo \<le> sint t" "sint t \<le> sint hi"
    using ts_order.span_bound [of ts lo hi] assms(1,2) by auto
  with assms(3,4) p show ?thesis by (simp add: span_overlaps_def)
qed

subsection \<open>The null interleave\<close>

lemma nullable_loop_eq:
  assumes "row \<le> n" "n = length vs" "\<And>i. row \<le> i \<Longrightarrow> i < n \<Longrightarrow> is_present nulls i \<longleftrightarrow> vs ! i \<noteq> None"
    and "drop cursor present = flatten_present (drop row vs)" "cursor \<le> length present"
  shows "nullable_loop nulls present n row cursor = drop row vs"
  using assms
proof (induction nulls present n row cursor rule: nullable_loop.induct)
  case (1 nulls present n row cursor)
  show ?case
  proof (cases "row < n")
    case False
    then show ?thesis using "1.prems" by (subst nullable_loop.simps) simp
  next
    case True
    then have d: "drop row vs = vs ! row # drop (Suc row) vs"
      using "1.prems"(2) by (simp add: Cons_nth_drop_Suc)
    show ?thesis
    proof (cases "vs ! row")
      case None
      then have "\<not> is_present nulls row" using "1.prems"(3) [of row] True by simp
      moreover from this have "nullable_loop nulls present n (row + 1) cursor = drop (row + 1) vs"
        using True "1.prems" d None by (intro "1.IH") auto
      ultimately show ?thesis using True d None by (subst nullable_loop.simps) simp
    next
      case (Some v)
      then have p: "is_present nulls row" using "1.prems"(3) [of row] True by simp
      have pv: "drop cursor present = v # flatten_present (drop (Suc row) vs)"
        using "1.prems"(4) d Some by simp
      then have c: "cursor < length present" by (metis drop_all list.distinct(1) not_less)
      with pv have "present ! cursor = v" "drop (Suc cursor) present = flatten_present (drop (Suc row) vs)"
        by (simp_all add: Cons_nth_drop_Suc [symmetric])
      moreover from this have "nullable_loop nulls present n (row + 1) (cursor + 1) = drop (row + 1) vs"
        using True "1.prems" p c by (intro "1.IH") auto
      ultimately show ?thesis using True d Some p c by (subst nullable_loop.simps) simp
    qed
  qed
qed

lemma nullable_loop_round_trip:
  "nullable_loop (from_presence (map (\<lambda>v. v \<noteq> None) vs)) (flatten_present vs) (length vs) 0 0 = vs"
  using nullable_loop_eq [of 0 "length vs" vs "from_presence (map (\<lambda>v. v \<noteq> None) vs)" 0 "flatten_present vs"]
  by (simp add: is_present_from_presence)

lemma decode_timestamps_build:
  "st_row_count (sg_stats s) = length ts \<Longrightarrow> sg_timestamps s = encode_delta_of_delta ts unit \<Longrightarrow>
   decode_timestamps s = ts"
  by (cases "ts = []") (auto simp: decode_timestamps_def decode_encode_delta_of_delta)

lemma build_nullable_fields:
  assumes "build_nullable enc ts vs unit = Inr s"
  shows "length ts = length vs" "sg_values s = enc (flatten_present vs)"
    "sg_timestamps s = encode_delta_of_delta ts unit"
    "sg_nulls s = from_presence (map (\<lambda>v. v \<noteq> None) vs)"
    "sg_stats s = from_columns_nullable ts (flatten_present vs) (nm_null_count (sg_nulls s))"
  using assms by (auto simp: build_nullable_def Let_def simp del: not_None_eq split: if_splits)

lemma stats_fields:
  "st_row_count (from_columns_nullable ts pv k) = length ts"
  "st_null_count (from_columns_nullable ts pv k) = k"
  "st_time_sorted (from_columns_nullable ts pv k) \<longleftrightarrow> time_sorted ts"
  "st_min_ts (from_columns_nullable ts pv k) = iter_min ts_less ts"
  "st_max_ts (from_columns_nullable ts pv k) = iter_max ts_less ts"
  "st_min_value (from_columns_nullable ts pv k) = iter_min (<) pv"
  "st_max_value (from_columns_nullable ts pv k) = iter_max (<) pv"
  by (simp_all add: from_columns_nullable_def stats_time_sorted)

lemma decode_timestamps_build_nullable:
  assumes "build_nullable enc ts vs unit = Inr s"
  shows "decode_timestamps s = ts"
  using build_nullable_fields [OF assms] by (intro decode_timestamps_build) (simp_all add: stats_fields)

lemma build_nullable_round_trip:
  assumes "build_nullable enc ts vs unit = Inr s"
    and "dec (enc (flatten_present vs)) = flatten_present vs"
  shows "decode_nullable dec s = (ts, vs)"
  using build_nullable_fields [OF assms(1)] assms(2)
  by (simp add: decode_nullable_def decode_timestamps_build_nullable [OF assms(1)] stats_fields
      nullable_loop_round_trip del: not_None_eq)

subsection \<open>The point lookup\<close>

text \<open>The first present value at \<open>t\<close>, in row order.\<close>

definition first_present :: "i64 list \<Rightarrow> 'v option list \<Rightarrow> i64 \<Rightarrow> 'v option" where
  "first_present ts vs t = find_map (\<lambda>(x, v). if x = t then v else None) (zip ts vs)"

lemma find_map_skip: "\<forall>x\<in>set xs. f x = None \<Longrightarrow> find_map f (xs @ ys) = find_map f ys"
  by (induction xs) auto

lemma find_map_None: "\<forall>x\<in>set xs. f x = None \<Longrightarrow> find_map f xs = None"
  using find_map_skip [of xs f "[]"] by simp

lemma lookup_run_eq:
  assumes "time_sorted ts" "length vs = length ts" "row \<le> length ts" "\<forall>i. row \<le> i \<longrightarrow> i < length ts \<longrightarrow> sint t \<le> sint (ts ! i)"
  shows "lookup_run ts vs t row = find_map (\<lambda>(x, v). if x = t then v else None) (zip (drop row ts) (drop row vs))"
  using assms
proof (induction ts vs t row rule: lookup_run.induct)
  case (1 ts vs t row)
  show ?case
  proof (cases "row < length ts")
    case False
    then show ?thesis by (subst lookup_run.simps) simp
  next
    case True
    then have d: "drop row ts = ts ! row # drop (Suc row) ts" "drop row vs = vs ! row # drop (Suc row) vs"
      using "1.prems"(2) by (simp_all add: Cons_nth_drop_Suc)
    show ?thesis
    proof (cases "ts ! row = t")
      case eq: True
      show ?thesis
      proof (cases "vs ! row")
        case None
        then have "lookup_run ts vs t (row + 1) = find_map (\<lambda>(x, v). if x = t then v else None) (zip (drop (row + 1) ts) (drop (row + 1) vs))"
          using True eq "1.prems" by (intro "1.IH") auto
        then show ?thesis using True eq None d by (subst lookup_run.simps) simp
      next
        case (Some v)
        then show ?thesis using True eq d by (subst lookup_run.simps) simp
      qed
    next
      case False
      then have above: "sint t < sint (ts ! row)" using "1.prems"(4) True sint_injD [of t "ts ! row"] by force
      have "\<forall>x\<in>set (drop row ts). x \<noteq> t"
      proof
        fix x assume "x \<in> set (drop row ts)"
        then obtain j where j: "j < length ts - row" "drop row ts ! j = x" by (auto simp: in_set_conv_nth)
        then have "sint (ts ! row) \<le> sint x"
          using time_sorted_nth_mono [OF "1.prems"(1), of row "row + j"] by auto
        with above show "x \<noteq> t" by auto
      qed
      then have "\<forall>p\<in>set (zip (drop row ts) (drop row vs)). (case p of (x, v) \<Rightarrow> if x = t then v else None) = None"
        by (auto dest: set_zip_leftD)
      then show ?thesis using False True by (subst lookup_run.simps) (simp add: find_map_None)
    qed
  qed
qed

lemma point_lookup_first_present:
  assumes "length vs = length ts" "is_sorted \<Longrightarrow> time_sorted ts"
  shows "point_lookup ts vs is_sorted t = first_present ts vs t"
proof (cases is_sorted)
  case True
  let ?k = "split_index ts t"
  note ts = assms(2) [OF True] and k = split_index_spec [OF assms(2) [OF True]]
  have "lookup_run ts vs t ?k = find_map (\<lambda>(x, v). if x = t then v else None) (zip (drop ?k ts) (drop ?k vs))"
    using k by (intro lookup_run_eq [OF ts assms(1)]) (auto simp: not_less [symmetric])
  also have "\<dots> = find_map (\<lambda>(x, v). if x = t then v else None)
      (zip (take ?k ts) (take ?k vs) @ zip (drop ?k ts) (drop ?k vs))"
  proof (rule find_map_skip [symmetric], clarify)
    fix x v assume "(x, v) \<in> set (zip (take ?k ts) (take ?k vs))"
    then obtain i where "i < ?k" "i < length ts" "x = ts ! i"
      by (auto dest!: set_zip_leftD simp: in_set_conv_nth)
    then show "(if x = t then v else None) = None" using k(2) by force
  qed
  also have "zip (take ?k ts) (take ?k vs) @ zip (drop ?k ts) (drop ?k vs) = zip ts vs"
    by (metis append_take_drop_id assms(1) length_take zip_append)
  finally show ?thesis by (simp add: True point_lookup_def first_present_def split_index_def)
qed (simp add: point_lookup_def first_present_def)

text \<open>The lookup of a built segment: the statistics reject no timestamp that is present.\<close>

lemma contains_timestamp_build_nullable:
  assumes "build_nullable enc ts vs unit = Inr s" "t \<in> set ts" "sint a \<le> sint t" "sint t \<le> sint b"
  shows "overlaps_time s a b"
  unfolding overlaps_time_def
  by (rule span_overlaps_covers [OF _ assms(2-4)])
     (simp add: time_range_def build_nullable_fields(5) [OF assms(1)] stats_fields)

lemma first_present_absent: "t \<notin> set ts \<Longrightarrow> first_present ts vs t = None"
  unfolding first_present_def by (rule find_map_None) (auto dest: set_zip_leftD)

lemma value_at_build_nullable:
  assumes "build_nullable enc ts vs unit = Inr s"
    and "dec (enc (flatten_present vs)) = flatten_present vs"
  shows "value_at dec s t = first_present ts vs t"
proof (cases "contains_timestamp s t")
  case False
  then have "t \<notin> set ts"
    using contains_timestamp_build_nullable [OF assms(1), of t t t] by (auto simp: contains_timestamp_def)
  with False show ?thesis by (simp add: value_at_def first_present_absent)
next
  case True
  then show ?thesis
    using build_nullable_fields [OF assms(1)]
    by (simp add: value_at_def build_nullable_round_trip [where dec = dec, OF assms] is_time_sorted_def stats_fields
        point_lookup_first_present)
qed

subsection \<open>Properties\<close>

subsection \<open>Further facts\<close>

text \<open>
  A segment built from a timestamp column and a value column with gaps decodes to the same two
  columns, with the nulls where they were, whenever the value codec reproduces the present values.
\<close>

lemma nullable_segment_round_trip:
  assumes "length ts = length vs" "dec (enc (flatten_present vs)) = flatten_present vs"
  shows "\<exists>s. build_nullable enc ts vs unit = Inr s \<and> decode_nullable dec s = (ts, vs)"
proof -
  obtain s where s: "build_nullable enc ts vs unit = Inr s"
    using assms(1) by (simp add: build_nullable_def Let_def)
  with build_nullable_round_trip [where dec = dec, OF s assms(2)] show ?thesis by blast
qed

lemma nullable_segment_round_trip_witness:
  "\<exists>s. build_nullable (\<lambda>vs. vs) [10, 20, 20, 5] [Some (3 :: int), None, Some 4, None] Millis = Inr s \<and>
    decode_nullable (\<lambda>vs. vs) s = ([10, 20, 20, 5], [Some 3, None, Some 4, None])"
  by (rule nullable_segment_round_trip) simp_all

text \<open>
  On time-ordered columns the binary-search branch of the point lookup and the linear scan give
  the same answer for every timestamp.
\<close>

lemma sorted_lookup_agrees_with_scan:
  assumes "time_sorted ts" "length vs = length ts"
  shows "point_lookup ts vs True t = point_lookup ts vs False t"
  using assms by (simp add: point_lookup_first_present)

lemma sorted_lookup_agrees_with_scan_witness:
  "point_lookup [1, 2, 2, 9] [Some ''a'', None, Some ''b'', None] True 2 =
    point_lookup [1, 2, 2, 9] [Some ''a'', None, Some ''b'', None] False 2"
  by (rule sorted_lookup_agrees_with_scan) simp_all

text \<open>
  The order-enforcing builder checks the heights first, then refuses a column that steps backwards
  at its first backwards row, naming that row with its timestamp and the one before, and otherwise
  builds what the permissive builder builds.
\<close>

lemma order_gate_exact:
  shows "build_nullable_sorted enc ts vs unit =
    (if length ts \<noteq> length vs then Inl (LengthMismatch (length ts) (length vs))
     else if time_sorted ts then build_nullable enc ts vs unit
     else let i = (LEAST i. 0 < i \<and> i < length ts \<and> sint (ts ! i) < sint (ts ! (i - 1)))
          in Inl (OutOfOrder i (ts ! (i - 1)) (ts ! i)))"
proof (cases "first_order_violation ts")
  case None
  then show ?thesis
    by (simp add: build_nullable_sorted_def check_order_def first_order_violation_None [symmetric])
next
  case (Some v)
  then obtain i p c where v: "first_order_violation ts = Some (i, p, c)" by (cases v) auto
  note s = v [unfolded first_order_violation_Some]
  have "(LEAST i. 0 < i \<and> i < length ts \<and> sint (ts ! i) < sint (ts ! (i - 1))) = i"
  proof (rule Least_equality)
    fix j assume j: "0 < j \<and> j < length ts \<and> sint (ts ! j) < sint (ts ! (j - 1))"
    show "i \<le> j"
    proof (rule ccontr)
      assume "\<not> i \<le> j"
      then have "sint (take i ts ! (j - 1)) \<le> sint (take i ts ! j)"
        using s j by (intro time_sorted_nth_mono) auto
      then show False using j \<open>\<not> i \<le> j\<close> by simp
    qed
  qed (use s in auto)
  moreover have "\<not> time_sorted ts" using v first_order_violation_None [of ts] by auto
  ultimately show ?thesis using v s
    by (cases "length ts = length vs") (auto simp: build_nullable_sorted_def check_order_def Let_def)
qed

end
