(* ===== verification/Decimals.thy ===== *)
theory Decimals imports Complex_Main Byte_Io "HOL-Library.Signed_Division" begin

text \<open>
  The physical numeric encodings of \<^verbatim>\<open>weft-physical-type/src/lib.rs\<close>: the declared types, one value
  encoded in one of them with its exactness, and the bound on the plain form of a decimal.

  \<open>BigDecimal\<close> is a third-party type: its values are a type parameter \<open>'d\<close> whose comparison is the
  class operation, its functions are the fields of \<open>decimal_ops\<close>, an argument of every definition
  that calls one, and what the code relies on of them is the predicate \<open>decimal_laws\<close>. A \<open>BigInt\<close> is
  an \<open>int\<close> and a float is its bit pattern.
\<close>

unbundle bit_operations_syntax

subsection \<open>The decimal library\<close>

record 'd decimal_ops =
  d_new :: "int \<Rightarrow> i64 \<Rightarrow> 'd"
  d_parts :: "'d \<Rightarrow> int \<times> i64"
  d_sub :: "'d \<Rightarrow> 'd \<Rightarrow> 'd"
  d_mul :: "'d \<Rightarrow> 'd \<Rightarrow> 'd"
  d_abs :: "'d \<Rightarrow> 'd"
  d_normalized :: "'d \<Rightarrow> 'd"
  d_round0 :: "'d \<Rightarrow> 'd"
  d_to_i64 :: "'d \<Rightarrow> i64 option"
  d_to_i128 :: "'d \<Rightarrow> i128 option"
  d_to_f64 :: "'d \<Rightarrow> u64 option"
  d_to_f32 :: "'d \<Rightarrow> u32 option"
  d_from_f64 :: "u64 \<Rightarrow> 'd option"
  d_from_f32 :: "u32 \<Rightarrow> 'd option"
  d_to_plain :: "'d \<Rightarrow> u8 list"
  d_parse :: "u8 list \<Rightarrow> 'd option"

text \<open>\<open>BigDecimal::from(0)\<close>, which is also its default.\<close>

definition d_zero :: "'d decimal_ops \<Rightarrow> 'd" where
  "d_zero D = d_new D 0 0"

subsection \<open>The declared types\<close>

datatype physical_type =
    F64 | F32 | ScaledI64 u8 | ScaledI128 u8 | Decimal128 | BigDecimalText

datatype physical_value =
    VF64 u64 | VF32 u32 | VScaledI64 i64 u8 | VScaledI128 i128 u8 | VDecimal128 i128 i64 | VText "u8 list"

datatype 'd exactness = Exact | Lossy 'd

fun is_exactness_exact :: "'d exactness \<Rightarrow> bool" where
  "is_exactness_exact Exact = True"
| "is_exactness_exact (Lossy e) = False"

fun abs_error :: "'d decimal_ops \<Rightarrow> 'd exactness \<Rightarrow> 'd" where
  "abs_error D Exact = d_zero D"
| "abs_error D (Lossy e) = e"

record 'd encoded =
  en_value :: physical_value
  en_exactness :: "'d exactness"

datatype encode_error = Overflow | NotFinite | PlainFormTooLong nat

fun physical_type_name :: "physical_type \<Rightarrow> string" where
  "physical_type_name F64 = ''f64''"
| "physical_type_name F32 = ''f32''"
| "physical_type_name (ScaledI64 _) = ''scaled_i64''"
| "physical_type_name (ScaledI128 _) = ''scaled_i128''"
| "physical_type_name Decimal128 = ''decimal128''"
| "physical_type_name BigDecimalText = ''bigdecimal_text''"

fun physical_type_scale :: "physical_type \<Rightarrow> u8 option" where
  "physical_type_scale (ScaledI64 scale) = Some scale"
| "physical_type_scale (ScaledI128 scale) = Some scale"
| "physical_type_scale _ = None"

record physical_profile =
  pp_name :: string
  pp_fixed_width_bytes :: "nat option"
  pp_always_lossless :: bool
  pp_hot_path_eligible :: bool

fun fixed_width_bytes :: "physical_type \<Rightarrow> nat option" where
  "fixed_width_bytes F32 = Some 4"
| "fixed_width_bytes F64 = Some 8"
| "fixed_width_bytes (ScaledI64 _) = Some 8"
| "fixed_width_bytes (ScaledI128 _) = Some 16"
| "fixed_width_bytes Decimal128 = Some 24"
| "fixed_width_bytes BigDecimalText = None"

definition profile :: "physical_type \<Rightarrow> physical_profile" where
  "profile pt = \<lparr>pp_name = physical_type_name pt, pp_fixed_width_bytes = fixed_width_bytes pt,
    pp_always_lossless = (pt = BigDecimalText), pp_hot_path_eligible = (fixed_width_bytes pt \<noteq> None)\<rparr>"

subsection \<open>The decimal domain\<close>

definition max_plain_digits :: nat where "max_plain_digits = 1024"

text \<open>The digits of \<open>BigInt::to_string\<close>, its sign left aside.\<close>

fun dec_digits :: "nat \<Rightarrow> nat" where
  "dec_digits n = (if n < 10 then 1 else Suc (dec_digits (n div 10)))"

declare dec_digits.simps [simp del]

definition plain_digit_count :: "'d decimal_ops \<Rightarrow> 'd \<Rightarrow> nat" where
  "plain_digit_count D value =
    (let (bigint, scale) = d_parts D value;
         mantissa_digits = dec_digits (nat \<bar>bigint\<bar>);
         count = (if 0 \<le> sint scale
                  then if nat (sint scale) < mantissa_digits then mantissa_digits else nat (sint scale) + 1
                  else mantissa_digits + nat (- sint scale))
     in min count (2 ^ 64 - 1))"

definition check_decimal_domain :: "'d decimal_ops \<Rightarrow> 'd \<Rightarrow> nat + unit" where
  "check_decimal_domain D value =
    (let digits = plain_digit_count D value in if max_plain_digits < digits then Inl digits else Inr ())"

datatype parse_decimal_error = ParseInvalid | ParseOutOfRange nat

definition parse_decimal :: "'d decimal_ops \<Rightarrow> u8 list \<Rightarrow> parse_decimal_error + 'd" where
  "parse_decimal D text =
    (case d_parse D text of None \<Rightarrow> Inl ParseInvalid | Some value \<Rightarrow>
     case check_decimal_domain D value of Inl digits \<Rightarrow> Inl (ParseOutOfRange digits) | Inr _ \<Rightarrow> Inr value)"

subsection \<open>Encoding one value\<close>

text \<open>\<open>is_finite\<close>: the exponent field is not all ones.\<close>

definition f64_is_finite :: "u64 \<Rightarrow> bool" where
  "f64_is_finite f \<longleftrightarrow> drop_bit 52 f AND 0x7FF \<noteq> 0x7FF"

definition f32_is_finite :: "u32 \<Rightarrow> bool" where
  "f32_is_finite f \<longleftrightarrow> drop_bit 23 f AND 0xFF \<noteq> 0xFF"

definition pow10_decimal :: "'d decimal_ops \<Rightarrow> u8 \<Rightarrow> 'd" where
  "pow10_decimal D n = d_new D (((\<lambda>acc. acc * 10) ^^ unat n) 1) 0"

text \<open>\<open>BigInt\<close> division truncates towards zero.\<close>

definition round_div_10 :: "int \<Rightarrow> int" where
  "round_div_10 n = (n + (if n < 0 then - 5 else 5)) sdiv 10"

definition to_i128 :: "int \<Rightarrow> i128 option" where
  "to_i128 m = (if - (2 ^ 127) \<le> m \<and> m < 2 ^ 127 then Some (word_of_int m) else None)"

lemma round_div_10_abs: "\<bar>round_div_10 n\<bar> = (\<bar>n\<bar> + 5) div 10"
  by (auto simp: round_div_10_def signed_divide_int_def sgn_if abs_if)

function fit_i128 :: "int \<Rightarrow> i64 \<Rightarrow> i128 \<times> i64" where
  "fit_i128 mantissa scale =
    (case to_i128 mantissa of
       Some m \<Rightarrow> (m, scale)
     | None \<Rightarrow> fit_i128 (round_div_10 mantissa) (scale - 1))"
  by pat_completeness auto
termination
proof (relation "measure (\<lambda>(m, s). nat \<bar>m\<bar>)", goal_cases)
  case (2 mantissa scale)
  then have "1 < \<bar>mantissa\<bar>" by (auto simp: to_i128_def split: if_splits)
  moreover have "(a + 5) div 10 < a" if "1 < a" for a :: int using that by presburger
  ultimately show ?case using round_div_10_abs [of mantissa] by auto
qed simp

declare fit_i128.simps [simp del]

definition exactness_of :: "'d decimal_ops \<Rightarrow> 'd \<Rightarrow> 'd \<Rightarrow> 'd exactness" where
  "exactness_of D original decoded =
    (let diff = d_sub D original decoded
     in if fst (d_parts D diff) = 0 then Exact else Lossy (d_normalized D (d_abs D diff)))"

fun to_logical :: "'d decimal_ops \<Rightarrow> physical_value \<Rightarrow> 'd" where
  "to_logical D (VF64 f) = (case d_from_f64 D f of Some d \<Rightarrow> d | None \<Rightarrow> d_zero D)"
| "to_logical D (VF32 f) = (case d_from_f32 D f of Some d \<Rightarrow> d | None \<Rightarrow> d_zero D)"
| "to_logical D (VScaledI64 mantissa scale) = d_new D (sint mantissa) (ucast scale)"
| "to_logical D (VScaledI128 mantissa scale) = d_new D (sint mantissa) (ucast scale)"
| "to_logical D (VDecimal128 mantissa scale) = d_new D (sint mantissa) scale"
| "to_logical D (VText s) = (case d_parse D s of Some d \<Rightarrow> d | None \<Rightarrow> d_zero D)"

definition measured :: "'d decimal_ops \<Rightarrow> 'd \<Rightarrow> physical_value \<Rightarrow> 'd encoded" where
  "measured D value pv = \<lparr>en_value = pv, en_exactness = exactness_of D value (to_logical D pv)\<rparr>"

definition encode_in :: "'d decimal_ops \<Rightarrow> physical_type \<Rightarrow> 'd \<Rightarrow> encode_error + 'd encoded" where
  "encode_in D pt value =
    (case pt of
       F64 \<Rightarrow> (case d_to_f64 D value of
           Some f \<Rightarrow> if f64_is_finite f then Inr (measured D value (VF64 f)) else Inl NotFinite
         | None \<Rightarrow> Inl NotFinite)
     | F32 \<Rightarrow> (case d_to_f32 D value of
           Some f \<Rightarrow> if f32_is_finite f then Inr (measured D value (VF32 f)) else Inl NotFinite
         | None \<Rightarrow> Inl NotFinite)
     | ScaledI64 scale \<Rightarrow> (case d_to_i64 D (d_round0 D (d_mul D value (pow10_decimal D scale))) of
           Some m \<Rightarrow> Inr (measured D value (VScaledI64 m scale))
         | None \<Rightarrow> Inl Overflow)
     | ScaledI128 scale \<Rightarrow> (case d_to_i128 D (d_round0 D (d_mul D value (pow10_decimal D scale))) of
           Some m \<Rightarrow> Inr (measured D value (VScaledI128 m scale))
         | None \<Rightarrow> Inl Overflow)
     | Decimal128 \<Rightarrow>
         let (bigint, scale) = d_parts D value; (m, s) = fit_i128 bigint scale
         in Inr (measured D value (VDecimal128 m s))
     | BigDecimalText \<Rightarrow> Inr \<lparr>en_value = VText (d_to_plain D value), en_exactness = Exact\<rparr>)"

definition encode :: "'d decimal_ops \<Rightarrow> physical_type \<Rightarrow> 'd \<Rightarrow> encode_error + 'd encoded" where
  "encode D pt value =
    (case check_decimal_domain D value of Inl digits \<Rightarrow> Inl (PlainFormTooLong digits) | Inr _ \<Rightarrow> encode_in D pt value)"

subsection \<open>What the code relies on of the decimal library\<close>

text \<open>\<open>val\<close> is the number a decimal stands for. The plain form is parsed back as the same digits: a
  decimal with a negative scale comes back with its zeros written out.\<close>

definition plain_parts :: "int \<times> i64 \<Rightarrow> int \<times> i64" where
  "plain_parts p = (let (m, s) = p in if 0 \<le> sint s then (m, s) else (m * 10 ^ nat (- sint s), 0))"

definition decimal_laws :: "'d::ord decimal_ops \<Rightarrow> ('d \<Rightarrow> rat) \<Rightarrow> bool" where
  "decimal_laws D val \<longleftrightarrow>
    (\<forall>m s. d_parts D (d_new D m s) = (m, s)) \<and>
    (\<forall>x m s. d_parts D x = (m, s) \<longrightarrow> val x = of_int m * 10 powi (- sint s)) \<and>
    (\<forall>x y. val (d_sub D x y) = val x - val y) \<and>
    (\<forall>x y n. d_parts D y = (n, 0) \<longrightarrow> val (d_mul D x y) = val x * of_int n) \<and>
    (\<forall>x. val (d_abs D x) = \<bar>val x\<bar>) \<and>
    (\<forall>x. val (d_normalized D x) = val x) \<and>
    (\<forall>x. \<exists>n. val (d_round0 D x) = of_int n \<and> \<bar>val x - of_int n\<bar> \<le> 1 / 2) \<and>
    (\<forall>x n. val x = of_int n \<longrightarrow>
       d_to_i64 D x = (if - (2 ^ 63) \<le> n \<and> n < 2 ^ 63 then Some (word_of_int n) else None)) \<and>
    (\<forall>x n. val x = of_int n \<longrightarrow> d_to_i128 D x = to_i128 n) \<and>
    (\<forall>x y. x < y \<longleftrightarrow> val x < val y) \<and> (\<forall>x y. x \<le> y \<longleftrightarrow> val x \<le> val y) \<and>
    (\<forall>x. plain_digit_count D x \<le> max_plain_digits \<longrightarrow>
       utf8_valid (d_to_plain D x) \<and> length (d_to_plain D x) \<le> plain_digit_count D x + 2 \<and>
       (\<exists>y. d_parse D (d_to_plain D x) = Some y \<and> d_parts D y = plain_parts (d_parts D x)))"

lemma decimal_lawsD:
  assumes "decimal_laws D val"
  shows "d_parts D (d_new D m s) = (m, s)"
    "d_parts D x = (m, s) \<Longrightarrow> val x = of_int m * 10 powi (- sint s)"
    "val (d_sub D x y) = val x - val y" "d_parts D y = (n, 0) \<Longrightarrow> val (d_mul D x y) = val x * of_int n"
    "val (d_abs D x) = \<bar>val x\<bar>" "val (d_normalized D x) = val x"
    "\<exists>n. val (d_round0 D x) = of_int n \<and> \<bar>val x - of_int n\<bar> \<le> 1 / 2"
    "val x = of_int n \<Longrightarrow> d_to_i64 D x = (if - (2 ^ 63) \<le> n \<and> n < 2 ^ 63 then Some (word_of_int n) else None)"
    "val x = of_int n \<Longrightarrow> d_to_i128 D x = to_i128 n"
    "x < y \<longleftrightarrow> val x < val y" "x \<le> y \<longleftrightarrow> val x \<le> val y"
    "plain_digit_count D x \<le> max_plain_digits \<Longrightarrow> utf8_valid (d_to_plain D x)"
    "plain_digit_count D x \<le> max_plain_digits \<Longrightarrow> length (d_to_plain D x) \<le> plain_digit_count D x + 2"
    "plain_digit_count D x \<le> max_plain_digits \<Longrightarrow>
       \<exists>y. d_parse D (d_to_plain D x) = Some y \<and> d_parts D y = plain_parts (d_parts D x)"
  using assms unfolding decimal_laws_def by - (elim conjE; (simp; fail | meson))+

lemma val_d_new:
  assumes "decimal_laws D val"
  shows "val (d_new D m s) = of_int m * 10 powi (- sint s)"
  by (rule decimal_lawsD(2) [OF assms decimal_lawsD(1) [OF assms]])

subsection \<open>Plain forms\<close>

lemma dec_digits_pos: "0 < dec_digits n"
  by (subst dec_digits.simps) simp

lemma dec_digits_bound: "n < 10 ^ dec_digits n"
proof (induction n rule: dec_digits.induct)
  case (1 n)
  then show ?case by (subst dec_digits.simps) (auto simp: less_mult_imp_div_less div_less_iff_less_mult mult.commute)
qed

lemma dec_digits_le: "n < 10 ^ k \<Longrightarrow> 0 < k \<Longrightarrow> dec_digits n \<le> k"
proof (induction n arbitrary: k rule: dec_digits.induct)
  case (1 n)
  show ?case
  proof (cases "n < 10")
    case True
    then show ?thesis using "1.prems"(2) by (subst dec_digits.simps) simp
  next
    case False
    have "k \<noteq> 1" using False "1.prems"(1) by auto
    then obtain j where k: "k = Suc j" "0 < j" using "1.prems"(2) by (cases k) auto
    then have "n div 10 < 10 ^ j" using "1.prems"(1) by (simp add: div_less_iff_less_mult mult.commute)
    then have "dec_digits (n div 10) \<le> j" using "1.IH" [OF False _ k(2)] by simp
    then show ?thesis using False k by (subst dec_digits.simps) simp
  qed
qed

lemma dec_digits_mult_pow: "dec_digits (n * 10 ^ k) \<le> dec_digits n + k"
proof (rule dec_digits_le)
  show "n * 10 ^ k < 10 ^ (dec_digits n + k)" using dec_digits_bound [of n] by (simp add: power_add)
qed (use dec_digits_pos in simp)

lemma plain_parts_val:
  assumes "decimal_laws D val" "d_parts D y = plain_parts (d_parts D x)"
  shows "val y = val x"
proof -
  obtain m s where p: "d_parts D x = (m, s)" by (cases "d_parts D x")
  have x: "val x = of_int m * 10 powi (- sint s)" by (rule decimal_lawsD(2) [OF assms(1) p])
  show ?thesis
  proof (cases "0 \<le> sint s")
    case True
    then show ?thesis using decimal_lawsD(2) [OF assms(1), of y m s] assms(2) p x by (simp add: plain_parts_def)
  next
    case False
    then have "d_parts D y = (m * 10 ^ nat (- sint s), 0)" using assms(2) p by (simp add: plain_parts_def)
    then have "val y = of_int m * 10 ^ nat (- sint s)" using decimal_lawsD(2) [OF assms(1)] by fastforce
    also have "(10 :: rat) ^ nat (- sint s) = 10 powi (- sint s)"
      using False by (simp add: power_int_def)
    finally show ?thesis using x by simp
  qed
qed

lemma plain_parts_digits:
  assumes "d_parts D y = plain_parts (d_parts D x)"
  shows "plain_digit_count D y \<le> plain_digit_count D x"
proof -
  obtain m s where p: "d_parts D x = (m, s)" by (cases "d_parts D x")
  show ?thesis
  proof (cases "0 \<le> sint s")
    case True
    then show ?thesis using assms p by (simp add: plain_digit_count_def plain_parts_def)
  next
    case False
    then have y: "d_parts D y = (m * 10 ^ nat (- sint s), 0)" using assms p by (simp add: plain_parts_def)
    have "nat \<bar>m * 10 ^ nat (- sint s)\<bar> = nat \<bar>m\<bar> * 10 ^ nat (- sint s)"
      by (simp add: abs_mult nat_mult_distrib nat_power_eq)
    then have "dec_digits (nat \<bar>m * 10 ^ nat (- sint s)\<bar>) \<le> dec_digits (nat \<bar>m\<bar>) + nat (- sint s)"
      by (simp add: dec_digits_mult_pow)
    then have le: "min (dec_digits (nat \<bar>m * 10 ^ nat (- sint s)\<bar>)) (2 ^ 64 - 1) \<le>
        min (dec_digits (nat \<bar>m\<bar>) + nat (- sint s)) (2 ^ 64 - 1)"
      by (rule min.mono) simp
    have "plain_digit_count D y = min (dec_digits (nat \<bar>m * 10 ^ nat (- sint s)\<bar>)) (2 ^ 64 - 1)"
      unfolding plain_digit_count_def y Let_def by (simp only: prod.case) (simp add: dec_digits_pos)
    moreover have "plain_digit_count D x = min (dec_digits (nat \<bar>m\<bar>) + nat (- sint s)) (2 ^ 64 - 1)"
      unfolding plain_digit_count_def p Let_def using False by (simp only: prod.case if_False)
    ultimately show ?thesis using le by (simp only:)
  qed
qed

text \<open>What a plain form in the domain reads back as.\<close>

lemma parse_plain:
  assumes "decimal_laws D val" "plain_digit_count D x \<le> max_plain_digits"
  obtains y where "d_parse D (d_to_plain D x) = Some y" "val y = val x"
    "plain_digit_count D y \<le> max_plain_digits" "parse_decimal D (d_to_plain D x) = Inr y"
proof -
  obtain y where y: "d_parse D (d_to_plain D x) = Some y" "d_parts D y = plain_parts (d_parts D x)"
    using decimal_lawsD(14) [OF assms] by blast
  have n: "plain_digit_count D y \<le> max_plain_digits" using plain_parts_digits [OF y(2)] assms(2) by simp
  show thesis
    using y n by (intro that [OF y(1) plain_parts_val [OF assms(1) y(2)] n])
      (simp add: parse_decimal_def check_decimal_domain_def Let_def)
qed

subsection \<open>Exactness\<close>

lemma val_zero_iff_parts:
  assumes "decimal_laws D val"
  shows "fst (d_parts D x) = 0 \<longleftrightarrow> val x = 0"
proof -
  obtain m s where p: "d_parts D x = (m, s)" by (cases "d_parts D x")
  have "val x = of_int m * 10 powi (- sint s)" by (rule decimal_lawsD(2) [OF assms p])
  then show ?thesis using p by simp
qed

lemma val_zero: "decimal_laws D val \<Longrightarrow> val (d_zero D) = 0"
  by (simp add: d_zero_def val_d_new)

lemma exactness_of_error:
  assumes "decimal_laws D val"
  shows "val (abs_error D (exactness_of D x y)) = \<bar>val x - val y\<bar>"
    and "exactness_of D x y = Exact \<longleftrightarrow> val x = val y"
  using assms by (auto simp: exactness_of_def Let_def val_zero_iff_parts decimal_lawsD val_zero)

text \<open>Whatever the type, the reported error is the distance of the stored value from the given one.\<close>

lemma encode_error_exact:
  assumes "decimal_laws D val" "encode D pt x = Inr en"
  shows "val (abs_error D (en_exactness en)) = \<bar>val x - val (to_logical D (en_value en))\<bar>"
    and "en_exactness en = Exact \<longleftrightarrow> val (to_logical D (en_value en)) = val x"
proof -
  have dom: "plain_digit_count D x \<le> max_plain_digits" and enc: "encode_in D pt x = Inr en"
    using assms(2) by (auto simp: encode_def check_decimal_domain_def Let_def not_less split: if_splits)
  consider (plain) "pt = BigDecimalText" | (measured) pv where "en = measured D x pv"
    using enc by (cases pt) (auto simp: encode_in_def Let_def split: option.splits if_splits prod.splits)
  then have "val (abs_error D (en_exactness en)) = \<bar>val x - val (to_logical D (en_value en))\<bar> \<and>
      (en_exactness en = Exact \<longleftrightarrow> val (to_logical D (en_value en)) = val x)"
  proof cases
    case plain
    then have en: "en = \<lparr>en_value = VText (d_to_plain D x), en_exactness = Exact\<rparr>"
      using enc by (simp add: encode_in_def)
    obtain y where "d_parse D (d_to_plain D x) = Some y" "val y = val x" by (rule parse_plain [OF assms(1) dom])
    then show ?thesis by (simp add: en val_zero [OF assms(1)])
  next
    case measured
    then show ?thesis using exactness_of_error [OF assms(1)] by (auto simp: measured_def)
  qed
  then show "val (abs_error D (en_exactness en)) = \<bar>val x - val (to_logical D (en_value en))\<bar>"
    and "en_exactness en = Exact \<longleftrightarrow> val (to_logical D (en_value en)) = val x" by auto
qed

subsection \<open>Rounding\<close>

lemma pow10_decimal_parts:
  assumes "decimal_laws D val"
  shows "d_parts D (pow10_decimal D n) = (10 ^ unat n, 0)"
proof -
  have "((\<lambda>acc. acc * 10) ^^ k) 1 = (10 :: int) ^ k" for k by (induction k) simp_all
  then show ?thesis by (simp add: pow10_decimal_def decimal_lawsD(1) [OF assms])
qed

lemma sint_ucast_u8: "sint (ucast (n :: u8) :: i64) = int (unat n)"
proof -
  have "uint n < 2 ^ 8" using unsigned_less [of n, where ?'a = int] by simp
  then have "uint n < 2 ^ 63" by simp
  moreover have "- (2 ^ 63) \<le> uint n" by (rule order_trans [of _ 0]) simp_all
  ultimately have "- (2 ^ 63) \<le> uint n \<and> uint n < 2 ^ 63" by blast
  then show ?thesis by (simp add: signed_ucast_eq signed_take_bit_int_eq_self_iff)
qed

lemma shift_scale:
  assumes "decimal_laws D val"
  shows "val (d_new D m (ucast (scale :: u8))) = of_int m / 10 ^ unat scale"
proof -
  have "(10 :: rat) powi (- int (unat scale)) = inverse (10 ^ unat scale)"
    by (simp only: power_int_minus power_int_of_nat)
  then show ?thesis unfolding val_d_new [OF assms] sint_ucast_u8 by (simp only: divide_inverse)
qed

text \<open>The nearest multiple of the declared unit, at most half a unit away.\<close>

lemma scaled_round:
  assumes "decimal_laws D val"
  obtains n where "val (d_round0 D (d_mul D x (pow10_decimal D scale))) = of_int n"
    "\<bar>val x - of_int n / 10 ^ unat scale\<bar> \<le> 1 / 2 / 10 ^ unat scale"
proof -
  let ?y = "d_mul D x (pow10_decimal D scale)" and ?p = "10 ^ unat scale :: rat"
  obtain n where n: "val (d_round0 D ?y) = of_int n" "\<bar>val ?y - of_int n\<bar> \<le> 1 / 2"
    using decimal_lawsD(7) [OF assms] by blast
  have "val ?y = val x * ?p" by (simp add: decimal_lawsD(4) [OF assms pow10_decimal_parts [OF assms]])
  then have "\<bar>val x * ?p - of_int n\<bar> / ?p \<le> 1 / 2 / ?p"
    using n(2) by (intro divide_right_mono) (simp_all only: zero_le_power zero_le_numeral)
  moreover have "val x * ?p - of_int n = (val x - of_int n / ?p) * ?p" by (simp add: algebra_simps)
  then have "\<bar>val x * ?p - of_int n\<bar> / ?p = \<bar>val x - of_int n / ?p\<bar>" by (simp only: abs_mult) simp
  ultimately show thesis using n(1) by (intro that) simp_all
qed

lemma scaled_i64_half_unit:
  assumes "decimal_laws D val" "encode D (ScaledI64 scale) x = Inr en"
  shows "\<bar>val x - val (to_logical D (en_value en))\<bar> \<le> 1 / 2 / 10 ^ unat scale"
proof -
  obtain n where n: "val (d_round0 D (d_mul D x (pow10_decimal D scale))) = of_int n"
    "\<bar>val x - of_int n / 10 ^ unat scale\<bar> \<le> 1 / 2 / 10 ^ unat scale" by (rule scaled_round [OF assms(1)])
  have "d_to_i64 D (d_round0 D (d_mul D x (pow10_decimal D scale))) =
      (if - (2 ^ 63) \<le> n \<and> n < 2 ^ 63 then Some (word_of_int n) else None)"
    by (rule decimal_lawsD(8) [OF assms(1) n(1)])
  then have "en = measured D x (VScaledI64 (word_of_int n) scale)" "- (2 ^ 63) \<le> n" "n < 2 ^ 63"
    using assms(2) by (auto simp: encode_def encode_in_def split: sum.splits if_splits)
  moreover from this have "sint (word_of_int n :: i64) = n"
    by (simp add: signed_of_int signed_take_bit_int_eq_self_iff)
  ultimately show ?thesis using n(2) by (simp add: measured_def shift_scale [OF assms(1)])
qed

lemma round_div_10_near: "\<bar>m - 10 * round_div_10 m\<bar> \<le> 5"
proof -
  have "\<bar>m\<bar> - 5 \<le> 10 * ((\<bar>m\<bar> + 5) div 10)" "10 * ((\<bar>m\<bar> + 5) div 10) \<le> \<bar>m\<bar> + 5" by presburger+
  moreover have "round_div_10 m = sgn m * ((\<bar>m\<bar> + 5) div 10)"
    by (auto simp: round_div_10_def signed_divide_int_def sgn_if abs_if)
  ultimately show ?thesis by (cases "0 < m"; cases "m = 0") (auto simp: sgn_if)
qed

lemma sint_to_i128: "to_i128 m = Some w \<Longrightarrow> sint w = m"
  by (auto simp: to_i128_def signed_of_int signed_take_bit_int_eq_self_iff split: if_splits)

lemma fit_i128_spec:
  "fit_i128 m s = (w, s') \<Longrightarrow> \<exists>k. s' = s - of_nat k \<and> 9 * \<bar>m - sint w * 10 ^ k\<bar> \<le> 5 * (10 ^ k - 1) \<and>
    (0 < k \<longrightarrow> 2 ^ 127 \<le> 10 * \<bar>sint w\<bar> + 5)"
proof (induction m s rule: fit_i128.induct)
  case (1 m s)
  show ?case
  proof (cases "to_i128 m")
    case (Some u)
    then have "w = u \<and> s' = s" using "1.prems" by (subst (asm) fit_i128.simps) simp
    then show ?thesis using sint_to_i128 [OF Some] by (intro exI [of _ 0]) simp
  next
    case None
    let ?r = "round_div_10 m"
    have "fit_i128 ?r (s - 1) = (w, s')" using "1.prems" None by (subst (asm) fit_i128.simps) simp
    with "1.IH" [OF None] obtain k where k: "s' = s - 1 - of_nat k"
      "9 * \<bar>?r - sint w * 10 ^ k\<bar> \<le> 5 * (10 ^ k - 1)" "0 < k \<longrightarrow> 2 ^ 127 \<le> 10 * \<bar>sint w\<bar> + 5" by blast
    have "m - sint w * 10 ^ Suc k = (m - 10 * ?r) + 10 * (?r - sint w * 10 ^ k)" by (simp add: algebra_simps)
    moreover have "\<bar>a + 10 * b\<bar> \<le> \<bar>a\<bar> + 10 * \<bar>b\<bar>" for a b :: int by linarith
    ultimately have "\<bar>m - sint w * 10 ^ Suc k\<bar> \<le> \<bar>m - 10 * ?r\<bar> + 10 * \<bar>?r - sint w * 10 ^ k\<bar>" by metis
    then have "9 * \<bar>m - sint w * 10 ^ Suc k\<bar> \<le> 5 * (10 ^ Suc k - 1)"
      using round_div_10_near [of m] k(2) by simp
    moreover have "2 ^ 127 \<le> 10 * \<bar>sint w\<bar> + 5"
    proof (cases "k = 0")
      case True
      then have "sint w = ?r" using k(2) by simp
      moreover have "2 ^ 127 \<le> \<bar>m\<bar>" using None by (auto simp: to_i128_def split: if_splits)
      moreover have "\<bar>m\<bar> - 5 \<le> 10 * ((\<bar>m\<bar> + 5) div 10)" by presburger
      ultimately show ?thesis using round_div_10_abs [of m] by simp
    qed (use k(3) in simp)
    ultimately show ?thesis using k(1) by (intro exI [of _ "Suc k"]) (simp add: algebra_simps)
  qed
qed

text \<open>A mantissa too large for 128 bits keeps at least 37 significant digits.\<close>

lemma fit_i128_relative:
  assumes "9 * \<bar>m - w * 10 ^ k\<bar> \<le> 5 * (10 ^ k - 1)" "0 < k \<longrightarrow> 2 ^ 127 \<le> 10 * \<bar>w\<bar> + (5 :: int)"
  shows "\<bar>m - w * 10 ^ k\<bar> * 10 ^ 37 \<le> \<bar>m\<bar>" "0 < k \<longrightarrow> 10 ^ k \<le> \<bar>m\<bar>"
proof -
  let ?e = "\<bar>m - w * 10 ^ k\<bar>"
  have "?e * 10 ^ 37 \<le> \<bar>m\<bar> \<and> (0 < k \<longrightarrow> 10 ^ k \<le> \<bar>m\<bar>)"
  proof (cases "k = 0")
    case True
    then show ?thesis using assms(1) by simp
  next
    case False
    have w: "10 ^ 37 + 2 \<le> \<bar>w\<bar>" using assms(2) False by simp
    have "(10 ^ 37 + 2) * 10 ^ k \<le> \<bar>w\<bar> * (10 :: int) ^ k" using w by (rule mult_right_mono) simp
    also have "\<bar>w\<bar> * 10 ^ k = \<bar>w * 10 ^ k\<bar>" by (simp add: abs_mult)
    also have "\<dots> \<le> \<bar>m\<bar> + ?e" by linarith
    finally have big: "10 ^ 37 * 10 ^ k + 2 * 10 ^ k \<le> \<bar>m\<bar> + ?e" by (simp add: algebra_simps)
    have "e \<le> p" if "0 < p" "9 * e \<le> 5 * (p - 1)" for e p :: int using that by presburger
    from this [OF _ assms(1)] have e: "?e \<le> (10 :: int) ^ k" by simp
    then have "?e * 10 ^ 37 \<le> 10 ^ 37 * (10 :: int) ^ k" by simp
    moreover have "(0 :: int) < 10 ^ k" "(0 :: int) \<le> 10 ^ 37 * 10 ^ k" by simp_all
    ultimately have "?e * 10 ^ 37 \<le> \<bar>m\<bar>" "10 ^ k \<le> \<bar>m\<bar>" using big e by linarith+
    then show ?thesis by blast
  qed
  then show "?e * 10 ^ 37 \<le> \<bar>m\<bar>" "0 < k \<longrightarrow> 10 ^ k \<le> \<bar>m\<bar>" by blast+
qed

lemma sint_diff_nat:
  fixes s :: i64
  assumes "- (2 ^ 63) \<le> sint s - int k"
  shows "sint (s - of_nat k) = sint s - int k"
proof -
  have "sint s < 2 ^ 63" using signed_take_bit_int_less_exp [of 63 "uint s"] by (simp add: sint_uint)
  then have "sint (word_of_int (sint s - int k) :: i64) = sint s - int k"
    using assms by (subst signed_of_int) (simp add: signed_take_bit_int_eq_self_iff)
  moreover have "s - of_nat k = word_of_int (sint s - int k)" by simp
  ultimately show ?thesis by (simp only:)
qed

lemma decimal128_relative:
  assumes laws: "decimal_laws D val" and enc: "encode D Decimal128 x = Inr en"
  shows "\<bar>val x - val (to_logical D (en_value en))\<bar> * 10 ^ 37 \<le> \<bar>val x\<bar>"
proof -
  obtain m s where p: "d_parts D x = (m, s)" by (cases "d_parts D x")
  obtain w s' where f: "fit_i128 m s = (w, s')" by (cases "fit_i128 m s")
  then obtain k where k: "s' = s - of_nat k" "9 * \<bar>m - sint w * 10 ^ k\<bar> \<le> 5 * (10 ^ k - 1)"
    "0 < k \<longrightarrow> 2 ^ 127 \<le> 10 * \<bar>sint w\<bar> + 5" using fit_i128_spec by blast
  note rel = fit_i128_relative [OF k(2,3)]
  have dom: "plain_digit_count D x \<le> max_plain_digits"
    and en: "to_logical D (en_value en) = d_new D (sint w) s'"
    using enc p f
    by (auto simp: encode_def encode_in_def measured_def check_decimal_domain_def Let_def not_less split: if_splits)
  have digits: "dec_digits (nat \<bar>m\<bar>) \<le> 1024" "sint s < 0 \<Longrightarrow> nat (- sint s) \<le> 1024"
    using dom p by (auto simp: plain_digit_count_def max_plain_digits_def Let_def min_def split: if_splits)
  have "k \<le> 1024"
  proof (cases "k = 0")
    case False
    then have "10 ^ k \<le> \<bar>m\<bar>" using rel(2) by simp
    moreover have "\<bar>m\<bar> < 10 ^ dec_digits (nat \<bar>m\<bar>)"
      using dec_digits_bound [of "nat \<bar>m\<bar>"] by (simp add: nat_less_iff)
    ultimately have "(10 :: int) ^ k < 10 ^ dec_digits (nat \<bar>m\<bar>)" by linarith
    then have "k < dec_digits (nat \<bar>m\<bar>)" by (rule power_less_imp_less_exp [rotated]) simp
    then show ?thesis using digits(1) by simp
  qed simp
  moreover have "- 1024 \<le> sint s" using digits(2) by (cases "sint s < 0") auto
  ultimately have "- (2 ^ 63) \<le> sint s - int k" by simp
  then have "sint s' = sint s - int k" unfolding k(1) by (rule sint_diff_nat)
  then have "val (d_new D (sint w) s') = of_int (sint w) * 10 powi (int k - sint s)"
    by (simp add: val_d_new [OF laws])
  also have "\<dots> = of_int (sint w * 10 ^ k) * 10 powi (- sint s)"
    by (simp add: power_int_add diff_conv_add_uminus del: add_uminus_conv_diff)
  finally have v: "val (d_new D (sint w) s') = of_int (sint w * 10 ^ k) * 10 powi (- sint s)" .
  have x: "val x = of_int m * 10 powi (- sint s)" by (rule decimal_lawsD(2) [OF laws p])
  have "\<bar>val x - val (d_new D (sint w) s')\<bar> * 10 ^ 37 = of_int (\<bar>m - sint w * 10 ^ k\<bar> * 10 ^ 37) * 10 powi (- sint s)"
    unfolding x v by (simp add: left_diff_distrib [symmetric] abs_mult)
  also have "\<dots> \<le> of_int \<bar>m\<bar> * 10 powi (- sint s)"
    using rel(1) by (intro mult_right_mono) (simp_all only: of_int_le_iff zero_le_power_int zero_le_numeral)
  also have "\<dots> = \<bar>val x\<bar>" unfolding x by (simp add: abs_mult)
  finally show ?thesis by (simp only: en)
qed

end
