(* ===== verification/Catalog.thy ===== *)
theory Catalog imports Segments Decimals "HOL-Library.Product_Lexorder" begin

text \<open>
  The segment index of \<^verbatim>\<open>weft-physical-type/src/catalog.rs\<close>: the descriptor of a sealed segment, the
  ordered set of descriptors and the pruning it answers without opening a segment. The sweep of
  \<open>overlapping_segments\<close> is shown to find exactly the segments whose span meets another's.
\<close>

record 'v segment_descriptor =
  sd_id :: u64
  sd_path :: "u8 list"
  sd_format_version :: u16
  sd_physical_type :: "physical_type option"
  sd_time_unit :: "time_unit option"
  sd_row_count :: nat
  sd_null_count :: nat
  sd_time_sorted :: bool
  sd_min_ts :: "i64 option"
  sd_max_ts :: "i64 option"
  sd_min_value :: "'v option"
  sd_max_value :: "'v option"
  sd_byte_len :: u64

text \<open>\<open>ptype\<close> reads the physical type off the value column.\<close>

definition of_segment ::
  "('c \<Rightarrow> physical_type) \<Rightarrow> u64 \<Rightarrow> u8 list \<Rightarrow> u64 \<Rightarrow> ('c, 'v) segment \<Rightarrow> 'v segment_descriptor" where
  "of_segment ptype i path byte_len s =
    (let stats = sg_stats s in
     \<lparr>sd_id = i, sd_path = path, sd_format_version = sg_version s,
      sd_physical_type = Some (ptype (sg_values s)), sd_time_unit = Some (dd_unit (sg_timestamps s)),
      sd_row_count = st_row_count stats, sd_null_count = st_null_count stats,
      sd_time_sorted = st_time_sorted stats, sd_min_ts = st_min_ts stats, sd_max_ts = st_max_ts stats,
      sd_min_value = st_min_value stats, sd_max_value = st_max_value stats, sd_byte_len = byte_len\<rparr>)"

definition sd_time_range :: "'v segment_descriptor \<Rightarrow> (i64 \<times> i64) option" where
  "sd_time_range d = span_of (sd_min_ts d) (sd_max_ts d)"

definition sd_value_range :: "'v segment_descriptor \<Rightarrow> ('v \<times> 'v) option" where
  "sd_value_range d = span_of (sd_min_value d) (sd_max_value d)"

definition sd_present_count :: "'v segment_descriptor \<Rightarrow> nat" where
  "sd_present_count d = sd_row_count d - sd_null_count d"

definition sd_is_all_null :: "'v segment_descriptor \<Rightarrow> bool" where
  "sd_is_all_null d \<longleftrightarrow> 0 < sd_row_count d \<and> sd_null_count d = sd_row_count d"

definition sd_overlaps_time :: "'v segment_descriptor \<Rightarrow> i64 \<Rightarrow> i64 \<Rightarrow> bool" where
  "sd_overlaps_time d from_ts to_ts =
    (case sd_time_range d of Some (lo, hi) \<Rightarrow> sint lo \<le> sint to_ts \<and> sint from_ts \<le> sint hi | None \<Rightarrow> False)"

definition sd_contains_timestamp :: "'v segment_descriptor \<Rightarrow> i64 \<Rightarrow> bool" where
  "sd_contains_timestamp d t = sd_overlaps_time d t t"

definition sd_may_contain_value :: "'v::ord segment_descriptor \<Rightarrow> 'v \<Rightarrow> 'v \<Rightarrow> bool" where
  "sd_may_contain_value d lo hi =
    (case sd_value_range d of Some (mn, mx) \<Rightarrow> mn \<le> hi \<and> lo \<le> mx | None \<Rightarrow> False)"

subsection \<open>The index\<close>

record 'v segment_index =
  si_descriptors :: "'v segment_descriptor list"

definition index_new :: "'v segment_index" where
  "index_new = \<lparr>si_descriptors = []\<rparr>"

definition index_push :: "'v segment_descriptor \<Rightarrow> 'v segment_index \<Rightarrow> 'v segment_index" where
  "index_push d ix = ix\<lparr>si_descriptors := si_descriptors ix @ [d]\<rparr>"

definition total_rows :: "'v segment_index \<Rightarrow> u64" where
  "total_rows ix = sum_list (map (\<lambda>d. of_nat (sd_row_count d)) (si_descriptors ix))"

definition total_bytes :: "'v segment_index \<Rightarrow> u64" where
  "total_bytes ix = sum_list (map sd_byte_len (si_descriptors ix))"

definition unsorted_count :: "'v segment_index \<Rightarrow> nat" where
  "unsorted_count ix = length (filter (\<lambda>d. \<not> sd_time_sorted d) (si_descriptors ix))"

type_synonym span = "nat \<times> i64 \<times> i64"

fun spans_from :: "nat \<Rightarrow> 'v segment_descriptor list \<Rightarrow> span list" where
  "spans_from i [] = []"
| "spans_from i (d # ds) =
    (case sd_time_range d of Some (lo, hi) \<Rightarrow> (i, lo, hi) # spans_from (Suc i) ds | None \<Rightarrow> spans_from (Suc i) ds)"

fun predecessor_flags :: "nat \<Rightarrow> i64 \<Rightarrow> span list \<Rightarrow> bool list" where
  "predecessor_flags k running_max_hi [] = []"
| "predecessor_flags k running_max_hi ((i, lo, hi) # spans) =
    (0 < k \<and> sint lo \<le> sint running_max_hi)
    # predecessor_flags (Suc k) (if sint running_max_hi < sint hi then hi else running_max_hi) spans"

fun successor_flags :: "nat \<Rightarrow> (span \<times> span) list \<Rightarrow> bool list \<Rightarrow> bool list" where
  "successor_flags k [] flagged = flagged"
| "successor_flags k (((i, lo, hi), (i', lo', hi')) # ws) flagged =
    successor_flags (Suc k) ws (if sint lo' \<le> sint hi then flagged[k := True] else flagged)"

definition overlapping_segments :: "'v segment_index \<Rightarrow> 'v segment_descriptor list" where
  "overlapping_segments ix =
    (let spans = spans_from 0 (si_descriptors ix)
     in if length spans < 2 then []
        else let spans = sort_key (\<lambda>(i, lo, hi). (sint lo, sint hi)) spans;
                 flagged = successor_flags 0 (windows2 spans) (predecessor_flags 0 i64_min spans);
                 positions = sort (map (\<lambda>(s, f). fst s) (filter snd (zip spans flagged)))
             in map (\<lambda>i. si_descriptors ix ! i) positions)"

definition overlapping_count :: "'v segment_index \<Rightarrow> nat" where
  "overlapping_count ix = length (overlapping_segments ix)"

text \<open>The fold over the spans of the non-empty segments.\<close>

fun widen :: "(i64 \<times> i64) option \<Rightarrow> i64 \<times> i64 \<Rightarrow> (i64 \<times> i64) option" where
  "widen (Some (slo, shi)) (lo, hi) =
    Some (if sint lo < sint slo then lo else slo, if sint shi \<le> sint hi then hi else shi)"
| "widen None (lo, hi) = Some (lo, hi)"

fun index_time_range_from :: "(i64 \<times> i64) option \<Rightarrow> 'v segment_descriptor list \<Rightarrow> (i64 \<times> i64) option" where
  "index_time_range_from seen [] = seen"
| "index_time_range_from seen (d # ds) =
    index_time_range_from (case sd_time_range d of Some r \<Rightarrow> widen seen r | None \<Rightarrow> seen) ds"

definition index_time_range :: "'v segment_index \<Rightarrow> (i64 \<times> i64) option" where
  "index_time_range ix = index_time_range_from None (si_descriptors ix)"

definition index_prune_by_time :: "'v segment_index \<Rightarrow> i64 \<Rightarrow> i64 \<Rightarrow> 'v segment_descriptor list" where
  "index_prune_by_time ix from_ts to_ts = filter (\<lambda>d. sd_overlaps_time d from_ts to_ts) (si_descriptors ix)"

definition index_prune_by_value :: "'v::ord segment_index \<Rightarrow> 'v \<Rightarrow> 'v \<Rightarrow> 'v segment_descriptor list" where
  "index_prune_by_value ix lo hi = filter (\<lambda>d. sd_may_contain_value d lo hi) (si_descriptors ix)"

definition index_prune_present_by_time :: "'v segment_index \<Rightarrow> i64 \<Rightarrow> i64 \<Rightarrow> 'v segment_descriptor list" where
  "index_prune_present_by_time ix from_ts to_ts =
    filter (\<lambda>d. sd_overlaps_time d from_ts to_ts \<and> \<not> sd_is_all_null d) (si_descriptors ix)"

subsection \<open>Pruning loses no row\<close>

lemma of_segment_overlaps: "sd_overlaps_time (of_segment pt i p b s) x y \<longleftrightarrow> overlaps_time s x y"
  by (simp add: sd_overlaps_time_def overlaps_time_def span_overlaps_def sd_time_range_def time_range_def
      of_segment_def Let_def)

lemma of_segment_all_null: "sd_is_all_null (of_segment pt i p b s) \<longleftrightarrow> is_all_null s"
  by (simp add: sd_is_all_null_def is_all_null_def stats_is_all_null_def of_segment_def Let_def)

text \<open>A segment with a present value is not all null.\<close>

lemma length_filter_absent: "length (filter (\<lambda>p. \<not> p) (map (\<lambda>v. v \<noteq> None) vs)) + length (flatten_present vs) = length vs"
  by (induction vs rule: flatten_present.induct) auto

lemma null_count_from_presence: "nm_null_count (from_presence ps) = length (filter (\<lambda>p. \<not> p) ps)"
  by (simp add: from_presence_def all_present_def Let_def)

lemma build_nullable_all_null:
  assumes "build_nullable enc ts vs unit = Inr s"
  shows "is_all_null s \<longleftrightarrow> vs \<noteq> [] \<and> flatten_present vs = []"
proof -
  have "st_row_count (sg_stats s) = length vs"
    "st_null_count (sg_stats s) = length (filter (\<lambda>p. \<not> p) (map (\<lambda>v. v \<noteq> None) vs))"
    using build_nullable_fields [OF assms] by (simp_all add: stats_fields null_count_from_presence del: not_None_eq)
  then show ?thesis
    using length_filter_absent [of vs] by (auto simp: is_all_null_def stats_is_all_null_def)
qed

lemma index_prune_keeps_rows:
  assumes "build_nullable enc ts vs unit = Inr s" "of_segment pt i p b s \<in> set (si_descriptors ix)"
    and "t \<in> set ts" "sint x \<le> sint t" "sint t \<le> sint y"
  shows "of_segment pt i p b s \<in> set (index_prune_by_time ix x y)"
  using assms contains_timestamp_build_nullable [OF assms(1,3-5)]
  by (simp add: index_prune_by_time_def of_segment_overlaps)

subsection \<open>The sweep\<close>

abbreviation spans_meet :: "i64 \<times> i64 \<Rightarrow> i64 \<times> i64 \<Rightarrow> bool" where
  "spans_meet a b \<equiv> sint (fst a) \<le> sint (snd b) \<and> sint (fst b) \<le> sint (snd a)"

definition involved :: "'v segment_descriptor list \<Rightarrow> nat \<Rightarrow> bool" where
  "involved ds i \<longleftrightarrow> (\<exists>j<length ds. j \<noteq> i \<and>
    (\<exists>a b. sd_time_range (ds ! i) = Some a \<and> sd_time_range (ds ! j) = Some b \<and> spans_meet a b))"

lemma set_spans_from:
  "(j, a) \<in> set (spans_from i ds) \<longleftrightarrow> i \<le> j \<and> j < i + length ds \<and> sd_time_range (ds ! (j - i)) = Some a"
proof (induction i ds rule: spans_from.induct)
  case (2 i d ds)
  have ih: "(j, a) \<in> set (spans_from (Suc i) ds) \<longleftrightarrow>
      Suc i \<le> j \<and> j < Suc i + length ds \<and> sd_time_range (ds ! (j - Suc i)) = Some a"
    using 2 by (cases "sd_time_range d") auto
  consider "j < i" | "j = i" | m where "j = Suc (i + m)"
    using less_iff_Suc_add [of i j] by (metis linorder_cases)
  then show ?case
    by cases (use ih in \<open>auto split: option.splits\<close>)
qed simp

lemma distinct_spans_from: "distinct (map fst (spans_from i ds))"
proof (induction i ds rule: spans_from.induct)
  case (2 i d ds)
  then show ?case by (cases "sd_time_range d") (auto simp: set_spans_from)
qed simp

lemma length_predecessor_flags [simp]: "length (predecessor_flags k m spans) = length spans"
  by (induction k m spans rule: predecessor_flags.induct) auto

lemma predecessor_flags_nth:
  "k < length spans \<Longrightarrow> predecessor_flags k0 m spans ! k \<longleftrightarrow> 0 < k0 + k \<and>
    (sint (fst (snd (spans ! k))) \<le> sint m \<or> (\<exists>j<k. sint (fst (snd (spans ! k))) \<le> sint (snd (snd (spans ! j)))))"
proof (induction k0 m spans arbitrary: k rule: predecessor_flags.induct)
  case (2 k0 m i lo hi spans)
  show ?case
  proof (cases k)
    case (Suc k')
    then show ?thesis
      using 2 by (auto simp: less_Suc_eq_0_disj)
  qed simp
qed simp

lemma length_successor_flags [simp]: "length (successor_flags k ws flagged) = length flagged"
  by (induction k ws flagged rule: successor_flags.induct) auto

lemma successor_flags_nth:
  "k0 + length ws \<le> length flagged \<Longrightarrow> k < length flagged \<Longrightarrow> successor_flags k0 ws flagged ! k \<longleftrightarrow>
    flagged ! k \<or> (k0 \<le> k \<and> k < k0 + length ws \<and>
      sint (fst (snd (snd (ws ! (k - k0))))) \<le> sint (snd (snd (fst (ws ! (k - k0))))))"
proof (induction k0 ws flagged arbitrary: k rule: successor_flags.induct)
  case (2 k0 i lo hi i' lo' hi' ws flagged)
  consider "k < k0" | "k = k0" | m where "k = Suc (k0 + m)"
    using less_iff_Suc_add [of k0 k] by (metis linorder_cases)
  then show ?case
    by cases (use 2 in \<open>auto simp: nth_list_update\<close>)
qed auto

lemma span_key_mono:
  assumes "sorted (map (\<lambda>(i, lo, hi). (sint lo, sint hi)) spans)" "j \<le> k" "k < length spans"
  shows "sint (fst (snd (spans ! j))) \<le> sint (fst (snd (spans ! k)))"
proof -
  have "(\<lambda>(i, lo, hi). (sint lo, sint hi)) (spans ! j) \<le> (\<lambda>(i, lo, hi). (sint lo, sint hi)) (spans ! k)"
    using sorted_nth_mono [OF assms(1,2)] assms(2,3) by simp
  then show ?thesis by (auto simp: split_def)
qed

lemma sint_i64_min_le: "sint i64_min \<le> sint (v :: i64)"
  using sint_range [of v] by (simp add: i64_min_def)

text \<open>A flag of the two passes: some other span of the sweep meets this one.\<close>

lemma sweep_flag:
  assumes sorted: "sorted (map (\<lambda>(i, lo, hi). (sint lo, sint hi)) spans)"
    and wf: "\<forall>(i, lo, hi)\<in>set spans. sint lo \<le> sint hi" and k: "k < length spans"
  shows "successor_flags 0 (windows2 spans) (predecessor_flags 0 i64_min spans) ! k \<longleftrightarrow>
    (\<exists>j<length spans. j \<noteq> k \<and> spans_meet (snd (spans ! k)) (snd (spans ! j)))"
proof -
  let ?lo = "\<lambda>j. sint (fst (snd (spans ! j)))" and ?hi = "\<lambda>j. sint (snd (snd (spans ! j)))"
  have mono: "?lo i \<le> ?lo j" if "i \<le> j" "j < length spans" for i j
    using span_key_mono [OF sorted that] .
  have lohi: "?lo j \<le> ?hi j" if "j < length spans" for j
    using wf nth_mem [OF that] by (auto simp: split_def)
  have pred: "predecessor_flags 0 i64_min spans ! k \<longleftrightarrow> (\<exists>j<k. ?lo k \<le> ?hi j)"
  proof (cases k)
    case (Suc k')
    have "?hi 0 \<ge> sint i64_min" by (rule sint_i64_min_le)
    then show ?thesis
      using predecessor_flags_nth [OF k, of 0 i64_min] Suc by (auto intro: order_trans)
  qed (use predecessor_flags_nth [OF k, of 0 i64_min] in simp)
  have succ: "Suc k < length spans \<and> ?lo (Suc k) \<le> ?hi k \<longleftrightarrow> (\<exists>j<length spans. k < j \<and> ?lo j \<le> ?hi k)"
    using mono [of "Suc k"] by (auto simp: Suc_le_eq intro: order_trans)
  have "successor_flags 0 (windows2 spans) (predecessor_flags 0 i64_min spans) ! k \<longleftrightarrow>
      (\<exists>j<k. ?lo k \<le> ?hi j) \<or> (Suc k < length spans \<and> ?lo (Suc k) \<le> ?hi k)"
    using successor_flags_nth [of 0 "windows2 spans" "predecessor_flags 0 i64_min spans" k] k pred
    by (auto simp: windows2_nth)
  also have "\<dots> \<longleftrightarrow> (\<exists>j<length spans. j \<noteq> k \<and> ?lo k \<le> ?hi j \<and> ?lo j \<le> ?hi k)"
    unfolding succ
  proof safe
    fix j assume "j < k" "?lo k \<le> ?hi j"
    then show "\<exists>j<length spans. j \<noteq> k \<and> ?lo k \<le> ?hi j \<and> ?lo j \<le> ?hi k"
      using k mono [of j k] lohi [OF k] by (intro exI [of _ j]) auto
  next
    fix j assume "j < length spans" "k < j" "?lo j \<le> ?hi k"
    then show "\<exists>j<length spans. j \<noteq> k \<and> ?lo k \<le> ?hi j \<and> ?lo j \<le> ?hi k"
      using mono [of k j] lohi [of j] by (intro exI [of _ j]) auto
  next
    fix j assume "j < length spans" "j \<noteq> k" "?lo k \<le> ?hi j" "?lo j \<le> ?hi k"
      "\<not> (\<exists>j<length spans. k < j \<and> ?lo j \<le> ?hi k)"
    then show "\<exists>j<k. ?lo k \<le> ?hi j" by (metis linorder_neqE_nat)
  qed
  finally show ?thesis by (simp add: conj_assoc)
qed

lemma set_filter_zip:
  "length flags = length xs \<Longrightarrow> set (map (\<lambda>(s, f). g s) (filter snd (zip xs flags))) = {g (xs ! k) | k. k < length xs \<and> flags ! k}"
  by (auto simp: set_zip image_iff split_def) blast

lemma map_fst_filter_zip: "length flags = length xs \<Longrightarrow>
    distinct (map g xs) \<Longrightarrow> distinct (map (\<lambda>(s, f). g s) (filter snd (zip xs flags)))"
proof (induction xs flags rule: list_induct2')
  case (4 x xs f fs)
  have "g y \<in> g ` set xs" if "(y, b) \<in> set (zip xs fs)" for y b
    using that by (auto dest: set_zip_leftD)
  with 4 show ?case by (auto simp: split_def)
qed auto

lemma sweep_involved:
  fixes ds :: "'v segment_descriptor list"
  defines "spans \<equiv> sort_key (\<lambda>(i, lo, hi). (sint lo, sint hi)) (spans_from 0 ds)"
  assumes k: "k < length spans"
  shows "(\<exists>j<length spans. j \<noteq> k \<and> spans_meet (snd (spans ! k)) (snd (spans ! j))) \<longleftrightarrow> involved ds (fst (spans ! k))"
proof -
  have mem: "(j, a) \<in> set spans \<longleftrightarrow> j < length ds \<and> sd_time_range (ds ! j) = Some a" for j a
    by (simp add: spans_def set_spans_from)
  have "distinct (map fst spans)"
  proof -
    have "distinct (map fst (spans_from 0 ds))" by (rule distinct_spans_from)
    then show ?thesis
      unfolding spans_def distinct_map by (auto simp: inj_on_def)
  qed
  then have inj: "fst (spans ! i) = fst (spans ! j) \<longleftrightarrow> i = j" if "i < length spans" "j < length spans" for i j
    using that by (metis length_map nth_eq_iff_index_eq nth_map)
  have at: "sd_time_range (ds ! fst (spans ! j)) = Some (snd (spans ! j)) \<and> fst (spans ! j) < length ds" if "j < length spans" for j
    using nth_mem [OF that] mem [of "fst (spans ! j)" "snd (spans ! j)"] by simp
  show ?thesis
  proof
    assume "\<exists>j<length spans. j \<noteq> k \<and> spans_meet (snd (spans ! k)) (snd (spans ! j))"
    then show "involved ds (fst (spans ! k))"
      using at [OF k] at inj [OF k] unfolding involved_def by metis
  next
    assume "involved ds (fst (spans ! k))"
    then obtain i b where i: "i < length ds" "i \<noteq> fst (spans ! k)" "sd_time_range (ds ! i) = Some b"
      "spans_meet (snd (spans ! k)) b"
      using at [OF k] by (auto simp: involved_def)
    then have "(i, b) \<in> set spans" by (simp add: mem)
    then obtain j where "j < length spans" "spans ! j = (i, b)" by (auto simp: in_set_conv_nth)
    with i show "\<exists>j<length spans. j \<noteq> k \<and> spans_meet (snd (spans ! k)) (snd (spans ! j))"
      by (intro exI [of _ j]) auto
  qed
qed

lemma involved_spans: "involved ds i \<Longrightarrow> i < length ds \<Longrightarrow> 2 \<le> length (spans_from 0 ds)"
proof -
  assume inv: "involved ds i" and i: "i < length ds"
  then obtain j a b where "j < length ds" "j \<noteq> i" "sd_time_range (ds ! i) = Some a" "sd_time_range (ds ! j) = Some b"
    by (auto simp: involved_def)
  then have sub: "{(i, a), (j, b)} \<subseteq> set (spans_from 0 ds)" and two: "card {(i, a), (j, b)} = 2"
    using i by (simp_all add: set_spans_from)
  have "2 \<le> card (set (spans_from 0 ds))"
    using card_mono [OF List.finite_set sub] by (simp only: two)
  then show ?thesis using card_length [of "spans_from 0 ds"] by linarith
qed

lemma overlapping_segments_eq:
  assumes wf: "\<forall>d\<in>set (si_descriptors ix). \<forall>lo hi. sd_time_range d = Some (lo, hi) \<longrightarrow> sint lo \<le> sint hi"
  shows "overlapping_segments ix =
    map (\<lambda>i. si_descriptors ix ! i) (filter (involved (si_descriptors ix)) [0..<length (si_descriptors ix)])"
proof -
  let ?ds = "si_descriptors ix"
  let ?f = "\<lambda>(i :: nat, lo :: i64, hi :: i64). (sint lo, sint hi)"
  define spans where "spans = sort_key ?f (spans_from 0 ?ds)"
  define flags where "flags = successor_flags 0 (windows2 spans) (predecessor_flags 0 i64_min spans)"
  define positions where "positions = map (\<lambda>(s, f). fst s) (filter snd (zip spans flags))"
  have mem: "(j, a) \<in> set spans \<longleftrightarrow> j < length ?ds \<and> sd_time_range (?ds ! j) = Some a" for j a
    by (simp add: spans_def set_spans_from)
  have len: "length flags = length spans" by (simp add: flags_def)
  have wfs: "\<forall>(i, lo, hi)\<in>set spans. sint lo \<le> sint hi" using wf mem by force
  have flag: "flags ! k \<longleftrightarrow> involved ?ds (fst (spans ! k))" if "k < length spans" for k
    using sweep_flag [OF _ wfs that] sweep_involved [of k ?ds] that by (simp add: flags_def spans_def)
  have "set positions = {i. i < length ?ds \<and> involved ?ds i}"
  proof -
    have "set positions = {fst (spans ! k) | k. k < length spans \<and> involved ?ds (fst (spans ! k))}"
      using set_filter_zip [OF len, of fst] flag by (auto simp: positions_def)
    also have "\<dots> = {i. (\<exists>a. (i, a) \<in> set spans) \<and> involved ?ds i}"
      by (auto simp: in_set_conv_nth) (metis prod.collapse, metis fst_conv)
    also have "\<dots> = {i. i < length ?ds \<and> involved ?ds i}"
      by (auto simp: mem) (auto simp: involved_def)
    finally show ?thesis .
  qed
  moreover have "distinct positions"
  proof -
    have "distinct (map fst (spans_from 0 ?ds))" by (rule distinct_spans_from)
    then have "distinct (map fst spans)" unfolding spans_def distinct_map by (auto simp: inj_on_def)
    then show ?thesis unfolding positions_def by (rule map_fst_filter_zip [OF len])
  qed
  ultimately have "sort positions = filter (involved ?ds) [0..<length ?ds]"
    by (intro sorted_distinct_set_unique) (auto simp: sorted_wrt_filter)
  moreover have "overlapping_segments ix = map (\<lambda>i. ?ds ! i) (sort positions)"
  proof (cases "length (spans_from 0 ?ds) < 2")
    case True
    then have "filter (involved ?ds) [0..<length ?ds] = []"
      using involved_spans [of ?ds] by (auto simp: filter_empty_conv)
    then show ?thesis using True calculation by (simp add: overlapping_segments_def)
  next
    case False
    then show ?thesis
      by (simp add: overlapping_segments_def positions_def flags_def spans_def Let_def)
  qed
  ultimately show ?thesis by simp
qed

subsection \<open>Properties\<close>

text \<open>
  C27: The sort-and-sweep over the index returns, in seal order, exactly the descriptors whose
  time span meets the span of another descriptor.
\<close>

theorem overlap_sweep_exact:
  assumes "\<forall>d\<in>set (si_descriptors ix). \<forall>lo hi. sd_time_range d = Some (lo, hi) \<longrightarrow> sint lo \<le> sint hi"
  shows "overlapping_segments ix = map (\<lambda>i. si_descriptors ix ! i)
    (filter (\<lambda>i. \<exists>j<length (si_descriptors ix). j \<noteq> i \<and>
        (\<exists>a b. sd_time_range (si_descriptors ix ! i) = Some a \<and> sd_time_range (si_descriptors ix ! j) = Some b \<and>
          sint (fst a) \<le> sint (snd b) \<and> sint (fst b) \<le> sint (snd a)))
      [0..<length (si_descriptors ix)])"
  using overlapping_segments_eq [OF assms] by (simp add: involved_def [abs_def])

theorem overlap_sweep_exact_witness:
  "map sd_id (overlapping_segments \<lparr>si_descriptors = map (\<lambda>(i, lo, hi). \<lparr>sd_id = i, sd_path = [], sd_format_version = 5,
      sd_physical_type = None, sd_time_unit = None, sd_row_count = 2, sd_null_count = 0, sd_time_sorted = True,
      sd_min_ts = Some lo, sd_max_ts = Some hi, sd_min_value = None :: int option, sd_max_value = None, sd_byte_len = 9\<rparr>)
      [(1, 0, 5), (2, 10, 20), (3, 4, 8)]\<rparr>) = [1, 3]"
  by (subst overlap_sweep_exact)
     (auto simp: sd_time_range_def upt_rec less_Suc_eq numeral_eq_Suc ex_disj_distrib conj_disj_distribR)

text \<open>
  C28: A segment that holds a row in the queried time range is never skipped by the index, and not
  by the quality-aware pruning either when it holds any present value.
\<close>

theorem pruning_keeps_matching_segments:
  assumes "build_nullable enc ts vs unit = Inr s" "of_segment pt i p b s \<in> set (si_descriptors ix)"
    and "t \<in> set ts" "sint x \<le> sint t" "sint t \<le> sint y"
  shows "of_segment pt i p b s \<in> set (index_prune_by_time ix x y) \<and>
    (flatten_present vs \<noteq> [] \<longrightarrow> of_segment pt i p b s \<in> set (index_prune_present_by_time ix x y))"
  using index_prune_keeps_rows [OF assms] build_nullable_all_null [OF assms(1)]
    contains_timestamp_build_nullable [OF assms(1,3-5)] assms(2)
  by (auto simp: index_prune_present_by_time_def of_segment_overlaps of_segment_all_null)

theorem pruning_keeps_matching_segments_witness:
  "\<exists>s :: (int list, int) segment. of_segment (\<lambda>_. F64) 1 [] 9 s \<in> set (index_prune_by_time (index_push (of_segment (\<lambda>_. F64) 1 [] 9 s) index_new) 15 25) \<and>
    (flatten_present [Some (3 :: int), None] \<noteq> [] \<longrightarrow>
      of_segment (\<lambda>_. F64) 1 [] 9 s \<in> set (index_prune_present_by_time (index_push (of_segment (\<lambda>_. F64) 1 [] 9 s) index_new) 15 25))"
proof -
  obtain s where s: "build_nullable (\<lambda>vs. vs) [10, 20] [Some (3 :: int), None] Millis = Inr s"
    by (simp add: build_nullable_def Let_def)
  show ?thesis
    by (intro exI [of _ s] pruning_keeps_matching_segments [OF s, where t = 20]) (simp_all add: index_push_def)
qed

end
