(* ===== verification/Tags.thy ===== *)
theory Tags imports Timestamps Byte_Io "HOL-Library.List_Lexorder" "HOL-Library.Product_Lexorder" "HOL-Library.Multiset" begin

text \<open>
  Series tags, \<^verbatim>\<open>weft-physical-type/src/tags.rs\<close>: the rules of keys and values, the canonical bytes
  of a tag set, reading them back, and the selectors. A string is its UTF-8 bytes; \<open>Ord\<close> on
  strings is the lexicographic order of the bytes, the \<open>linorder\<close> of lists.
\<close>

unbundle bit_operations_syntax

subsection \<open>UTF-8 of the standard library\<close>

text \<open>What stands at the front of a non-empty byte string: a character of \<open>n\<close> bytes, or the maximal
  invalid part, of \<open>n\<close> bytes.\<close>

definition second_ok :: "u8 \<Rightarrow> u8 \<Rightarrow> bool" where
  "second_ok a b \<longleftrightarrow>
    (if a = 0xE0 then 0xA0 \<le> b \<and> b \<le> 0xBF
     else if a = 0xED then 0x80 \<le> b \<and> b \<le> 0x9F
     else if a = 0xF0 then 0x90 \<le> b \<and> b \<le> 0xBF
     else if a = 0xF4 then 0x80 \<le> b \<and> b \<le> 0x8F
     else utf8_tail b)"

fun utf8_step :: "u8 list \<Rightarrow> bool \<times> nat" where
  "utf8_step [] = (False, 0)"
| "utf8_step (a # bs) =
    (if a < 0x80 then (True, 1)
     else if a < 0xC2 \<or> 0xF4 < a then (False, 1)
     else case bs of [] \<Rightarrow> (False, 1) | b # cs \<Rightarrow>
       if \<not> second_ok a b then (False, 1)
       else if a < 0xE0 then (True, 2)
       else case cs of [] \<Rightarrow> (False, 2) | c # ds \<Rightarrow>
         if \<not> utf8_tail c then (False, 2)
         else if a < 0xF0 then (True, 3)
         else case ds of [] \<Rightarrow> (False, 3) | d # es \<Rightarrow>
           if utf8_tail d then (True, 4) else (False, 3))"

lemma utf8_step_pos: "0 < snd (utf8_step (a # bs))"
  by (auto split: list.splits)

function from_utf8_lossy :: "u8 list \<Rightarrow> u8 list" where
  "from_utf8_lossy bytes =
    (if bytes = [] then []
     else let (ok, n) = utf8_step bytes
          in (if ok then take n bytes else [0xEF, 0xBF, 0xBD]) @ from_utf8_lossy (drop n bytes))"
  by pat_completeness auto
termination
proof (relation "measure length", goal_cases)
  case (2 bytes x ok n)
  then show ?case using utf8_step_pos by (cases bytes) (auto split: if_splits list.splits)
qed simp

function valid_up_to :: "u8 list \<Rightarrow> nat" where
  "valid_up_to bytes =
    (if bytes = [] then 0
     else let (ok, n) = utf8_step bytes in if ok then n + valid_up_to (drop n bytes) else 0)"
  by pat_completeness auto
termination
proof (relation "measure length", goal_cases)
  case (2 bytes x ok n)
  then show ?case using utf8_step_pos by (cases bytes) (auto split: if_splits list.splits)
qed simp

declare from_utf8_lossy.simps [simp del] valid_up_to.simps [simp del]

definition is_char_boundary :: "u8 list \<Rightarrow> nat \<Rightarrow> bool" where
  "is_char_boundary text i \<longleftrightarrow>
    i = 0 \<or> i = length text \<or> (i < length text \<and> \<not> utf8_tail (text ! i))"

subsection \<open>The rules\<close>

definition max_tag_key_bytes :: nat where "max_tag_key_bytes = 128"
definition max_tag_value_bytes :: nat where "max_tag_value_bytes = 256"
definition max_tags :: nat where "max_tags = 16"
definition max_series_key_bytes :: nat where "max_series_key_bytes = 1024"
definition tag_key_value_separator :: u8 where "tag_key_value_separator = 0x1F"
definition tag_pair_separator :: u8 where "tag_pair_separator = 0x1E"
definition reserved_tag_key_prefix :: "u8 list" where "reserved_tag_key_prefix = [0x5F, 0x5F]"

datatype tag_error =
    EmptyKey
  | KeyTooLong "u8 list" nat
  | InvalidKey "u8 list" nat
  | ReservedKey "u8 list"
  | EmptyValue "u8 list"
  | ValueTooLong "u8 list" nat
  | ControlCharacter "u8 list" nat u8
  | ValueNotUtf8 "u8 list" nat
  | DuplicateKey "u8 list"
  | TooManyTags nat
  | SeriesKeyTooLong nat
  | UnsortedKeys "u8 list" "u8 list"
  | MissingSeparator nat

datatype reserved_keys = RejectReserved | AcceptReserved

fun back_to_boundary :: "u8 list \<Rightarrow> nat \<Rightarrow> nat" where
  "back_to_boundary text 0 = 0"
| "back_to_boundary text (Suc i) =
    (if is_char_boundary text (Suc i) then Suc i else back_to_boundary text i)"

definition key_for_error :: "u8 list \<Rightarrow> u8 list" where
  "key_for_error key =
    (let cut = min (length key) max_tag_key_bytes;
         cut = (if utf8_valid key then back_to_boundary key cut else cut)
     in from_utf8_lossy (take cut key))"

definition is_key_start :: "u8 \<Rightarrow> bool" where
  "is_key_start b \<longleftrightarrow> (0x41 \<le> b \<and> b \<le> 0x5A) \<or> (0x61 \<le> b \<and> b \<le> 0x7A) \<or> b = 0x5F"

definition is_key_byte :: "u8 \<Rightarrow> bool" where
  "is_key_byte b \<longleftrightarrow> (0x41 \<le> b \<and> b \<le> 0x5A) \<or> (0x61 \<le> b \<and> b \<le> 0x7A) \<or> (0x30 \<le> b \<and> b \<le> 0x39) \<or>
    b = 0x5F \<or> b = 0x2E \<or> b = 0x2D"

definition is_ascii_control :: "u8 \<Rightarrow> bool" where
  "is_ascii_control b \<longleftrightarrow> b < 0x20 \<or> b = 0x7F"

definition check_key :: "u8 list \<Rightarrow> reserved_keys \<Rightarrow> tag_error + u8 list" where
  "check_key key reserved =
    (case key of [] \<Rightarrow> Inl EmptyKey | first # rest \<Rightarrow>
     if max_tag_key_bytes < length key then Inl (KeyTooLong (key_for_error key) (length key))
     else if \<not> is_key_start first then Inl (InvalidKey (key_for_error key) 0)
     else case position (\<lambda>b. \<not> is_key_byte b) rest of
       Some offset \<Rightarrow> Inl (InvalidKey (key_for_error key) (offset + 1))
     | None \<Rightarrow>
       if reserved = RejectReserved \<and> take (length reserved_tag_key_prefix) key = reserved_tag_key_prefix
       then Inl (ReservedKey (key_for_error key))
       else if utf8_valid key then Inr key else Inl (InvalidKey (key_for_error key) (valid_up_to key)))"

definition check_value :: "u8 list \<Rightarrow> u8 list \<Rightarrow> tag_error + u8 list" where
  "check_value key v =
    (if v = [] then Inl (EmptyValue (key_for_error key))
     else if max_tag_value_bytes < length v then Inl (ValueTooLong (key_for_error key) (length v))
     else case position is_ascii_control v of
       Some index \<Rightarrow> Inl (ControlCharacter (key_for_error key) index (v ! index))
     | None \<Rightarrow> if utf8_valid v then Inr v else Inl (ValueNotUtf8 (key_for_error key) (valid_up_to v)))"

subsection \<open>Tag sets and their canonical key\<close>

definition push_pair :: "u8 list \<Rightarrow> u8 list \<times> u8 list \<Rightarrow> u8 list" where
  "push_pair canonical pair =
    (if canonical \<noteq> [] then canonical @ [tag_pair_separator] else canonical) @
    fst pair @ [tag_key_value_separator] @ snd pair"

fun check_pairs :: "(u8 list \<times> u8 list) list \<Rightarrow> tag_error + (u8 list \<times> u8 list) list" where
  "check_pairs [] = Inr []"
| "check_pairs ((key, v) # pairs) =
    (case check_key key RejectReserved of Inl e \<Rightarrow> Inl e | Inr key \<Rightarrow>
     case check_value key v of Inl e \<Rightarrow> Inl e | Inr v \<Rightarrow>
     case check_pairs pairs of Inl e \<Rightarrow> Inl e | Inr held \<Rightarrow> Inr ((key, v) # held))"

text \<open>The first key that its successor in the sorted list repeats.\<close>

fun repeated_key :: "(u8 list \<times> 'v) list \<Rightarrow> u8 list option" where
  "repeated_key (a # b # rest) = (if fst a = fst b then Some (fst a) else repeated_key (b # rest))"
| "repeated_key _ = None"

definition canonical_len :: "(u8 list \<times> u8 list) list \<Rightarrow> nat" where
  "canonical_len held = sum_list (map (\<lambda>(key, v). length key + 1 + length v) held) + (length held - 1)"

definition from_pairs :: "(u8 list \<times> u8 list) list \<Rightarrow> tag_error + u8 list" where
  "from_pairs pairs =
    (if max_tags < length pairs then Inl (TooManyTags (max_tags + 1))
     else case check_pairs pairs of Inl e \<Rightarrow> Inl e | Inr held \<Rightarrow>
     let held = sort_key fst held in
     case repeated_key held of Some key \<Rightarrow> Inl (DuplicateKey (key_for_error key)) | None \<Rightarrow>
     if max_series_key_bytes < canonical_len held then Inl (SeriesKeyTooLong (canonical_len held))
     else Inr (foldl push_pair [] held))"

fun split_on :: "u8 \<Rightarrow> u8 list \<Rightarrow> u8 list list" where
  "split_on sep [] = [[]]"
| "split_on sep (b # bs) =
    (if b = sep then [] # split_on sep bs
     else case split_on sep bs of p # ps \<Rightarrow> (b # p) # ps | [] \<Rightarrow> [[b]])"

text \<open>The loop of \<open>from_canonical\<close> over the pairs: the index, the previous key and the text so far.\<close>

fun canonical_loop :: "nat \<Rightarrow> u8 list option \<Rightarrow> u8 list \<Rightarrow> u8 list list \<Rightarrow> tag_error + u8 list" where
  "canonical_loop index previous canonical [] = Inr canonical"
| "canonical_loop index previous canonical (pair # pairs) =
    (case position (\<lambda>b. b = tag_key_value_separator) pair of
       None \<Rightarrow> Inl (MissingSeparator index)
     | Some at \<Rightarrow>
       let key = take at pair; v = drop (at + 1) pair in
       case check_key key AcceptReserved of Inl e \<Rightarrow> Inl e | Inr key_text \<Rightarrow>
       case check_value key v of Inl e \<Rightarrow> Inl e | Inr value_text \<Rightarrow>
       case previous of
         Some prev \<Rightarrow>
           if prev < key then canonical_loop (index + 1) (Some key) (push_pair canonical (key_text, value_text)) pairs
           else if prev = key then Inl (DuplicateKey (key_for_error key))
           else Inl (UnsortedKeys (key_for_error key) (key_for_error prev))
       | None \<Rightarrow> canonical_loop (index + 1) (Some key) (push_pair canonical (key_text, value_text)) pairs)"

definition from_canonical :: "u8 list \<Rightarrow> tag_error + u8 list" where
  "from_canonical bytes =
    (if max_series_key_bytes < length bytes then Inl (SeriesKeyTooLong (length bytes))
     else if bytes = [] then Inr []
     else let pairs = split_on tag_pair_separator bytes in
     case canonical_loop 0 None [] pairs of Inl e \<Rightarrow> Inl e | Inr canonical \<Rightarrow>
     if max_tags < length pairs then Inl (TooManyTags (length pairs)) else Inr canonical)"

text \<open>\<open>str::split_once\<close>, and the iterator over a canonical key.\<close>

definition split_once :: "u8 \<Rightarrow> u8 list \<Rightarrow> (u8 list \<times> u8 list) option" where
  "split_once sep s =
    (case position (\<lambda>b. b = sep) s of Some i \<Rightarrow> Some (take i s, drop (i + 1) s) | None \<Rightarrow> None)"

function tag_iter :: "u8 list \<Rightarrow> (u8 list \<times> u8 list) list" where
  "tag_iter rest =
    (if rest = [] then []
     else let (pair, rest') = (case split_once tag_pair_separator rest of Some s \<Rightarrow> s | None \<Rightarrow> (rest, []))
          in case split_once tag_key_value_separator pair of
               Some kv \<Rightarrow> kv # tag_iter rest'
             | None \<Rightarrow> [])"
  by pat_completeness auto
termination
proof (relation "measure length", simp, goal_cases)
  case (1 rest x pair rest' kv)
  have "length rest' < length rest"
  proof (cases "position (\<lambda>b. b = tag_pair_separator) rest")
    case None
    then have "rest' = []" using 1(2,3) by (simp add: split_once_def)
    then show ?thesis using 1(1) by simp
  next
    case (Some i)
    then have "rest' = drop (i + 1) rest" using 1(2,3) by (simp add: split_once_def)
    then show ?thesis using 1(1) by simp
  qed
  then show ?case by simp
qed

declare tag_iter.simps [simp del]

fun get_from :: "u8 list \<Rightarrow> (u8 list \<times> u8 list) list \<Rightarrow> u8 list option" where
  "get_from key [] = None"
| "get_from key ((candidate, v) # rest) =
    (if candidate < key then get_from key rest else if candidate = key then Some v else None)"

definition tag_get :: "u8 list \<Rightarrow> u8 list \<Rightarrow> u8 list option" where
  "tag_get canonical key = get_from key (tag_iter canonical)"

definition tag_len :: "u8 list \<Rightarrow> nat" where
  "tag_len canonical =
    (if canonical = [] then 0 else length (filter (\<lambda>b. b = tag_pair_separator) canonical) + 1)"

subsection \<open>Selectors\<close>

record series_selector =
  ss_matchers :: "(u8 list \<times> u8 list option) list"
  ss_exact :: bool

definition selector_all :: series_selector where
  "selector_all = \<lparr>ss_matchers = [], ss_exact = False\<rparr>"

definition selector_untagged :: series_selector where
  "selector_untagged = \<lparr>ss_matchers = [], ss_exact = True\<rparr>"

fun check_matchers :: "(u8 list \<times> u8 list option) list \<Rightarrow> tag_error + (u8 list \<times> u8 list option) list" where
  "check_matchers [] = Inr []"
| "check_matchers ((key, v) # matchers) =
    (case check_key key RejectReserved of Inl e \<Rightarrow> Inl e | Inr _ \<Rightarrow>
     case (case v of None \<Rightarrow> Inr None
           | Some w \<Rightarrow> (case check_value key w of Inl e \<Rightarrow> Inl e | Inr w \<Rightarrow> Inr (Some w))) of
       Inl e \<Rightarrow> Inl e | Inr v \<Rightarrow>
     case check_matchers matchers of Inl e \<Rightarrow> Inl e | Inr held \<Rightarrow> Inr ((key, v) # held))"

definition selector_build :: "(u8 list \<times> u8 list option) list \<Rightarrow> bool \<Rightarrow> tag_error + series_selector" where
  "selector_build matchers exact =
    (case check_matchers matchers of Inl e \<Rightarrow> Inl e | Inr held \<Rightarrow>
     let held = sort_key fst held in
     case repeated_key held of Some key \<Rightarrow> Inl (DuplicateKey (key_for_error key)) | None \<Rightarrow>
     Inr \<lparr>ss_matchers = held, ss_exact = exact\<rparr>)"

fun matches_loop :: "u8 list \<Rightarrow> (u8 list \<times> u8 list option) list \<Rightarrow> nat \<Rightarrow> nat option" where
  "matches_loop canonical [] valued = Some valued"
| "matches_loop canonical ((key, wanted) # matchers) valued =
    (let found = tag_get canonical key in
     case wanted of
       Some v \<Rightarrow> if found \<noteq> Some v then None else matches_loop canonical matchers (valued + 1)
     | None \<Rightarrow> if found \<noteq> None then None else matches_loop canonical matchers valued)"

definition selector_matches :: "series_selector \<Rightarrow> u8 list \<Rightarrow> bool" where
  "selector_matches sel canonical =
    (case matches_loop canonical (ss_matchers sel) 0 of None \<Rightarrow> False
     | Some valued \<Rightarrow> \<not> ss_exact sel \<or> tag_len canonical = valued)"

text \<open>The inner \<open>while\<close> of \<open>matches_key\<close>: what was found, the pairs left and how many were passed.\<close>

fun walk_to :: "u8 list \<Rightarrow> (u8 list \<times> u8 list) list \<Rightarrow> nat \<Rightarrow> u8 list option \<times> (u8 list \<times> u8 list) list \<times> nat" where
  "walk_to wanted [] seen = (None, [], seen)"
| "walk_to wanted ((candidate, v) # pairs) seen =
    (if candidate < wanted then walk_to wanted pairs (seen + 1)
     else if candidate = wanted then (Some v, pairs, seen + 1)
     else (None, (candidate, v) # pairs, seen))"

fun matches_key_loop ::
  "(u8 list \<times> u8 list) list \<Rightarrow> (u8 list \<times> u8 list option) list \<Rightarrow> nat \<Rightarrow> nat \<Rightarrow> (nat \<times> nat) option" where
  "matches_key_loop pairs [] seen valued = Some (seen + length pairs, valued)"
| "matches_key_loop pairs ((wanted_key, wanted) # matchers) seen valued =
    (let (found, pairs', seen') = walk_to wanted_key pairs seen in
     case wanted of
       Some v \<Rightarrow> if found \<noteq> Some v then None else matches_key_loop pairs' matchers seen' (valued + 1)
     | None \<Rightarrow> if found \<noteq> None then None else matches_key_loop pairs' matchers seen' valued)"

definition selector_matches_key :: "series_selector \<Rightarrow> u8 list \<Rightarrow> bool" where
  "selector_matches_key sel canonical =
    (case matches_key_loop (tag_iter canonical) (ss_matchers sel) 0 0 of None \<Rightarrow> False
     | Some (seen, valued) \<Rightarrow> \<not> ss_exact sel \<or> seen = valued)"

subsection \<open>What the checks establish\<close>

definition pair_text :: "u8 list \<times> u8 list \<Rightarrow> u8 list" where
  "pair_text p = fst p @ [tag_key_value_separator] @ snd p"

text \<open>Separators sort below every byte of a valid key or value.\<close>

abbreviation above_separators :: "u8 list \<Rightarrow> bool" where
  "above_separators bs \<equiv> \<forall>b\<in>set bs. 0x1F < b"

definition tag_ok :: "u8 list \<times> u8 list \<Rightarrow> bool" where
  "tag_ok p \<longleftrightarrow> check_key (fst p) AcceptReserved = Inr (fst p) \<and> check_value (fst p) (snd p) = Inr (snd p)"

lemma is_key_byte_above: "is_key_byte b \<Longrightarrow> 0x1F < b"
  unfolding is_key_byte_def by (auto simp: word_less_nat_alt word_le_nat_alt)

lemma key_start_above: "is_key_start b \<Longrightarrow> 0x1F < b"
  unfolding is_key_start_def by (auto simp: word_less_nat_alt word_le_nat_alt)

lemma not_control_above: "\<not> is_ascii_control b \<Longrightarrow> 0x1F < b"
  unfolding is_ascii_control_def by (auto simp: word_less_nat_alt)

lemma check_key_InrD:
  assumes "check_key key r = Inr k"
  shows "k = key" "key \<noteq> []" "above_separators key" "check_key key AcceptReserved = Inr key"
  using assms unfolding check_key_def
  by (auto simp: position_None is_key_byte_above key_start_above simp del: utf8_valid.simps
      split: list.split_asm if_split_asm option.split_asm)

lemma check_value_InrD:
  assumes "check_value key v = Inr w"
  shows "w = v" "v \<noteq> []" "above_separators v"
  using assms unfolding check_value_def
  by (auto simp: position_None not_control_above split: if_splits option.splits)

lemma tag_okD:
  "tag_ok p \<Longrightarrow> above_separators (fst p) \<and> above_separators (snd p) \<and> fst p \<noteq> [] \<and> snd p \<noteq> []"
  unfolding tag_ok_def using check_key_InrD(2,3) check_value_InrD(2,3) by blast

lemma above_not_separator:
  "above_separators bs \<Longrightarrow> tag_pair_separator \<notin> set bs \<and> tag_key_value_separator \<notin> set bs"
  unfolding tag_pair_separator_def tag_key_value_separator_def
  by (auto dest: bspec [where x = "0x1E"] bspec [where x = "0x1F"])

subsection \<open>The canonical text\<close>

definition canonical_text :: "(u8 list \<times> u8 list) list \<Rightarrow> u8 list" where
  "canonical_text ps = foldl push_pair [] ps"

definition tail_text :: "(u8 list \<times> u8 list) list \<Rightarrow> u8 list" where
  "tail_text ps = concat (map (\<lambda>p. tag_pair_separator # pair_text p) ps)"

lemma foldl_push_pair: "c \<noteq> [] \<Longrightarrow> foldl push_pair c ps = c @ tail_text ps"
  by (induction ps arbitrary: c) (auto simp: push_pair_def tail_text_def pair_text_def)

lemma canonical_text_simps [simp]:
  "canonical_text [] = []"
  "canonical_text (p # ps) = pair_text p @ tail_text ps"
  by (simp_all add: canonical_text_def push_pair_def foldl_push_pair pair_text_def)

lemma tail_text_simps [simp]:
  "tail_text [] = []"
  "tail_text (p # ps) = tag_pair_separator # pair_text p @ tail_text ps"
  by (simp_all add: tail_text_def)

lemma length_canonical_text: "length (canonical_text ps) = canonical_len ps"
proof -
  have "length (tail_text ps) = sum_list (map (\<lambda>(key, v). length key + 1 + length v) ps) + length ps" for ps
    by (induction ps) (auto simp: pair_text_def)
  then show ?thesis by (cases ps) (auto simp: canonical_len_def pair_text_def)
qed

lemma split_on_absent: "sep \<notin> set xs \<Longrightarrow> split_on sep xs = [xs]"
  by (induction xs) auto

lemma split_on_append: "sep \<notin> set xs \<Longrightarrow> split_on sep (xs @ sep # ys) = xs # split_on sep ys"
  by (induction xs) auto

lemma tagokD_sep: "tag_ok p \<Longrightarrow> tag_key_value_separator \<notin> set (fst p)"
  using tag_okD [of p] above_not_separator [of "fst p"] by auto

lemma pair_text_no_separator: "tag_ok p \<Longrightarrow> tag_pair_separator \<notin> set (pair_text p)"
  using tag_okD [of p] above_not_separator
  by (auto simp: pair_text_def tag_pair_separator_def tag_key_value_separator_def)

lemma split_canonical_text:
  "\<forall>p\<in>set (p # ps). tag_ok p \<Longrightarrow> split_on tag_pair_separator (canonical_text (p # ps)) = map pair_text (p # ps)"
proof (induction ps arbitrary: p)
  case Nil
  then show ?case by (simp add: split_on_absent pair_text_no_separator)
next
  case (Cons q ps)
  then show ?case by (simp add: split_on_append pair_text_no_separator)
qed

text \<open>Splitting loses nothing.\<close>

lemma split_on_ne [simp]: "split_on sep bs \<noteq> []"
  by (induction bs) (auto split: list.splits)

lemma split_on_join:
  "split_on sep bs = p # ps \<Longrightarrow> bs = p @ concat (map (\<lambda>q. sep # q) ps)"
proof (induction bs arbitrary: p ps)
  case (Cons b bs)
  obtain q qs where q: "split_on sep bs = q # qs" by (cases "split_on sep bs") auto
  show ?case
  proof (cases "b = sep")
    case True
    then show ?thesis using Cons q by auto
  next
    case False
    then show ?thesis using Cons q by auto
  qed
qed auto

lemma position_separator:
  "position (\<lambda>b. b = sep) (xs @ sep # ys) = Some (length xs)" if "sep \<notin> set xs"
  using that by (auto simp: position_Some nth_append in_set_conv_nth)

lemma position_split: "position (\<lambda>b. b = sep) xs = Some i \<Longrightarrow> xs = take i xs @ sep # drop (i + 1) xs"
  by (auto simp: position_Some Cons_nth_drop_Suc)

lemma split_once_append: "sep \<notin> set xs \<Longrightarrow> split_once sep (xs @ sep # ys) = Some (xs, ys)"
  by (simp add: split_once_def position_separator)

lemma split_once_absent: "sep \<notin> set xs \<Longrightarrow> split_once sep xs = None"
  by (auto simp: split_once_def position_None split: option.splits dest: position_split)

lemma tag_iter_canonical: "\<forall>p\<in>set ps. tag_ok p \<Longrightarrow> tag_iter (canonical_text ps) = ps"
proof (induction ps)
  case Nil
  then show ?case by (simp add: tag_iter.simps)
next
  case (Cons p ps)
  then have ok: "tag_ok p" by simp
  have kv: "split_once tag_key_value_separator (pair_text p) = Some p"
    using split_once_append [of tag_key_value_separator "fst p" "snd p"] tag_okD [OF ok] above_not_separator
    by (simp add: pair_text_def)
  have ne: "canonical_text (p # ps) \<noteq> []" by (simp add: pair_text_def)
  have "(case split_once tag_pair_separator (canonical_text (p # ps)) of Some s \<Rightarrow> s | None \<Rightarrow> (canonical_text (p # ps), []))
      = (pair_text p, canonical_text ps)"
    using pair_text_no_separator [OF ok]
    by (cases ps) (simp_all add: split_once_absent split_once_append)
  with ne kv Cons show ?case by (subst tag_iter.simps) simp
qed

subsection \<open>Reading stored bytes\<close>

text \<open>A canonical list of tags: valid, strictly ascending by key, within the caps.\<close>

definition canonical_tags :: "(u8 list \<times> u8 list) list \<Rightarrow> bool" where
  "canonical_tags ps \<longleftrightarrow> (\<forall>p\<in>set ps. tag_ok p) \<and> sorted_wrt (<) (map fst ps) \<and>
    length ps \<le> max_tags \<and> length (canonical_text ps) \<le> max_series_key_bytes"

lemma canonical_loop_texts:
  assumes "\<forall>p\<in>set ps. tag_ok p" "sorted_wrt (<) (map fst ps)" "\<forall>q. previous = Some q \<longrightarrow> (\<forall>p\<in>set ps. q < fst p)"
  shows "canonical_loop i previous c (map pair_text ps) = Inr (foldl push_pair c ps)"
  using assms
proof (induction ps arbitrary: i previous c)
  case (Cons p ps)
  have ok: "tag_ok p" using Cons.prems by simp
  have pos: "position (\<lambda>b. b = tag_key_value_separator) (pair_text p) = Some (length (fst p))"
    using position_separator [of tag_key_value_separator "fst p" "snd p"] tagokD_sep [OF ok]
    by (simp add: pair_text_def)
  have cut: "take (length (fst p)) (pair_text p) = fst p" "drop (length (fst p) + 1) (pair_text p) = snd p"
    by (simp_all add: pair_text_def)
  have ih: "canonical_loop (i + 1) (Some (fst p)) (push_pair c p) (map pair_text ps) = Inr (foldl push_pair c (p # ps))"
    using Cons by auto
  have chk: "check_key (fst p) AcceptReserved = Inr (fst p)" "check_value (fst p) (snd p) = Inr (snd p)"
    using ok by (simp_all add: tag_ok_def)
  have lt: "q < fst p" if "previous = Some q" for q using Cons.prems(3) that by simp
  show ?case
    by (cases previous) (use lt in \<open>simp_all only: list.map canonical_loop.simps pos option.case Let_def cut chk
      sum.case prod.collapse ih if_True simp_thms\<close>)
qed simp

lemma canonical_loop_InrD:
  "canonical_loop i previous c pairs = Inr k \<Longrightarrow> \<exists>ps. pairs = map pair_text ps \<and> (\<forall>p\<in>set ps. tag_ok p) \<and>
    sorted_wrt (<) (map fst ps) \<and> (\<forall>q. previous = Some q \<longrightarrow> (\<forall>p\<in>set ps. q < fst p)) \<and> k = foldl push_pair c ps"
proof (induction pairs arbitrary: i previous c)
  case (Cons pair pairs)
  obtain at where at: "position (\<lambda>b. b = tag_key_value_separator) pair = Some at"
    using Cons.prems by (cases "position (\<lambda>b. b = tag_key_value_separator) pair") auto
  let ?p = "(take at pair, drop (at + 1) pair)"
  obtain kt where kt: "check_key (fst ?p) AcceptReserved = Inr kt"
    using Cons.prems at by (cases "check_key (fst ?p) AcceptReserved") (auto simp: Let_def)
  obtain vt where vt: "check_value (fst ?p) (snd ?p) = Inr vt"
    using Cons.prems at kt by (cases "check_value (fst ?p) (snd ?p)") (auto simp: Let_def)
  have eq: "kt = fst ?p" "vt = snd ?p" using check_key_InrD(1) [OF kt] check_value_InrD(1) [OF vt] by auto
  have lt: "q < fst ?p" if "previous = Some q" for q
    using Cons.prems at kt vt that by (auto simp: Let_def split: if_splits)
  have "canonical_loop (i + 1) (Some (fst ?p)) (push_pair c ?p) pairs = Inr k"
    using Cons.prems at kt vt eq lt by (cases previous) (auto simp: Let_def)
  from Cons.IH [OF this] obtain ps where ps: "pairs = map pair_text ps" "\<forall>p\<in>set ps. tag_ok p"
    "sorted_wrt (<) (map fst ps)" "\<forall>p\<in>set ps. fst ?p < fst p" "k = foldl push_pair (push_pair c ?p) ps"
    by auto
  have "pair = pair_text ?p" using position_split [OF at] by (simp add: pair_text_def)
  moreover have "tag_ok ?p" using kt vt eq by (simp add: tag_ok_def)
  ultimately show ?case
    using ps lt by (intro exI [of _ "?p # ps"]) (auto intro: less_trans)
qed simp

lemma from_canonical_iff:
  "from_canonical bytes = Inr k \<longleftrightarrow> k = bytes \<and> (\<exists>ps. canonical_tags ps \<and> bytes = canonical_text ps)"
proof (cases "bytes = []")
  case True
  moreover have "canonical_tags []" by (simp add: canonical_tags_def)
  ultimately show ?thesis by (auto simp: from_canonical_def intro!: exI [of _ "[]"])
next
  case ne: False
  obtain q qs where split: "split_on tag_pair_separator bytes = q # qs"
    by (cases "split_on tag_pair_separator bytes") auto
  show ?thesis
  proof
    assume r: "from_canonical bytes = Inr k"
    then have loop: "canonical_loop 0 None [] (split_on tag_pair_separator bytes) = Inr k"
      and len: "length (split_on tag_pair_separator bytes) \<le> max_tags" "length bytes \<le> max_series_key_bytes"
      using ne by (auto simp: from_canonical_def Let_def split: if_splits sum.splits)
    from canonical_loop_InrD [OF loop] obtain ps where ps: "split_on tag_pair_separator bytes = map pair_text ps"
      "\<forall>p\<in>set ps. tag_ok p" "sorted_wrt (<) (map fst ps)" "k = foldl push_pair [] ps" by blast
    then obtain p ps' where p: "ps = p # ps'" using split by (cases ps) auto
    have "bytes = canonical_text ps"
      using split_on_join [of tag_pair_separator bytes "pair_text p" "map pair_text ps'"] ps(1) p
      by (simp add: tail_text_def comp_def)
    then show "k = bytes \<and> (\<exists>ps. canonical_tags ps \<and> bytes = canonical_text ps)"
      using ps len by (auto simp: canonical_tags_def canonical_text_def)
  next
    assume "k = bytes \<and> (\<exists>ps. canonical_tags ps \<and> bytes = canonical_text ps)"
    then obtain ps where ps: "k = bytes" "canonical_tags ps" "bytes = canonical_text ps" by blast
    then obtain p ps' where p: "ps = p # ps'" using ne by (cases ps) auto
    have "split_on tag_pair_separator bytes = map pair_text ps"
      using split_canonical_text [of p ps'] ps p by (auto simp: canonical_tags_def)
    then show "from_canonical bytes = Inr k"
      using ps ne canonical_loop_texts [of ps None 0 "[]"]
      by (simp add: from_canonical_def canonical_tags_def canonical_text_def)
  qed
qed

subsection \<open>Building a tag set\<close>

definition tag_new_ok :: "u8 list \<times> u8 list \<Rightarrow> bool" where
  "tag_new_ok p \<longleftrightarrow> check_key (fst p) RejectReserved = Inr (fst p) \<and> check_value (fst p) (snd p) = Inr (snd p)"

lemma tag_new_okD: "tag_new_ok p \<Longrightarrow> tag_ok p"
  unfolding tag_new_ok_def tag_ok_def using check_key_InrD(4) by blast

lemma check_pairs_iff: "check_pairs ps = Inr held \<longleftrightarrow> held = ps \<and> (\<forall>p\<in>set ps. tag_new_ok p)"
proof (induction ps arbitrary: held rule: check_pairs.induct)
  case (2 key v ps)
  show ?case
  proof (cases "check_key key RejectReserved")
    case (Inr k)
    then have k: "k = key" by (rule check_key_InrD(1))
    show ?thesis
    proof (cases "check_value key v")
      case v: (Inr w)
      then have "w = v" by (rule check_value_InrD(1))
      with 2 Inr k v show ?thesis by (cases "check_pairs ps") (auto simp: tag_new_ok_def)
    qed (use Inr k in \<open>auto simp: tag_new_ok_def\<close>)
  qed (auto simp: tag_new_ok_def)
qed auto

lemma repeated_key_None:
  "sorted (map fst ps) \<Longrightarrow> repeated_key ps = None \<longleftrightarrow> sorted_wrt (<) (map fst ps)"
proof (induction ps rule: repeated_key.induct)
  case (1 a b rest)
  then show ?case by (auto simp: less_le intro: order_trans)
qed auto

lemma from_pairs_iff:
  "from_pairs ps = Inr k \<longleftrightarrow> (\<forall>p\<in>set ps. tag_new_ok p) \<and> canonical_tags (sort_key fst ps) \<and>
    k = canonical_text (sort_key fst ps)"
proof -
  have "repeated_key (sort_key fst ps) = None \<longleftrightarrow> sorted_wrt (<) (map fst (sort_key fst ps))"
    by (rule repeated_key_None) simp
  note rep = this
  show ?thesis
  proof (cases "\<forall>p\<in>set ps. tag_new_ok p")
    case True
    then have held: "check_pairs ps = Inr ps" by (simp add: check_pairs_iff)
    have ok: "\<forall>p\<in>set (sort_key fst ps). tag_ok p" using True tag_new_okD by auto
    show ?thesis
    proof (cases "repeated_key (sort_key fst ps)")
      case None
      with rep have "sorted_wrt (<) (map fst (sort_key fst ps))" by simp
      with None held True ok show ?thesis
        by (auto simp: from_pairs_def canonical_tags_def Let_def length_canonical_text [symmetric]
            canonical_text_def [symmetric] split: if_splits)
    qed (use rep held True in \<open>auto simp: from_pairs_def canonical_tags_def\<close>)
  next
    case False
    then have "check_pairs ps \<noteq> Inr held" for held by (simp add: check_pairs_iff)
    with False show ?thesis by (cases "check_pairs ps") (auto simp: from_pairs_def)
  qed
qed

lemma canonical_text_inj:
  "\<forall>p\<in>set ps. tag_ok p \<Longrightarrow> \<forall>p\<in>set qs. tag_ok p \<Longrightarrow> canonical_text ps = canonical_text qs \<longleftrightarrow> ps = qs"
  using tag_iter_canonical by metis

lemma from_pairs_eq_iff:
  assumes "from_pairs ps = Inr k" "from_pairs qs = Inr l"
  shows "k = l \<longleftrightarrow> mset ps = mset qs"
proof
  assume "k = l"
  then have "sort_key fst ps = sort_key fst qs"
    using assms canonical_text_inj by (auto simp: from_pairs_iff canonical_tags_def)
  then show "mset ps = mset qs" by (metis mset_sort)
next
  assume eq: "mset ps = mset qs"
  have d: "distinct (map fst (sort_key fst qs))" "sorted (map fst (sort_key fst ps))" "sorted (map fst (sort_key fst qs))"
    using assms(2) by (auto simp: from_pairs_iff canonical_tags_def strict_sorted_iff)
  have "sort_key fst ps = sort_key fst qs"
  proof (rule map_sorted_distinct_set_unique [where f = fst])
    show "set (sort_key fst ps) = set (sort_key fst qs)" using eq by (metis set_mset_mset set_sort)
    show "inj_on fst (set (sort_key fst ps) \<union> set (sort_key fst qs))"
      using d(1) eq by (simp add: distinct_map) (metis set_mset_mset sup.idem)
    show "distinct (map fst (sort_key fst ps))"
      using assms(1) by (auto simp: from_pairs_iff canonical_tags_def strict_sorted_iff)
  qed (use d in auto)
  then show "k = l" using assms by (simp add: from_pairs_iff)
qed

subsection \<open>The order of canonical keys\<close>

lemma append_less_same: "xs @ a < xs @ b \<longleftrightarrow> a < (b :: u8 list)"
  by (induction xs) auto

lemma Nil_less_iff: "[] < xs \<longleftrightarrow> (xs :: u8 list) \<noteq> []"
  by (cases xs) auto

lemma less_append_above:
  assumes "\<forall>b\<in>set xs. m < b" "\<forall>b\<in>set ys. m < b" "xs \<noteq> ys"
    and "R = [] \<or> hd R \<le> m" "S = [] \<or> hd S \<le> m"
  shows "xs @ R < ys @ S \<longleftrightarrow> xs < (ys :: u8 list)"
  using assms(1-3)
proof (induction xs ys rule: list_induct2')
  case (2 x xs)
  then have "\<not> x # xs @ R < S" using assms(5) by (cases S) auto
  then show ?case by simp
next
  case (3 y ys)
  then have "R < y # ys @ S" using assms(4) by (cases R) auto
  then show ?case by simp
qed auto

lemma tail_text_hd: "tail_text ps = [] \<or> hd (tail_text ps) \<le> 0x1F"
  by (cases ps) (simp_all add: tag_pair_separator_def)

lemma pair_text_less:
  assumes "tag_ok p" "tag_ok q" "p \<noteq> q" "R = [] \<or> hd R \<le> 0x1F" "S = [] \<or> hd S \<le> 0x1F"
  shows "pair_text p @ R < pair_text q @ S \<longleftrightarrow> p < q"
proof (cases "fst p = fst q")
  case True
  then have "snd p \<noteq> snd q" using assms(3) by (simp add: prod_eq_iff)
  then have "snd p @ R < snd q @ S \<longleftrightarrow> snd p < snd q"
    using tag_okD [OF assms(1)] tag_okD [OF assms(2)] assms(4,5) by (intro less_append_above) auto
  then show ?thesis using True by (simp add: pair_text_def less_prod_def' append_less_same)
next
  case False
  have "fst p @ ([tag_key_value_separator] @ snd p @ R) < fst q @ ([tag_key_value_separator] @ snd q @ S) \<longleftrightarrow> fst p < fst q"
    using tag_okD [OF assms(1)] tag_okD [OF assms(2)] False
    by (intro less_append_above [where m = "0x1F"]) (auto simp: tag_key_value_separator_def)
  then show ?thesis using False by (simp add: pair_text_def less_prod_def')
qed

lemma tail_text_less:
  "\<forall>p\<in>set ps. tag_ok p \<Longrightarrow> \<forall>p\<in>set qs. tag_ok p \<Longrightarrow> tail_text ps < tail_text qs \<longleftrightarrow> ps < qs"
proof (induction ps qs rule: list_induct2')
  case (4 p ps q qs)
  then show ?case
    using pair_text_less [of p q "tail_text ps" "tail_text qs"] tail_text_hd
    by (cases "p = q") (auto simp: append_less_same)
qed auto

lemma canonical_text_less:
  assumes "\<forall>p\<in>set ps. tag_ok p" "\<forall>p\<in>set qs. tag_ok p"
  shows "canonical_text ps < canonical_text qs \<longleftrightarrow> ps < qs"
proof -
  have "canonical_text ps < canonical_text qs \<longleftrightarrow> tail_text ps < tail_text qs"
    by (cases ps; cases qs) (auto simp: pair_text_def Nil_less_iff)
  then show ?thesis using tail_text_less [OF assms] by simp
qed

subsection \<open>Selectors\<close>

text \<open>What a matcher asks of a tag set, and how many matchers carry a value.\<close>

definition matcher_holds :: "(u8 list \<times> u8 list) list \<Rightarrow> u8 list \<times> u8 list option \<Rightarrow> bool" where
  "matcher_holds ps m \<longleftrightarrow> map_of ps (fst m) = snd m"

definition valued_count :: "(u8 list \<times> u8 list option) list \<Rightarrow> nat" where
  "valued_count ms = length (filter (\<lambda>m. snd m \<noteq> None) ms)"

lemma get_from_map_of: "sorted_wrt (<) (map fst ps) \<Longrightarrow> get_from key ps = map_of ps key"
proof (induction ps)
  case (Cons p ps)
  have "map_of ps key = None" if "key \<le> fst p"
    using Cons.prems that by (fastforce simp: map_of_eq_None_iff)
  with Cons show ?case by (cases p) auto
qed simp

lemma tag_get_canonical:
  "canonical_tags ps \<Longrightarrow> tag_get (canonical_text ps) key = map_of ps key"
  by (simp add: tag_get_def canonical_tags_def tag_iter_canonical get_from_map_of)

lemma filter_separator_absent: "sep \<notin> set bs \<Longrightarrow> filter (\<lambda>b. b = sep) bs = []"
  by (auto simp: filter_empty_conv)

lemma tag_len_canonical:
  assumes "\<forall>p\<in>set ps. tag_ok p"
  shows "tag_len (canonical_text ps) = length ps"
proof -
  have "length (filter (\<lambda>b. b = tag_pair_separator) (tail_text ps)) = length ps"
    using assms by (induction ps) (auto simp: filter_separator_absent pair_text_no_separator)
  moreover have "canonical_text (p # qs) \<noteq> []" for p qs by (simp add: pair_text_def)
  ultimately show ?thesis
    using assms by (cases ps) (auto simp: tag_len_def filter_separator_absent pair_text_no_separator)
qed

lemma matches_loop_eq:
  assumes "canonical_tags ps"
  shows "matches_loop (canonical_text ps) ms n =
    (if \<forall>m\<in>set ms. matcher_holds ps m then Some (n + valued_count ms) else None)"
proof (induction ms arbitrary: n)
  case (Cons m ms)
  obtain key w where m: "m = (key, w)" by (cases m)
  show ?case
    by (cases w) (auto simp: m Cons matcher_holds_def valued_count_def tag_get_canonical [OF assms])
qed (simp add: valued_count_def)

lemma walk_to_eq:
  assumes "sorted_wrt (<) (map fst ps)"
  shows "\<exists>qs. walk_to key ps seen = (map_of ps key, qs, seen + (length ps - length qs)) \<and> length qs \<le> length ps \<and>
    sorted_wrt (<) (map fst qs) \<and> (\<forall>k > key. map_of qs k = map_of ps k)"
  using assms
proof (induction ps arbitrary: seen)
  case (Cons p ps)
  obtain c v where p: "p = (c, v)" by (cases p)
  consider "c < key" | "c = key" | "key < c" by (rule linorder_cases)
  then show ?case
  proof cases
    case 1
    have "sorted_wrt (<) (map fst ps)" using Cons.prems by simp
    from Cons.IH [OF this, of "seen + 1"] obtain qs where "walk_to key ps (seen + 1) = (map_of ps key, qs, seen + 1 + (length ps - length qs))"
      "length qs \<le> length ps" "sorted_wrt (<) (map fst qs)" "\<forall>k > key. map_of qs k = map_of ps k"
      by blast
    with 1 show ?thesis by (intro exI [of _ qs]) (auto simp: p)
  next
    case 2
    then show ?thesis using Cons.prems by (intro exI [of _ ps]) (auto simp: p)
  next
    case 3
    then have "map_of (p # ps) key = None"
      using Cons.prems by (fastforce simp: p map_of_eq_None_iff)
    with 3 show ?thesis using Cons.prems by (intro exI [of _ "p # ps"]) (auto simp: p)
  qed
qed simp

lemma matches_key_loop_eq:
  assumes "sorted_wrt (<) (map fst ps)" "sorted_wrt (<) (map fst ms)"
  shows "matches_key_loop ps ms seen n =
    (if \<forall>m\<in>set ms. matcher_holds ps m then Some (seen + length ps, n + valued_count ms) else None)"
  using assms
proof (induction ms arbitrary: ps seen n)
  case (Cons m ms)
  obtain key w where m: "m = (key, w)" by (cases m)
  obtain qs where qs: "walk_to key ps seen = (map_of ps key, qs, seen + (length ps - length qs))" "length qs \<le> length ps"
    "sorted_wrt (<) (map fst qs)" "\<forall>k > key. map_of qs k = map_of ps k"
    using walk_to_eq [OF Cons.prems(1)] by blast
  have "\<forall>m'\<in>set ms. matcher_holds qs m' \<longleftrightarrow> matcher_holds ps m'"
    using Cons.prems(2) qs(4) by (auto simp: m matcher_holds_def)
  then have ih: "matches_key_loop qs ms seen' n' =
      (if \<forall>m\<in>set ms. matcher_holds ps m then Some (seen' + length qs, n' + valued_count ms) else None)" for seen' n'
    using Cons qs(3) by auto
  show ?case
    using qs(1,2) ih by (cases w) (auto simp: m matcher_holds_def valued_count_def)
qed (simp add: valued_count_def)

lemma check_matchers_InrD: "check_matchers ms = Inr held \<Longrightarrow> held = ms"
proof (induction ms arbitrary: held)
  case (Cons m ms)
  obtain key v where m: "m = (key, v)" by (cases m)
  obtain k where k: "check_key key RejectReserved = Inr k"
    using Cons.prems by (cases "check_key key RejectReserved") (auto simp: m)
  define chk where "chk = (case v of None \<Rightarrow> Inr None
           | Some w \<Rightarrow> (case check_value key w of Inl e \<Rightarrow> Inl e | Inr w \<Rightarrow> Inr (Some w)))"
  have eq: "check_matchers (m # ms) = (case chk of Inl e \<Rightarrow> Inl e | Inr v \<Rightarrow>
      case check_matchers ms of Inl e \<Rightarrow> Inl e | Inr held \<Rightarrow> Inr ((key, v) # held))"
    by (simp add: m k chk_def)
  obtain v' where v': "chk = Inr v'" using Cons.prems unfolding eq by (cases chk) simp_all
  then have "v' = v"
    by (auto simp: chk_def dest: check_value_InrD(1) split: option.split_asm sum.split_asm)
  moreover have "(case check_matchers ms of Inl e \<Rightarrow> Inl e | Inr held \<Rightarrow> Inr ((key, v') # held)) = Inr held"
    using Cons.prems unfolding eq v' by (simp only: sum.case)
  then obtain h where "check_matchers ms = Inr h" "held = (key, v') # h"
    by (cases "check_matchers ms") simp_all
  ultimately show ?case using Cons.IH by (simp add: m)
qed simp

lemma selector_build_InrD:
  assumes "selector_build ms exact = Inr sel"
  shows "ss_matchers sel = sort_key fst ms" "ss_exact sel = exact" "sorted_wrt (<) (map fst (ss_matchers sel))"
proof -
  obtain held where held: "check_matchers ms = Inr held" using assms by (cases "check_matchers ms") (auto simp: selector_build_def)
  have "held = ms" using held by (rule check_matchers_InrD)
  then have none: "repeated_key (sort_key fst ms) = None" and sel: "sel = \<lparr>ss_matchers = sort_key fst ms, ss_exact = exact\<rparr>"
    using assms held by (auto simp: selector_build_def Let_def split: option.splits)
  show "ss_matchers sel = sort_key fst ms" "ss_exact sel = exact" by (simp_all add: sel)
  show "sorted_wrt (<) (map fst (ss_matchers sel))"
    using none repeated_key_None [of "sort_key fst ms"] by (simp add: sel)
qed

lemma selector_matches_eq:
  assumes "selector_build ms exact = Inr sel" "canonical_tags ps"
  shows "selector_matches sel (canonical_text ps) \<longleftrightarrow>
    (\<forall>m\<in>set ms. matcher_holds ps m) \<and> (exact \<longrightarrow> length ps = valued_count (ss_matchers sel))"
  using selector_build_InrD [OF assms(1)] assms(2)
  by (auto simp: selector_matches_def matches_loop_eq canonical_tags_def tag_len_canonical)

lemma selector_matches_key_eq:
  assumes "selector_build ms exact = Inr sel" "canonical_tags ps"
  shows "selector_matches_key sel (canonical_text ps) = selector_matches sel (canonical_text ps)"
  using selector_build_InrD [OF assms(1)] assms(2) selector_matches_eq [OF assms]
  by (auto simp: selector_matches_key_def matches_key_loop_eq canonical_tags_def tag_iter_canonical)

lemma map_of_sort_distinct:
  assumes "distinct (map fst (sort_key fst ps))"
  shows "map_of (sort_key fst ps) = map_of ps"
proof -
  have "distinct (map fst ps)"
    using assms mset_eq_imp_distinct_iff [of "map fst (sort_key fst ps)" "map fst ps"] by simp
  then show ?thesis using map_of_inject_set [OF assms] by simp
qed

subsection \<open>Properties\<close>

text \<open>
  C32: The canonical key of a tag set built from pairs in any order is accepted back byte for
  byte, and reading it gives the pairs sorted by key, their number, and the value of every key.
\<close>

theorem series_key_round_trip:
  assumes "from_pairs ps = Inr k"
  shows "from_canonical k = Inr k \<and> tag_iter k = sort_key fst ps \<and> tag_len k = length ps \<and>
    (\<forall>key. tag_get k key = map_of ps key)"
proof -
  have c: "canonical_tags (sort_key fst ps)" "k = canonical_text (sort_key fst ps)"
    using assms by (simp_all add: from_pairs_iff)
  have "map_of (sort_key fst ps) = map_of ps"
    using c(1) by (intro map_of_sort_distinct) (auto simp: canonical_tags_def strict_sorted_iff)
  moreover have "from_canonical k = Inr k" using c from_canonical_iff by blast
  moreover have "\<forall>p\<in>set (sort_key fst ps). tag_ok p" using c(1) unfolding canonical_tags_def by blast
  ultimately show ?thesis
    using c tag_iter_canonical tag_len_canonical [of "sort_key fst ps"] tag_get_canonical by simp
qed

theorem series_key_round_trip_witness:
  "from_canonical [0x61, 0x1F, 0x79, 0x1E, 0x62, 0x1F, 0x78] = Inr [0x61, 0x1F, 0x79, 0x1E, 0x62, 0x1F, 0x78] \<and>
    tag_iter [0x61, 0x1F, 0x79, 0x1E, 0x62, 0x1F, 0x78] = sort_key fst [([0x62], [0x78]), ([0x61], [0x79])] \<and>
    tag_len [0x61, 0x1F, 0x79, 0x1E, 0x62, 0x1F, 0x78] = length [([0x62 :: u8], [0x78 :: u8]), ([0x61], [0x79])] \<and>
    (\<forall>key. tag_get [0x61, 0x1F, 0x79, 0x1E, 0x62, 0x1F, 0x78] key = map_of [([0x62], [0x78]), ([0x61], [0x79])] key)"
  by (rule series_key_round_trip) code_simp

text \<open>
  C33: The storage path accepts exactly the canonical texts of valid tag lists in strictly
  ascending key order within the caps, and returns them unchanged; every other byte string is an
  error.
\<close>

theorem canonical_bytes_exact:
  shows "from_canonical bytes = Inr k \<longleftrightarrow> k = bytes \<and>
    (\<exists>ps. (\<forall>p\<in>set ps. tag_ok p) \<and> sorted_wrt (<) (map fst ps) \<and> length ps \<le> max_tags \<and>
      length bytes \<le> max_series_key_bytes \<and> bytes = foldl push_pair [] ps)"
  unfolding from_canonical_iff canonical_tags_def canonical_text_def by blast

theorem canonical_bytes_exact_witness:
  "\<exists>ps. (\<forall>p\<in>set ps. tag_ok p) \<and> sorted_wrt (<) (map fst ps) \<and> length ps \<le> max_tags \<and>
      length [0x61, 0x1F, 0x79] \<le> max_series_key_bytes \<and> [0x61, 0x1F, 0x79] = foldl push_pair [] ps"
proof -
  have "from_canonical [0x61, 0x1F, 0x79] = Inr [0x61, 0x1F, 0x79]" by code_simp
  then show ?thesis by (simp only: canonical_bytes_exact) simp
qed

text \<open>
  C34: Two tag sets have the same canonical key exactly when they were built from the same pairs,
  in whatever order these were given.
\<close>

theorem series_key_identifies_tags:
  assumes "from_pairs ps = Inr k" "from_pairs qs = Inr l"
  shows "k = l \<longleftrightarrow> mset ps = mset qs"
  by (rule from_pairs_eq_iff [OF assms])

theorem series_key_identifies_tags_witness:
  "([0x61, 0x1F, 0x79, 0x1E, 0x62, 0x1F, 0x78] :: u8 list) = [0x61, 0x1F, 0x79, 0x1E, 0x62, 0x1F, 0x78] \<longleftrightarrow>
    mset [([0x62], [0x78]), ([0x61], [0x79 :: u8])] = mset [([0x61 :: u8], [0x79]), ([0x62], [0x78])]"
  by (rule series_key_identifies_tags) code_simp+

text \<open>
  C35: A selector matches a stored series key exactly when every matcher holds (the tag has that
  value, or is absent) and, for an exact selector, the set has no tag beyond the valued matchers;
  the allocation-free merge walk over the key decides the same.
\<close>

theorem selector_semantics:
  assumes "selector_build ms exact = Inr sel" "from_canonical k = Inr k"
  shows "(selector_matches sel k \<longleftrightarrow> (\<forall>m\<in>set ms. tag_get k (fst m) = snd m) \<and>
      (exact \<longrightarrow> tag_len k = length (filter (\<lambda>m. snd m \<noteq> None) ms))) \<and>
    selector_matches_key sel k = selector_matches sel k"
proof -
  obtain ps where ps: "canonical_tags ps" "k = canonical_text ps" using assms(2) by (auto simp: from_canonical_iff)
  have "valued_count (ss_matchers sel) = length (filter (\<lambda>m. snd m \<noteq> None) ms)"
    using selector_build_InrD(1) [OF assms(1)] by (simp add: valued_count_def filter_sort)
  with selector_matches_eq [OF assms(1) ps(1)] selector_matches_key_eq [OF assms(1) ps(1)] ps show ?thesis
    by (simp add: matcher_holds_def tag_get_canonical tag_len_canonical canonical_tags_def)
qed

theorem selector_semantics_witness:
  "(selector_matches \<lparr>ss_matchers = [([0x61], Some [0x79]), ([0x63], None)], ss_exact = True\<rparr> [0x61, 0x1F, 0x79] \<longleftrightarrow>
      (\<forall>m\<in>set [([0x63], None), ([0x61], Some [0x79])]. tag_get [0x61, 0x1F, 0x79] (fst m) = snd m) \<and>
      (True \<longrightarrow> tag_len [0x61, 0x1F, 0x79] = length (filter (\<lambda>m. snd m \<noteq> None) [([0x63 :: u8], None), ([0x61], Some [0x79 :: u8])]))) \<and>
    selector_matches_key \<lparr>ss_matchers = [([0x61], Some [0x79]), ([0x63], None)], ss_exact = True\<rparr> [0x61, 0x1F, 0x79] =
    selector_matches \<lparr>ss_matchers = [([0x61], Some [0x79]), ([0x63], None)], ss_exact = True\<rparr> [0x61, 0x1F, 0x79]"
  by (rule selector_semantics) code_simp+

subsection \<open>Further facts\<close>

text \<open>
  The bytewise order of canonical keys is the lexicographic order of the sorted tag lists, first
  by key and then by value, although the keys carry no lengths.
\<close>

lemma series_key_order:
  assumes "from_canonical k = Inr k" "from_canonical l = Inr l"
  shows "k < l \<longleftrightarrow> tag_iter k < tag_iter l"
proof -
  obtain ps qs where "canonical_tags ps" "k = canonical_text ps" "canonical_tags qs" "l = canonical_text qs"
    using assms by (auto simp: from_canonical_iff)
  then show ?thesis by (simp add: canonical_tags_def canonical_text_less tag_iter_canonical)
qed

lemma series_key_order_witness:
  "([0x61, 0x1F, 0x79, 0x1E, 0x62, 0x1F, 0x78] :: u8 list) < [0x61, 0x2E, 0x1F, 0x78] \<longleftrightarrow>
    tag_iter [0x61, 0x1F, 0x79, 0x1E, 0x62, 0x1F, 0x78] < tag_iter [0x61, 0x2E, 0x1F, 0x78]"
  by (rule series_key_order) code_simp+

end
