(* ===== verification/Decimal_Instance.thy ===== *)
theory Decimal_Instance imports Decimals begin

text \<open>
  A decimal library that satisfies \<open>decimal_laws\<close>: mantissa and scale, with exact operations and the
  plain form printed and parsed digit by digit. The definitions of the development take the library as
  an argument; this one is given to them where a statement is applied to concrete decimals.
\<close>

unbundle bit_operations_syntax

datatype decimal = Decimal int i64

fun decimal_val :: "decimal \<Rightarrow> rat" where
  "decimal_val (Decimal m s) = of_int m * 10 powi (- sint s)"

instantiation decimal :: ord
begin

definition less_decimal :: "decimal \<Rightarrow> decimal \<Rightarrow> bool" where
  "less_decimal x y \<longleftrightarrow> decimal_val x < decimal_val y"

definition less_eq_decimal :: "decimal \<Rightarrow> decimal \<Rightarrow> bool" where
  "less_eq_decimal x y \<longleftrightarrow> decimal_val x \<le> decimal_val y"

instance ..

end

fun decimal_sub :: "decimal \<Rightarrow> decimal \<Rightarrow> decimal" where
  "decimal_sub (Decimal m s) (Decimal n t) =
    (if sint s \<le> sint t then Decimal (m * 10 ^ nat (sint t - sint s) - n) t
     else Decimal (m - n * 10 ^ nat (sint s - sint t)) s)"

fun decimal_mul :: "decimal \<Rightarrow> decimal \<Rightarrow> decimal" where
  "decimal_mul (Decimal m s) (Decimal n t) = Decimal (m * n) (s + t)"

fun decimal_abs :: "decimal \<Rightarrow> decimal" where
  "decimal_abs (Decimal m s) = Decimal \<bar>m\<bar> s"

fun strip_zeros :: "nat \<Rightarrow> decimal \<Rightarrow> decimal" where
  "strip_zeros 0 x = x"
| "strip_zeros (Suc k) (Decimal m s) =
    (if m mod 10 = 0 \<and> 0 < sint s then strip_zeros k (Decimal (m div 10) (s - 1)) else Decimal m s)"

fun decimal_round :: "decimal \<Rightarrow> decimal" where
  "decimal_round (Decimal m s) =
    (if sint s \<le> 0 then Decimal (m * 10 ^ nat (- sint s)) 0
     else let p = 10 ^ nat (sint s) in Decimal ((m + p div 2) div p) 0)"

fun decimal_trunc :: "decimal \<Rightarrow> int" where
  "decimal_trunc (Decimal m s) =
    (if sint s \<le> 0 then m * 10 ^ nat (- sint s) else m div 10 ^ nat (sint s))"

text \<open>The last \<open>k\<close> digits of a number, and the number a run of digits spells.\<close>

fun digit_text :: "nat \<Rightarrow> nat \<Rightarrow> u8 list" where
  "digit_text 0 n = []"
| "digit_text (Suc k) n = digit_text k (n div 10) @ [0x30 + of_nat (n mod 10)]"

definition digit_value :: "u8 list \<Rightarrow> nat" where
  "digit_value ds = foldl (\<lambda>a d. a * 10 + unat (d - 0x30)) 0 ds"

definition is_digit_byte :: "u8 \<Rightarrow> bool" where
  "is_digit_byte b \<longleftrightarrow> 0x30 \<le> b \<and> b \<le> 0x39"

fun decimal_plain :: "decimal \<Rightarrow> u8 list" where
  "decimal_plain (Decimal m s) =
    (if m < 0 then [0x2D] else []) @
    (if sint s < 0 then digit_text (dec_digits (nat \<bar>m\<bar>)) (nat \<bar>m\<bar>) @ replicate (nat (- sint s)) 0x30
     else let f = nat (sint s); k = max (dec_digits (nat \<bar>m\<bar>)) (f + 1); ds = digit_text k (nat \<bar>m\<bar>)
          in if f = 0 then ds else take (k - f) ds @ 0x2E # drop (k - f) ds)"

definition decimal_parse_unsigned :: "u8 list \<Rightarrow> (nat \<times> nat) option" where
  "decimal_parse_unsigned bs =
    (let whole = takeWhile (\<lambda>b. b \<noteq> 0x2E) bs; frac = drop (length whole + 1) bs; ds = whole @ frac
     in if ds \<noteq> [] \<and> list_all is_digit_byte ds then Some (digit_value ds, length frac) else None)"

definition decimal_parse :: "u8 list \<Rightarrow> decimal option" where
  "decimal_parse bs =
    (case bs of
       [] \<Rightarrow> None
     | b # rest \<Rightarrow>
         if b = 0x2D then map_option (\<lambda>(n, f). Decimal (- int n) (of_nat f)) (decimal_parse_unsigned rest)
         else map_option (\<lambda>(n, f). Decimal (int n) (of_nat f)) (decimal_parse_unsigned bs))"

definition plain_decimal_ops :: "decimal decimal_ops" where
  "plain_decimal_ops =
    \<lparr>d_new = Decimal, d_parts = (\<lambda>x. case x of Decimal m s \<Rightarrow> (m, s)),
     d_sub = decimal_sub, d_mul = decimal_mul, d_abs = decimal_abs,
     d_normalized = strip_zeros 64, d_round0 = decimal_round,
     d_to_i64 = (\<lambda>x. let n = decimal_trunc x in if - (2 ^ 63) \<le> n \<and> n < 2 ^ 63 then Some (word_of_int n) else None),
     d_to_i128 = (\<lambda>x. to_i128 (decimal_trunc x)),
     d_to_f64 = (\<lambda>x. None), d_to_f32 = (\<lambda>x. None), d_from_f64 = (\<lambda>f. None), d_from_f32 = (\<lambda>f. None),
     d_to_plain = decimal_plain, d_parse = decimal_parse\<rparr>"

subsection \<open>Digits\<close>

lemma length_digit_text [simp]: "length (digit_text k n) = k"
  by (induction k n rule: digit_text.induct) simp_all

lemma digit_byte:
  assumes "d < 10"
  shows "is_digit_byte (0x30 + of_nat d)" "unat (0x30 + of_nat d - (0x30 :: u8)) = d"
    "0x30 + of_nat d \<noteq> (0x2E :: u8)" "0x30 + of_nat d \<noteq> (0x2D :: u8)" "0x30 + of_nat d < (0x80 :: u8)"
proof -
  have "d = 0 \<or> d = 1 \<or> d = 2 \<or> d = 3 \<or> d = 4 \<or> d = 5 \<or> d = 6 \<or> d = 7 \<or> d = 8 \<or> d = 9"
    using assms by presburger
  then show "is_digit_byte (0x30 + of_nat d)" "unat (0x30 + of_nat d - (0x30 :: u8)) = d"
    "0x30 + of_nat d \<noteq> (0x2E :: u8)" "0x30 + of_nat d \<noteq> (0x2D :: u8)" "0x30 + of_nat d < (0x80 :: u8)"
    by (auto simp: is_digit_byte_def)
qed

lemma digit_text_bytes: "\<forall>b\<in>set (digit_text k n). is_digit_byte b \<and> b \<noteq> 0x2E \<and> b \<noteq> 0x2D \<and> b < 0x80"
  by (induction k n rule: digit_text.induct) (auto simp: digit_byte)

lemma digit_value_snoc: "digit_value (ds @ [d]) = digit_value ds * 10 + unat (d - 0x30)"
  by (simp add: digit_value_def)

lemma digit_value_text: "digit_value (digit_text k n) = n mod 10 ^ k"
proof (induction k n rule: digit_text.induct)
  case (1 n)
  then show ?case by (simp add: digit_value_def)
next
  case (2 k n)
  have "n mod 10 ^ Suc k = 10 * (n div 10 mod 10 ^ k) + n mod 10"
    by (simp add: mod_mult2_eq)
  moreover have "unat (of_nat (n mod 10) :: u8) = n mod 10" by (simp add: unat_of_nat)
  ultimately show ?case using 2 by (simp add: digit_value_snoc)
qed

lemma digit_value_zeros: "digit_value (ds @ replicate k 0x30) = digit_value ds * 10 ^ k"
proof (induction k)
  case (Suc k)
  have "digit_value (ds @ replicate (Suc k) 0x30) = digit_value ((ds @ replicate k 0x30) @ [0x30])"
    by (simp add: replicate_append_same [symmetric] del: replicate_Suc)
       (simp add: replicate_append_same)
  with Suc digit_value_snoc [of "ds @ replicate k 0x30" "0x30"] show ?case by simp
qed simp

lemma utf8_ascii: "\<forall>b\<in>set bs. b < 0x80 \<Longrightarrow> utf8_valid bs"
  by (induction bs) auto

subsection \<open>The plain form is parsed back\<close>

lemma parse_unsigned_whole:
  assumes "\<forall>b\<in>set ds. is_digit_byte b \<and> b \<noteq> 0x2E" "ds \<noteq> []"
  shows "decimal_parse_unsigned ds = Some (digit_value ds, 0)"
proof -
  have "takeWhile (\<lambda>b. b \<noteq> 0x2E) ds = ds" using assms by simp
  then show ?thesis
    using assms unfolding decimal_parse_unsigned_def Let_def by (simp only: list_all_iff) simp
qed

lemma parse_unsigned_point:
  assumes "\<forall>b\<in>set (ds @ fs). is_digit_byte b \<and> b \<noteq> 0x2E" "ds @ fs \<noteq> []"
  shows "decimal_parse_unsigned (ds @ 0x2E # fs) = Some (digit_value (ds @ fs), length fs)"
proof -
  have "takeWhile (\<lambda>b. b \<noteq> 0x2E) (ds @ 0x2E # fs) = ds" using assms(1) by (subst takeWhile_append2) auto
  then show ?thesis
    using assms unfolding decimal_parse_unsigned_def Let_def by (simp only: list_all_iff) simp
qed

lemma decimal_parse_signed:
  assumes "decimal_parse_unsigned bs = Some (n, f)" "bs \<noteq> []" "\<forall>b\<in>set bs. b \<noteq> 0x2D"
  shows "decimal_parse ((if m < 0 then [0x2D] else []) @ bs) = Some (Decimal (if m < 0 then - int n else int n) (of_nat f))"
  using assms by (cases bs) (auto simp: decimal_parse_def)

lemma digit_text_ne: "0 < k \<Longrightarrow> digit_text k n \<noteq> []"
  by (metis length_digit_text length_greater_0_conv)

lemma digit_value_fits:
  assumes "dec_digits n \<le> k"
  shows "digit_value (digit_text k n) = n"
proof -
  have "(10 :: nat) ^ dec_digits n \<le> 10 ^ k" using assms by (rule power_increasing) simp
  then have "n < 10 ^ k" using dec_digits_bound [of n] by linarith
  then show ?thesis by (simp add: digit_value_text)
qed

lemma decimal_parse_plain_neg:
  assumes "sint s < 0"
  shows "decimal_parse (decimal_plain (Decimal m s)) = Some (Decimal (m * 10 ^ nat (- sint s)) 0)"
proof -
  let ?n = "nat \<bar>m\<bar>" and ?z = "nat (- sint s)"
  let ?ds = "digit_text (dec_digits ?n) ?n @ replicate ?z 0x30"
  have bytes: "\<forall>b\<in>set ?ds. is_digit_byte b \<and> b \<noteq> 0x2E" "\<forall>b\<in>set ?ds. b \<noteq> 0x2D"
    using digit_text_bytes [of "dec_digits ?n" ?n] digit_byte(1) [of 0] by (simp_all add: ball_Un)
  have ne: "?ds \<noteq> []" using digit_text_ne [OF dec_digits_pos] by simp
  have "digit_value ?ds = ?n * 10 ^ ?z" by (simp only: digit_value_zeros digit_value_fits)
  then have "decimal_parse_unsigned ?ds = Some (?n * 10 ^ ?z, 0)"
    using parse_unsigned_whole [OF bytes(1) ne] by simp
  note parsed = decimal_parse_signed [OF this ne bytes(2), of m]
  have "(if m < 0 then - int (?n * 10 ^ ?z) else int (?n * 10 ^ ?z)) = m * 10 ^ ?z" by simp
  moreover have "(of_nat 0 :: i64) = 0" by simp
  ultimately have "Decimal (if m < 0 then - int (?n * 10 ^ ?z) else int (?n * 10 ^ ?z)) (of_nat 0) = Decimal (m * 10 ^ ?z) 0"
    by (rule arg_cong2 [of _ _ _ _ Decimal])
  moreover have "decimal_plain (Decimal m s) = (if m < 0 then [0x2D] else []) @ ?ds"
    using assms by (simp only: decimal_plain.simps if_True)
  ultimately show ?thesis using parsed by (simp only:)
qed

lemma decimal_parse_plain_pos:
  assumes "0 \<le> sint s"
  shows "decimal_parse (decimal_plain (Decimal m s)) = Some (Decimal m s)"
proof -
  let ?n = "nat \<bar>m\<bar>" and ?f = "nat (sint s)"
  let ?k = "max (dec_digits ?n) (?f + 1)"
  let ?ds = "digit_text ?k ?n"
  have dv: "digit_value ?ds = ?n" by (simp add: digit_value_fits)
  have s: "of_nat ?f = s" and m: "(if m < 0 then - int ?n else int ?n) = m" using assms by simp_all
  have bytes: "\<forall>b\<in>set ?ds. is_digit_byte b \<and> b \<noteq> 0x2E" "\<forall>b\<in>set ?ds. b \<noteq> 0x2D"
    using digit_text_bytes [of ?k ?n] by auto
  show ?thesis
  proof (cases "?f = 0")
    case True
    have "?ds \<noteq> []" by (rule digit_text_ne) simp
    from decimal_parse_signed [OF parse_unsigned_whole [OF bytes(1) this] this bytes(2), of m]
    have "decimal_parse ((if m < 0 then [0x2D] else []) @ ?ds) = Some (Decimal m (of_nat 0))"
      by (simp only: dv m)
    moreover have "of_nat 0 = s" using True s by metis
    moreover have "decimal_plain (Decimal m s) = (if m < 0 then [0x2D] else []) @ ?ds"
    proof -
      have "\<not> sint s < 0" using assms by simp
      then show ?thesis by (simp only: decimal_plain.simps Let_def if_False if_True True refl)
    qed
    ultimately show ?thesis by (simp only:)
  next
    case False
    let ?a = "take (?k - ?f) ?ds" and ?b = "drop (?k - ?f) ?ds"
    have b: "length ?b = ?f" by simp
    have "\<forall>b\<in>set (?a @ ?b). is_digit_byte b \<and> b \<noteq> 0x2E" "?a @ ?b \<noteq> []"
      using bytes(1) digit_text_ne [of ?k ?n] by simp_all
    from parse_unsigned_point [OF this]
    have p: "decimal_parse_unsigned (?a @ 0x2E # ?b) = Some (?n, ?f)" by (simp only: append_take_drop_id dv b)
    have "\<forall>b\<in>set (?a @ 0x2E # ?b). b \<noteq> 0x2D" using bytes(2) by (auto dest: in_set_takeD in_set_dropD)
    from decimal_parse_signed [OF p _ this, of m]
    have "decimal_parse ((if m < 0 then [0x2D] else []) @ ?a @ 0x2E # ?b) = Some (Decimal m s)"
      by (simp only: s m) simp
    moreover have "decimal_plain (Decimal m s) = (if m < 0 then [0x2D] else []) @ ?a @ 0x2E # ?b"
      using False assms by (simp only: decimal_plain.simps Let_def if_False not_less [symmetric])
    ultimately show ?thesis by (simp only:)
  qed
qed

lemma length_decimal_plain:
  assumes "plain_digit_count plain_decimal_ops x \<le> max_plain_digits"
  shows "length (decimal_plain x) \<le> plain_digit_count plain_decimal_ops x + 2"
proof (cases x)
  case (Decimal m s)
  let ?d = "dec_digits (nat \<bar>m\<bar>)"
  define c where "c = (if 0 \<le> sint s then if nat (sint s) < ?d then ?d else nat (sint s) + 1 else ?d + nat (- sint s))"
  have "plain_digit_count plain_decimal_ops x = min c (2 ^ 64 - 1)"
    by (simp add: plain_digit_count_def plain_decimal_ops_def Decimal c_def del: One_nat_def)
  moreover from this have "c \<le> 1024" using assms by (simp add: max_plain_digits_def min_def split: if_splits)
  moreover have "length (decimal_plain (Decimal m s)) \<le> c + 2"
    by (cases "sint s < 0") (simp_all add: c_def Let_def max_def)
  ultimately show ?thesis by (simp add: Decimal del: decimal_plain.simps)
qed

lemma utf8_decimal_plain: "utf8_valid (decimal_plain x)"
proof (rule utf8_ascii)
  show "\<forall>b\<in>set (decimal_plain x). b < 0x80"
    using digit_text_bytes by (cases x) (auto simp: Let_def dest!: in_set_takeD in_set_dropD)
qed

subsection \<open>The laws\<close>

lemma decimal_val_sub: "decimal_val (decimal_sub x y) = decimal_val x - decimal_val y"
proof (cases x; cases y)
  fix m s n t assume xy: "x = Decimal m s" "y = Decimal n t"
  have split: "(10 :: rat) powi a = 10 powi b * 10 ^ nat (a - b)" if "b \<le> a" for a b
    using that power_int_add [of "10 :: rat" b "a - b"] by (simp add: power_int_def)
  show ?thesis
  proof (cases "sint s \<le> sint t")
    case True
    then show ?thesis using split [of "- sint t" "- sint s"] by (simp add: xy algebra_simps)
  next
    case False
    then show ?thesis using split [of "- sint s" "- sint t"] by (simp add: xy algebra_simps)
  qed
qed

lemma decimal_val_strip: "decimal_val (strip_zeros k x) = decimal_val x"
proof (induction k x rule: strip_zeros.induct)
  case (2 k m s)
  show ?case
  proof (cases "m mod 10 = 0 \<and> 0 < sint s")
    case True
    have "- (2 ^ 63) \<le> sint s - int 1" using True by simp
    from sint_diff_nat [OF this] have d: "sint (s - 1) = sint s - 1" by simp
    have m: "m = m div 10 * 10" using True by presburger
    have "decimal_val (Decimal (m div 10) (s - 1)) = of_int (m div 10) * 10 powi (1 + - sint s)"
      by (simp add: d)
    also have "\<dots> = of_int (m div 10 * 10) * 10 powi (- sint s)" by (subst power_int_add) simp_all
    also have "\<dots> = decimal_val (Decimal m s)" by (simp only: m [symmetric] decimal_val.simps)
    finally show ?thesis using 2 True by simp
  next
    case False
    then show ?thesis by (simp only: strip_zeros.simps if_False)
  qed
qed simp

lemma decimal_val_frac:
  assumes "\<not> sint s \<le> 0"
  shows "decimal_val (Decimal m s) = of_int m / of_int (10 ^ nat (sint s))"
proof -
  obtain k where k: "sint s = int k" using assms by (metis nat_0_le linear)
  have "(10 :: rat) powi (- int k) = inverse (of_int (10 ^ k))"
    by (simp only: power_int_minus power_int_of_nat of_int_power of_int_numeral)
  then show ?thesis unfolding decimal_val.simps k nat_int by (simp only: divide_inverse)
qed

lemma decimal_val_whole:
  assumes "sint s \<le> 0"
  shows "decimal_val (Decimal m s) = of_int (m * 10 ^ nat (- sint s))"
  using assms by (simp add: power_int_def)

lemma half_unit_round:
  fixes m p :: int
  assumes "0 < p" "even p"
  shows "2 * \<bar>m - (m + p div 2) div p * p\<bar> \<le> p"
proof -
  obtain h where h: "p = 2 * h" using assms(2) by (elim evenE)
  have "(m + h) div p * p + (m + h) mod p = m + h" by simp
  moreover have "0 \<le> (m + h) mod p" "(m + h) mod p < p" using assms(1) by simp_all
  moreover have "2 * \<bar>m - q\<bar> \<le> p" if "q + r = m + h" "0 \<le> r" "r < p" for q r
    using that h by arith
  ultimately have "2 * \<bar>m - (m + h) div p * p\<bar> \<le> p" by blast
  then show ?thesis by (simp add: h)
qed

lemma half_unit_quotient:
  fixes m n p :: int
  assumes "2 * \<bar>m - n * p\<bar> \<le> p" "0 < p"
  shows "\<bar>of_int m / of_int p - (of_int n :: rat)\<bar> \<le> 1 / 2"
proof -
  have "of_int (2 * \<bar>m - n * p\<bar>) \<le> (of_int p :: rat)" using assms(1) by (simp only: of_int_le_iff)
  moreover have "\<bar>of_int m / of_int p - (of_int n :: rat)\<bar> = \<bar>of_int m - of_int n * of_int p\<bar> / of_int p"
    using assms(2) by (simp add: field_simps abs_divide)
  ultimately show ?thesis using assms(2) by (simp add: divide_le_eq)
qed

lemma decimal_val_round: "\<exists>n. decimal_val (decimal_round x) = of_int n \<and> \<bar>decimal_val x - of_int n\<bar> \<le> 1 / 2"
proof (cases x)
  case (Decimal m s)
  show ?thesis
  proof (cases "sint s \<le> 0")
    case True
    then show ?thesis by (intro exI [of _ "m * 10 ^ nat (- sint s)"]) (simp add: Decimal power_int_def)
  next
    case False
    let ?p = "10 ^ nat (sint s) :: int"
    let ?n = "(m + ?p div 2) div ?p"
    have p: "0 < ?p" "even ?p" using False by simp_all
    note v = decimal_val_frac [OF False, of m, folded Decimal]
    have "\<bar>decimal_val x - of_int ?n\<bar> \<le> 1 / 2"
      unfolding v by (rule half_unit_quotient [OF half_unit_round [OF p] p(1)])
    moreover have "decimal_val (decimal_round x) = of_int ?n"
      unfolding Decimal decimal_round.simps Let_def using False by (simp only: if_False decimal_val.simps) simp
    ultimately show ?thesis by blast
  qed
qed

lemma exact_quotient:
  assumes "of_int m / of_int p = (of_int n :: rat)" "p \<noteq> 0"
  shows "m div p = n"
proof -
  have "(of_int m :: rat) = of_int n * of_int p" using assms by (simp add: divide_eq_eq)
  then have "m = n * p" by (simp only: of_int_mult [symmetric] of_int_eq_iff)
  then show ?thesis using assms(2) by simp
qed

lemma decimal_trunc_val:
  assumes "decimal_val x = of_int n"
  shows "decimal_trunc x = n"
proof (cases x)
  case (Decimal m s)
  show ?thesis
  proof (cases "sint s \<le> 0")
    case True
    then have "of_int (m * 10 ^ nat (- sint s)) = (of_int n :: rat)"
      using decimal_val_whole [OF True, of m] assms unfolding Decimal by (simp only:)
    then have "m * 10 ^ nat (- sint s) = n" by (simp only: of_int_eq_iff)
    then show ?thesis using True by (simp add: Decimal)
  next
    case False
    let ?p = "10 ^ nat (sint s) :: int"
    have "of_int m / of_int ?p = (of_int n :: rat)"
      using decimal_val_frac [OF False, of m] assms unfolding Decimal by (simp only:)
    then have "m div ?p = n" by (rule exact_quotient) simp
    then show ?thesis unfolding Decimal decimal_trunc.simps using False by (simp only: if_False)
  qed
qed

lemma decimal_parse_plain: "\<exists>y. decimal_parse (decimal_plain x) = Some y \<and>
    (case y of Decimal m s \<Rightarrow> (m, s)) = plain_parts (case x of Decimal m s \<Rightarrow> (m, s))"
proof (cases x)
  case (Decimal m s)
  show ?thesis
  proof (cases "0 \<le> sint s")
    case True
    then show ?thesis using decimal_parse_plain_pos [OF True, of m] by (simp add: Decimal plain_parts_def del: decimal_plain.simps)
  next
    case False
    then show ?thesis using decimal_parse_plain_neg [of s m] by (simp add: Decimal plain_parts_def del: decimal_plain.simps)
  qed
qed

theorem plain_decimal_laws: "decimal_laws plain_decimal_ops decimal_val"
  unfolding decimal_laws_def
proof (intro conjI allI impI)
  fix x :: decimal and m s
  show "d_parts plain_decimal_ops (d_new plain_decimal_ops m s) = (m, s)" by (simp add: plain_decimal_ops_def)
  show "decimal_val x = of_int m * 10 powi (- sint s)" if "d_parts plain_decimal_ops x = (m, s)"
    using that by (cases x) (simp add: plain_decimal_ops_def)
next
  fix x y :: decimal and n
  show "decimal_val (d_sub plain_decimal_ops x y) = decimal_val x - decimal_val y"
    by (simp add: plain_decimal_ops_def decimal_val_sub)
  show "decimal_val (d_mul plain_decimal_ops x y) = decimal_val x * of_int n" if "d_parts plain_decimal_ops y = (n, 0)"
    using that by (cases x; cases y) (simp add: plain_decimal_ops_def)
  show "x < y \<longleftrightarrow> decimal_val x < decimal_val y" "x \<le> y \<longleftrightarrow> decimal_val x \<le> decimal_val y"
    by (simp_all add: less_decimal_def less_eq_decimal_def)
next
  fix x :: decimal
  show "decimal_val (d_abs plain_decimal_ops x) = \<bar>decimal_val x\<bar>"
    by (cases x) (simp add: plain_decimal_ops_def abs_mult)
  show "decimal_val (d_normalized plain_decimal_ops x) = decimal_val x"
    by (simp add: plain_decimal_ops_def decimal_val_strip)
  show "\<exists>n. decimal_val (d_round0 plain_decimal_ops x) = of_int n \<and> \<bar>decimal_val x - of_int n\<bar> \<le> 1 / 2"
    using decimal_val_round [of x] by (simp add: plain_decimal_ops_def)
next
  fix x :: decimal and n assume n: "decimal_val x = of_int n"
  show "d_to_i64 plain_decimal_ops x = (if - (2 ^ 63) \<le> n \<and> n < 2 ^ 63 then Some (word_of_int n) else None)"
    "d_to_i128 plain_decimal_ops x = to_i128 n"
    by (simp_all add: plain_decimal_ops_def Let_def decimal_trunc_val [OF n])
next
  fix x :: decimal assume d: "plain_digit_count plain_decimal_ops x \<le> max_plain_digits"
  have p: "d_to_plain plain_decimal_ops = decimal_plain" "d_parse plain_decimal_ops = decimal_parse"
    "d_parts plain_decimal_ops = (\<lambda>x. case x of Decimal m s \<Rightarrow> (m, s))" by (simp_all add: plain_decimal_ops_def)
  show "utf8_valid (d_to_plain plain_decimal_ops x)" by (simp only: p utf8_decimal_plain)
  show "length (d_to_plain plain_decimal_ops x) \<le> plain_digit_count plain_decimal_ops x + 2"
    by (simp only: p length_decimal_plain [OF d])
  show "\<exists>y. d_parse plain_decimal_ops (d_to_plain plain_decimal_ops x) = Some y \<and>
      d_parts plain_decimal_ops y = plain_parts (d_parts plain_decimal_ops x)"
    by (simp only: p decimal_parse_plain)
qed

subsection \<open>Evaluating it\<close>

lemma plain_ops_simps:
  "d_new plain_decimal_ops = Decimal" "d_parts plain_decimal_ops (Decimal m s) = (m, s)"
  "d_sub plain_decimal_ops = decimal_sub" "d_mul plain_decimal_ops = decimal_mul" "d_abs plain_decimal_ops = decimal_abs"
  "d_normalized plain_decimal_ops = strip_zeros 64" "d_round0 plain_decimal_ops = decimal_round"
  "d_to_i64 plain_decimal_ops x = (let n = decimal_trunc x in if - (2 ^ 63) \<le> n \<and> n < 2 ^ 63 then Some (word_of_int n) else None)"
  "d_to_i128 plain_decimal_ops x = to_i128 (decimal_trunc x)" "d_to_plain plain_decimal_ops = decimal_plain"
  "d_parse plain_decimal_ops = decimal_parse"
  by (simp_all add: plain_decimal_ops_def)

lemma strip_zeros_done: "m mod 10 \<noteq> 0 \<or> sint s \<le> 0 \<Longrightarrow> strip_zeros k (Decimal m s) = Decimal m s"
  by (cases k) auto

lemma dec_digits_step: "n < 10 \<Longrightarrow> dec_digits n = 1" "\<not> n < 10 \<Longrightarrow> dec_digits n = Suc (dec_digits (n div 10))"
  by (subst dec_digits.simps, simp)+

lemmas decimal_evals = plain_ops_simps strip_zeros_done dec_digits_step encode_def check_decimal_domain_def
  plain_digit_count_def max_plain_digits_def encode_in_def measured_def exactness_of_def pow10_decimal_def d_zero_def
  less_decimal_def less_eq_decimal_def

end
