(* ===== verification/Value_Column.thy ===== *)
theory Value_Column imports Decimals For_Codec Transpose Codec_Choice begin

text \<open>
  The value column of \<^verbatim>\<open>weft-physical-type/src/column.rs\<close>: a column of decimals encoded under one
  declared type, with the number of lossy values and the largest error, the sizes of the codecs that
  can store it, the choice among them and the recommended type. A codec is named by its string, as in
  the source. The size ceiling of the bit-sliced codec compares two floats: the comparison is the
  argument \<open>admits\<close>, of the transposed and the smallest size.
\<close>

unbundle bit_operations_syntax

subsection \<open>Columns\<close>

record 'd column_encoding =
  ce_physical_type :: physical_type
  ce_values :: "physical_value list"
  ce_lossy_count :: nat
  ce_max_abs_error :: 'd

definition is_exact :: "'d column_encoding \<Rightarrow> bool" where
  "is_exact col \<longleftrightarrow> ce_lossy_count col = 0"

fun text_len :: "physical_value \<Rightarrow> nat" where
  "text_len (VText s) = length s"
| "text_len _ = 0"

definition column_estimated_bytes :: "'d column_encoding \<Rightarrow> nat" where
  "column_estimated_bytes col =
    (case pp_fixed_width_bytes (profile (ce_physical_type col)) of
       None \<Rightarrow> sum_list (map text_len (ce_values col))
     | Some width \<Rightarrow> length (ce_values col) * width)"

fun value_serialized_bytes :: "physical_value \<Rightarrow> nat" where
  "value_serialized_bytes (VF64 _) = 8"
| "value_serialized_bytes (VF32 _) = 4"
| "value_serialized_bytes (VScaledI64 mantissa _) = zigzag_varint_len mantissa"
| "value_serialized_bytes (VScaledI128 _ _) = 16"
| "value_serialized_bytes (VDecimal128 _ scale) = 16 + zigzag_varint_len scale"
| "value_serialized_bytes (VText s) = uvarint_len (of_nat (length s)) + length s"

definition serialized_bytes :: "'d column_encoding \<Rightarrow> nat" where
  "serialized_bytes col = sum_list (map value_serialized_bytes (ce_values col))"

fun mantissa_of :: "physical_value \<Rightarrow> i64" where
  "mantissa_of (VScaledI64 mantissa _) = mantissa"
| "mantissa_of _ = 0"

definition scaled_i64_mantissas :: "'d column_encoding \<Rightarrow> i64 list option" where
  "scaled_i64_mantissas col =
    (case ce_physical_type col of ScaledI64 _ \<Rightarrow> Some (map mantissa_of (ce_values col)) | _ \<Rightarrow> None)"

definition bitpack_value_bytes :: "'d column_encoding \<Rightarrow> nat option" where
  "bitpack_value_bytes col = map_option bitpack_bytes (scaled_i64_mantissas col)"

definition blocked_value_bytes :: "'d column_encoding \<Rightarrow> nat option" where
  "blocked_value_bytes col = map_option (\<lambda>m. blocked_bitpack_bytes m blocked_bitpack_block) (scaled_i64_mantissas col)"

definition for_value_bytes :: "'d column_encoding \<Rightarrow> nat option" where
  "for_value_bytes col = map_option (\<lambda>m. for_bitpack_bytes m blocked_bitpack_block) (scaled_i64_mantissas col)"

definition dfor_value_bytes :: "'d column_encoding \<Rightarrow> nat option" where
  "dfor_value_bytes col = map_option (\<lambda>m. dfor_bitpack_bytes m blocked_bitpack_block) (scaled_i64_mantissas col)"

definition transposed_value_bytes :: "'d column_encoding \<Rightarrow> nat option" where
  "transposed_value_bytes col = map_option (\<lambda>m. transpose_bitpack_bytes m transpose_tile) (scaled_i64_mantissas col)"

subsection \<open>The delta cascade\<close>

datatype cascade_inner = InnerVarint | InnerBitpack | InnerBlocked | InnerFor | InnerRle

record delta_cascade_plan_t =
  dp_anchor :: i64
  dp_deltas :: "i64 list"
  dp_inner :: cascade_inner
  dp_bytes :: nat

fun wrapping_diffs :: "i64 \<Rightarrow> i64 list \<Rightarrow> i64 list" where
  "wrapping_diffs prev [] = []"
| "wrapping_diffs prev (m # ms) = (m - prev) # wrapping_diffs m ms"

text \<open>\<open>min_by_key\<close> keeps the first of equal keys.\<close>

fun min_by_key :: "('a \<times> nat) \<Rightarrow> ('a \<times> nat) list \<Rightarrow> 'a \<times> nat" where
  "min_by_key best [] = best"
| "min_by_key best (c # cs) = min_by_key (if snd c < snd best then c else best) cs"

definition delta_cascade_plan :: "'d column_encoding \<Rightarrow> delta_cascade_plan_t option" where
  "delta_cascade_plan col =
    (case scaled_i64_mantissas col of
       None \<Rightarrow> None
     | Some [] \<Rightarrow> Some \<lparr>dp_anchor = 0, dp_deltas = [], dp_inner = InnerVarint, dp_bytes = 0\<rparr>
     | Some (first # rest) \<Rightarrow>
         let anchor = zigzag_varint_len first
         in if rest = [] then Some \<lparr>dp_anchor = first, dp_deltas = [], dp_inner = InnerVarint, dp_bytes = anchor\<rparr>
            else let deltas = wrapping_diffs first rest;
                     (inner, packed) = min_by_key (InnerVarint, zigzag_varint_bytes deltas)
                       [(InnerBitpack, bitpack_bytes deltas),
                        (InnerBlocked, blocked_bitpack_bytes deltas blocked_bitpack_block),
                        (InnerFor, for_bitpack_bytes deltas blocked_bitpack_block),
                        (InnerRle, rle_varint_bytes (rle_encode deltas))]
                 in Some \<lparr>dp_anchor = first, dp_deltas = deltas, dp_inner = inner, dp_bytes = anchor + packed\<rparr>)"

definition delta_cascade_bytes :: "'d column_encoding \<Rightarrow> nat option" where
  "delta_cascade_bytes col = map_option dp_bytes (delta_cascade_plan col)"

subsection \<open>The choice of the codec\<close>

definition best_serialized_bytes :: "'d column_encoding \<Rightarrow> nat" where
  "best_serialized_bytes col =
    (let varint = serialized_bytes col;
         bitpack = (case bitpack_value_bytes col of Some n \<Rightarrow> n | None \<Rightarrow> varint);
         blocked = (case blocked_value_bytes col of Some n \<Rightarrow> n | None \<Rightarrow> varint);
         fors = (case for_value_bytes col of Some n \<Rightarrow> n | None \<Rightarrow> varint)
     in min (min (min varint bitpack) blocked) fors)"

definition best_serialized_bytes_cascading :: "'d column_encoding \<Rightarrow> nat" where
  "best_serialized_bytes_cascading col =
    (case delta_cascade_bytes col of None \<Rightarrow> best_serialized_bytes col | Some cascade \<Rightarrow> min (best_serialized_bytes col) cascade)"

definition best_value_codec :: "'d column_encoding \<Rightarrow> string" where
  "best_value_codec col =
    (let varint = serialized_bytes col
     in case bitpack_value_bytes col of
          None \<Rightarrow> ''varint''
        | Some bitpack \<Rightarrow>
            let blocked = (case blocked_value_bytes col of Some n \<Rightarrow> n | None \<Rightarrow> varint);
                fors = (case for_value_bytes col of Some n \<Rightarrow> n | None \<Rightarrow> varint);
                best_zigzag = min (min varint bitpack) blocked
            in if fors < best_zigzag then ''scaled_for''
               else if blocked < varint \<and> blocked < bitpack then ''scaled_blocked''
               else if bitpack < varint then ''scaled_bitpack''
               else ''varint'')"

definition best_value_codec_cascading :: "'d column_encoding \<Rightarrow> string" where
  "best_value_codec_cascading col =
    (let single = best_value_codec col
     in case delta_cascade_bytes col of
          Some cascade \<Rightarrow> if cascade < best_serialized_bytes col then ''scaled_delta_cascade'' else single
        | None \<Rightarrow> single)"

definition best_value_codec_transposed :: "(nat \<Rightarrow> nat \<Rightarrow> bool) \<Rightarrow> 'd column_encoding \<Rightarrow> string" where
  "best_value_codec_transposed admits col =
    (let single = best_value_codec col
     in case transposed_value_bytes col of
          Some transposed \<Rightarrow>
            let best = best_serialized_bytes col
            in if best \<noteq> 0 \<and> admits transposed best then ''scaled_transposed'' else single
        | None \<Rightarrow> single)"

definition decode_column :: "'d decimal_ops \<Rightarrow> 'd column_encoding \<Rightarrow> 'd list" where
  "decode_column D col = map (to_logical D) (ce_values col)"

subsection \<open>Encoding a column\<close>

record column_encode_error =
  cee_index :: nat
  cee_source :: encode_error

fun encode_column_loop :: "'d::ord decimal_ops \<Rightarrow> physical_type \<Rightarrow> nat \<Rightarrow> 'd list \<Rightarrow> physical_value list \<Rightarrow> nat \<Rightarrow> 'd \<Rightarrow>
    column_encode_error + 'd column_encoding" where
  "encode_column_loop D pt index [] out lossy_count max_abs_error =
    Inr \<lparr>ce_physical_type = pt, ce_values = out, ce_lossy_count = lossy_count, ce_max_abs_error = max_abs_error\<rparr>"
| "encode_column_loop D pt index (value # values) out lossy_count max_abs_error =
    (case encode D pt value of
       Inl source \<Rightarrow> Inl \<lparr>cee_index = index, cee_source = source\<rparr>
     | Inr encoded \<Rightarrow>
         case en_exactness encoded of
           Exact \<Rightarrow> encode_column_loop D pt (Suc index) values (out @ [en_value encoded]) lossy_count max_abs_error
         | Lossy e \<Rightarrow> encode_column_loop D pt (Suc index) values (out @ [en_value encoded]) (lossy_count + 1)
             (if max_abs_error < e then e else max_abs_error))"

definition encode_column :: "'d::ord decimal_ops \<Rightarrow> physical_type \<Rightarrow> 'd list \<Rightarrow> column_encode_error + 'd column_encoding" where
  "encode_column D pt values = encode_column_loop D pt 0 values [] 0 (d_zero D)"

text \<open>\<open>u8::try_from(exponent.max(0)).unwrap_or(u8::MAX)\<close>, the largest over the column.\<close>

definition fractional_digits :: "'d decimal_ops \<Rightarrow> 'd \<Rightarrow> u8" where
  "fractional_digits D v =
    (let exponent = max (sint (snd (d_parts D (d_normalized D v)))) 0
     in if exponent < 256 then of_int exponent else 255)"

definition max_fractional_digits :: "'d decimal_ops \<Rightarrow> 'd list \<Rightarrow> u8" where
  "max_fractional_digits D values = foldl (\<lambda>m v. max m (fractional_digits D v)) 0 values"

definition candidates :: "u8 \<Rightarrow> physical_type list" where
  "candidates scale = [F32, F64, ScaledI64 scale, ScaledI128 scale, Decimal128, BigDecimalText]"

fun first_within :: "'d::ord decimal_ops \<Rightarrow> 'd list \<Rightarrow> 'd \<Rightarrow> physical_type list \<Rightarrow> 'd column_encoding option" where
  "first_within D values tolerance [] = None"
| "first_within D values tolerance (pt # pts) =
    (case encode_column D pt values of
       Inr encoding \<Rightarrow> if ce_max_abs_error encoding \<le> tolerance then Some encoding else first_within D values tolerance pts
     | Inl _ \<Rightarrow> first_within D values tolerance pts)"

definition recommend_encoding :: "'d::ord decimal_ops \<Rightarrow> 'd list \<Rightarrow> 'd \<Rightarrow> 'd column_encoding" where
  "recommend_encoding D values tolerance =
    (let scale = max_fractional_digits D values
     in case first_within D values tolerance (candidates scale) of
          Some encoding \<Rightarrow> encoding
        | None \<Rightarrow>
            (case encode_column D BigDecimalText values of
               Inr encoding \<Rightarrow> encoding
             | Inl _ \<Rightarrow> \<lparr>ce_physical_type = BigDecimalText, ce_values = [], ce_lossy_count = 0, ce_max_abs_error = d_zero D\<rparr>))"

subsection \<open>The type of a column\<close>

fun value_has_type :: "physical_type \<Rightarrow> physical_value \<Rightarrow> bool" where
  "value_has_type F64 (VF64 _) = True"
| "value_has_type F32 (VF32 _) = True"
| "value_has_type (ScaledI64 scale) (VScaledI64 _ scale') = (scale' = scale)"
| "value_has_type (ScaledI128 scale) (VScaledI128 _ scale') = (scale' = scale)"
| "value_has_type Decimal128 (VDecimal128 _ _) = True"
| "value_has_type BigDecimalText (VText _) = True"
| "value_has_type _ _ = False"

definition column_typed :: "'d column_encoding \<Rightarrow> bool" where
  "column_typed col \<longleftrightarrow> list_all (value_has_type (ce_physical_type col)) (ce_values col) \<and>
    ce_lossy_count col \<le> length (ce_values col)"

text \<open>A stored text is the plain form of a decimal in the domain.\<close>

fun value_readable :: "'d decimal_ops \<Rightarrow> physical_value \<Rightarrow> bool" where
  "value_readable D (VText s) \<longleftrightarrow> utf8_valid s \<and> length s < 2 ^ 64 \<and> (\<exists>y. parse_decimal D s = Inr y)"
| "value_readable D _ \<longleftrightarrow> True"

lemma value_has_type_scaled_i64: "value_has_type (ScaledI64 scale) v \<longleftrightarrow> v = VScaledI64 (mantissa_of v) scale"
  by (cases v) auto

lemma encode_typed: "encode D pt x = Inr en \<Longrightarrow> value_has_type pt (en_value en)"
  by (cases pt) (auto simp: encode_def encode_in_def measured_def split: sum.splits option.splits if_splits prod.splits)

lemma encode_readable:
  assumes "decimal_laws D val" "encode D pt x = Inr en"
  shows "value_readable D (en_value en)"
proof (cases "pt = BigDecimalText")
  case True
  have dom: "plain_digit_count D x \<le> max_plain_digits"
    using assms(2) by (auto simp: encode_def check_decimal_domain_def Let_def not_less split: if_splits)
  obtain y where "parse_decimal D (d_to_plain D x) = Inr y" by (rule parse_plain [OF assms(1) dom])
  moreover have "en_value en = VText (d_to_plain D x)"
    using True assms(2) by (auto simp: encode_def encode_in_def split: sum.splits)
  moreover have "length (d_to_plain D x) < 2 ^ 64"
    using decimal_lawsD(13) [OF assms(1) dom] dom by (simp add: max_plain_digits_def)
  ultimately show ?thesis using decimal_lawsD(12) [OF assms(1) dom] by auto
next
  case False
  then have "value_has_type pt (en_value en)" "pt \<noteq> BigDecimalText" using encode_typed [OF assms(2)] by simp_all
  then show ?thesis by (cases pt; cases "en_value en") simp_all
qed

subsection \<open>What encoding a column reports\<close>

text \<open>The distance of a stored value from the one it stands for.\<close>

definition stored_error :: "'d decimal_ops \<Rightarrow> ('d \<Rightarrow> rat) \<Rightarrow> 'd \<times> physical_value \<Rightarrow> rat" where
  "stored_error D val p = \<bar>val (fst p) - val (to_logical D (snd p))\<bar>"

lemma encode_stored_error:
  assumes "decimal_laws D val" "encode D pt x = Inr en"
  shows "val (abs_error D (en_exactness en)) = stored_error D val (x, en_value en)"
    "en_exactness en = Exact \<longleftrightarrow> stored_error D val (x, en_value en) = 0"
  using encode_error_exact [OF assms] by (auto simp: stored_error_def)

lemma Max_insert_max:
  fixes S :: "'a::linorder set"
  shows "finite S \<Longrightarrow> Max (insert (max a b) S) = Max (insert a (insert b S))"
  by (cases "S = {}") (simp_all add: max.assoc)

lemma encode_column_loop_spec:
  assumes "decimal_laws D val"
  shows "encode_column_loop D pt index vs out n e = Inr col \<Longrightarrow> 0 \<le> val e \<Longrightarrow>
    \<exists>ws. ce_physical_type col = pt \<and> ce_values col = out @ ws \<and> length ws = length vs \<and>
      list_all (value_has_type pt) ws \<and> list_all (value_readable D) ws \<and>
      ce_lossy_count col = n + length (filter (\<lambda>p. stored_error D val p \<noteq> 0) (zip vs ws)) \<and>
      val (ce_max_abs_error col) = Max (insert (val e) (set (map (stored_error D val) (zip vs ws))))"
proof (induction vs arbitrary: index out n e)
  case Nil
  then show ?case by auto
next
  case (Cons v vs)
  obtain en where en: "encode D pt v = Inr en" using Cons.prems by (cases "encode D pt v") auto
  let ?w = "en_value en"
  let ?err = "stored_error D val (v, ?w)"
  have pos: "0 \<le> ?err" by (simp add: stored_error_def)
  obtain n' e' where next_: "encode_column_loop D pt (Suc index) vs (out @ [?w]) n' e' = Inr col"
    and n': "n' = n + (if ?err \<noteq> 0 then 1 else 0)" and e': "val e' = max (val e) ?err"
  proof (cases "en_exactness en")
    case Exact
    then have "?err = 0" using encode_stored_error(2) [OF assms en] by simp
    then show thesis using Exact Cons.prems en by (intro that [of n e]) simp_all
  next
    case (Lossy x)
    have "val x = ?err" "?err \<noteq> 0" using Lossy encode_stored_error [OF assms en] by simp_all
    then show thesis using Lossy Cons.prems en decimal_lawsD(10) [OF assms, of e x]
      by (intro that [of "n + 1" "if e < x then x else e"]) (auto simp: max_def)
  qed
  have "0 \<le> val e'" using e' pos by simp
  with Cons.IH [OF next_] obtain ws where ws: "ce_physical_type col = pt" "ce_values col = (out @ [?w]) @ ws"
      "length ws = length vs" "list_all (value_has_type pt) ws" "list_all (value_readable D) ws"
      "ce_lossy_count col = n' + length (filter (\<lambda>p. stored_error D val p \<noteq> 0) (zip vs ws))"
      "val (ce_max_abs_error col) = Max (insert (val e') (set (map (stored_error D val) (zip vs ws))))"
    by blast
  have "val (ce_max_abs_error col) = Max (insert (val e) (set (map (stored_error D val) (zip (v # vs) (?w # ws)))))"
    unfolding ws(7) e' by (subst Max_insert_max) (simp_all add: insert_commute)
  then show ?case using ws(1-6) n' encode_typed [OF en] encode_readable [OF assms en]
    by (intro exI [of _ "?w # ws"]) simp
qed

lemma encode_column_ok:
  assumes "decimal_laws D val" "encode_column D pt vs = Inr col"
  shows "ce_physical_type col = pt" "length (ce_values col) = length vs" "column_typed col"
    "list_all (value_readable D) (ce_values col)"
    "ce_lossy_count col = length (filter (\<lambda>p. stored_error D val p \<noteq> 0) (zip vs (ce_values col)))"
    "val (ce_max_abs_error col) = Max (insert 0 (set (map (stored_error D val) (zip vs (ce_values col)))))"
proof -
  obtain ws where ws: "ce_physical_type col = pt" "ce_values col = ws" "length ws = length vs"
      "list_all (value_has_type pt) ws" "list_all (value_readable D) ws"
      "ce_lossy_count col = length (filter (\<lambda>p. stored_error D val p \<noteq> 0) (zip vs ws))"
      "val (ce_max_abs_error col) = Max (insert (val (d_zero D)) (set (map (stored_error D val) (zip vs ws))))"
    using encode_column_loop_spec [OF assms(1) assms(2) [unfolded encode_column_def]] val_zero [OF assms(1)] by auto
  then show "ce_physical_type col = pt" "length (ce_values col) = length vs"
    "list_all (value_readable D) (ce_values col)"
    "ce_lossy_count col = length (filter (\<lambda>p. stored_error D val p \<noteq> 0) (zip vs (ce_values col)))"
    "val (ce_max_abs_error col) = Max (insert 0 (set (map (stored_error D val) (zip vs (ce_values col)))))"
    by (simp_all add: val_zero [OF assms(1)])
  have "length (filter (\<lambda>p. stored_error D val p \<noteq> 0) (zip vs ws)) \<le> length ws"
    using length_filter_le [of _ "zip vs ws"] ws(3) by (metis length_zip min.idem)
  then show "column_typed col" using ws by (simp add: column_typed_def)
qed

text \<open>The first value that cannot be represented is the one reported.\<close>

lemma encode_column_loop_error:
  "encode_column_loop D pt index vs out n e = Inl err \<longleftrightarrow>
    (\<exists>k<length vs. err = \<lparr>cee_index = index + k, cee_source = projl (encode D pt (vs ! k))\<rparr> \<and>
      isl (encode D pt (vs ! k)) \<and> (\<forall>j<k. \<not> isl (encode D pt (vs ! j))))"
proof (induction vs arbitrary: index out n e)
  case Nil
  then show ?case by simp
next
  case (Cons v vs)
  show ?case
  proof (cases "encode D pt v")
    case (Inl source)
    then show ?thesis by (auto simp: less_Suc_eq_0_disj)
  next
    case (Inr en)
    then show ?thesis
      by (cases "en_exactness en") (simp_all add: Cons.IH Ex_less_Suc2 All_less_Suc2)
  qed
qed

lemma encode_column_error:
  "encode_column D pt vs = Inl err \<longleftrightarrow>
    (\<exists>k<length vs. err = \<lparr>cee_index = k, cee_source = projl (encode D pt (vs ! k))\<rparr> \<and>
      isl (encode D pt (vs ! k)) \<and> (\<forall>j<k. \<not> isl (encode D pt (vs ! j))))"
  unfolding encode_column_def encode_column_loop_error by simp

lemma encode_text_domain: "isl (encode D BigDecimalText v) \<longleftrightarrow> max_plain_digits < plain_digit_count D v"
  by (auto simp: encode_def encode_in_def check_decimal_domain_def Let_def)

lemma encode_out_of_domain: "max_plain_digits < plain_digit_count D v \<Longrightarrow> isl (encode D pt v)"
  by (simp add: encode_def check_decimal_domain_def Let_def)

lemma encode_column_isl: "isl (encode_column D pt vs) \<longleftrightarrow> (\<exists>v\<in>set vs. isl (encode D pt v))"
proof -
  have "isl (encode_column D pt vs) \<longleftrightarrow> (\<exists>k<length vs. isl (encode D pt (vs ! k)) \<and> (\<forall>j<k. \<not> isl (encode D pt (vs ! j))))"
    using encode_column_error [of D pt vs] by (cases "encode_column D pt vs") auto
  also have "\<dots> \<longleftrightarrow> (\<exists>k<length vs. isl (encode D pt (vs ! k)))"
  proof
    assume "\<exists>k<length vs. isl (encode D pt (vs ! k))"
    from exists_least_iff [THEN iffD1, OF this]
    show "\<exists>k<length vs. isl (encode D pt (vs ! k)) \<and> (\<forall>j<k. \<not> isl (encode D pt (vs ! j)))"
      by (meson less_trans)
  qed blast
  finally show ?thesis by (metis in_set_conv_nth)
qed

subsection \<open>The recommended type\<close>

lemma first_within_Some:
  "first_within D vs tol pts = Some col \<Longrightarrow>
    \<exists>pt\<in>set pts. encode_column D pt vs = Inr col \<and> ce_max_abs_error col \<le> tol"
  by (induction pts) (auto split: sum.splits if_splits)

lemma first_within_None:
  "first_within D vs tol pts = None \<longleftrightarrow>
    (\<forall>pt\<in>set pts. \<forall>col. encode_column D pt vs = Inr col \<longrightarrow> \<not> ce_max_abs_error col \<le> tol)"
  by (induction pts) (auto split: sum.splits if_splits)

lemma text_column_exact:
  assumes "decimal_laws D val" "encode_column D BigDecimalText vs = Inr col"
  shows "val (ce_max_abs_error col) = 0"
proof -
  have loop: "encode_column_loop D BigDecimalText i vs out n e = Inr col \<Longrightarrow> ce_max_abs_error col = e" for i out n e
  proof (induction vs arbitrary: i out n e)
    case (Cons v vs)
    obtain en where en: "encode D BigDecimalText v = Inr en" using Cons.prems by (cases "encode D BigDecimalText v") auto
    then have "en_exactness en = Exact" by (auto simp: encode_def encode_in_def split: sum.splits)
    then show ?case using Cons en by simp
  qed auto
  from loop [OF assms(2) [unfolded encode_column_def]] show ?thesis by (simp add: val_zero [OF assms(1)])
qed

lemma recommend_encoding_within:
  assumes "decimal_laws D val" "0 \<le> val tol" "\<forall>v\<in>set vs. plain_digit_count D v \<le> max_plain_digits"
  obtains pt where "pt \<in> set (candidates (max_fractional_digits D vs))"
    "encode_column D pt vs = Inr (recommend_encoding D vs tol)" "ce_max_abs_error (recommend_encoding D vs tol) \<le> tol"
proof (cases "first_within D vs tol (candidates (max_fractional_digits D vs))")
  case (Some col)
  then show thesis using first_within_Some [OF Some] that by (auto simp: recommend_encoding_def Let_def)
next
  case None
  have "\<not> isl (encode_column D BigDecimalText vs)"
    using assms(3) by (auto simp: encode_column_isl encode_text_domain)
  then obtain col where col: "encode_column D BigDecimalText vs = Inr col" by (cases "encode_column D BigDecimalText vs") auto
  then have "ce_max_abs_error col \<le> tol"
    using text_column_exact [OF assms(1) col] assms(2) by (simp add: decimal_lawsD(11) [OF assms(1)])
  moreover have "BigDecimalText \<in> set (candidates (max_fractional_digits D vs))" by (simp add: candidates_def)
  ultimately have False using None [unfolded first_within_None] col by blast
  then show thesis ..
qed

text \<open>One value outside the domain, and the recommended column is the empty one.\<close>

lemma recommend_encoding_drops:
  assumes "v \<in> set vs" "max_plain_digits < plain_digit_count D v"
  shows "recommend_encoding D vs tol =
    \<lparr>ce_physical_type = BigDecimalText, ce_values = [], ce_lossy_count = 0, ce_max_abs_error = d_zero D\<rparr>"
proof -
  have bad: "\<exists>e. encode_column D pt vs = Inl e" for pt
  proof -
    have "isl (encode_column D pt vs)"
      unfolding encode_column_isl by (rule bexI [of _ v]) (rule encode_out_of_domain [OF assms(2)], rule assms(1))
    then show ?thesis by (auto simp: isl_def)
  qed
  have "first_within D vs tol pts = None" for pts
    unfolding first_within_None using bad by (metis Inl_Inr_False)
  moreover obtain e where "encode_column D BigDecimalText vs = Inl e" using bad by blast
  ultimately show ?thesis by (simp add: recommend_encoding_def Let_def)
qed

subsection \<open>The delta cascade rebuilds the mantissas\<close>

lemma delta_scan_diffs: "delta_scan prev (wrapping_diffs prev ms) = ms"
  by (induction prev ms rule: wrapping_diffs.induct) simp_all

lemma length_wrapping_diffs [simp]: "length (wrapping_diffs prev ms) = length ms"
  by (induction prev ms rule: wrapping_diffs.induct) simp_all

lemma min_by_key_spec:
  "min_by_key b cs \<in> set (b # cs) \<and> (\<forall>c\<in>set (b # cs). snd (min_by_key b cs) \<le> snd c)"
proof (induction b cs rule: min_by_key.induct)
  case (2 b c cs)
  then show ?case by (cases "snd c < snd b") (simp_all, (force+)?)
qed simp

text \<open>The bytes each inner packer takes for the deltas.\<close>

fun inner_bytes :: "cascade_inner \<Rightarrow> i64 list \<Rightarrow> nat" where
  "inner_bytes InnerVarint ds = zigzag_varint_bytes ds"
| "inner_bytes InnerBitpack ds = bitpack_bytes ds"
| "inner_bytes InnerBlocked ds = blocked_bitpack_bytes ds blocked_bitpack_block"
| "inner_bytes InnerFor ds = for_bitpack_bytes ds blocked_bitpack_block"
| "inner_bytes InnerRle ds = rle_varint_bytes (rle_encode ds)"

lemma delta_cascade_plan_Some:
  assumes "scaled_i64_mantissas col = Some (m # ms)"
  obtains inner where
    "delta_cascade_plan col = Some \<lparr>dp_anchor = m, dp_deltas = wrapping_diffs m ms, dp_inner = inner,
       dp_bytes = zigzag_varint_len m + inner_bytes inner (wrapping_diffs m ms)\<rparr>"
    "\<And>other. inner_bytes inner (wrapping_diffs m ms) \<le> inner_bytes other (wrapping_diffs m ms)"
proof (cases "ms = []")
  case True
  then show thesis using assms by (intro that [of InnerVarint]) (simp_all add: delta_cascade_plan_def Let_def zigzag_varint_bytes_def)
next
  case False
  let ?ds = "wrapping_diffs m ms"
  let ?cs = "map (\<lambda>i. (i, inner_bytes i ?ds)) [InnerBitpack, InnerBlocked, InnerFor, InnerRle]"
  let ?best = "min_by_key (InnerVarint, inner_bytes InnerVarint ?ds) ?cs"
  have best: "?best \<in> set ((InnerVarint, inner_bytes InnerVarint ?ds) # ?cs)"
    "\<forall>c\<in>set ((InnerVarint, inner_bytes InnerVarint ?ds) # ?cs). snd ?best \<le> snd c"
    using min_by_key_spec [of "(InnerVarint, inner_bytes InnerVarint ?ds)" ?cs] by blast+
  have sndb: "snd ?best = inner_bytes (fst ?best) ?ds" using best(1) by auto
  have "delta_cascade_plan col = Some \<lparr>dp_anchor = m, dp_deltas = ?ds, dp_inner = fst ?best,
      dp_bytes = zigzag_varint_len m + snd ?best\<rparr>"
    using False assms by (simp add: delta_cascade_plan_def Let_def split_def)
  moreover have "snd ?best \<le> inner_bytes other ?ds" for other
    using best(2) by (cases other) simp_all
  ultimately show thesis using sndb by (intro that [of "fst ?best"]) simp_all
qed

end
