(* ===== verification/Value_Block.thy ===== *)
theory Value_Block imports Value_Column Ts_Block begin

text \<open>
  The value block of \<^verbatim>\<open>weft-physical-type/src/weftseg.rs\<close>: a value column on disk, its header (type tag,
  scale, counts, largest error) and its payload under one of six codecs, the delta cascade with five
  inner packers among them. The contract of a packed stream of mantissas is the locale
  \<open>mantissa_codec\<close>, met by each of the packers. The build feature \<open>bitsliced-codec\<close> is the argument
  \<open>bitsliced\<close>.
\<close>

unbundle bit_operations_syntax

subsection \<open>Tags\<close>

definition tag_f64 :: u8 where "tag_f64 = 0"
definition tag_f32 :: u8 where "tag_f32 = 1"
definition tag_scaled_i64 :: u8 where "tag_scaled_i64 = 2"
definition tag_scaled_i128 :: u8 where "tag_scaled_i128 = 3"
definition tag_decimal128 :: u8 where "tag_decimal128 = 4"
definition tag_bigdecimal_text :: u8 where "tag_bigdecimal_text = 5"

lemmas type_tag_defs = tag_f64_def tag_f32_def tag_scaled_i64_def tag_scaled_i128_def tag_decimal128_def
  tag_bigdecimal_text_def

fun physical_type_tag :: "physical_type \<Rightarrow> u8" where
  "physical_type_tag F64 = tag_f64"
| "physical_type_tag F32 = tag_f32"
| "physical_type_tag (ScaledI64 _) = tag_scaled_i64"
| "physical_type_tag (ScaledI128 _) = tag_scaled_i128"
| "physical_type_tag Decimal128 = tag_decimal128"
| "physical_type_tag BigDecimalText = tag_bigdecimal_text"

definition val_codec_varint :: u8 where "val_codec_varint = 0"
definition val_codec_bitpack :: u8 where "val_codec_bitpack = 1"
definition val_codec_blocked :: u8 where "val_codec_blocked = 2"
definition val_codec_for :: u8 where "val_codec_for = 3"
definition val_codec_delta_cascade :: u8 where "val_codec_delta_cascade = 4"
definition val_codec_transposed :: u8 where "val_codec_transposed = 5"

lemmas val_codec_defs = val_codec_varint_def val_codec_bitpack_def val_codec_blocked_def val_codec_for_def
  val_codec_delta_cascade_def val_codec_transposed_def

definition bitsliced_not_enabled :: weft_seg_error where
  "bitsliced_not_enabled = CodecNotEnabled ''bit-sliced (scaled_transposed)'' ''bitsliced-codec''"

fun cascade_inner_tag :: "cascade_inner \<Rightarrow> u8" where
  "cascade_inner_tag InnerVarint = 0"
| "cascade_inner_tag InnerBitpack = 1"
| "cascade_inner_tag InnerBlocked = 2"
| "cascade_inner_tag InnerFor = 3"
| "cascade_inner_tag InnerRle = 4"

subsection \<open>One value\<close>

fun write_physical_value :: "physical_value \<Rightarrow> u8 list" where
  "write_physical_value (VF64 f) = put_f64_le f"
| "write_physical_value (VF32 f) = put_f32_le f"
| "write_physical_value (VScaledI64 mantissa _) = put_svarint mantissa"
| "write_physical_value (VScaledI128 mantissa _) = put_i128_le mantissa"
| "write_physical_value (VDecimal128 mantissa scale) = put_i128_le mantissa @ put_svarint scale"
| "write_physical_value (VText s) = put_str s"

definition parse_stored :: "'d decimal_ops \<Rightarrow> u8 list \<Rightarrow> weft_seg_error + 'd" where
  "parse_stored D text =
    (case parse_decimal D text of
       Inl ParseInvalid \<Rightarrow> Inl InvalidDecimal
     | Inl (ParseOutOfRange digits) \<Rightarrow> Inl (DecimalOutOfRange digits)
     | Inr value \<Rightarrow> Inr value)"

definition read_physical_value :: "'d decimal_ops \<Rightarrow> physical_type \<Rightarrow> byte_reader \<Rightarrow>
    weft_seg_error + physical_value \<times> byte_reader" where
  "read_physical_value D pt r =
    (case pt of
       F64 \<Rightarrow> rbind (read_f64_le r) (\<lambda>f r. Inr (VF64 f, r))
     | F32 \<Rightarrow> rbind (read_f32_le r) (\<lambda>f r. Inr (VF32 f, r))
     | ScaledI64 scale \<Rightarrow> rbind (read_svarint r) (\<lambda>m r. Inr (VScaledI64 m scale, r))
     | ScaledI128 scale \<Rightarrow> rbind (read_i128_le r) (\<lambda>m r. Inr (VScaledI128 m scale, r))
     | Decimal128 \<Rightarrow> rbind (read_i128_le r) (\<lambda>m r. rbind (read_svarint r) (\<lambda>s r. Inr (VDecimal128 m s, r)))
     | BigDecimalText \<Rightarrow> rbind (read_str r) (\<lambda>text r.
         case parse_stored D text of Inl e \<Rightarrow> Inl e | Inr _ \<Rightarrow> Inr (VText text, r)))"

definition read_decimal :: "'d decimal_ops \<Rightarrow> byte_reader \<Rightarrow> weft_seg_error + 'd \<times> byte_reader" where
  "read_decimal D r = rbind (read_str r) (\<lambda>text r.
    case parse_stored D text of Inl e \<Rightarrow> Inl e | Inr value \<Rightarrow> Inr (value, r))"

subsection \<open>Packed streams\<close>

definition put_bitpacked :: "i64 list \<Rightarrow> u8 list" where
  "put_bitpacked ms = (let (width, packed) = bitpack_encode ms in put_u8 (u8_try_from width 64) @ put_raw packed)"

definition put_blocked :: "i64 list \<Rightarrow> u8 list" where
  "put_blocked ms = put_usize blocked_bitpack_block @ put_bytes (blocked_bitpack_encode ms blocked_bitpack_block)"

definition put_for :: "i64 list \<Rightarrow> u8 list" where
  "put_for ms = put_usize blocked_bitpack_block @ put_bytes (for_bitpack_encode ms blocked_bitpack_block)"

definition put_transposed :: "i64 list \<Rightarrow> u8 list" where
  "put_transposed ms = put_usize transpose_tile @ put_bytes (transpose_bitpack_encode ms transpose_tile)"

definition put_rle :: "i64 list \<Rightarrow> u8 list" where
  "put_rle ms = (let runs = rle_encode ms in put_usize (length runs) @ put_many put_run runs)"

definition read_bitpacked :: "nat \<Rightarrow> byte_reader \<Rightarrow> weft_seg_error + i64 list \<times> byte_reader" where
  "read_bitpacked count r =
    rbind (read_u8 r) (\<lambda>w r. let width = unat w; data_len = div_ceil (count * width) 8
      in rbind (read_take data_len r) (\<lambda>bytes r. Inr (bitpack_decode width bytes count, r)))"

definition read_blocked :: "nat \<Rightarrow> byte_reader \<Rightarrow> weft_seg_error + i64 list \<times> byte_reader" where
  "read_blocked count r =
    rbind (read_usize r) (\<lambda>block r. rbind (read_bytes r) (\<lambda>bytes r. Inr (blocked_bitpack_decode bytes block count, r)))"

definition read_for :: "nat \<Rightarrow> byte_reader \<Rightarrow> weft_seg_error + i64 list \<times> byte_reader" where
  "read_for count r =
    rbind (read_usize r) (\<lambda>block r. rbind (read_bytes r) (\<lambda>bytes r. Inr (for_bitpack_decode bytes block count, r)))"

definition read_transposed :: "nat \<Rightarrow> byte_reader \<Rightarrow> weft_seg_error + i64 list \<times> byte_reader" where
  "read_transposed count r =
    rbind (read_usize r) (\<lambda>tile r. rbind (read_bytes r) (\<lambda>bytes r. Inr (transpose_bitpack_decode bytes tile count, r)))"

definition read_varints :: "nat \<Rightarrow> byte_reader \<Rightarrow> weft_seg_error + i64 list \<times> byte_reader" where
  "read_varints count r = rcheck (check_count_fits count (remaining r)) (read_many read_svarint count r)"

definition read_rle :: "nat \<Rightarrow> byte_reader \<Rightarrow> weft_seg_error + i64 list \<times> byte_reader" where
  "read_rle count r =
    rbind (read_usize r) (\<lambda>run_count r.
      rcheck (check_count_fits run_count (remaining r div 2))
        (rbind (read_many read_run run_count r) (\<lambda>runs r.
           case checked_rle_total runs of
             Some n \<Rightarrow> if n \<le> count then Inr (rle_decode runs, r)
                       else Inl (ColumnLengthMismatch ''value_column_cascade_rle'' count n)
           | None \<Rightarrow> Inl (DecodeLimit ''value_column_cascade_rle'' (2 ^ 64 - 1) count))))"

subsection \<open>Writing a column\<close>

fun put_inner :: "cascade_inner \<Rightarrow> i64 list \<Rightarrow> u8 list" where
  "put_inner InnerVarint deltas = put_many put_svarint deltas"
| "put_inner InnerBitpack deltas = put_bitpacked deltas"
| "put_inner InnerBlocked deltas = put_blocked deltas"
| "put_inner InnerFor deltas = put_for deltas"
| "put_inner InnerRle deltas = put_rle deltas"

definition put_plan :: "delta_cascade_plan_t \<Rightarrow> u8 list" where
  "put_plan plan = put_svarint (dp_anchor plan) @ put_u8 (cascade_inner_tag (dp_inner plan)) @
    put_inner (dp_inner plan) (dp_deltas plan)"

definition put_scale :: "physical_type \<Rightarrow> u8 list" where
  "put_scale pt = (case pt of ScaledI64 scale \<Rightarrow> put_u8 scale | ScaledI128 scale \<Rightarrow> put_u8 scale | _ \<Rightarrow> [])"

definition put_value_head :: "'d decimal_ops \<Rightarrow> 'd column_encoding \<Rightarrow> u8 list" where
  "put_value_head D col =
    put_u8 (physical_type_tag (ce_physical_type col)) @ put_scale (ce_physical_type col) @
    put_usize (length (ce_values col)) @ put_usize (ce_lossy_count col) @
    put_str (d_to_plain D (ce_max_abs_error col))"

text \<open>\<open>unwrap_or_default\<close> and the plan that stands in for a missing one.\<close>

definition mantissas_or_default :: "'d column_encoding \<Rightarrow> i64 list" where
  "mantissas_or_default col = (case scaled_i64_mantissas col of Some ms \<Rightarrow> ms | None \<Rightarrow> [])"

definition plan_or_default :: "'d column_encoding \<Rightarrow> delta_cascade_plan_t" where
  "plan_or_default col = (case delta_cascade_plan col of Some p \<Rightarrow> p
    | None \<Rightarrow> \<lparr>dp_anchor = 0, dp_deltas = [], dp_inner = InnerVarint, dp_bytes = 0\<rparr>)"

definition write_value_column_selected :: "'d decimal_ops \<Rightarrow> bool \<Rightarrow> 'd column_encoding \<Rightarrow> string \<Rightarrow> u8 list" where
  "write_value_column_selected D bitsliced col codec =
    put_value_head D col @
    (if codec = ''scaled_delta_cascade'' then put_u8 val_codec_delta_cascade @ put_plan (plan_or_default col)
     else if bitsliced \<and> codec = ''scaled_transposed''
     then put_u8 val_codec_transposed @ put_transposed (mantissas_or_default col)
     else if codec = ''scaled_for'' then put_u8 val_codec_for @ put_for (mantissas_or_default col)
     else if codec = ''scaled_blocked'' then put_u8 val_codec_blocked @ put_blocked (mantissas_or_default col)
     else if codec = ''scaled_bitpack'' then put_u8 val_codec_bitpack @ put_bitpacked (mantissas_or_default col)
     else put_u8 val_codec_varint @ put_many write_physical_value (ce_values col))"

definition write_value_column :: "'d decimal_ops \<Rightarrow> bool \<Rightarrow> 'd column_encoding \<Rightarrow> u8 list" where
  "write_value_column D bitsliced col = write_value_column_selected D bitsliced col (best_value_codec col)"

definition write_value_column_cascading :: "'d decimal_ops \<Rightarrow> bool \<Rightarrow> 'd column_encoding \<Rightarrow> u8 list" where
  "write_value_column_cascading D bitsliced col = write_value_column_selected D bitsliced col (best_value_codec_cascading col)"

text \<open>Built only with the feature.\<close>

definition write_value_column_transposed :: "'d decimal_ops \<Rightarrow> (nat \<Rightarrow> nat \<Rightarrow> bool) \<Rightarrow> 'd column_encoding \<Rightarrow> u8 list" where
  "write_value_column_transposed D admits col = write_value_column_selected D True col (best_value_codec_transposed admits col)"

subsection \<open>Reading a column\<close>

definition read_physical_type :: "byte_reader \<Rightarrow> weft_seg_error + (u8 \<times> physical_type) \<times> byte_reader" where
  "read_physical_type r =
    rbind (read_u8 r) (\<lambda>tag r.
      if tag = tag_f64 then Inr ((tag, F64), r)
      else if tag = tag_f32 then Inr ((tag, F32), r)
      else if tag = tag_scaled_i64 then rbind (read_u8 r) (\<lambda>scale r. Inr ((tag, ScaledI64 scale), r))
      else if tag = tag_scaled_i128 then rbind (read_u8 r) (\<lambda>scale r. Inr ((tag, ScaledI128 scale), r))
      else if tag = tag_decimal128 then Inr ((tag, Decimal128), r)
      else if tag = tag_bigdecimal_text then Inr ((tag, BigDecimalText), r)
      else Inl (InvalidTag ''physical_type'' tag))"

text \<open>A packed stream is defined for the scaled integers only.\<close>

definition read_scaled :: "string \<Rightarrow> u8 \<Rightarrow> physical_type \<Rightarrow>
    (byte_reader \<Rightarrow> weft_seg_error + i64 list \<times> byte_reader) \<Rightarrow> byte_reader \<Rightarrow>
    weft_seg_error + physical_value list \<times> byte_reader" where
  "read_scaled kind tag pt get r =
    (case pt of
       ScaledI64 scale \<Rightarrow> rbind (get r) (\<lambda>ms r. Inr (map (\<lambda>m. VScaledI64 m scale) ms, r))
     | _ \<Rightarrow> Inl (InvalidTag kind tag))"

definition read_cascade_mantissas :: "nat \<Rightarrow> byte_reader \<Rightarrow> weft_seg_error + i64 list \<times> byte_reader" where
  "read_cascade_mantissas count r =
    rbind (read_svarint r) (\<lambda>anchor r.
    let delta_count = count - 1 in
    rbind (read_u8 r) (\<lambda>inner r.
    rbind (if inner = cascade_inner_tag InnerVarint then read_varints delta_count r
           else if inner = cascade_inner_tag InnerBitpack then read_bitpacked delta_count r
           else if inner = cascade_inner_tag InnerBlocked then read_blocked delta_count r
           else if inner = cascade_inner_tag InnerFor then read_for delta_count r
           else if inner = cascade_inner_tag InnerRle then read_rle delta_count r
           else Inl (InvalidTag ''value_codec_cascade_inner'' inner))
      (\<lambda>deltas r. Inr (if 0 < count then anchor # delta_scan anchor deltas else [], r))))"

definition read_cascade_value_column :: "byte_reader \<Rightarrow> physical_type \<Rightarrow> u8 \<Rightarrow> nat \<Rightarrow>
    weft_seg_error + physical_value list \<times> byte_reader" where
  "read_cascade_value_column r pt tag count =
    read_scaled ''value_codec_delta_cascade_type'' tag pt (read_cascade_mantissas count) r"

definition read_value_payload :: "'d decimal_ops \<Rightarrow> bool \<Rightarrow> u8 \<Rightarrow> physical_type \<Rightarrow> nat \<Rightarrow> byte_reader \<Rightarrow>
    weft_seg_error + physical_value list \<times> byte_reader" where
  "read_value_payload D bitsliced tag pt count r =
    rbind (read_u8 r) (\<lambda>codec r.
      if codec = val_codec_varint
      then rcheck (check_count_fits count (remaining r)) (read_many (read_physical_value D pt) count r)
      else if codec = val_codec_bitpack then read_scaled ''value_codec_bitpack_type'' tag pt (read_bitpacked count) r
      else if codec = val_codec_blocked then read_scaled ''value_codec_blocked_type'' tag pt (read_blocked count) r
      else if codec = val_codec_for then read_scaled ''value_codec_for_type'' tag pt (read_for count) r
      else if codec = val_codec_transposed
      then if bitsliced then read_scaled ''value_codec_transposed_type'' tag pt (read_transposed count) r
           else Inl bitsliced_not_enabled
      else if codec = val_codec_delta_cascade then read_cascade_value_column r pt tag count
      else Inl (InvalidTag ''value_codec'' codec))"

definition read_value_column :: "'d decimal_ops \<Rightarrow> bool \<Rightarrow> byte_reader \<Rightarrow> weft_seg_error + 'd column_encoding \<times> byte_reader" where
  "read_value_column D bitsliced r =
    rbind (read_physical_type r) (\<lambda>(tag, pt) r.
    rbind (read_usize r) (\<lambda>count r.
    rcheck (check_decode_limit ''value_count'' count max_rows)
    (rbind (read_usize r) (\<lambda>lossy_count r.
    if count < lossy_count then Inl (ColumnLengthMismatch ''lossy_count'' count lossy_count) else
    rbind (read_decimal D r) (\<lambda>max_abs_error r.
    rbind (read_value_payload D bitsliced tag pt count r) (\<lambda>vs r.
    Inr (\<lparr>ce_physical_type = pt, ce_values = vs, ce_lossy_count = lossy_count, ce_max_abs_error = max_abs_error\<rparr>, r)))))))"

subsection \<open>The contract of a packed stream\<close>

locale mantissa_codec =
  fixes putm :: "i64 list \<Rightarrow> u8 list"
    and getm :: "nat \<Rightarrow> byte_reader \<Rightarrow> weft_seg_error + i64 list \<times> byte_reader"
  assumes get_put: "length ms \<le> max_rows \<Longrightarrow>
      getm (length ms) (rd pre (putm ms @ s)) = Inr (ms, rd (pre @ putm ms) s)"
    and get_length: "getm n r = Inr (ms, r') \<Longrightarrow> length ms \<le> n"
    and get_forward: "forward (getm n)"
begin

lemma scaled_get_put:
  assumes "length ms \<le> max_rows" "count = length ms"
  shows "read_scaled kind tag (ScaledI64 scale) (getm count) (rd pre (putm ms @ s)) =
    Inr (map (\<lambda>m. VScaledI64 m scale) ms, rd (pre @ putm ms) s)"
  using get_put [OF assms(1)] assms(2) by (simp add: read_scaled_def)

lemma scaled_length: "read_scaled kind tag pt (getm n) r = Inr (vs, r') \<Longrightarrow> length vs \<le> n"
  using get_length by (auto simp: read_scaled_def rbind_Inr_iff split: physical_type.splits)

lemma scaled_forward: "forward (read_scaled kind tag pt (getm n))"
  unfolding read_scaled_def [abs_def]
  by (cases pt) (simp_all add: forward_pure forward_rbind [OF get_forward forward_pure(1)])

end

lemma rcheck_Inr_iff: "rcheck c k = Inr y \<longleftrightarrow> c = Inr () \<and> k = Inr y"
  by (cases c) (auto simp: rcheck_def)

lemma forward_take: "forward (read_take n)"
  by (auto simp: forward_def read_take_def)

lemma forward_bytes: "forward read_bytes"
  unfolding read_bytes_def [abs_def] by (intro forward_rbind forward_usize forward_take)

lemma forward_many: "forward get \<Longrightarrow> forward (read_many get n)"
proof (induction n)
  case 0
  then show ?case by (simp add: forward_def)
next
  case (Suc n)
  then show ?case unfolding read_many.simps [abs_def] by (intro forward_rbind forward_pure) auto
qed

lemma forward_run: "forward read_run"
  unfolding read_run_def [abs_def] by (intro forward_rbind forward_svarint forward_usize forward_pure)

lemma chunks_sum_bound:
  assumes "0 < block" "\<And>c. c \<noteq> [] \<Longrightarrow> f c \<le> k * length c"
  shows "sum_list (map f (chunks block xs)) \<le> k * length xs"
proof -
  have "[] \<notin> set (chunks block xs)"
    by (induction block xs rule: chunks.induct) (subst chunks.simps, auto)
  then have "sum_list (map f (chunks block xs)) \<le> sum_list (map (\<lambda>c. k * length c) (chunks block xs))"
    using assms(2) by (intro sum_list_mono) metis
  also have "\<dots> = k * length (concat (chunks block xs))" by (simp add: length_concat sum_list_const_mult)
  also have "\<dots> = k * length xs" using assms(1) by (simp add: concat_chunks)
  finally show ?thesis .
qed

lemma uvarint_len_le: "uvarint_len v \<le> 10"
proof -
  have le: "(if n mod 7 = 0 then n div 7 else n div 7 + 1) \<le> 10" if "n \<le> 64" for n :: nat using that by presburger
  have "max 1 (bit_length v) \<le> 64" using bit_length_le [of v] by simp
  then have "div_ceil (max 1 (bit_length v)) 7 \<le> 10" unfolding div_ceil_def by (rule le)
  then show ?thesis by (simp only: uvarint_len_bit_length)
qed

lemma packed_fields_bound: "w \<le> 64 \<Longrightarrow> div_ceil (n * w) 8 \<le> 8 * n"
proof -
  assume "w \<le> 64"
  then have "n * w \<le> n * 64" by simp
  then show ?thesis using div_ceil_8_bound [of "n * w"] by linarith
qed

lemma for_bytes_bound: "for_bitpack_bytes ms blocked_bitpack_block \<le> 20 * length ms"
proof -
  have "(let mn = min_or_zero c; width = max_bit_length (map (\<lambda>v. for_residual v mn) c)
      in zigzag_varint_len mn + 1 + div_ceil (length c * width) 8) \<le> 20 * length c" if "c \<noteq> []" for c
  proof -
    have "1 \<le> length c" using that by (cases c) auto
    moreover have "zigzag_varint_len (min_or_zero c) \<le> 10" by (simp add: zigzag_varint_len_eq uvarint_len_le)
    moreover note packed_fields_bound [OF max_bit_length_le [of "map (\<lambda>v. for_residual v (min_or_zero c)) c"], of "length c"]
    ultimately show ?thesis unfolding Let_def by linarith
  qed
  from chunks_sum_bound [OF _ this, of 64 ms] show ?thesis
    by (simp add: for_bitpack_bytes_def Let_def blocked_bitpack_block_def)
qed

lemma transpose_bytes_bound: "transpose_bitpack_bytes ms transpose_tile \<le> 65 * length ms"
proof -
  have "1 + bitpack_width c * div_ceil (length c) 8 \<le> 65 * length c" if "c \<noteq> []" for c
  proof -
    have "1 \<le> length c" using that by (cases c) auto
    moreover have "div_ceil (length c) 8 \<le> length c"
      using div_ceil_8_bound [of "length c"] calculation by linarith
    then have "bitpack_width c * div_ceil (length c) 8 \<le> 64 * length c"
      using bitpack_width_le [of c] by (intro mult_le_mono)
    ultimately show ?thesis by linarith
  qed
  from chunks_sum_bound [OF _ this, of 1024 ms] show ?thesis
    by (simp add: transpose_bitpack_bytes_def Let_def transpose_tile_def)
qed

text \<open>A stream that its own length precedes.\<close>

lemma prefixed_stream:
  assumes "block < 2 ^ 64" "length stream < 2 ^ 64"
  shows "rbind (read_usize (rd pre ((put_usize block @ put_bytes stream) @ s))) (\<lambda>block r.
      rbind (read_bytes r) (\<lambda>bytes r. Inr (f bytes block, r))) =
    Inr (f stream block, rd (pre @ put_usize block @ put_bytes stream) s)"
  using assms by (simp add: usize.get_put bytes.get_put)

interpretation bitpacked: mantissa_codec put_bitpacked read_bitpacked
proof unfold_locales
  fix ms pre s
  let ?w = "bitpack_width ms" and ?p = "snd (bitpack_encode ms)"
  have w: "unat (u8_try_from ?w 64) = ?w"
    using bitpack_width_le [of ms] by (intro unat_u8_try_from) simp
  have "read_take (div_ceil (length ms * ?w) 8) (rd pre (?p @ s)) = Inr (?p, rd (pre @ ?p) s)" for pre s
    by (rule read_take_rd) (rule length_bitpack_encode)
  then show "read_bitpacked (length ms) (rd pre (put_bitpacked ms @ s)) = Inr (ms, rd (pre @ put_bitpacked ms) s)"
    by (simp add: read_bitpacked_def put_bitpacked_def put_u8_def put_raw_def read_u8_rd w split_def fst_bitpack_encode
        Let_def bitpack_decode_encode)
qed (auto simp: read_bitpacked_def [abs_def] Let_def rbind_Inr_iff intro!: forward_rbind forward_u8 forward_take forward_pure)

interpretation blocked_stream: mantissa_codec put_blocked read_blocked
proof unfold_locales
  fix ms pre s assume "length (ms :: i64 list) \<le> max_rows"
  then show "read_blocked (length ms) (rd pre (put_blocked ms @ s)) = Inr (ms, rd (pre @ put_blocked ms) s)"
    unfolding read_blocked_def put_blocked_def
    using blocked_bitpack_decode_encode [of ms blocked_bitpack_block "[]"] blocked_stream_small [of ms]
    by (subst prefixed_stream) (simp_all add: blocked_bitpack_block_def)
qed (auto simp: read_blocked_def [abs_def] rbind_Inr_iff blocked_bitpack_decode_def blocked.length_decode_loop
    intro!: forward_rbind forward_usize forward_bytes forward_pure)

interpretation for_stream: mantissa_codec put_for read_for
proof unfold_locales
  fix ms pre s assume "length (ms :: i64 list) \<le> max_rows"
  then have "length (for_bitpack_encode ms blocked_bitpack_block) < 2 ^ 64"
    using for_bytes_bound [of ms] by (simp add: length_for_bitpack_encode max_rows_def)
  then show "read_for (length ms) (rd pre (put_for ms @ s)) = Inr (ms, rd (pre @ put_for ms) s)"
    unfolding read_for_def put_for_def
    using for_bitpack_decode_encode [of ms blocked_bitpack_block "[]"]
    by (subst prefixed_stream) (simp_all add: blocked_bitpack_block_def)
qed (auto simp: read_for_def [abs_def] rbind_Inr_iff for_bitpack_decode_def for_fmt.length_decode_loop
    intro!: forward_rbind forward_usize forward_bytes forward_pure)

interpretation transposed_stream: mantissa_codec put_transposed read_transposed
proof unfold_locales
  fix ms pre s assume "length (ms :: i64 list) \<le> max_rows"
  then have "length (transpose_bitpack_encode ms transpose_tile) < 2 ^ 64"
    using transpose_bytes_bound [of ms] by (simp add: length_transpose_bitpack_encode max_rows_def)
  then show "read_transposed (length ms) (rd pre (put_transposed ms @ s)) = Inr (ms, rd (pre @ put_transposed ms) s)"
    unfolding read_transposed_def put_transposed_def
    using transpose_bitpack_decode_encode [of ms transpose_tile "[]"]
    by (subst prefixed_stream) (simp_all add: transpose_tile_def)
qed (auto simp: read_transposed_def [abs_def] rbind_Inr_iff transpose_bitpack_decode_def transposed.length_decode_loop
    intro!: forward_rbind forward_usize forward_bytes forward_pure)

lemma read_many_length: "read_many get n r = Inr (xs, r') \<Longrightarrow> length xs = n"
  by (induction n arbitrary: r xs) (auto simp: rbind_Inr_iff)

lemma put_many_fits:
  assumes "\<And>x. k \<le> length (put x)" "0 < k"
  shows "check_count_fits (length xs) ((length (put_many put xs) + length (s :: u8 list)) div k) = Inr ()"
proof -
  have "k * length xs \<le> length (put_many put xs)" by (rule length_put_many_ge) (rule assms(1))
  then have "k * length xs \<le> length (put_many put xs) + length s" by linarith
  then have "length xs \<le> (length (put_many put xs) + length s) div k"
    using assms(2) by (simp add: less_eq_div_iff_mult_less_eq mult.commute)
  then show ?thesis by (simp add: check_count_fits_def)
qed

interpretation varint_stream: mantissa_codec "put_many put_svarint" read_varints
proof unfold_locales
  fix ms pre s
  show "read_varints (length ms) (rd pre (put_many put_svarint ms @ s)) = Inr (ms, rd (pre @ put_many put_svarint ms) s)"
    using put_many_fits [of 1 put_svarint ms s] put_usize_nonempty(2)
    by (simp add: read_varints_def rcheck_def svarint.read_many_put)
qed (auto simp: read_varints_def [abs_def] rcheck_def read_many_length split: sum.splits
    intro!: forward_rcheck [unfolded rcheck_def] forward_many forward_svarint)

interpretation rle_stream: mantissa_codec put_rle read_rle
proof unfold_locales
  fix ms pre s assume "length (ms :: i64 list) \<le> max_rows"
  then have small: "length ms < 2 ^ 64" by (simp add: max_rows_def)
  let ?runs = "rle_encode ms"
  have valid: "\<forall>x\<in>set ?runs. case x of (v, n) \<Rightarrow> n < 2 ^ 64"
    using rle_counts_bound [of ms] small by fastforce
  have n: "length ?runs < 2 ^ 64" using rle_runs_le [of ms] small by linarith
  have "2 \<le> length (put_run run)" for run
    using add_mono [OF put_usize_nonempty(2) put_usize_nonempty(1), of "fst run" "snd run"]
    by (simp add: put_run_def split_def)
  from put_many_fits [of 2 put_run ?runs s, OF this]
  show "read_rle (length ms) (rd pre (put_rle ms @ s)) = Inr (ms, rd (pre @ put_rle ms) s)"
    using small n
    by (simp add: read_rle_def put_rle_def Let_def usize.get_put rcheck_def run.read_many_put [OF valid]
        checked_rle_total_eq rle_decode_encode)
next
  fix n r ms r' assume "read_rle n r = Inr (ms, r')"
  then show "length ms \<le> n"
    by (auto simp: read_rle_def rbind_Inr_iff rcheck_Inr_iff checked_rle_total_eq Let_def split: if_splits)
next
  have "forward (\<lambda>r. case checked_rle_total runs of
      Some n \<Rightarrow> if n \<le> count then Inr (rle_decode runs, r)
                else Inl (ColumnLengthMismatch ''value_column_cascade_rle'' count n)
    | None \<Rightarrow> Inl (DecodeLimit ''value_column_cascade_rle'' (2 ^ 64 - 1) count))" for runs count
    by (auto simp: forward_def split: option.splits if_splits)
  then show "forward (read_rle n)" for n
    unfolding read_rle_def [abs_def]
    by (intro forward_rbind forward_usize forward_rcheck forward_many forward_run)
qed

subsection \<open>The header reads back\<close>

lemma read_physical_type_put:
  "read_physical_type (rd pre (put_u8 (physical_type_tag pt) @ put_scale pt @ s)) =
    Inr ((physical_type_tag pt, pt), rd (pre @ put_u8 (physical_type_tag pt) @ put_scale pt) s)"
  by (cases pt) (simp_all add: read_physical_type_def put_scale_def put_u8_def read_u8_rd type_tag_defs)

lemma parse_stored_eq: "parse_decimal D text = Inr y \<Longrightarrow> parse_stored D text = Inr y"
  by (simp add: parse_stored_def)

text \<open>A decimal in the domain comes back as the number it was, possibly with another scale.\<close>

lemma read_decimal_put:
  assumes "decimal_laws D val" "plain_digit_count D x \<le> max_plain_digits"
  obtains y where "val y = val x" "plain_digit_count D y \<le> max_plain_digits"
    "\<And>pre s. read_decimal D (rd pre (put_str (d_to_plain D x) @ s)) = Inr (y, rd (pre @ put_str (d_to_plain D x)) s)"
proof -
  obtain y where y: "val y = val x" "plain_digit_count D y \<le> max_plain_digits" "parse_decimal D (d_to_plain D x) = Inr y"
    by (rule parse_plain [OF assms])
  have "length (d_to_plain D x) < 2 ^ 64" "utf8_valid (d_to_plain D x)"
    using decimal_lawsD(12,13) [OF assms] assms(2) by (simp_all add: max_plain_digits_def)
  then show thesis
    using y(1,2) parse_stored_eq [OF y(3)] by (intro that [of y]) (simp_all add: read_decimal_def str.get_put)
qed

lemma write_physical_value_nonempty: "1 \<le> length (write_physical_value v)"
  using put_usize_nonempty
  by (cases v) (simp_all add: put_f64_le_def put_f32_le_def put_i128_le_def put_str_def put_bytes_def put_usize_def [symmetric]
      to_le_def trans_le_add1)

lemma read_physical_value_put:
  assumes "value_has_type pt v" "value_readable D v"
  shows "read_physical_value D pt (rd pre (write_physical_value v @ s)) = Inr (v, rd (pre @ write_physical_value v) s)"
  using assms
  by (cases pt; cases v)
     (auto simp: read_physical_value_def f64.get_put f32.get_put svarint.get_put i128.get_put str.get_put dest: parse_stored_eq)

lemma read_values_put:
  assumes "list_all (value_has_type pt) vs" "list_all (value_readable D) vs"
  shows "read_many (read_physical_value D pt) (length vs) (rd pre (put_many write_physical_value vs @ s)) =
    Inr (vs, rd (pre @ put_many write_physical_value vs) s)"
  using assms
  by (induction vs arbitrary: pre) (simp_all add: put_many_def read_physical_value_put)

subsection \<open>The payload reads back\<close>

lemma scaled_values:
  assumes "column_typed col" "ce_physical_type col = ScaledI64 scale"
  shows "scaled_i64_mantissas col = Some (map mantissa_of (ce_values col))"
    "map (\<lambda>m. VScaledI64 m scale) (map mantissa_of (ce_values col)) = ce_values col"
proof -
  show "scaled_i64_mantissas col = Some (map mantissa_of (ce_values col))"
    by (simp add: scaled_i64_mantissas_def assms(2))
  have "\<forall>v\<in>set (ce_values col). VScaledI64 (mantissa_of v) scale = v"
    using assms value_has_type_scaled_i64 by (fastforce simp: column_typed_def list_all_iff)
  then show "map (\<lambda>m. VScaledI64 m scale) (map mantissa_of (ce_values col)) = ce_values col"
    by (simp add: map_idI)
qed

lemma read_cascade_put:
  assumes "length (m # ms) \<le> max_rows"
  shows "read_cascade_mantissas (length (m # ms))
      (rd pre (put_svarint m @ put_u8 (cascade_inner_tag inner) @ put_inner inner (wrapping_diffs m ms) @ s)) =
    Inr (m # ms, rd (pre @ put_svarint m @ put_u8 (cascade_inner_tag inner) @ put_inner inner (wrapping_diffs m ms)) s)"
proof -
  let ?ds = "wrapping_diffs m ms"
  have ds: "length ?ds \<le> max_rows" "length ms = length ?ds" using assms by simp_all
  show ?thesis
    by (cases inner)
       (simp_all add: read_cascade_mantissas_def svarint.get_put u8.get_put Let_def ds(2) delta_scan_diffs
         varint_stream.get_put [OF ds(1)] bitpacked.get_put [OF ds(1)] blocked_stream.get_put [OF ds(1)]
         for_stream.get_put [OF ds(1)] rle_stream.get_put [OF ds(1)] del: length_wrapping_diffs)
qed

lemma read_cascade_empty:
  "read_cascade_mantissas 0 (rd pre (put_svarint 0 @ put_u8 (cascade_inner_tag InnerVarint) @ s)) =
    Inr ([], rd (pre @ put_svarint 0 @ put_u8 (cascade_inner_tag InnerVarint)) s)"
  by (simp add: read_cascade_mantissas_def svarint.get_put u8.get_put Let_def read_varints_def check_count_fits_def rcheck_def)

lemma read_plan_put:
  assumes "length ms \<le> max_rows" "scaled_i64_mantissas col = Some ms"
  shows "read_cascade_mantissas (length ms) (rd pre (put_plan (plan_or_default col) @ s)) =
    Inr (ms, rd (pre @ put_plan (plan_or_default col)) s)"
proof (cases ms)
  case Nil
  then have "put_plan (plan_or_default col) = put_svarint 0 @ put_u8 (cascade_inner_tag InnerVarint)"
    using assms(2) by (simp add: plan_or_default_def delta_cascade_plan_def put_plan_def put_many_def)
  then show ?thesis using Nil read_cascade_empty by simp
next
  case (Cons m ms')
  obtain inner where "delta_cascade_plan col = Some \<lparr>dp_anchor = m, dp_deltas = wrapping_diffs m ms', dp_inner = inner,
       dp_bytes = zigzag_varint_len m + inner_bytes inner (wrapping_diffs m ms')\<rparr>"
    by (rule delta_cascade_plan_Some [OF assms(2) [unfolded Cons]])
  then have "put_plan (plan_or_default col) =
      put_svarint m @ put_u8 (cascade_inner_tag inner) @ put_inner inner (wrapping_diffs m ms')"
    by (simp add: plan_or_default_def put_plan_def)
  then show ?thesis using read_cascade_put [OF assms(1) [unfolded Cons], of pre inner s] Cons by simp
qed

subsection \<open>The column reads back\<close>

definition value_payload :: "'d decimal_ops \<Rightarrow> bool \<Rightarrow> 'd column_encoding \<Rightarrow> string \<Rightarrow> u8 list" where
  "value_payload D bitsliced col codec = drop (length (put_value_head D col)) (write_value_column_selected D bitsliced col codec)"

lemma write_selected_parts:
  "write_value_column_selected D bitsliced col codec = put_value_head D col @ value_payload D bitsliced col codec"
  by (simp add: value_payload_def write_value_column_selected_def)

definition column_ok :: "'d decimal_ops \<Rightarrow> 'd column_encoding \<Rightarrow> bool" where
  "column_ok D col \<longleftrightarrow> column_typed col \<and> list_all (value_readable D) (ce_values col) \<and>
    length (ce_values col) \<le> max_rows \<and> plain_digit_count D (ce_max_abs_error col) \<le> max_plain_digits"

text \<open>The selectors name a packed codec for a scaled column only.\<close>

definition codec_applies :: "'d column_encoding \<Rightarrow> string \<Rightarrow> bool" where
  "codec_applies col codec \<longleftrightarrow> scaled_i64_mantissas col \<noteq> None \<or> codec = ''varint''"

lemma selectors_apply:
  "codec_applies col (best_value_codec col)" "codec_applies col (best_value_codec_cascading col)"
  "codec_applies col (best_value_codec_transposed admits col)"
  by (cases "scaled_i64_mantissas col";
      simp add: codec_applies_def best_value_codec_def best_value_codec_cascading_def best_value_codec_transposed_def Let_def
        bitpack_value_bytes_def delta_cascade_bytes_def delta_cascade_plan_def transposed_value_bytes_def)+

lemma read_payload_put:
  assumes ok: "column_ok D col" and codec: "codec_applies col codec"
  shows "read_value_payload D bitsliced tag (ce_physical_type col) (length (ce_values col))
      (rd pre (value_payload D bitsliced col codec @ s)) =
    Inr (ce_values col, rd (pre @ value_payload D bitsliced col codec) s)"
proof (cases "scaled_i64_mantissas col")
  case None
  then have codec: "codec = ''varint''" using codec by (simp add: codec_applies_def)
  have vals: "list_all (value_has_type (ce_physical_type col)) (ce_values col)" "list_all (value_readable D) (ce_values col)"
    using ok by (simp_all add: column_ok_def column_typed_def)
  show ?thesis
    using put_many_fits [of 1 write_physical_value "ce_values col" s, OF write_physical_value_nonempty]
    by (simp add: codec value_payload_def write_value_column_selected_def read_value_payload_def u8.get_put
        read_values_put [OF vals] rcheck_def)
next
  case (Some ms)
  then obtain scale where pt: "ce_physical_type col = ScaledI64 scale"
    by (auto simp: scaled_i64_mantissas_def split: physical_type.splits)
  note vs = scaled_values [OF _ pt]
  have typed: "column_typed col" using ok by (simp add: column_ok_def)
  have ms: "ms = map mantissa_of (ce_values col)" "map (\<lambda>m. VScaledI64 m scale) ms = ce_values col"
    using vs [OF typed] Some by simp_all
  have n: "length ms \<le> max_rows" "length (ce_values col) = length ms" using ok ms by (simp_all add: column_ok_def)
  have default: "mantissas_or_default col = ms" by (simp add: mantissas_or_default_def Some)
  note packed = bitpacked.get_put [OF n(1)] blocked_stream.get_put [OF n(1)] for_stream.get_put [OF n(1)]
    transposed_stream.get_put [OF n(1)] read_plan_put [OF n(1) Some]
  have scaled_packed:
    "read_scaled kind tag (ScaledI64 scale) (read_bitpacked (length ms)) (rd pre (put_bitpacked ms @ s)) =
      Inr (ce_values col, rd (pre @ put_bitpacked ms) s)"
    "read_scaled kind tag (ScaledI64 scale) (read_blocked (length ms)) (rd pre (put_blocked ms @ s)) =
      Inr (ce_values col, rd (pre @ put_blocked ms) s)"
    "read_scaled kind tag (ScaledI64 scale) (read_for (length ms)) (rd pre (put_for ms @ s)) =
      Inr (ce_values col, rd (pre @ put_for ms) s)"
    "read_scaled kind tag (ScaledI64 scale) (read_transposed (length ms)) (rd pre (put_transposed ms @ s)) =
      Inr (ce_values col, rd (pre @ put_transposed ms) s)"
    "read_scaled kind tag (ScaledI64 scale) (read_cascade_mantissas (length ms)) (rd pre (put_plan (plan_or_default col) @ s)) =
      Inr (ce_values col, rd (pre @ put_plan (plan_or_default col)) s)"
    for kind pre by (simp_all add: read_scaled_def packed ms(2))
  have vals: "list_all (value_has_type (ScaledI64 scale)) (ce_values col)" "list_all (value_readable D) (ce_values col)"
    using ok pt by (simp_all add: column_ok_def column_typed_def)
  have plain: "rcheck (check_count_fits (length (ce_values col)) (length (put_many write_physical_value (ce_values col)) + length s))
      (read_many (read_physical_value D (ScaledI64 scale)) (length (ce_values col)) (rd pre (put_many write_physical_value (ce_values col) @ s))) =
      Inr (ce_values col, rd (pre @ put_many write_physical_value (ce_values col)) s)" for pre
    using put_many_fits [of 1 write_physical_value "ce_values col" s, OF write_physical_value_nonempty]
    by (simp add: rcheck_def read_values_put [OF vals])
  note simps = value_payload_def write_value_column_selected_def read_value_payload_def u8.get_put pt default
    read_cascade_value_column_def
  consider "codec = ''scaled_delta_cascade''" | "bitsliced" "codec = ''scaled_transposed''" | "codec = ''scaled_for''"
    | "codec = ''scaled_blocked''" | "codec = ''scaled_bitpack''"
    | "codec \<noteq> ''scaled_delta_cascade''" "\<not> (bitsliced \<and> codec = ''scaled_transposed'')" "codec \<noteq> ''scaled_for''"
      "codec \<noteq> ''scaled_blocked''" "codec \<noteq> ''scaled_bitpack''" by blast
  then show ?thesis
  proof cases
    case 1
    show ?thesis by (simp add: 1 simps val_codec_defs n(2) scaled_packed)
  next
    case 2
    show ?thesis by (simp add: 2 simps val_codec_defs n(2) scaled_packed)
  next
    case 3
    show ?thesis by (simp add: 3 simps val_codec_defs n(2) scaled_packed)
  next
    case 4
    show ?thesis by (simp add: 4 simps val_codec_defs n(2) scaled_packed)
  next
    case 5
    show ?thesis by (simp add: 5 simps val_codec_defs n(2) scaled_packed)
  next
    case 6
    then have "value_payload D bitsliced col codec = put_u8 val_codec_varint @ put_many write_physical_value (ce_values col)"
      unfolding value_payload_def write_value_column_selected_def by (simp only: if_False) simp
    then show ?thesis using plain by (simp add: read_value_payload_def u8.get_put pt)
  qed
qed

lemma value_column_reads:
  assumes laws: "decimal_laws D val" and ok: "column_ok D col"
  obtains e where "val e = val (ce_max_abs_error col)" "column_ok D (col\<lparr>ce_max_abs_error := e\<rparr>)"
    "\<And>codec pre s. codec_applies col codec \<Longrightarrow>
      read_value_column D bitsliced (rd pre (write_value_column_selected D bitsliced col codec @ s)) =
        Inr (col\<lparr>ce_max_abs_error := e\<rparr>, rd (pre @ write_value_column_selected D bitsliced col codec) s)"
proof -
  have dom: "plain_digit_count D (ce_max_abs_error col) \<le> max_plain_digits" using ok by (simp add: column_ok_def)
  obtain e where e: "val e = val (ce_max_abs_error col)" "plain_digit_count D e \<le> max_plain_digits"
    "\<And>pre s. read_decimal D (rd pre (put_str (d_to_plain D (ce_max_abs_error col)) @ s)) =
      Inr (e, rd (pre @ put_str (d_to_plain D (ce_max_abs_error col))) s)"
    by (rule read_decimal_put [OF laws dom], rule that, assumption+)
  have n: "length (ce_values col) \<le> max_rows" "length (ce_values col) < 2 ^ 64"
    "ce_lossy_count col \<le> length (ce_values col)" "ce_lossy_count col < 2 ^ 64"
    using ok by (simp_all add: column_ok_def column_typed_def max_rows_def)
  have "read_value_column D bitsliced (rd pre (write_value_column_selected D bitsliced col codec @ s)) =
      Inr (col\<lparr>ce_max_abs_error := e\<rparr>, rd (pre @ write_value_column_selected D bitsliced col codec) s)"
    if "codec_applies col codec" for codec pre s
    using read_payload_put [OF ok that] read_physical_type_put [of pre "ce_physical_type col"] n
    by (simp add: read_value_column_def write_selected_parts put_value_head_def usize.get_put e(3) rcheck_def
        check_decode_limit_def)
  moreover have "column_ok D (col\<lparr>ce_max_abs_error := e\<rparr>)" using ok e(2) by (simp add: column_ok_def column_typed_def)
  ultimately show thesis using e(1) by (intro that [of e])
qed

lemma value_column_round_trip:
  assumes laws: "decimal_laws D val" and ok: "column_ok D col" and codec: "codec_applies col codec"
  obtains e where "val e = val (ce_max_abs_error col)" "column_ok D (col\<lparr>ce_max_abs_error := e\<rparr>)"
    "\<And>pre s. read_value_column D bitsliced (rd pre (write_value_column_selected D bitsliced col codec @ s)) =
      Inr (col\<lparr>ce_max_abs_error := e\<rparr>, rd (pre @ write_value_column_selected D bitsliced col codec) s)"
proof (rule value_column_reads [OF laws ok, where bitsliced = bitsliced])
  fix e
  assume "val e = val (ce_max_abs_error col)" "column_ok D (col\<lparr>ce_max_abs_error := e\<rparr>)"
    and "\<And>codec pre s. codec_applies col codec \<Longrightarrow>
      read_value_column D bitsliced (rd pre (write_value_column_selected D bitsliced col codec @ s)) =
        Inr (col\<lparr>ce_max_abs_error := e\<rparr>, rd (pre @ write_value_column_selected D bitsliced col codec) s)"
  then show thesis using codec by (intro that)
qed

subsection \<open>The advertised sizes\<close>

lemma length_write_physical_value: "length (write_physical_value v) = value_serialized_bytes v"
  by (cases v) (simp_all add: put_f64_le_def put_f32_le_def put_i128_le_def put_str_def put_bytes_def to_le_def
      length_put_svarint length_put_uvarint)

lemma serialized_bytes_written: "serialized_bytes col = length (put_many write_physical_value (ce_values col))"
  by (simp add: serialized_bytes_def put_many_def length_concat comp_def length_write_physical_value)

lemma length_put_bitpacked: "length (put_bitpacked ms) = bitpack_bytes ms"
  by (simp add: put_bitpacked_def put_u8_def put_raw_def split_def Let_def bitpack_bytes_def fst_bitpack_encode
      length_bitpack_encode)

text \<open>The stream of a scaled column under each of the four single-level codecs.\<close>

definition single_stream :: "string \<Rightarrow> 'd column_encoding \<Rightarrow> i64 list \<Rightarrow> u8 list" where
  "single_stream codec col ms =
    (if codec = ''scaled_for'' then for_bitpack_encode ms blocked_bitpack_block
     else if codec = ''scaled_blocked'' then blocked_bitpack_encode ms blocked_bitpack_block
     else if codec = ''scaled_bitpack'' then put_bitpacked ms
     else put_many write_physical_value (ce_values col))"

lemma length_single_stream:
  "length (single_stream ''scaled_for'' col ms) = for_bitpack_bytes ms blocked_bitpack_block"
  "length (single_stream ''scaled_blocked'' col ms) = blocked_bitpack_bytes ms blocked_bitpack_block"
  "length (single_stream ''scaled_bitpack'' col ms) = bitpack_bytes ms"
  "length (single_stream ''varint'' col ms) = serialized_bytes col"
  by (simp_all add: single_stream_def length_for_bitpack_encode length_blocked_bitpack_encode
      length_put_bitpacked serialized_bytes_written)

lemma first_of_four:
  fixes v p b f :: nat
  shows "(if f < min (min v p) b then f else if b < v \<and> b < p then b else if p < v then p else v) = min (min (min v p) b) f"
  by (auto simp: min_def)

lemma best_stream_size:
  assumes "scaled_i64_mantissas col = Some ms"
  shows "length (single_stream (best_value_codec col) col ms) = best_serialized_bytes col"
proof -
  have sizes: "bitpack_value_bytes col = Some (bitpack_bytes ms)"
    "blocked_value_bytes col = Some (blocked_bitpack_bytes ms blocked_bitpack_block)"
    "for_value_bytes col = Some (for_bitpack_bytes ms blocked_bitpack_block)"
    by (simp_all add: bitpack_value_bytes_def blocked_value_bytes_def for_value_bytes_def assms)
  have "best_serialized_bytes col = min (min (min (serialized_bytes col) (bitpack_bytes ms))
      (blocked_bitpack_bytes ms blocked_bitpack_block)) (for_bitpack_bytes ms blocked_bitpack_block)"
    by (simp only: best_serialized_bytes_def Let_def sizes option.case)
  then show ?thesis
    unfolding best_value_codec_def Let_def sizes option.case
    by (simp only: if_distrib [of "\<lambda>c. length (single_stream c col ms)"] length_single_stream first_of_four)
qed

lemma best_stream_least:
  assumes "scaled_i64_mantissas col = Some ms"
    "codec \<in> {''varint'', ''scaled_bitpack'', ''scaled_blocked'', ''scaled_for''}"
  shows "best_serialized_bytes col \<le> length (single_stream codec col ms)"
proof -
  have "best_serialized_bytes col \<le> serialized_bytes col" "best_serialized_bytes col \<le> bitpack_bytes ms"
    "best_serialized_bytes col \<le> blocked_bitpack_bytes ms blocked_bitpack_block"
    "best_serialized_bytes col \<le> for_bitpack_bytes ms blocked_bitpack_block"
    by (simp_all add: best_serialized_bytes_def Let_def bitpack_value_bytes_def blocked_value_bytes_def for_value_bytes_def assms(1))
  then show ?thesis using assms(2) by (elim insertE emptyE) (simp_all only: length_single_stream)
qed

end
