(* ===== verification/Value_Access.thy ===== *)
theory Value_Access imports Value_Block Segments begin

text \<open>
  Random access into a value block of \<^verbatim>\<open>weft-physical-type/src/weftseg.rs\<close>: one value, a batch, a range,
  the test for a codec that allows it, the step over such a block, and the dense index of a row among
  the present ones. Each is a refinement of reading the whole column. A gather may be asked for any
  indices; its walk over the blocks is a partial function, so the batch read is an \<open>option\<close> whose \<open>None\<close>
  is a walk that does not return.
\<close>

unbundle bit_operations_syntax

subsection \<open>Single values, batches and ranges\<close>

text \<open>\<open>slice.get(i)\<close> and \<open>first()\<close>.\<close>

definition list_get :: "'a list \<Rightarrow> nat \<Rightarrow> 'a option" where
  "list_get xs i = (if i < length xs then Some (xs ! i) else None)"

text \<open>The part of the header every access reads, and the decision it takes on the count.\<close>

definition read_access_head :: "'d decimal_ops \<Rightarrow> (byte_reader \<Rightarrow> weft_seg_error + 't \<times> byte_reader) \<Rightarrow> byte_reader \<Rightarrow>
    weft_seg_error + ('t \<times> nat) \<times> byte_reader" where
  "read_access_head D read_type r =
    rbind (read_type r) (\<lambda>t r.
    rbind (read_usize r) (\<lambda>count r.
    rcheck (check_decode_limit ''value_count'' count max_rows)
    (rbind (read_uvarint r) (\<lambda>lossy_count r.
    rbind (read_decimal D r) (\<lambda>max_abs_error r. Inr ((t, count), r))))))"

definition scaled_only :: "string \<Rightarrow> u8 \<Rightarrow> physical_type \<Rightarrow> (u8 \<Rightarrow> weft_seg_error + 'b) \<Rightarrow> weft_seg_error + 'b" where
  "scaled_only kind tag pt k = (case pt of ScaledI64 scale \<Rightarrow> k scale | _ \<Rightarrow> Inl (InvalidTag kind tag))"

definition read_value_at :: "'d decimal_ops \<Rightarrow> bool \<Rightarrow> u8 list \<Rightarrow> nat \<Rightarrow> weft_seg_error + physical_value option" where
  "read_value_at D bitsliced bytes index =
    rbind (read_access_head D read_physical_type (new_reader bytes)) (\<lambda>((tag, pt), count) r.
    if count \<le> index then Inr None else
    rbind (read_u8 r) (\<lambda>codec r.
      if codec = val_codec_blocked then scaled_only ''value_codec_blocked_type'' tag pt (\<lambda>scale.
        rbind (read_usize r) (\<lambda>block r. rbind (read_bytes r) (\<lambda>data r.
          Inr (map_option (\<lambda>m. VScaledI64 m scale) (first_of (blocked_bitpack_decode_range data block count index 1))))))
      else if codec = val_codec_for then scaled_only ''value_codec_for_type'' tag pt (\<lambda>scale.
        rbind (read_usize r) (\<lambda>block r. rbind (read_bytes r) (\<lambda>data r.
          Inr (map_option (\<lambda>m. VScaledI64 m scale) (first_of (for_bitpack_decode_range data block count index 1))))))
      else if codec = val_codec_bitpack then scaled_only ''value_codec_bitpack_type'' tag pt (\<lambda>scale.
        rbind (read_u8 r) (\<lambda>w r. let width = unat w; data_len = div_ceil (count * width) 8
          in rbind (read_take data_len r) (\<lambda>data r. Inr (Some (VScaledI64 (bitpack_decode_at width data index) scale)))))
      else if codec = val_codec_transposed
      then if bitsliced then scaled_only ''value_codec_transposed_type'' tag pt (\<lambda>scale.
             rbind (read_usize r) (\<lambda>tile r. rbind (read_bytes r) (\<lambda>data r.
               Inr (map_option (\<lambda>m. VScaledI64 m scale) (first_of (transpose_bitpack_decode_range data tile count index 1))))))
           else Inl bitsliced_not_enabled
      else rbind (read_value_column D bitsliced (new_reader bytes)) (\<lambda>col r. Inr (list_get (ce_values col) index))))"

definition read_value_scale :: "byte_reader \<Rightarrow> weft_seg_error + (u8 \<times> u8 option) \<times> byte_reader" where
  "read_value_scale r =
    rbind (read_u8 r) (\<lambda>tag r.
      if tag = tag_scaled_i64 then rbind (read_u8 r) (\<lambda>scale r. Inr ((tag, Some scale), r))
      else if tag = tag_scaled_i128 then rbind (read_u8 r) (\<lambda>_ r. Inr ((tag, None), r))
      else if tag = tag_f64 \<or> tag = tag_f32 \<or> tag = tag_decimal128 \<or> tag = tag_bigdecimal_text then Inr ((tag, None), r)
      else Inl (InvalidTag ''physical_type'' tag))"

definition scaled_results :: "i64 option list \<Rightarrow> u8 \<Rightarrow> physical_value option list" where
  "scaled_results mantissas scale = map (map_option (\<lambda>m. VScaledI64 m scale)) mantissas"

text \<open>The three codecs with a gather share the framing of their stream.\<close>

definition gather_stream :: "string \<Rightarrow> (u8 list \<Rightarrow> nat \<Rightarrow> nat \<Rightarrow> nat list \<Rightarrow> i64 option list option) \<Rightarrow>
    u8 \<Rightarrow> u8 option \<Rightarrow> nat \<Rightarrow> nat list \<Rightarrow> byte_reader \<Rightarrow> (weft_seg_error + physical_value option list) option" where
  "gather_stream kind gather tag scale rows indices r =
    (case scale of
       None \<Rightarrow> Some (Inl (InvalidTag kind tag))
     | Some scale \<Rightarrow>
         case rbind (read_usize r) (\<lambda>block r. rbind (read_bytes r) (\<lambda>data r. Inr (block, data))) of
           Inl e \<Rightarrow> Some (Inl e)
         | Inr (block, data) \<Rightarrow> map_option (\<lambda>ms. Inr (scaled_results ms scale)) (gather data block rows indices))"

definition read_values_at :: "'d decimal_ops \<Rightarrow> bool \<Rightarrow> u8 list \<Rightarrow> nat list \<Rightarrow>
    (weft_seg_error + physical_value option list) option" where
  "read_values_at D bitsliced bytes indices =
    (case read_access_head D read_value_scale (new_reader bytes) of
       Inl e \<Rightarrow> Some (Inl e)
     | Inr (((tag, scale), rows), r) \<Rightarrow>
         if list_all (\<lambda>i. rows \<le> i) indices then Some (Inr (replicate (length indices) None))
         else case read_u8 r of Inl e \<Rightarrow> Some (Inl e) | Inr (codec, r) \<Rightarrow>
           if codec = val_codec_blocked
           then gather_stream ''value_codec_blocked_type'' blocked_bitpack_decode_gather tag scale rows indices r
           else if codec = val_codec_for
           then gather_stream ''value_codec_for_type'' for_bitpack_decode_gather tag scale rows indices r
           else if codec = val_codec_transposed
           then if bitsliced
                then gather_stream ''value_codec_transposed_type'' transpose_bitpack_decode_gather tag scale rows indices r
                else Some (Inl bitsliced_not_enabled)
           else if codec = val_codec_bitpack
           then Some (case scale of
               None \<Rightarrow> Inl (InvalidTag ''value_codec_bitpack_type'' tag)
             | Some scale \<Rightarrow>
                 rbind (read_u8 r) (\<lambda>w r. let width = unat w
                   in rbind (read_take (div_ceil (rows * width) 8) r) (\<lambda>data r.
                     Inr (scaled_results (map (\<lambda>i. if i < rows then Some (bitpack_decode_at width data i) else None) indices) scale))))
           else Some (rbind (read_value_column D bitsliced (new_reader bytes)) (\<lambda>col r.
             Inr (map (list_get (ce_values col)) indices))))"

definition read_value_range :: "'d decimal_ops \<Rightarrow> bool \<Rightarrow> u8 list \<Rightarrow> nat \<Rightarrow> nat \<Rightarrow> weft_seg_error + physical_value list" where
  "read_value_range D bitsliced bytes start len =
    rbind (read_access_head D read_physical_type (new_reader bytes)) (\<lambda>((tag, pt), count) r.
    let stop = min (min (start + len) (2 ^ 64 - 1)) count in
    if stop \<le> start then Inr [] else
    let run = stop - start; scaled = (\<lambda>ms scale. map (\<lambda>m. VScaledI64 m scale) ms) in
    rbind (read_u8 r) (\<lambda>codec r.
      if codec = val_codec_blocked then scaled_only ''value_codec_blocked_type'' tag pt (\<lambda>scale.
        rbind (read_usize r) (\<lambda>block r. rbind (read_bytes r) (\<lambda>data r.
          Inr (scaled (blocked_bitpack_decode_range data block count start run) scale))))
      else if codec = val_codec_for then scaled_only ''value_codec_for_type'' tag pt (\<lambda>scale.
        rbind (read_usize r) (\<lambda>block r. rbind (read_bytes r) (\<lambda>data r.
          Inr (scaled (for_bitpack_decode_range data block count start run) scale))))
      else if codec = val_codec_transposed
      then if bitsliced then scaled_only ''value_codec_transposed_type'' tag pt (\<lambda>scale.
             rbind (read_usize r) (\<lambda>tile r. rbind (read_bytes r) (\<lambda>data r.
               Inr (scaled (transpose_bitpack_decode_range data tile count start run) scale))))
           else Inl bitsliced_not_enabled
      else if codec = val_codec_bitpack then scaled_only ''value_codec_bitpack_type'' tag pt (\<lambda>scale.
        rbind (read_u8 r) (\<lambda>w r. let width = unat w
          in rbind (read_take (div_ceil (count * width) 8) r) (\<lambda>data r.
            Inr (scaled (map (bitpack_decode_at width data) [start..<stop]) scale))))
      else rbind (read_value_column D bitsliced (new_reader bytes)) (\<lambda>col r.
        let vs = ce_values col; lo = min start (length vs); hi = min stop (length vs)
        in Inr (take (hi - lo) (drop lo vs)))))"

subsection \<open>Stepping over a block\<close>

text \<open>Any error of the peek means no.\<close>

definition value_block_has_random_access_codec :: "'d decimal_ops \<Rightarrow> u8 list \<Rightarrow> bool" where
  "value_block_has_random_access_codec D section =
    (case rbind (read_u8 (new_reader section)) (\<lambda>tag r.
          rbind (if tag = tag_scaled_i64 \<or> tag = tag_scaled_i128 then read_u8 r else Inr (0, r)) (\<lambda>_ r.
          rbind (read_uvarint r) (\<lambda>_ r. rbind (read_uvarint r) (\<lambda>_ r. rbind (read_decimal D r) (\<lambda>_ r.
          rbind (read_u8 r) (\<lambda>codec r. Inr (tag, codec))))))) of
       Inl e \<Rightarrow> False
     | Inr (tag, codec) \<Rightarrow> tag = tag_scaled_i64 \<and>
         codec \<in> {val_codec_blocked, val_codec_for, val_codec_bitpack, val_codec_transposed})"

definition skip_random_access_value_column :: "'d decimal_ops \<Rightarrow> byte_reader \<Rightarrow> weft_seg_error + unit \<times> byte_reader" where
  "skip_random_access_value_column D r =
    rbind (read_u8 r) (\<lambda>tag r.
    rbind (if tag = tag_scaled_i64 \<or> tag = tag_scaled_i128 then read_u8 r else Inr (0, r)) (\<lambda>_ r.
    rbind (read_usize r) (\<lambda>count r.
    rcheck (check_decode_limit ''value_count'' count max_rows)
    (rbind (read_uvarint r) (\<lambda>_ r. rbind (read_decimal D r) (\<lambda>_ r.
    rbind (read_u8 r) (\<lambda>codec r.
      if codec = val_codec_bitpack
      then rbind (read_u8 r) (\<lambda>w r. rbind (read_take (div_ceil (count * unat w) 8) r) (\<lambda>_ r. Inr ((), r)))
      else rbind (read_uvarint r) (\<lambda>_ r. rbind (read_bytes r) (\<lambda>_ r. Inr ((), r))))))))))"

subsection \<open>Dense indices\<close>

definition dense_rank :: "null_mask \<Rightarrow> nat \<Rightarrow> nat" where
  "dense_rank nulls row =
    (if nm_null_count nulls = 0 then row else length (filter (is_present nulls) [0..<row]))"

function locate_loop :: "i64 list \<Rightarrow> null_mask \<Rightarrow> i64 \<Rightarrow> nat \<Rightarrow> nat option" where
  "locate_loop timestamps nulls t row =
    (if length timestamps \<le> row \<or> timestamps ! row \<noteq> t then None
     else if is_present nulls row then Some row
     else locate_loop timestamps nulls t (row + 1))"
  by pat_completeness auto
termination by (relation "measure (\<lambda>(ts, nulls, t, row). length ts - row)") auto

declare locate_loop.simps [simp del]

definition locate_present_dense_index :: "i64 list \<Rightarrow> null_mask \<Rightarrow> bool \<Rightarrow> i64 \<Rightarrow> nat option" where
  "locate_present_dense_index timestamps nulls is_sorted t =
    map_option (dense_rank nulls)
      (if is_sorted then locate_loop timestamps nulls t (partition_point (\<lambda>x. sint x < sint t) timestamps)
       else find_map (\<lambda>(i, ts). if ts = t \<and> is_present nulls i then Some i else None) (enumerate 0 timestamps))"

subsection \<open>What reading the column has read\<close>

lemma rbind_cong_Inr: "m = Inr (a, r) \<Longrightarrow> rbind m f = f a r"
  by simp

lemma read_usize_uvarint: "read_usize r = Inr (n, r') \<Longrightarrow> \<exists>u. read_uvarint r = Inr (u, r')"
  by (auto simp: read_usize_def rbind_Inr_iff)

lemma read_physical_type_tag: "read_physical_type r = Inr ((tag, pt), r') \<Longrightarrow> tag = physical_type_tag pt"
  by (auto simp: read_physical_type_def rbind_Inr_iff split: if_splits)

lemma read_value_column_parts:
  assumes "read_value_column D bitsliced r0 = Inr (col, r')"
  obtains tag n_rows lossy e r4 where
    "read_access_head D read_physical_type r0 = Inr (((tag, ce_physical_type col), n_rows), r4)"
    "tag = physical_type_tag (ce_physical_type col)" "n_rows \<le> max_rows"
    "read_value_payload D bitsliced tag (ce_physical_type col) n_rows r4 = Inr (ce_values col, r')"
proof -
  from assms obtain tag pt r1 n r2 lossy r3 e r4 vs where
    parts: "read_physical_type r0 = Inr ((tag, pt), r1)" "read_usize r1 = Inr (n, r2)"
      "check_decode_limit ''value_count'' n max_rows = Inr ()" "read_usize r2 = Inr (lossy, r3)"
      "read_decimal D r3 = Inr (e, r4)" "read_value_payload D bitsliced tag pt n r4 = Inr (vs, r')"
    and col: "col = \<lparr>ce_physical_type = pt, ce_values = vs, ce_lossy_count = lossy, ce_max_abs_error = e\<rparr>"
    by (auto simp: read_value_column_def rbind_Inr_iff rcheck_Inr_iff split: if_splits)
  obtain u where "read_uvarint r2 = Inr (u, r3)" using read_usize_uvarint [OF parts(4)] by blast
  then have "read_access_head D read_physical_type r0 = Inr (((tag, pt), n), r4)"
    by (simp add: read_access_head_def parts rcheck_def)
  moreover have "n \<le> max_rows" using parts(3) by (simp add: check_decode_limit_def split: if_splits)
  ultimately show thesis using parts(6) read_physical_type_tag [OF parts(1)] by (intro that) (simp_all add: col)
qed

lemma read_physical_type_scale:
  "read_physical_type r = Inr ((tag, pt), r') \<Longrightarrow>
    read_value_scale r = Inr ((tag, case pt of ScaledI64 scale \<Rightarrow> Some scale | _ \<Rightarrow> None), r')"
proof -
  assume t: "read_physical_type r = Inr ((tag, pt), r')"
  then obtain b r1 where b: "read_u8 r = Inr (b, r1)" by (auto simp: read_physical_type_def rbind_Inr_iff)
  with t show ?thesis
    by (auto simp: read_physical_type_def read_value_scale_def rbind_Inr_iff type_tag_defs split: if_splits)
qed

lemma access_head_scale:
  assumes "read_access_head D read_physical_type r0 = Inr (((tag, pt), n), r4)"
  shows "read_access_head D read_value_scale r0 = Inr (((tag, case pt of ScaledI64 scale \<Rightarrow> Some scale | _ \<Rightarrow> None), n), r4)"
proof -
  from assms obtain r1 r2 u r3 e where
    "read_physical_type r0 = Inr ((tag, pt), r1)" "read_usize r1 = Inr (n, r2)"
    "check_decode_limit ''value_count'' n max_rows = Inr ()" "read_uvarint r2 = Inr (u, r3)" "read_decimal D r3 = Inr (e, r4)"
    by (auto simp: read_access_head_def rbind_Inr_iff rcheck_Inr_iff)
  then show ?thesis by (simp add: read_access_head_def read_physical_type_scale rcheck_def)
qed

text \<open>A packed payload, seen through its mantissas.\<close>

lemma read_scaled_Inr:
  assumes "read_scaled kind tag pt get r = Inr (vs, r')"
  obtains scale ms where "pt = ScaledI64 scale" "get r = Inr (ms, r')" "vs = map (\<lambda>m. VScaledI64 m scale) ms"
  using assms by (auto simp: read_scaled_def rbind_Inr_iff split: physical_type.splits)

lemma read_bitpacked_Inr:
  assumes "read_bitpacked n r = Inr (ms, r')"
  obtains w r1 data where "read_u8 r = Inr (w, r1)" "read_take (div_ceil (n * unat w) 8) r1 = Inr (data, r')"
    "ms = bitpack_decode (unat w) data n"
  using assms by (auto simp: read_bitpacked_def rbind_Inr_iff Let_def)

lemma read_stream_Inr:
  assumes "rbind (read_usize r) (\<lambda>block r. rbind (read_bytes r) (\<lambda>data r. Inr (f data block, r))) = Inr (ms, r')"
  obtains block r1 data where "read_usize r = Inr (block, r1)" "read_bytes r1 = Inr (data, r')" "ms = f data block"
  using assms by (auto simp: rbind_Inr_iff)

lemma cascade_mantissas_length:
  assumes "read_cascade_mantissas n r = Inr (ms, r')"
  shows "length ms \<le> n"
proof -
  have delta_scan: "length (delta_scan a ds) = length ds" for a ds
    by (induction a ds rule: delta_scan.induct) simp_all
  show ?thesis
    using assms varint_stream.get_length bitpacked.get_length blocked_stream.get_length for_stream.get_length rle_stream.get_length
    by (cases n) (fastforce simp: read_cascade_mantissas_def rbind_Inr_iff Let_def delta_scan split: if_splits)+
qed

lemma payload_length:
  assumes "read_value_payload D bitsliced tag pt n r = Inr (vs, r')"
  shows "length vs \<le> n"
proof -
  have cascade: "read_scaled kind tag pt (read_cascade_mantissas n) r = Inr (vs, r') \<Longrightarrow> length vs \<le> n" for kind r
    by (erule read_scaled_Inr) (simp add: cascade_mantissas_length)
  show ?thesis
    using assms cascade bitpacked.scaled_length blocked_stream.scaled_length for_stream.scaled_length transposed_stream.scaled_length
    by (auto simp: read_value_payload_def read_cascade_value_column_def rbind_Inr_iff rcheck_Inr_iff
        dest: read_many_length split: if_splits)
qed

lemma first_of_range: "first_of (take (Suc 0) (drop i xs)) = list_get xs i"
  by (cases "i < length xs") (simp_all add: list_get_def Cons_nth_drop_Suc [symmetric])

lemma list_get_map: "list_get (map f xs) i = map_option f (list_get xs i)"
  by (simp add: list_get_def)

subsection \<open>Random access refines reading the column\<close>

text \<open>A payload that was read, under each of the four codecs with random access.\<close>

lemma payload_view:
  assumes "read_value_payload D bitsliced tag pt n r = Inr (vs, r')"
  obtains
    (bitpack) scale w r1 r2 data where "read_u8 r = Inr (val_codec_bitpack, r1)" "pt = ScaledI64 scale"
      "read_u8 r1 = Inr (w, r2)" "read_take (div_ceil (n * unat w) 8) r2 = Inr (data, r')"
      "vs = map (\<lambda>m. VScaledI64 m scale) (bitpack_decode (unat w) data n)"
  | (blocked) scale block r1 r2 data where "read_u8 r = Inr (val_codec_blocked, r1)" "pt = ScaledI64 scale"
      "read_usize r1 = Inr (block, r2)" "read_bytes r2 = Inr (data, r')"
      "vs = map (\<lambda>m. VScaledI64 m scale) (blocked_bitpack_decode data block n)"
  | (fors) scale block r1 r2 data where "read_u8 r = Inr (val_codec_for, r1)" "pt = ScaledI64 scale"
      "read_usize r1 = Inr (block, r2)" "read_bytes r2 = Inr (data, r')"
      "vs = map (\<lambda>m. VScaledI64 m scale) (for_bitpack_decode data block n)"
  | (transposed) scale block r1 r2 data where "bitsliced" "read_u8 r = Inr (val_codec_transposed, r1)" "pt = ScaledI64 scale"
      "read_usize r1 = Inr (block, r2)" "read_bytes r2 = Inr (data, r')"
      "vs = map (\<lambda>m. VScaledI64 m scale) (transpose_bitpack_decode data block n)"
  | (other) codec r1 where "read_u8 r = Inr (codec, r1)"
      "codec \<notin> {val_codec_bitpack, val_codec_blocked, val_codec_for, val_codec_transposed}"
proof -
  obtain codec r1 where c: "read_u8 r = Inr (codec, r1)" using assms by (auto simp: read_value_payload_def rbind_Inr_iff)
  consider "codec = val_codec_bitpack" | "codec = val_codec_blocked" | "codec = val_codec_for"
    | "codec = val_codec_transposed" | "codec \<notin> {val_codec_bitpack, val_codec_blocked, val_codec_for, val_codec_transposed}"
    by blast
  then show thesis
  proof cases
    case 1
    then have "read_scaled ''value_codec_bitpack_type'' tag pt (read_bitpacked n) r1 = Inr (vs, r')"
      using assms c by (simp add: read_value_payload_def val_codec_defs)
    then show thesis using c 1 bitpack by (auto elim!: read_scaled_Inr read_bitpacked_Inr)
  next
    case 2
    then have "read_scaled ''value_codec_blocked_type'' tag pt (read_blocked n) r1 = Inr (vs, r')"
      using assms c by (simp add: read_value_payload_def val_codec_defs)
    then show thesis using c 2 blocked by (auto simp: read_blocked_def elim!: read_scaled_Inr read_stream_Inr)
  next
    case 3
    then have "read_scaled ''value_codec_for_type'' tag pt (read_for n) r1 = Inr (vs, r')"
      using assms c by (simp add: read_value_payload_def val_codec_defs)
    then show thesis using c 3 fors by (auto simp: read_for_def elim!: read_scaled_Inr read_stream_Inr)
  next
    case 4
    then have "bitsliced" "read_scaled ''value_codec_transposed_type'' tag pt (read_transposed n) r1 = Inr (vs, r')"
      using assms c by (simp_all add: read_value_payload_def val_codec_defs split: if_splits)
    then show thesis using c 4 transposed by (auto simp: read_transposed_def elim!: read_scaled_Inr read_stream_Inr)
  next
    case 5
    then show thesis by (rule other [OF c])
  qed
qed

lemma read_value_at_column:
  assumes read: "read_value_column D bitsliced (new_reader bytes) = Inr (col, r')"
  shows "read_value_at D bitsliced bytes index = Inr (list_get (ce_values col) index)"
proof -
  let ?pt = "ce_physical_type col"
  obtain tag n r where head: "read_access_head D read_physical_type (new_reader bytes) = Inr (((tag, ?pt), n), r)"
    and payload: "read_value_payload D bitsliced tag ?pt n r = Inr (ce_values col, r')"
    by (rule read_value_column_parts [OF read])
  show ?thesis
  proof (cases "n \<le> index")
    case True
    then show ?thesis using payload_length [OF payload] by (simp add: read_value_at_def head list_get_def)
  next
    case False
    note simps = read_value_at_def head scaled_only_def list_get_map val_codec_defs
    from payload show ?thesis
    proof (cases rule: payload_view)
      case bitpack
      then show ?thesis using False by (simp add: simps Let_def) (simp add: list_get_def bitpack_decode_nth)
    next
      case blocked
      then show ?thesis using False by (simp add: simps blocked_bitpack_decode_range_eq first_of_range)
    next
      case fors
      then show ?thesis using False by (simp add: simps for_bitpack_decode_range_eq first_of_range)
    next
      case transposed
      then show ?thesis using False by (simp add: simps transpose_bitpack_decode_range_eq first_of_range)
    next
      case other
      then show ?thesis using False by (simp add: read_value_at_def head read)
    qed
  qed
qed

lemma gather_stream_read:
  assumes "read_usize r = Inr (block, r2)" "read_bytes r2 = Inr (data, r')"
    "gather data block n indices = Some (map (\<lambda>i. if i < n then Some (ms ! i) else None) indices)" "length ms = n"
  shows "gather_stream kind gather tag (Some scale) n indices r =
    Some (Inr (map (list_get (map (\<lambda>m. VScaledI64 m scale) ms)) indices))"
  using assms by (simp add: gather_stream_def scaled_results_def list_get_def comp_def cong: map_cong)

lemma read_values_at_column:
  assumes read: "read_value_column D bitsliced (new_reader bytes) = Inr (col, r')"
  shows "read_values_at D bitsliced bytes indices = Some (Inr (map (list_get (ce_values col)) indices))"
proof -
  let ?pt = "ce_physical_type col"
  obtain tag n r where "read_access_head D read_physical_type (new_reader bytes) = Inr (((tag, ?pt), n), r)"
    and payload: "read_value_payload D bitsliced tag ?pt n r = Inr (ce_values col, r')"
    by (rule read_value_column_parts [OF read])
  note head = access_head_scale [OF this(1)]
  show ?thesis
  proof (cases "list_all (\<lambda>i. n \<le> i) indices")
    case True
    then have "\<forall>i\<in>set indices. list_get (ce_values col) i = None"
      using payload_length [OF payload] by (fastforce simp: list_get_def list_all_iff)
    then have "map (list_get (ce_values col)) indices = replicate (length indices) None"
      by (simp add: map_replicate_const [symmetric])
    then show ?thesis using True by (simp add: read_values_at_def head)
  next
    case False
    note simps = read_values_at_def head val_codec_defs
    from payload show ?thesis
    proof (cases rule: payload_view)
      case bitpack
      then show ?thesis using False
        by (simp add: simps Let_def scaled_results_def list_get_def bitpack_decode_nth comp_def cong: map_cong)
    next
      case blocked
      then show ?thesis using False
        by (simp add: simps gather_stream_read blocked_bitpack_decode_gather_eq blocked_bitpack_decode_def blocked.length_decode_loop)
    next
      case fors
      then show ?thesis using False
        by (simp add: simps gather_stream_read for_bitpack_decode_gather_eq for_bitpack_decode_def for_fmt.length_decode_loop)
    next
      case transposed
      then show ?thesis using False
        by (simp add: simps gather_stream_read transpose_bitpack_decode_gather_eq transpose_bitpack_decode_def transposed.length_decode_loop)
    next
      case other
      then show ?thesis using False by (simp add: read_values_at_def head read)
    qed
  qed
qed

lemma length_stream_decode [simp]:
  "length (blocked_bitpack_decode data block n) = n" "length (for_bitpack_decode data block n) = n"
  "length (transpose_bitpack_decode data block n) = n"
  by (simp_all add: blocked_bitpack_decode_def blocked.length_decode_loop for_bitpack_decode_def for_fmt.length_decode_loop
      transpose_bitpack_decode_def transposed.length_decode_loop)

lemma bitpack_range:
  assumes "stop \<le> n"
  shows "map (bitpack_decode_at w data) [start..<stop] = take (stop - start) (drop start (bitpack_decode w data n))"
  by (rule nth_equalityI) (use assms in \<open>auto simp: bitpack_decode_nth\<close>)

lemma take_range_min:
  "length xs \<le> n \<Longrightarrow> take (min (start + len) n - start) (drop start xs) = take len (drop start xs)"
  by (cases "start + len \<le> n") (simp_all add: min_def)

lemma take_range_clamped:
  assumes "length xs \<le> n"
  shows "take (min (min (start + len) n) (length xs) - min start (length xs)) (drop (min start (length xs)) xs) =
    take len (drop start xs)"
proof (cases "start \<le> length xs")
  case True
  have "min (min (start + len) n) (length xs) = min (start + len) (length xs)" using assms by simp
  then show ?thesis using True take_range_min [of xs "length xs" start len] by simp
qed simp

lemma read_value_range_column:
  assumes read: "read_value_column D bitsliced (new_reader bytes) = Inr (col, r')"
  shows "read_value_range D bitsliced bytes start len = Inr (take len (drop start (ce_values col)))"
proof -
  let ?pt = "ce_physical_type col"
  obtain tag n r where head: "read_access_head D read_physical_type (new_reader bytes) = Inr (((tag, ?pt), n), r)"
    and n: "n \<le> max_rows" and payload: "read_value_payload D bitsliced tag ?pt n r = Inr (ce_values col, r')"
    by (rule read_value_column_parts [OF read])
  note short = payload_length [OF payload]
  have stop: "min (min (start + len) (2 ^ 64 - 1)) n = min (start + len) n" using n by (simp add: max_rows_def)
  have stop': "min (min (start + len) 18446744073709551615) n = min (start + len) n" using n by (simp add: max_rows_def)
  let ?stop = "min (start + len) n"
  have slice: "take (?stop - start) (drop start (ce_values col)) = take len (drop start (ce_values col))"
    by (rule take_range_min [OF short])
  show ?thesis
  proof (cases "?stop \<le> start")
    case True
    then have "take len (drop start (ce_values col)) = []" using slice by simp
    then show ?thesis using True by (simp only: read_value_range_def head rbind.simps prod.case Let_def stop if_True)
  next
    case False
    note simps = read_value_range_def head Let_def stop' scaled_only_def val_codec_defs take_range_min take_map drop_map
    from payload show ?thesis
    proof (cases rule: payload_view)
      case bitpack
      then show ?thesis using False by (simp add: simps bitpack_range [of _ n])
    next
      case blocked
      then show ?thesis using False by (simp add: simps blocked_bitpack_decode_range_eq)
    next
      case fors
      then show ?thesis using False by (simp add: simps for_bitpack_decode_range_eq)
    next
      case transposed
      then show ?thesis using False by (simp add: simps transpose_bitpack_decode_range_eq)
    next
      case other
      let ?vs = "ce_values col"
      have "take (min ?stop (length ?vs) - min start (length ?vs)) (drop (min start (length ?vs)) ?vs) = take len (drop start ?vs)"
        by (rule take_range_clamped [OF short])
      then show ?thesis using other False by (simp add: read_value_range_def head Let_def stop' read)
    qed
  qed
qed

subsection \<open>The step over a block ends where reading it does\<close>

lemma access_head_parts:
  assumes "read_access_head D read_physical_type r0 = Inr (((tag, pt), n), r4)"
  obtains r1 b r2 u r3 v r4' e where "read_u8 r0 = Inr (tag, r1)"
    "(if tag = tag_scaled_i64 \<or> tag = tag_scaled_i128 then read_u8 r1 else Inr (0, r1)) = Inr (b, r2)"
    "read_usize r2 = Inr (n, r3)" "read_uvarint r2 = Inr (v, r3)" "check_decode_limit ''value_count'' n max_rows = Inr ()"
    "read_uvarint r3 = Inr (u, r4')" "read_decimal D r4' = Inr (e, r4)"
proof -
  from assms obtain r2 r3 u r4' e where
    t: "read_physical_type r0 = Inr ((tag, pt), r2)" and r: "read_usize r2 = Inr (n, r3)"
    "check_decode_limit ''value_count'' n max_rows = Inr ()" "read_uvarint r3 = Inr (u, r4')" "read_decimal D r4' = Inr (e, r4)"
    by (auto simp: read_access_head_def rbind_Inr_iff rcheck_Inr_iff)
  obtain v where v: "read_uvarint r2 = Inr (v, r3)" using read_usize_uvarint [OF r(1)] by blast
  obtain b0 r1 where b0: "read_u8 r0 = Inr (b0, r1)" using t by (auto simp: read_physical_type_def rbind_Inr_iff)
  then obtain b where "b0 = tag" "(if tag = tag_scaled_i64 \<or> tag = tag_scaled_i128 then read_u8 r1 else Inr (0, r1)) = Inr (b, r2)"
    using t by (auto simp: read_physical_type_def rbind_Inr_iff type_tag_defs split: if_splits)
  then show thesis using that b0 r v by blast
qed

lemma random_access_codec_iff:
  assumes "read_access_head D read_physical_type (new_reader bytes) = Inr (((tag, pt), n), r)"
    "read_u8 r = Inr (codec, r1)" "tag = physical_type_tag pt"
  shows "value_block_has_random_access_codec D bytes \<longleftrightarrow> (\<exists>scale. pt = ScaledI64 scale) \<and>
    codec \<in> {val_codec_blocked, val_codec_for, val_codec_bitpack, val_codec_transposed}"
proof -
  obtain q1 b q2 u q3 v q4 e where "read_u8 (new_reader bytes) = Inr (tag, q1)"
    "(if tag = tag_scaled_i64 \<or> tag = tag_scaled_i128 then read_u8 q1 else Inr (0, q1)) = Inr (b, q2)"
    "read_uvarint q2 = Inr (v, q3)" "read_uvarint q3 = Inr (u, q4)" "read_decimal D q4 = Inr (e, r)"
    by (rule access_head_parts [OF assms(1)])
  moreover have "tag = tag_scaled_i64 \<longleftrightarrow> (\<exists>scale. pt = ScaledI64 scale)"
    using assms(3) by (cases pt) (simp_all add: type_tag_defs)
  ultimately show ?thesis by (simp add: value_block_has_random_access_codec_def assms(2))
qed

lemma skip_column:
  assumes read: "read_value_column D bitsliced (new_reader bytes) = Inr (col, r')"
    and fast: "value_block_has_random_access_codec D bytes"
  shows "skip_random_access_value_column D (new_reader bytes) = Inr ((), r')"
proof -
  let ?pt = "ce_physical_type col"
  obtain tag n r where head: "read_access_head D read_physical_type (new_reader bytes) = Inr (((tag, ?pt), n), r)"
    and tag: "tag = physical_type_tag ?pt" and payload: "read_value_payload D bitsliced tag ?pt n r = Inr (ce_values col, r')"
    by (rule read_value_column_parts [OF read])
  from payload have stream: "\<exists>codec r1. read_u8 r = Inr (codec, r1) \<and>
      (if codec = val_codec_bitpack
       then rbind (read_u8 r1) (\<lambda>w r. rbind (read_take (div_ceil (n * unat w) 8) r) (\<lambda>_ r. Inr ((), r)))
       else rbind (read_uvarint r1) (\<lambda>_ r. rbind (read_bytes r) (\<lambda>_ r. Inr ((), r)))) = Inr ((), r')"
  proof (cases rule: payload_view)
    case (blocked scale block r1 r2 data)
    then show ?thesis using read_usize_uvarint [OF blocked(3)] by (auto simp: val_codec_defs)
  next
    case (fors scale block r1 r2 data)
    then show ?thesis using read_usize_uvarint [OF fors(3)] by (auto simp: val_codec_defs)
  next
    case (transposed scale block r1 r2 data)
    then show ?thesis using read_usize_uvarint [OF transposed(4)] by (auto simp: val_codec_defs)
  next
    case (other codec r1)
    then show ?thesis using fast random_access_codec_iff [OF head other(1) tag] by simp
  qed auto
  then obtain codec r1 where codec: "read_u8 r = Inr (codec, r1)"
    "(if codec = val_codec_bitpack
      then rbind (read_u8 r1) (\<lambda>w r. rbind (read_take (div_ceil (n * unat w) 8) r) (\<lambda>_ r. Inr ((), r)))
      else rbind (read_uvarint r1) (\<lambda>_ r. rbind (read_bytes r) (\<lambda>_ r. Inr ((), r)))) = Inr ((), r')" by blast
  obtain q1 b q2 u q3 q4 e where "read_u8 (new_reader bytes) = Inr (tag, q1)"
    "(if tag = tag_scaled_i64 \<or> tag = tag_scaled_i128 then read_u8 q1 else Inr (0, q1)) = Inr (b, q2)"
    "read_usize q2 = Inr (n, q3)" "check_decode_limit ''value_count'' n max_rows = Inr ()"
    "read_uvarint q3 = Inr (u, q4)" "read_decimal D q4 = Inr (e, r)"
    by (rule access_head_parts [OF head])
  then show ?thesis
    unfolding skip_random_access_value_column_def by (simp only: rbind.simps rcheck_def sum.case codec)
qed

subsection \<open>The dense index finds the value of the row\<close>

lemma nullable_loop_nth:
  assumes "row \<le> i" "i < n"
  shows "nullable_loop nulls present n row cursor ! (i - row) =
    (if is_present nulls i then list_get present (cursor + length (filter (is_present nulls) [row..<i])) else None)"
  using assms
proof (induction nulls present n row cursor rule: nullable_loop.induct)
  case (1 nulls present n row cursor)
  show ?case
  proof (cases "i = row")
    case True
    then show ?thesis using "1.prems" by (subst nullable_loop.simps) (simp add: list_get_def)
  next
    case False
    then have i: "i - row = Suc (i - (row + 1))" "row + 1 \<le> i" "[row..<i] = row # [row + 1..<i]"
      using "1.prems" by (simp_all add: upt_conv_Cons)
    show ?thesis using "1.IH" "1.prems" i by (subst nullable_loop.simps) (auto simp: add.assoc)
  qed
qed

lemma length_nullable_loop: "length (nullable_loop nulls present n row cursor) = n - row"
  by (induction nulls present n row cursor rule: nullable_loop.induct) (subst nullable_loop.simps, auto)

lemma dense_rank_count:
  assumes "null_mask_ok nulls" "row \<le> nm_row_count nulls"
  shows "dense_rank nulls row = length (filter (is_present nulls) [0..<row])"
proof (cases "nm_null_count nulls = 0")
  case True
  have "is_present nulls i" if "i < row" for i
  proof (cases "nm_bits nulls")
    case (Some bits)
    then have "filter (\<lambda>i. \<not> is_present nulls i) [0..<nm_row_count nulls] = []"
      using True assms(1) by (simp add: null_mask_ok_def)
    then show ?thesis using that assms(2) by (auto simp: filter_empty_conv)
  qed (use that assms(2) in \<open>simp add: is_present_def\<close>)
  then have "filter (is_present nulls) [0..<row] = [0..<row]" by (intro filter_True) simp
  then show ?thesis using True by (simp add: dense_rank_def)
qed (simp add: dense_rank_def)

lemma lookup_run_locate:
  assumes "length vs = length ts" "\<And>i. i < length ts \<Longrightarrow> vs ! i \<noteq> None \<longleftrightarrow> is_present nulls i"
  shows "lookup_run ts vs t row = (case locate_loop ts nulls t row of None \<Rightarrow> None | Some i \<Rightarrow> vs ! i)"
  using assms
proof (induction ts vs t row rule: lookup_run.induct)
  case (1 ts vs t row)
  show ?case
  proof (cases "row < length ts \<and> ts ! row = t")
    case False
    then show ?thesis by (subst lookup_run.simps, subst locate_loop.simps) auto
  next
    case True
    show ?thesis
    proof (cases "vs ! row")
      case None
      then have "\<not> is_present nulls row" using "1.prems"(2) [of row] True by simp
      then show ?thesis using True None "1.IH" "1.prems" by (subst lookup_run.simps, subst locate_loop.simps) simp
    next
      case (Some v)
      then have "is_present nulls row" using "1.prems"(2) [of row] True by simp
      then show ?thesis using True Some by (subst lookup_run.simps, subst locate_loop.simps) simp
    qed
  qed
qed

lemma scan_bound:
  "find_map (\<lambda>(i, x). if x = t \<and> P i then Some i else None) (enumerate k ts) = Some i \<Longrightarrow> k \<le> i \<and> i < k + length ts"
  by (induction ts arbitrary: k) (fastforce split: if_splits)+

lemma scan_hit:
  "find_map (\<lambda>(i, x). if x = t \<and> P i then Some i else None) xs = Some i \<Longrightarrow> P i"
  by (induction xs) (auto split: if_splits)

lemma scan_locate:
  assumes "length vs = length ts" "\<And>i. i < length ts \<Longrightarrow> vs ! i \<noteq> None \<longleftrightarrow> is_present nulls (k + i)"
  shows "find_map (\<lambda>(x, v). if x = t then v else None) (zip ts vs) =
    (case find_map (\<lambda>(i, x). if x = t \<and> is_present nulls i then Some i else None) (enumerate k ts) of
       None \<Rightarrow> None | Some i \<Rightarrow> vs ! (i - k))"
  using assms
proof (induction ts arbitrary: vs k)
  case (Cons x ts)
  then obtain v vs' where vs: "vs = v # vs'" "length vs' = length ts" by (cases vs) auto
  have v: "v \<noteq> None \<longleftrightarrow> is_present nulls k" using Cons.prems(2) [of 0] vs by simp
  have "vs' ! i \<noteq> None \<longleftrightarrow> is_present nulls (Suc k + i)" if "i < length ts" for i
    using Cons.prems(2) [of "Suc i"] vs that by simp
  note IH = Cons.IH [OF vs(2) this]
  show ?case
  proof (cases "x = t \<and> is_present nulls k")
    case True
    then show ?thesis using v vs(1) by auto
  next
    case False
    let ?rest = "find_map (\<lambda>(i, x). if x = t \<and> is_present nulls i then Some i else None) (enumerate (Suc k) ts)"
    have "find_map (\<lambda>(x, v). if x = t then v else None) (zip (x # ts) vs) =
        find_map (\<lambda>(x, v). if x = t then v else None) (zip ts vs')" using False v vs(1) by (cases v) auto
    moreover have "find_map (\<lambda>(i, x). if x = t \<and> is_present nulls i then Some i else None) (enumerate k (x # ts)) = ?rest"
      using False by auto
    moreover have "vs' ! (i - Suc k) = vs ! (i - k)" if "?rest = Some i" for i
    proof -
      have "i - k = Suc (i - Suc k)" using scan_bound [OF that] by arith
      then show ?thesis using vs(1) by simp
    qed
    ultimately show ?thesis using IH by (cases ?rest) simp_all
  qed
qed simp

lemma locate_loop_bound: "locate_loop ts nulls t row = Some i \<Longrightarrow> i < length ts \<and> is_present nulls i"
  by (induction ts nulls t row rule: locate_loop.induct) (subst (asm) locate_loop.simps, auto split: if_splits)

lemma point_lookup_dense_index:
  assumes ok: "null_mask_ok nulls" "nm_row_count nulls = length ts"
    and enough: "length (filter (is_present nulls) [0..<length ts]) \<le> length present"
  shows "point_lookup ts (nullable_loop nulls present (length ts) 0 0) is_sorted t =
    (case locate_present_dense_index ts nulls is_sorted t of None \<Rightarrow> None | Some k \<Rightarrow> list_get present k)"
proof -
  let ?vs = "nullable_loop nulls present (length ts) 0 0"
  have rank: "dense_rank nulls i = length (filter (is_present nulls) [0..<i])" if "i \<le> length ts" for i
    using dense_rank_count [OF ok(1)] ok(2) that by simp
  have vs: "?vs ! i = (if is_present nulls i then list_get present (dense_rank nulls i) else None)" if "i < length ts" for i
    using nullable_loop_nth [of 0 i "length ts" nulls present 0] that rank [of i] by simp
  have filled: "?vs ! i \<noteq> None \<longleftrightarrow> is_present nulls i" if i: "i < length ts" for i
  proof -
    have "[0..<length ts] = [0..<i] @ i # [Suc i..<length ts]" using i by (metis le0 less_imp_le_nat upt_add_eq_append upt_conv_Cons le_add_diff_inverse)
    then have "is_present nulls i \<Longrightarrow> length (filter (is_present nulls) [0..<i]) < length (filter (is_present nulls) [0..<length ts])"
      by simp
    then show ?thesis using vs [OF i] rank [of i] i enough by (auto simp: list_get_def)
  qed
  have len: "length ?vs = length ts" by (simp add: length_nullable_loop)
  have found: "?vs ! i = list_get present (dense_rank nulls i)" if "i < length ts" "is_present nulls i" for i
    using vs that by simp
  show ?thesis
  proof (cases is_sorted)
    case True
    let ?row = "partition_point (\<lambda>x. sint x < sint t) ts"
    have "point_lookup ts ?vs is_sorted t = (case locate_loop ts nulls t ?row of None \<Rightarrow> None | Some i \<Rightarrow> ?vs ! i)"
      using True lookup_run_locate [OF len filled, of t ?row] by (simp add: point_lookup_def)
    then show ?thesis
      using True found locate_loop_bound [of ts nulls t ?row]
      by (cases "locate_loop ts nulls t ?row") (simp_all add: locate_present_dense_index_def)
  next
    case False
    let ?scan = "find_map (\<lambda>(i, ts). if ts = t \<and> is_present nulls i then Some i else None) (enumerate 0 ts)"
    have "point_lookup ts ?vs is_sorted t = (case ?scan of None \<Rightarrow> None | Some i \<Rightarrow> ?vs ! i)"
      using False scan_locate [of ?vs ts nulls 0 t, OF len] filled by (simp add: point_lookup_def split: option.split)
    moreover have "i < length ts \<and> is_present nulls i" if "?scan = Some i" for i
      using scan_bound [OF that] scan_hit [OF that] by simp
    ultimately show ?thesis
      using False found by (cases ?scan) (simp_all add: locate_present_dense_index_def)
  qed
qed

end
