(* ===== verification/Segment_Frame.thy ===== *)
theory Segment_Frame imports Value_Access Frame begin

text \<open>
  The single-block frame of \<^verbatim>\<open>weft-physical-type/src/weftseg.rs\<close>: the statistics header, the column
  section (values, timestamps, quality), the writers under their layout options and the reader with
  its cross-checks. Reading a written frame gives the segment back; its decimals come back as the
  same numbers, which is the equality of \<open>BigDecimal\<close>.
\<close>

unbundle bit_operations_syntax

subsection \<open>Statistics\<close>

definition put_opt_i64 :: "i64 option \<Rightarrow> u8 list" where
  "put_opt_i64 v = (case v of Some v \<Rightarrow> put_u8 1 @ put_i64_le v | None \<Rightarrow> put_u8 0)"

definition read_opt_i64 :: "byte_reader \<Rightarrow> weft_seg_error + i64 option \<times> byte_reader" where
  "read_opt_i64 r = rbind (read_u8 r) (\<lambda>flag r.
    if flag = 0 then Inr (None, r) else rbind (read_i64_le r) (\<lambda>v r. Inr (Some v, r)))"

definition put_opt_decimal :: "'d decimal_ops \<Rightarrow> 'd option \<Rightarrow> u8 list" where
  "put_opt_decimal D v = (case v of Some v \<Rightarrow> put_u8 1 @ put_str (d_to_plain D v) | None \<Rightarrow> put_u8 0)"

definition read_opt_decimal :: "'d decimal_ops \<Rightarrow> byte_reader \<Rightarrow> weft_seg_error + 'd option \<times> byte_reader" where
  "read_opt_decimal D r = rbind (read_u8 r) (\<lambda>flag r.
    if flag = 0 then Inr (None, r) else rbind (read_decimal D r) (\<lambda>v r. Inr (Some v, r)))"

definition write_segment_stats :: "'d decimal_ops \<Rightarrow> 'd segment_stats \<Rightarrow> u8 list" where
  "write_segment_stats D st =
    put_usize (st_row_count st) @ put_usize (st_null_count st) @ put_u8 (if st_time_sorted st then 1 else 0) @
    put_opt_i64 (st_min_ts st) @ put_opt_i64 (st_max_ts st) @
    put_opt_decimal D (st_min_value st) @ put_opt_decimal D (st_max_value st)"

definition read_segment_stats :: "'d decimal_ops \<Rightarrow> byte_reader \<Rightarrow> weft_seg_error + 'd segment_stats \<times> byte_reader" where
  "read_segment_stats D r =
    rbind (read_usize r) (\<lambda>row_count r.
    rcheck (check_decode_limit ''row_count'' row_count max_rows)
    (rbind (read_usize r) (\<lambda>null_count r.
    if row_count < null_count then Inl (ColumnLengthMismatch ''null_count'' row_count null_count) else
    rbind (read_u8 r) (\<lambda>flag r.
    rbind (read_opt_i64 r) (\<lambda>min_ts r.
    rbind (read_opt_i64 r) (\<lambda>max_ts r.
    rbind (read_opt_decimal D r) (\<lambda>min_value r.
    rbind (read_opt_decimal D r) (\<lambda>max_value r.
    Inr (\<lparr>st_row_count = row_count, st_null_count = null_count, st_time_sorted = (flag \<noteq> 0), st_min_ts = min_ts,
          st_max_ts = max_ts, st_min_value = min_value, st_max_value = max_value\<rparr>, r)))))))))"

subsection \<open>Writing\<close>

text \<open>The layout options; the ceiling of the bit-sliced codec is the comparison it stands for.\<close>

record frame_options =
  fo_checkpoint_stride :: "nat option"
  fo_transposed_max_overhead :: "(nat \<Rightarrow> nat \<Rightarrow> bool) option"

definition frame_options_default :: frame_options where
  "frame_options_default = \<lparr>fo_checkpoint_stride = None, fo_transposed_max_overhead = None\<rparr>"

definition write_value_column_with :: "'d decimal_ops \<Rightarrow> bool \<Rightarrow> 'd column_encoding \<Rightarrow> frame_options \<Rightarrow> u8 list" where
  "write_value_column_with D bitsliced col opts =
    (case fo_transposed_max_overhead opts of
       Some admits \<Rightarrow> if bitsliced then write_value_column_transposed D admits col else write_value_column D bitsliced col
     | None \<Rightarrow> write_value_column D bitsliced col)"

definition write_timestamp_column_with :: "delta_of_delta_column \<Rightarrow> frame_options \<Rightarrow> u8 list" where
  "write_timestamp_column_with ts opts =
    (case fo_checkpoint_stride opts of
       Some stride \<Rightarrow> write_timestamp_column_checkpointed ts stride
     | None \<Rightarrow> write_timestamp_column ts)"

type_synonym 'd wseg = "('d column_encoding, 'd) segment"

text \<open>Magic, version, statistics, the given column section, and the checksum of all of it.\<close>

definition put_frame :: "'d decimal_ops \<Rightarrow> 'd wseg \<Rightarrow> u8 list \<Rightarrow> u8 list" where
  "put_frame D seg columns =
    (let w = put_raw magic @ put_u16_le (sg_version seg) @ write_segment_stats D (sg_stats seg) @ columns
     in w @ put_u32_le (crc32 w))"

definition write_segment :: "'d decimal_ops \<Rightarrow> bool \<Rightarrow> 'd wseg \<Rightarrow> u8 list" where
  "write_segment D bitsliced seg = put_frame D seg
    (write_value_column D bitsliced (sg_values seg) @ write_timestamp_column (sg_timestamps seg) @
     write_null_column (sg_nulls seg))"

definition write_segment_with :: "'d decimal_ops \<Rightarrow> bool \<Rightarrow> 'd wseg \<Rightarrow> frame_options \<Rightarrow> u8 list" where
  "write_segment_with D bitsliced seg opts = put_frame D seg
    (write_value_column_with D bitsliced (sg_values seg) opts @ write_timestamp_column_with (sg_timestamps seg) opts @
     write_null_column (sg_nulls seg))"

definition write_segment_checkpointed :: "'d decimal_ops \<Rightarrow> bool \<Rightarrow> 'd wseg \<Rightarrow> nat \<Rightarrow> u8 list" where
  "write_segment_checkpointed D bitsliced seg stride = put_frame D seg
    (write_value_column D bitsliced (sg_values seg) @ write_timestamp_column_checkpointed (sg_timestamps seg) stride @
     write_null_column (sg_nulls seg))"

subsection \<open>Reading\<close>

definition implied_timestamp_rows :: "delta_of_delta_column \<Rightarrow> nat option" where
  "implied_timestamp_rows col =
    (case dd_first_delta col of
       None \<Rightarrow> if dd_dods col = [] then None else Some 1
     | Some _ \<Rightarrow> Some (length (dd_dods col) + 2))"

definition check_segment_columns :: "'d segment_stats \<Rightarrow> 'd column_encoding \<Rightarrow> delta_of_delta_column \<Rightarrow> weft_seg_error + unit" where
  "check_segment_columns st vs ts =
    (let present = st_row_count st - st_null_count st
     in if length (ce_values vs) \<noteq> present
        then Inl (ColumnLengthMismatch ''value_column'' present (length (ce_values vs)))
        else case implied_timestamp_rows ts of
          Some rows \<Rightarrow> if rows \<noteq> st_row_count st
            then Inl (ColumnLengthMismatch ''timestamp_column'' (st_row_count st) rows) else Inr ()
        | None \<Rightarrow> if 1 < st_row_count st
            then Inl (ColumnLengthMismatch ''timestamp_column'' (st_row_count st) 1) else Inr ())"

text \<open>What every reader of one layout does first: the checksum, the magic, the version.\<close>

definition open_body :: "u16 \<Rightarrow> u8 list \<Rightarrow> weft_seg_error + u8 list \<times> byte_reader" where
  "open_body layout bytes =
    (if length bytes < 4 then Inl (UnexpectedEof 4 (length bytes))
     else let body = take (length bytes - 4) bytes; trailer = drop (length bytes - 4) bytes;
              stored = from_le [trailer ! 0, trailer ! 1, trailer ! 2, trailer ! 3]; computed = crc32 body
     in if stored \<noteq> computed then Inl (ChecksumMismatch stored computed)
     else rbind (read_take (length magic) (new_reader body)) (\<lambda>prefix r.
       if \<not> is_known_magic prefix then Inl BadMagic else
       rbind (read_u16_le r) (\<lambda>version r.
       if version \<noteq> layout then Inl (UnsupportedVersion version) else Inr (body, r))))"

definition read_columns :: "'d decimal_ops \<Rightarrow> bool \<Rightarrow> 'd segment_stats \<Rightarrow> byte_reader \<Rightarrow>
    weft_seg_error + ('d column_encoding \<times> delta_of_delta_column \<times> null_mask) \<times> byte_reader" where
  "read_columns D bitsliced st r =
    rbind (read_value_column D bitsliced r) (\<lambda>vs r.
    rbind (read_timestamp_column r) (\<lambda>ts r.
    rbind (read_null_column (st_row_count st) (st_null_count st) r) (\<lambda>nulls r.
    rcheck (check_segment_columns st vs ts)
      (if \<not> reader_is_empty r then Inl (TrailingBytes (remaining r)) else Inr ((vs, ts, nulls), r)))))"

definition read_segment :: "'d decimal_ops \<Rightarrow> bool \<Rightarrow> u8 list \<Rightarrow> weft_seg_error + 'd wseg" where
  "read_segment D bitsliced bytes =
    rbind (open_body segment_format_version bytes) (\<lambda>body r.
    rbind (read_segment_stats D r) (\<lambda>st r.
    rbind (read_columns D bitsliced st r) (\<lambda>(vs, ts, nulls) r.
    Inr \<lparr>sg_version = segment_format_version, sg_values = vs, sg_timestamps = ts, sg_nulls = nulls, sg_stats = st\<rparr>)))"

definition frame_value_codec :: "'d decimal_ops \<Rightarrow> u8 list \<Rightarrow> weft_seg_error + string" where
  "frame_value_codec D bytes =
    (if length bytes < 4 then Inl (UnexpectedEof 4 (length bytes))
     else rbind (read_take (length magic) (new_reader (take (length bytes - 4) bytes))) (\<lambda>prefix r.
       if \<not> is_known_magic prefix then Inl BadMagic else
       rbind (read_u16_le r) (\<lambda>version r.
       if version \<noteq> segment_format_version then Inl (UnsupportedVersion version) else
       rbind (read_segment_stats D r) (\<lambda>_ r.
       rbind (read_u8 r) (\<lambda>tag r.
       rbind (if tag = tag_scaled_i64 \<or> tag = tag_scaled_i128 then read_u8 r else Inr (0, r)) (\<lambda>_ r.
       rbind (read_uvarint r) (\<lambda>_ r. rbind (read_uvarint r) (\<lambda>_ r. rbind (read_decimal D r) (\<lambda>_ r.
       rbind (read_u8 r) (\<lambda>codec r.
         if codec = val_codec_varint then Inr ''varint''
         else if codec = val_codec_bitpack then Inr ''scaled_bitpack''
         else if codec = val_codec_blocked then Inr ''scaled_blocked''
         else if codec = val_codec_for then Inr ''scaled_for''
         else if codec = val_codec_delta_cascade then Inr ''scaled_delta_cascade''
         else if codec = val_codec_transposed then Inr ''scaled_transposed''
         else Inl (InvalidTag ''value_codec'' codec)))))))))))"

subsection \<open>The statistics read back\<close>

text \<open>Decimals are compared as numbers.\<close>

definition in_domain :: "'d decimal_ops \<Rightarrow> 'd option \<Rightarrow> bool" where
  "in_domain D v \<longleftrightarrow> (case v of Some x \<Rightarrow> plain_digit_count D x \<le> max_plain_digits | None \<Rightarrow> True)"

definition stats_ok :: "'d decimal_ops \<Rightarrow> 'd segment_stats \<Rightarrow> bool" where
  "stats_ok D st \<longleftrightarrow> st_row_count st \<le> max_rows \<and> st_null_count st \<le> st_row_count st \<and>
    in_domain D (st_min_value st) \<and> in_domain D (st_max_value st)"

definition same_stats :: "('d \<Rightarrow> rat) \<Rightarrow> 'd segment_stats \<Rightarrow> 'd segment_stats \<Rightarrow> bool" where
  "same_stats val st st' \<longleftrightarrow> st_row_count st' = st_row_count st \<and> st_null_count st' = st_null_count st \<and>
    st_time_sorted st' = st_time_sorted st \<and> st_min_ts st' = st_min_ts st \<and> st_max_ts st' = st_max_ts st \<and>
    map_option val (st_min_value st') = map_option val (st_min_value st) \<and>
    map_option val (st_max_value st') = map_option val (st_max_value st)"

interpretation opt_i64: wire put_opt_i64 read_opt_i64 "\<lambda>_. True"
  by unfold_locales (simp add: put_opt_i64_def read_opt_i64_def u8.get_put i64.get_put split: option.split)

lemma read_opt_decimal_put:
  assumes "decimal_laws D val" "in_domain D x"
  obtains y where "map_option val y = map_option val x" "in_domain D y"
    "\<And>pre s. read_opt_decimal D (rd pre (put_opt_decimal D x @ s)) = Inr (y, rd (pre @ put_opt_decimal D x) s)"
proof (cases x)
  case None
  then show thesis by (intro that [of None]) (simp_all add: put_opt_decimal_def read_opt_decimal_def u8.get_put in_domain_def)
next
  case (Some v)
  then have dom: "plain_digit_count D v \<le> max_plain_digits" using assms(2) by (simp add: in_domain_def)
  obtain y where y: "val y = val v" "plain_digit_count D y \<le> max_plain_digits"
    "\<And>pre s. read_decimal D (rd pre (put_str (d_to_plain D v) @ s)) = Inr (y, rd (pre @ put_str (d_to_plain D v)) s)"
    by (rule read_decimal_put [OF assms(1) dom], rule that, assumption+)
  then show thesis using Some
    by (intro that [of "Some y"]) (simp_all add: put_opt_decimal_def read_opt_decimal_def u8.get_put in_domain_def)
qed

lemma stats_round_trip:
  assumes laws: "decimal_laws D val" and ok: "stats_ok D st"
  obtains st' where "same_stats val st st'" "stats_ok D st'"
    "\<And>pre s. read_segment_stats D (rd pre (write_segment_stats D st @ s)) = Inr (st', rd (pre @ write_segment_stats D st) s)"
proof -
  have dom: "in_domain D (st_min_value st)" "in_domain D (st_max_value st)" using ok by (simp_all add: stats_ok_def)
  obtain lo where lo: "map_option val lo = map_option val (st_min_value st)" "in_domain D lo"
    "\<And>pre s. read_opt_decimal D (rd pre (put_opt_decimal D (st_min_value st) @ s)) =
      Inr (lo, rd (pre @ put_opt_decimal D (st_min_value st)) s)"
    by (rule read_opt_decimal_put [OF laws dom(1)], rule that, assumption+)
  obtain hi where hi: "map_option val hi = map_option val (st_max_value st)" "in_domain D hi"
    "\<And>pre s. read_opt_decimal D (rd pre (put_opt_decimal D (st_max_value st) @ s)) =
      Inr (hi, rd (pre @ put_opt_decimal D (st_max_value st)) s)"
    by (rule read_opt_decimal_put [OF laws dom(2)], rule that, assumption+)
  have n: "st_row_count st \<le> max_rows" "st_null_count st \<le> st_row_count st" "st_row_count st < 2 ^ 64" "st_null_count st < 2 ^ 64"
    using ok by (simp_all add: stats_ok_def max_rows_def)
  let ?st = "st\<lparr>st_min_value := lo, st_max_value := hi\<rparr>"
  have "read_segment_stats D (rd pre (write_segment_stats D st @ s)) = Inr (?st, rd (pre @ write_segment_stats D st) s)" for pre s
    using n by (simp add: read_segment_stats_def write_segment_stats_def usize.get_put u8.get_put opt_i64.get_put lo(3) hi(3)
        rcheck_def check_decode_limit_def)
  moreover have "same_stats val st ?st" "stats_ok D ?st" using ok lo hi by (simp_all add: same_stats_def stats_ok_def)
  ultimately show thesis by (intro that [of ?st])
qed

subsection \<open>The columns read back\<close>

lemma checkpointed_plain_round_trip:
  assumes "length (dd_dods col) \<le> max_rows" "stride < 2 ^ 64"
  shows "read_timestamp_column (rd pre (write_timestamp_column_checkpointed col stride @ s)) =
    Inr (col, rd (pre @ write_timestamp_column_checkpointed col stride) s)"
proof (cases "dd_first_delta col")
  case None
  then have "write_timestamp_column_checkpointed col stride = write_timestamp_column col"
    by (simp add: write_timestamp_column_checkpointed_def checkpoints_def Let_def)
  then show ?thesis using ts_block_round_trip [OF assms(1)] by simp
next
  case (Some fd)
  have small: "length (dd_dods col) < 2 ^ 64" using assms(1) by (simp add: max_rows_def)
  show ?thesis
    using assms small read_opt_delta_put [of _ "Some fd"]
    by (simp add: read_timestamp_column_def checkpointed_block [OF Some] put_ts_head_def Some u8.get_put
        i64.get_put usize.get_put check_decode_limit_def rcheck_def read_checkpointed_codec)
qed

definition options_ok :: "frame_options \<Rightarrow> bool" where
  "options_ok opts \<longleftrightarrow> (case fo_checkpoint_stride opts of Some stride \<Rightarrow> stride < 2 ^ 64 | None \<Rightarrow> True)"

lemma ts_block_with_round_trip:
  assumes "length (dd_dods col) \<le> max_rows" "options_ok opts"
  shows "read_timestamp_column (rd pre (write_timestamp_column_with col opts @ s)) =
    Inr (col, rd (pre @ write_timestamp_column_with col opts) s)"
  using assms
  by (auto simp: write_timestamp_column_with_def options_ok_def ts_block_round_trip checkpointed_plain_round_trip split: option.splits)

lemma value_block_with:
  obtains codec where "codec_applies col codec"
    "write_value_column_with D bitsliced col opts = write_value_column_selected D bitsliced col codec"
proof (cases "\<exists>admits. fo_transposed_max_overhead opts = Some admits \<and> bitsliced")
  case True
  then obtain admits where "fo_transposed_max_overhead opts = Some admits" bitsliced by blast
  then show thesis
    by (intro that [OF selectors_apply(3) [of col admits]]) (simp add: write_value_column_with_def write_value_column_transposed_def)
next
  case False
  then show thesis
    by (intro that [OF selectors_apply(1) [of col]]) (auto simp: write_value_column_with_def write_value_column_def split: option.splits)
qed

text \<open>A segment whose columns agree with its statistics and whose decimals have a plain form.\<close>

definition columns_ok :: "'d decimal_ops \<Rightarrow> 'd segment_stats \<Rightarrow> 'd column_encoding \<Rightarrow> delta_of_delta_column \<Rightarrow> null_mask \<Rightarrow> bool" where
  "columns_ok D st vs ts nulls \<longleftrightarrow> stats_ok D st \<and> column_ok D vs \<and> length (dd_dods ts) \<le> max_rows \<and>
    check_segment_columns st vs ts = Inr () \<and>
    null_mask_ok nulls \<and> nm_row_count nulls = st_row_count st \<and> nm_null_count nulls = st_null_count st"

definition seg_ok :: "'d decimal_ops \<Rightarrow> 'd wseg \<Rightarrow> bool" where
  "seg_ok D seg \<longleftrightarrow> sg_version seg = segment_format_version \<and>
    columns_ok D (sg_stats seg) (sg_values seg) (sg_timestamps seg) (sg_nulls seg)"

definition same_column :: "('d \<Rightarrow> rat) \<Rightarrow> 'd column_encoding \<Rightarrow> 'd column_encoding \<Rightarrow> bool" where
  "same_column val vs vs' \<longleftrightarrow> ce_physical_type vs' = ce_physical_type vs \<and> ce_values vs' = ce_values vs \<and>
    ce_lossy_count vs' = ce_lossy_count vs \<and> val (ce_max_abs_error vs') = val (ce_max_abs_error vs)"

definition same_segment :: "('d \<Rightarrow> rat) \<Rightarrow> 'd wseg \<Rightarrow> 'd wseg \<Rightarrow> bool" where
  "same_segment val seg seg' \<longleftrightarrow> sg_version seg' = sg_version seg \<and> same_column val (sg_values seg) (sg_values seg') \<and>
    sg_timestamps seg' = sg_timestamps seg \<and> sg_nulls seg' = sg_nulls seg \<and> same_stats val (sg_stats seg) (sg_stats seg')"

text \<open>The column section the writers emit.\<close>

definition column_section :: "'d decimal_ops \<Rightarrow> bool \<Rightarrow> 'd column_encoding \<Rightarrow> delta_of_delta_column \<Rightarrow> null_mask \<Rightarrow> frame_options \<Rightarrow> u8 list" where
  "column_section D bitsliced vs ts nulls opts =
    write_value_column_with D bitsliced vs opts @ write_timestamp_column_with ts opts @ write_null_column nulls"

lemma check_segment_columns_cong:
  "same_stats val st st' \<Longrightarrow> same_column val vs vs' \<Longrightarrow> check_segment_columns st' vs' ts = check_segment_columns st vs ts"
  by (cases "implied_timestamp_rows ts") (simp_all add: check_segment_columns_def same_stats_def same_column_def Let_def)

lemma columns_round_trip:
  assumes laws: "decimal_laws D val" and ok: "columns_ok D st vs ts nulls" "same_stats val st st'" "options_ok opts"
  obtains vs' where "same_column val vs vs'" "column_ok D vs'"
    "\<And>pre. read_columns D bitsliced st' (rd pre (column_section D bitsliced vs ts nulls opts)) =
      Inr ((vs', ts, nulls), rd (pre @ column_section D bitsliced vs ts nulls opts) [])"
proof -
  obtain codec where codec: "codec_applies vs codec"
    "write_value_column_with D bitsliced vs opts = write_value_column_selected D bitsliced vs codec"
    by (rule value_block_with)
  have col: "column_ok D vs" using ok(1) by (simp add: columns_ok_def)
  obtain e where e: "val e = val (ce_max_abs_error vs)" "column_ok D (vs\<lparr>ce_max_abs_error := e\<rparr>)"
    "\<And>pre s. read_value_column D bitsliced (rd pre (write_value_column_selected D bitsliced vs codec @ s)) =
      Inr (vs\<lparr>ce_max_abs_error := e\<rparr>, rd (pre @ write_value_column_selected D bitsliced vs codec) s)"
    by (rule value_column_round_trip [OF laws col codec(1)], rule that, assumption+)
  let ?vs = "vs\<lparr>ce_max_abs_error := e\<rparr>"
  have same: "same_column val vs ?vs" using e(1) by (simp add: same_column_def)
  have nulls: "read_null_column (st_row_count st') (st_null_count st') (rd pre (write_null_column nulls)) =
      Inr (nulls, rd (pre @ write_null_column nulls) [])" for pre
    using null_column_round_trip [of nulls pre "[]"] ok(1,2) by (simp add: columns_ok_def same_stats_def stats_ok_def)
  have "check_segment_columns st' ?vs ts = Inr ()"
    using check_segment_columns_cong [OF ok(2) same] ok(1) by (simp add: columns_ok_def)
  then have "read_columns D bitsliced st' (rd pre (column_section D bitsliced vs ts nulls opts)) =
      Inr ((?vs, ts, nulls), rd (pre @ column_section D bitsliced vs ts nulls opts) [])" for pre
    using ok ts_block_with_round_trip [of ts opts]
    by (simp add: read_columns_def column_section_def codec(2) e(3) nulls rcheck_def columns_ok_def)
  then show thesis using same e(2) by (intro that [of ?vs])
qed

subsection \<open>The frame reads back\<close>

lemma open_body_put:
  assumes "prefix = put_raw magic @ put_u16_le layout"
  shows "open_body layout ((prefix @ s) @ put_u32_le (crc32 (prefix @ s))) = Inr (prefix @ s, rd prefix s)"
proof -
  let ?w = "prefix @ s"
  have t: "length (put_u32_le (crc32 ?w)) = 4" by (simp add: put_u32_le_def to_le_def)
  have trailer: "from_le [put_u32_le (crc32 ?w) ! 0, put_u32_le (crc32 ?w) ! 1, put_u32_le (crc32 ?w) ! 2, put_u32_le (crc32 ?w) ! 3] = crc32 ?w"
    by (subst list4 [OF t]) (simp add: put_u32_le_def from_le_to_le del: from_le.simps)
  have cut: "take (length (?w @ put_u32_le (crc32 ?w)) - 4) (?w @ put_u32_le (crc32 ?w)) = ?w"
    "drop (length (?w @ put_u32_le (crc32 ?w)) - 4) (?w @ put_u32_le (crc32 ?w)) = put_u32_le (crc32 ?w)"
    using t by simp_all
  have "\<not> length (?w @ put_u32_le (crc32 ?w)) < 4" using t by simp
  then have "open_body layout (?w @ put_u32_le (crc32 ?w)) =
      rbind (read_take (length magic) (rd [] ?w)) (\<lambda>prefix r.
       if \<not> is_known_magic prefix then Inl BadMagic else
       rbind (read_u16_le r) (\<lambda>version r.
       if version \<noteq> layout then Inl (UnsupportedVersion version) else Inr (?w, r)))"
    unfolding open_body_def Let_def by (simp only: cut trailer if_False new_reader_rd simp_thms)
  also have "\<dots> = Inr (?w, rd prefix s)"
    by (simp add: assms put_raw_def read_take_rd is_known_magic_def u16.get_put del: length_magic)
  finally show ?thesis .
qed

lemma put_frame_prefix:
  "put_frame D seg columns =
    ((put_raw magic @ put_u16_le (sg_version seg)) @ write_segment_stats D (sg_stats seg) @ columns) @
    put_u32_le (crc32 ((put_raw magic @ put_u16_le (sg_version seg)) @ write_segment_stats D (sg_stats seg) @ columns))"
  by (simp add: put_frame_def Let_def)

lemma write_segment_with_section:
  "write_segment_with D bitsliced seg opts =
    put_frame D seg (column_section D bitsliced (sg_values seg) (sg_timestamps seg) (sg_nulls seg) opts)"
  by (simp add: write_segment_with_def column_section_def)

lemma segment_round_trip:
  assumes laws: "decimal_laws D val" and ok: "seg_ok D seg" "options_ok opts"
  obtains seg' where "read_segment D bitsliced (write_segment_with D bitsliced seg opts) = Inr seg'"
    "same_segment val seg seg'" "seg_ok D seg'"
proof -
  let ?st = "sg_stats seg" and ?vs = "sg_values seg" and ?ts = "sg_timestamps seg" and ?nulls = "sg_nulls seg"
  have cols: "columns_ok D ?st ?vs ?ts ?nulls" and v: "sg_version seg = segment_format_version" using ok(1) by (simp_all add: seg_ok_def)
  then have st_ok: "stats_ok D ?st" by (simp add: columns_ok_def)
  obtain st' where st': "same_stats val ?st st'" "stats_ok D st'"
    "\<And>pre s. read_segment_stats D (rd pre (write_segment_stats D ?st @ s)) = Inr (st', rd (pre @ write_segment_stats D ?st) s)"
    by (rule stats_round_trip [OF laws st_ok], rule that, assumption+)
  obtain vs' where vs': "same_column val ?vs vs'" "column_ok D vs'"
    "\<And>pre. read_columns D bitsliced st' (rd pre (column_section D bitsliced ?vs ?ts ?nulls opts)) =
      Inr ((vs', ?ts, ?nulls), rd (pre @ column_section D bitsliced ?vs ?ts ?nulls opts) [])"
    by (rule columns_round_trip [OF laws cols st'(1) ok(2)], rule that, assumption+)
  let ?seg = "\<lparr>sg_version = segment_format_version, sg_values = vs', sg_timestamps = ?ts, sg_nulls = ?nulls, sg_stats = st'\<rparr>"
  have "read_segment D bitsliced (write_segment_with D bitsliced seg opts) = Inr ?seg"
    unfolding write_segment_with_section put_frame_prefix v read_segment_def
    by (simp only: open_body_put [OF refl] rbind.simps st'(3) vs'(3) prod.case)
  moreover have "same_segment val seg ?seg" using v vs'(1) st'(1) by (simp add: same_segment_def)
  moreover have "seg_ok D ?seg"
    using cols st' vs' check_segment_columns_cong [OF st'(1) vs'(1)] by (simp add: seg_ok_def columns_ok_def same_stats_def)
  ultimately show thesis by (intro that)
qed

lemma write_segment_default: "write_segment D bitsliced seg = write_segment_with D bitsliced seg frame_options_default"
  by (simp add: write_segment_def write_segment_with_def write_value_column_with_def write_timestamp_column_with_def
      frame_options_default_def)

lemma write_segment_checkpointed_with:
  "write_segment_checkpointed D bitsliced seg stride =
    write_segment_with D bitsliced seg \<lparr>fo_checkpoint_stride = Some stride, fo_transposed_max_overhead = None\<rparr>"
  by (simp add: write_segment_checkpointed_def write_segment_with_def write_value_column_with_def write_timestamp_column_with_def)

end
