(* ===== verification/Pages.thy ===== *)
theory Pages imports Segments begin

text \<open>
  The paged segment of \<^verbatim>\<open>weft-physical-type/src/page.rs\<close>: fixed-height pages, each a small segment with
  its own statistics, the segment-level rollup, page pruning, and the reads across pages. A page holds
  the columns of a segment and answers like one (\<open>page_segment\<close>); the paged reads are shown to answer
  like the rows in one piece.
\<close>

subsection \<open>Pages\<close>

definition default_rows_per_page :: nat where "default_rows_per_page = 1024"

definition paged_segment_format_version :: u16 where "paged_segment_format_version = 6"

record ('c, 'v) page =
  pg_values :: 'c
  pg_timestamps :: delta_of_delta_column
  pg_nulls :: null_mask
  pg_stats :: "'v segment_stats"

definition page_build :: "('v::ord list \<Rightarrow> 'c) \<Rightarrow> i64 list \<Rightarrow> 'v list \<Rightarrow> time_unit \<Rightarrow> ('c, 'v) page" where
  "page_build enc timestamps values unit =
    \<lparr>pg_values = enc values, pg_timestamps = encode_delta_of_delta timestamps unit,
     pg_nulls = all_present (length values), pg_stats = from_columns timestamps values\<rparr>"

definition page_build_nullable :: "('v::ord list \<Rightarrow> 'c) \<Rightarrow> i64 list \<Rightarrow> 'v option list \<Rightarrow> time_unit \<Rightarrow> ('c, 'v) page" where
  "page_build_nullable enc timestamps values unit =
    (let nulls = from_presence (map (\<lambda>v. v \<noteq> None) values);
         present_values = flatten_present values
     in \<lparr>pg_values = enc present_values, pg_timestamps = encode_delta_of_delta timestamps unit, pg_nulls = nulls,
         pg_stats = from_columns_nullable timestamps present_values (nm_null_count nulls)\<rparr>)"

definition page_time_range :: "('c, 'v) page \<Rightarrow> (i64 \<times> i64) option" where
  "page_time_range p = span_of (st_min_ts (pg_stats p)) (st_max_ts (pg_stats p))"

definition page_overlaps_time :: "('c, 'v) page \<Rightarrow> i64 \<Rightarrow> i64 \<Rightarrow> bool" where
  "page_overlaps_time p from_ts to_ts =
    (case page_time_range p of Some (lo, hi) \<Rightarrow> sint lo \<le> sint to_ts \<and> sint from_ts \<le> sint hi | None \<Rightarrow> False)"

definition page_present_count :: "('c, 'v) page \<Rightarrow> nat" where
  "page_present_count p = st_row_count (pg_stats p) - st_null_count (pg_stats p)"

definition page_is_all_null :: "('c, 'v) page \<Rightarrow> bool" where
  "page_is_all_null p = stats_is_all_null (pg_stats p)"

definition page_decode_timestamps :: "('c, 'v) page \<Rightarrow> i64 list" where
  "page_decode_timestamps p =
    (if st_row_count (pg_stats p) = 0 then [] else decode_delta_of_delta (pg_timestamps p))"

definition page_present_count_in_range :: "('c, 'v) page \<Rightarrow> i64 \<Rightarrow> i64 \<Rightarrow> nat" where
  "page_present_count_in_range p from_ts to_ts =
    (if \<not> page_overlaps_time p from_ts to_ts then 0
     else length (filter (\<lambda>(row, ts). sint from_ts \<le> sint ts \<and> sint ts \<le> sint to_ts \<and> is_present (pg_nulls p) row)
            (enumerate 0 (page_decode_timestamps p))))"

definition page_decode_nullable :: "('c \<Rightarrow> 'v list) \<Rightarrow> ('c, 'v) page \<Rightarrow> i64 list \<times> 'v option list" where
  "page_decode_nullable dec p =
    (page_decode_timestamps p,
     nullable_loop (pg_nulls p) (dec (pg_values p)) (st_row_count (pg_stats p)) 0 0)"

definition page_value_at :: "('c \<Rightarrow> 'v list) \<Rightarrow> ('c, 'v) page \<Rightarrow> i64 \<Rightarrow> 'v option" where
  "page_value_at dec p t =
    (if \<not> page_overlaps_time p t t then None
     else let (timestamps, values) = page_decode_nullable dec p
          in point_lookup timestamps values (st_time_sorted (pg_stats p)) t)"

subsection \<open>Paged segments\<close>

record ('c, 'v) paged_segment =
  ps_version :: u16
  ps_rows_per_page :: nat
  ps_pages :: "('c, 'v) page list"
  ps_stats :: "'v segment_stats"

definition paged_build :: "('v::ord list \<Rightarrow> 'c) \<Rightarrow> i64 list \<Rightarrow> 'v list \<Rightarrow> time_unit \<Rightarrow> nat \<Rightarrow>
    segment_error + ('c, 'v) paged_segment" where
  "paged_build enc timestamps values unit rows_per_page =
    (if length timestamps \<noteq> length values then Inl (LengthMismatch (length timestamps) (length values))
     else if rows_per_page = 0 then Inl EmptyPageSize
     else Inr \<lparr>ps_version = paged_segment_format_version, ps_rows_per_page = rows_per_page,
               ps_pages = map (\<lambda>(ts, vs). page_build enc ts vs unit)
                 (zip (chunks rows_per_page timestamps) (chunks rows_per_page values)),
               ps_stats = from_columns timestamps values\<rparr>)"

definition paged_build_nullable :: "('v::ord list \<Rightarrow> 'c) \<Rightarrow> i64 list \<Rightarrow> 'v option list \<Rightarrow> time_unit \<Rightarrow> nat \<Rightarrow>
    segment_error + ('c, 'v) paged_segment" where
  "paged_build_nullable enc timestamps values unit rows_per_page =
    (if length timestamps \<noteq> length values then Inl (LengthMismatch (length timestamps) (length values))
     else if rows_per_page = 0 then Inl EmptyPageSize
     else let present_values = flatten_present values; null_count = length (filter (\<lambda>v. v = None) values)
     in Inr \<lparr>ps_version = paged_segment_format_version, ps_rows_per_page = rows_per_page,
             ps_pages = map (\<lambda>(ts, vs). page_build_nullable enc ts vs unit)
               (zip (chunks rows_per_page timestamps) (chunks rows_per_page values)),
             ps_stats = from_columns_nullable timestamps present_values null_count\<rparr>)"

definition paged_time_range :: "('c, 'v) paged_segment \<Rightarrow> (i64 \<times> i64) option" where
  "paged_time_range s = span_of (st_min_ts (ps_stats s)) (st_max_ts (ps_stats s))"

definition prune_pages_by_time :: "('c, 'v) paged_segment \<Rightarrow> i64 \<Rightarrow> i64 \<Rightarrow> nat list" where
  "prune_pages_by_time s from_ts to_ts =
    map fst (filter (\<lambda>(i, p). page_overlaps_time p from_ts to_ts) (enumerate 0 (ps_pages s)))"

definition prune_present_pages_by_time :: "('c, 'v) paged_segment \<Rightarrow> i64 \<Rightarrow> i64 \<Rightarrow> nat list" where
  "prune_present_pages_by_time s from_ts to_ts =
    map fst (filter (\<lambda>(i, p). 0 < page_present_count_in_range p from_ts to_ts) (enumerate 0 (ps_pages s)))"

definition paged_present_count_in_range :: "('c, 'v) paged_segment \<Rightarrow> i64 \<Rightarrow> i64 \<Rightarrow> nat" where
  "paged_present_count_in_range s from_ts to_ts =
    sum_list (map (\<lambda>p. page_present_count_in_range p from_ts to_ts) (ps_pages s))"

definition paged_decode_nullable :: "('c \<Rightarrow> 'v list) \<Rightarrow> ('c, 'v) paged_segment \<Rightarrow> i64 list \<times> 'v option list" where
  "paged_decode_nullable dec s =
    foldl (\<lambda>(timestamps, values) page. let (ts, vs) = page_decode_nullable dec page in (timestamps @ ts, values @ vs))
      ([], []) (ps_pages s)"

text \<open>The rows of a window, as \<open>read_time_range\<close> filters them.\<close>

fun window_rows :: "i64 \<Rightarrow> i64 \<Rightarrow> i64 list \<Rightarrow> 'v option list \<Rightarrow> i64 list \<times> 'v option list" where
  "window_rows from_ts to_ts (t # ts) (v # vs) =
    (let (ts', vs') = window_rows from_ts to_ts ts vs
     in if sint from_ts \<le> sint t \<and> sint t \<le> sint to_ts then (t # ts', v # vs') else (ts', vs'))"
| "window_rows from_ts to_ts _ _ = ([], [])"

definition read_time_range :: "('c \<Rightarrow> 'v list) \<Rightarrow> ('c, 'v) paged_segment \<Rightarrow> i64 \<Rightarrow> i64 \<Rightarrow> i64 list \<times> 'v option list" where
  "read_time_range dec s from_ts to_ts =
    foldl (\<lambda>(timestamps, values) page_idx.
        let (ts, vs) = page_decode_nullable dec (ps_pages s ! page_idx);
            (ts', vs') = window_rows from_ts to_ts ts vs
        in (timestamps @ ts', values @ vs'))
      ([], []) (prune_pages_by_time s from_ts to_ts)"

definition paged_value_at :: "('c \<Rightarrow> 'v list) \<Rightarrow> ('c, 'v) paged_segment \<Rightarrow> i64 \<Rightarrow> 'v option" where
  "paged_value_at dec s t =
    find_map (\<lambda>page_idx. page_value_at dec (ps_pages s ! page_idx) t) (prune_pages_by_time s t t)"

subsection \<open>A page answers like a segment\<close>

definition page_segment :: "('c, 'v) page \<Rightarrow> ('c, 'v) segment" where
  "page_segment p = \<lparr>sg_version = segment_format_version, sg_values = pg_values p, sg_timestamps = pg_timestamps p,
     sg_nulls = pg_nulls p, sg_stats = pg_stats p\<rparr>"

lemma page_segment_ops:
  "page_overlaps_time p a b = overlaps_time (page_segment p) a b"
  "page_decode_timestamps p = decode_timestamps (page_segment p)"
  "page_decode_nullable dec p = decode_nullable dec (page_segment p)"
  "page_value_at dec p t = value_at dec (page_segment p) t"
  "page_present_count_in_range p a b = present_count_in_range (page_segment p) a b"
proof -
  show o: "page_overlaps_time p a b = overlaps_time (page_segment p) a b" for a b
    by (simp add: page_overlaps_time_def overlaps_time_def span_overlaps_def page_time_range_def time_range_def page_segment_def)
  show t: "page_decode_timestamps p = decode_timestamps (page_segment p)"
    by (simp add: page_decode_timestamps_def decode_timestamps_def page_segment_def)
  show d: "page_decode_nullable dec p = decode_nullable dec (page_segment p)"
    by (simp add: page_decode_nullable_def decode_nullable_def t) (simp add: page_segment_def)
  show "page_value_at dec p t = value_at dec (page_segment p) t"
    by (simp add: page_value_at_def value_at_def contains_timestamp_def is_time_sorted_def o d) (simp add: page_segment_def)
  show "page_present_count_in_range p a b = present_count_in_range (page_segment p) a b"
    by (simp add: page_present_count_in_range_def present_count_in_range_def o t) (simp add: page_segment_def)
qed

lemma page_build_segment:
  "length ts = length vs \<Longrightarrow> build_nullable enc ts vs unit = Inr (page_segment (page_build_nullable enc ts vs unit))"
  by (simp add: build_nullable_def page_build_nullable_def page_segment_def Let_def)

subsection \<open>Decoding up to a relation on the values\<close>

lemma flatten_present_related:
  assumes "list_all2 R (flatten_present vs) ps"
  obtains ws where "flatten_present ws = ps" "list_all2 (rel_option R) vs ws"
proof -
  have "\<exists>ws. flatten_present ws = ps \<and> list_all2 (rel_option R) vs ws" using assms
  proof (induction vs arbitrary: ps rule: flatten_present.induct)
    case (2 vs)
    then obtain ws where "flatten_present ws = ps" "list_all2 (rel_option R) vs ws" by auto
    then show ?case by (intro exI [of _ "None # ws"]) simp
  next
    case (3 v vs)
    then obtain w ps' where "ps = w # ps'" "R v w" "list_all2 R (flatten_present vs) ps'" by (auto simp: list_all2_Cons1)
    moreover from this(3) obtain ws where "flatten_present ws = ps'" "list_all2 (rel_option R) vs ws" using "3.IH" by blast
    ultimately show ?case by (intro exI [of _ "Some w # ws"]) simp
  qed auto
  then show thesis using that by blast
qed

lemma related_presence: "list_all2 (rel_option R) vs ws \<Longrightarrow> map (\<lambda>v. v \<noteq> None) vs = map (\<lambda>w. w \<noteq> None) ws"
  by (induction vs ws rule: list_all2_induct) (auto elim: option.rel_cases)

lemma decode_nullable_related:
  assumes "build_nullable enc ts vs unit = Inr s"
    and "list_all2 R (flatten_present vs) (dec (enc (flatten_present vs)))"
  obtains ws where "decode_nullable dec s = (ts, ws)" "list_all2 (rel_option R) vs ws"
proof -
  obtain ws where ws: "flatten_present ws = dec (enc (flatten_present vs))" "list_all2 (rel_option R) vs ws"
    by (rule flatten_present_related [OF assms(2)])
  note f = build_nullable_fields [OF assms(1)]
  have "nullable_loop (sg_nulls s) (dec (sg_values s)) (length vs) 0 0 = ws"
    using nullable_loop_round_trip [of ws] ws list_all2_lengthD [OF ws(2)] f(2,4) related_presence [OF ws(2)] by (simp only:)
  then have "decode_nullable dec s = (ts, ws)"
    using f by (simp add: decode_nullable_def decode_timestamps_build_nullable [OF assms(1)] stats_fields)
  then show thesis using ws(2) that by blast
qed

lemma value_at_decoded:
  assumes "build_nullable enc ts vs unit = Inr s" "decode_nullable dec s = (ts, ws)" "length ws = length ts"
  shows "value_at dec s t = first_present ts ws t"
proof (cases "contains_timestamp s t")
  case False
  then have "t \<notin> set ts"
    using contains_timestamp_build_nullable [OF assms(1), of t t t] by (auto simp: contains_timestamp_def)
  with False show ?thesis by (simp add: value_at_def first_present_absent)
next
  case True
  then show ?thesis
    using build_nullable_fields(5) [OF assms(1)] assms(3)
    by (simp add: value_at_def assms(2) is_time_sorted_def stats_fields point_lookup_first_present)
qed

subsection \<open>The pages of a paged segment\<close>

lemma chunks_related:
  assumes "0 < n" "length xs = length ys"
  shows "list_all2 (\<lambda>a b. length a = length b) (chunks n xs) (chunks n ys)"
  using assms
proof (induction n xs arbitrary: ys rule: chunks.induct)
  case (1 n xs)
  show ?case
  proof (cases "xs = []")
    case True
    then show ?thesis using "1.prems" by simp
  next
    case False
    then have "ys \<noteq> []" using "1.prems" by auto
    then show ?thesis using False "1.prems" "1.IH" [of "drop n ys"] by (subst (1 2) chunks.simps) simp
  qed
qed

text \<open>What every page of a built segment decodes to, up to a relation on the values.\<close>

definition page_rows :: "('v::ord list \<Rightarrow> 'c) \<Rightarrow> ('c \<Rightarrow> 'v list) \<Rightarrow> time_unit \<Rightarrow> ('v \<Rightarrow> 'v \<Rightarrow> bool) \<Rightarrow>
    i64 list \<Rightarrow> 'v option list \<Rightarrow> 'v option list \<Rightarrow> bool" where
  "page_rows enc dec unit R tc vc wc \<longleftrightarrow> length tc = length vc \<and> list_all2 (rel_option R) vc wc \<and>
    page_decode_nullable dec (page_build_nullable enc tc vc unit) = (tc, wc)"

lemma page_rows_exist:
  assumes "length tc = length vc" "list_all2 R (flatten_present vc) (dec (enc (flatten_present vc)))"
  shows "\<exists>wc. page_rows enc dec unit R tc vc wc"
proof -
  obtain wc where "decode_nullable dec (page_segment (page_build_nullable enc tc vc unit)) = (tc, wc)"
    "list_all2 (rel_option R) vc wc"
    using decode_nullable_related [where enc = enc and dec = dec and R = R and vs = vc and ts = tc and unit = unit,
      OF page_build_segment [OF assms(1)] assms(2)] by blast
  then show ?thesis using assms(1) by (auto simp: page_rows_def page_segment_ops)
qed

lemma page_rows_length: "page_rows enc dec unit R tc vc wc \<Longrightarrow> length wc = length tc"
  by (auto simp: page_rows_def dest: list_all2_lengthD)

lemma page_rows_value_at:
  assumes "page_rows enc dec unit R tc vc wc"
  shows "page_value_at dec (page_build_nullable enc tc vc unit) t = first_present tc wc t"
  using assms page_rows_length [OF assms]
  by (simp add: page_segment_ops) (rule value_at_decoded [OF page_build_segment], simp_all add: page_rows_def page_segment_ops)

lemma page_rows_disjoint:
  assumes "page_rows enc dec unit R tc vc wc" "\<not> page_overlaps_time (page_build_nullable enc tc vc unit) a b" "t \<in> set tc"
  shows "\<not> (sint a \<le> sint t \<and> sint t \<le> sint b)"
  using assms contains_timestamp_build_nullable [OF page_build_segment, of tc vc t a b]
  by (auto simp: page_rows_def page_segment_ops)

lemma window_rows_append:
  assumes "length a = length c"
  shows "window_rows x y (a @ b) (c @ d) =
    (fst (window_rows x y a c) @ fst (window_rows x y b d), snd (window_rows x y a c) @ snd (window_rows x y b d))"
  using assms by (induction a c rule: list_induct2) (auto simp: Let_def split_def)

lemma window_rows_none:
  "\<forall>t\<in>set ts. \<not> (sint a \<le> sint t \<and> sint t \<le> sint b) \<Longrightarrow> window_rows a b ts vs = ([], [])"
  by (induction a b ts vs rule: window_rows.induct) auto

lemma find_map_append:
  "find_map f (xs @ ys) = (case find_map f xs of Some v \<Rightarrow> Some v | None \<Rightarrow> find_map f ys)"
  by (induction xs) (auto split: option.split)

lemma first_present_append:
  assumes "length a = length c"
  shows "first_present (a @ b) (c @ d) t = (case first_present a c t of Some v \<Rightarrow> Some v | None \<Rightarrow> first_present b d t)"
  unfolding first_present_def using assms by (simp add: find_map_append)

text \<open>The pages the pruned indices name are the overlapping pages, in order.\<close>

lemma filter_enumerate: "map snd (filter (\<lambda>(i, p). P p) (enumerate n ps)) = filter P ps"
  by (induction ps arbitrary: n) auto

lemma pruned_pages: "map (\<lambda>i. ps ! i) (map fst (filter (\<lambda>(i, p). P p) (enumerate 0 ps))) = filter P ps"
proof -
  have "map (\<lambda>i. ps ! i) (map fst (filter (\<lambda>(i, p). P p) (enumerate 0 ps))) = map snd (filter (\<lambda>(i, p). P p) (enumerate 0 ps))"
    by (auto simp: in_set_enumerate_eq)
  then show ?thesis by (simp add: filter_enumerate)
qed

lemma foldl_pruned:
  "foldl (\<lambda>acc i. f acc (ps ! i)) a (map fst (filter (\<lambda>(i, p). P p) (enumerate 0 ps))) = foldl f a (filter P ps)"
  by (subst pruned_pages [symmetric]) (simp only: foldl_map)

lemma find_map_map: "find_map f (map g xs) = find_map (\<lambda>x. f (g x)) xs"
  by (induction xs) (auto split: option.split)

lemma find_map_pruned:
  "find_map (\<lambda>i. f (ps ! i)) (map fst (filter (\<lambda>(i, p). P p) (enumerate 0 ps))) = find_map f (filter P ps)"
  by (subst pruned_pages [symmetric]) (simp only: find_map_map)

subsection \<open>The reads across pages\<close>

definition built_pages :: "('v::ord list \<Rightarrow> 'c) \<Rightarrow> time_unit \<Rightarrow> (i64 list \<times> 'v option list \<times> 'v option list) list \<Rightarrow> ('c, 'v) page list" where
  "built_pages enc unit cs = map (\<lambda>(tc, vc, wc). page_build_nullable enc tc vc unit) cs"

definition pages_ok where
  "pages_ok enc dec unit R cs \<longleftrightarrow> (\<forall>(tc, vc, wc) \<in> set cs. page_rows enc dec unit R tc vc wc)"

abbreviation all_ts where "all_ts cs \<equiv> concat (map fst cs)"
abbreviation all_ws where "all_ws cs \<equiv> concat (map (\<lambda>c. snd (snd c)) cs)"
abbreviation all_vs where "all_vs cs \<equiv> concat (map (\<lambda>c. fst (snd c)) cs)"

lemma pages_ok_Cons:
  "pages_ok enc dec unit R ((tc, vc, wc) # cs) \<longleftrightarrow> page_rows enc dec unit R tc vc wc \<and> pages_ok enc dec unit R cs"
  by (simp add: pages_ok_def)

lemma pages_decode:
  "pages_ok enc dec unit R cs \<Longrightarrow>
    foldl (\<lambda>(timestamps, values) page. let (ts, vs) = page_decode_nullable dec page in (timestamps @ ts, values @ vs))
      (a, b) (built_pages enc unit cs) = (a @ all_ts cs, b @ all_ws cs)"
proof (induction cs arbitrary: a b)
  case (Cons c cs)
  then show ?case by (cases c) (simp add: built_pages_def pages_ok_Cons page_rows_def)
qed (simp add: built_pages_def)

lemma pages_read_range:
  "pages_ok enc dec unit R cs \<Longrightarrow>
    foldl (\<lambda>(timestamps, values) page. let (ts, vs) = page_decode_nullable dec page; (ts', vs') = window_rows x y ts vs
        in (timestamps @ ts', values @ vs'))
      (a, b) (filter (\<lambda>p. page_overlaps_time p x y) (built_pages enc unit cs)) =
    (a @ fst (window_rows x y (all_ts cs) (all_ws cs)), b @ snd (window_rows x y (all_ts cs) (all_ws cs)))"
proof (induction cs arbitrary: a b)
  case (Cons c cs)
  obtain tc vc wc where c: "c = (tc, vc, wc)" by (cases c)
  with Cons.prems have p: "page_rows enc dec unit R tc vc wc" and ok: "pages_ok enc dec unit R cs" by (simp_all add: pages_ok_Cons)
  note w = window_rows_append [OF page_rows_length [OF p, symmetric], of x y "all_ts cs" "all_ws cs"]
  show ?case
  proof (cases "page_overlaps_time (page_build_nullable enc tc vc unit) x y")
    case True
    then show ?thesis using p Cons.IH [OF ok] w
      by (simp add: c built_pages_def page_rows_def split_def Let_def)
  next
    case False
    then have "window_rows x y tc wc = ([], [])" using window_rows_none [of tc x y wc] page_rows_disjoint [OF p] by blast
    then show ?thesis using False Cons.IH [OF ok] w by (simp add: c built_pages_def)
  qed
qed (simp add: built_pages_def)

lemma pages_value_at:
  "pages_ok enc dec unit R cs \<Longrightarrow>
    find_map (\<lambda>p. page_value_at dec p t) (filter (\<lambda>p. page_overlaps_time p t t) (built_pages enc unit cs)) =
    first_present (all_ts cs) (all_ws cs) t"
proof (induction cs)
  case Nil
  then show ?case by (simp add: built_pages_def first_present_def)
next
  case (Cons c cs)
  obtain tc vc wc where c: "c = (tc, vc, wc)" by (cases c)
  with Cons.prems have p: "page_rows enc dec unit R tc vc wc" and ok: "pages_ok enc dec unit R cs" by (simp_all add: pages_ok_Cons)
  have v: "page_value_at dec (page_build_nullable enc tc vc unit) t = first_present tc wc t" by (rule page_rows_value_at [OF p])
  have e: "first_present (all_ts (c # cs)) (all_ws (c # cs)) t =
      (case first_present tc wc t of Some v \<Rightarrow> Some v | None \<Rightarrow> first_present (all_ts cs) (all_ws cs) t)"
    using first_present_append [OF page_rows_length [OF p, symmetric]] by (simp add: c)
  show ?case
  proof (cases "page_overlaps_time (page_build_nullable enc tc vc unit) t t")
    case True
    then show ?thesis using v Cons.IH [OF ok] unfolding e by (simp add: c built_pages_def split: option.split)
  next
    case False
    then have "first_present tc wc t = None" using page_rows_disjoint [OF p False, of t] by (auto intro: first_present_absent)
    then show ?thesis using False Cons.IH [OF ok] unfolding e by (simp add: c built_pages_def)
  qed
qed

text \<open>The chunks of a built segment are such pages.\<close>

lemma chunked_rows:
  assumes "list_all2 (\<lambda>tc vc. length tc = length vc) tcs vcs"
    and "\<forall>vc\<in>set vcs. list_all2 R (flatten_present vc) (dec (enc (flatten_present vc)))"
  shows "\<exists>cs. map (\<lambda>c. (fst c, fst (snd c))) cs = zip tcs vcs \<and> pages_ok enc dec unit R cs"
  using assms
proof (induction tcs vcs rule: list_all2_induct)
  case Nil
  then show ?case by (intro exI [of _ "[]"]) (simp add: pages_ok_def)
next
  case (Cons tc tcs vc vcs)
  then obtain cs where "map (\<lambda>c. (fst c, fst (snd c))) cs = zip tcs vcs" "pages_ok enc dec unit R cs" by auto
  moreover obtain wc where "page_rows enc dec unit R tc vc wc"
    using page_rows_exist [OF Cons.hyps(1), of R dec enc unit] Cons.prems by auto
  ultimately show ?case by (intro exI [of _ "(tc, vc, wc) # cs"]) (simp add: pages_ok_Cons)
qed

lemma pages_values_related:
  "pages_ok enc dec unit R cs \<Longrightarrow> list_all2 (rel_option R) (all_vs cs) (all_ws cs)"
proof (induction cs)
  case (Cons c cs)
  then show ?case by (cases c) (auto simp: pages_ok_Cons page_rows_def intro: list_all2_appendI)
qed simp

lemma paged_build_rows:
  assumes "paged_build_nullable enc ts vs unit n = Inr s"
    and "\<forall>vc\<in>set (chunks n vs). list_all2 R (flatten_present vc) (dec (enc (flatten_present vc)))"
  obtains cs where "ps_pages s = built_pages enc unit cs" "pages_ok enc dec unit R cs" "all_ts cs = ts" "all_vs cs = vs"
    "list_all2 (rel_option R) vs (all_ws cs)"
proof -
  have n: "0 < n" and l: "length ts = length vs"
    and s: "ps_pages s = map (\<lambda>(ts, vs). page_build_nullable enc ts vs unit) (zip (chunks n ts) (chunks n vs))"
    using assms(1) by (auto simp: paged_build_nullable_def Let_def split: if_splits)
  obtain cs where cs: "map (\<lambda>c. (fst c, fst (snd c))) cs = zip (chunks n ts) (chunks n vs)" "pages_ok enc dec unit R cs"
    using chunked_rows [where R = R and enc = enc and dec = dec and unit = unit, OF chunks_related [OF n l] assms(2)] by blast
  have len: "length (chunks n ts) = length (chunks n vs)" using chunks_related [OF n l] by (rule list_all2_lengthD)
  have "map fst cs = chunks n ts" "map (\<lambda>c. fst (snd c)) cs = chunks n vs"
    using arg_cong [OF cs(1), of "map fst"] arg_cong [OF cs(1), of "map snd"] len by (simp_all add: comp_def)
  then have "all_ts cs = ts" "all_vs cs = vs" using concat_chunks [OF n] by metis+
  moreover have "ps_pages s = built_pages enc unit cs"
    unfolding s cs(1) [symmetric] built_pages_def by (simp add: split_def)
  ultimately show thesis using that cs(2) pages_values_related [OF cs(2)] by metis
qed

lemma paged_reads:
  assumes "paged_build_nullable enc ts vs unit n = Inr s"
    and "\<forall>vc\<in>set (chunks n vs). list_all2 R (flatten_present vc) (dec (enc (flatten_present vc)))"
  shows "\<exists>ws. list_all2 (rel_option R) vs ws \<and> paged_decode_nullable dec s = (ts, ws) \<and>
    (\<forall>a b. read_time_range dec s a b = window_rows a b ts ws) \<and> (\<forall>t. paged_value_at dec s t = first_present ts ws t)"
proof -
  obtain cs where cs: "ps_pages s = built_pages enc unit cs" "pages_ok enc dec unit R cs" "all_ts cs = ts"
    "list_all2 (rel_option R) vs (all_ws cs)" using paged_build_rows [OF assms] by metis
  have "paged_decode_nullable dec s = (ts, all_ws cs)"
    using pages_decode [OF cs(2), of "[]" "[]"] by (simp add: paged_decode_nullable_def cs(1,3))
  moreover have "read_time_range dec s a b = window_rows a b ts (all_ws cs)" for a b
    using pages_read_range [OF cs(2), of a b "[]" "[]"]
      foldl_pruned [of "\<lambda>(timestamps, values) page. let (ts, vs) = page_decode_nullable dec page; (ts', vs') = window_rows a b ts vs
        in (timestamps @ ts', values @ vs')" "ps_pages s" "([], [])" "\<lambda>p. page_overlaps_time p a b"]
    by (simp add: read_time_range_def prune_pages_by_time_def cs(1,3) split_def)
  moreover have "paged_value_at dec s t = first_present ts (all_ws cs) t" for t
    using pages_value_at [OF cs(2), of t]
    by (simp add: paged_value_at_def prune_pages_by_time_def cs(1,3) find_map_pruned [of "\<lambda>p. page_value_at dec p t"])
  ultimately show ?thesis using cs(4) by blast
qed

subsection \<open>The rollup\<close>

lemma sum_chunks:
  assumes "0 < n" "\<And>xs ys. f (xs @ ys) = f xs + (f ys::nat)"
  shows "sum_list (map f (chunks n xs)) = f xs"
  using assms(1)
proof (induction n xs rule: chunks.induct)
  case (1 n xs)
  have "f [] = 0" using assms(2) [of "[]" "[]"] by simp
  then show ?case using 1 assms(2) [of "take n xs" "drop n xs"] by (subst chunks.simps) auto
qed

lemma mask_null_count: "nm_null_count (from_presence ps) = length (filter (\<lambda>p. \<not> p) ps)"
  by (auto simp: from_presence_def all_present_def Let_def)

lemma page_build_nullable_counts:
  "length tc = length vc \<Longrightarrow> st_row_count (pg_stats (page_build_nullable enc tc vc unit)) = length tc"
  "st_null_count (pg_stats (page_build_nullable enc tc vc unit)) = length (filter (\<lambda>v. v = None) vc)"
  by (simp_all add: page_build_nullable_def Let_def stats_fields mask_null_count filter_map comp_def)

lemma paged_rollup:
  assumes "paged_build_nullable enc ts vs unit n = Inr s"
  shows "sum_list (map (\<lambda>p. st_row_count (pg_stats p)) (ps_pages s)) = st_row_count (ps_stats s)"
    and "sum_list (map (\<lambda>p. st_null_count (pg_stats p)) (ps_pages s)) = st_null_count (ps_stats s)"
proof -
  have n: "0 < n" and l: "length ts = length vs"
    and s: "ps_pages s = map (\<lambda>(ts, vs). page_build_nullable enc ts vs unit) (zip (chunks n ts) (chunks n vs))"
    using assms by (auto simp: paged_build_nullable_def Let_def split: if_splits)
  have rel: "list_all2 (\<lambda>a b. length a = length b) (chunks n ts) (chunks n vs)" by (rule chunks_related [OF n l])
  have "map (\<lambda>p. st_row_count (pg_stats p)) (ps_pages s) = map length (chunks n ts)"
    unfolding s using rel by (induction rule: list_all2_induct) (simp_all add: page_build_nullable_counts)
  then show "sum_list (map (\<lambda>p. st_row_count (pg_stats p)) (ps_pages s)) = st_row_count (ps_stats s)"
    using sum_chunks [OF n, of length ts] assms
    by (auto simp: paged_build_nullable_def Let_def from_columns_nullable_def split: if_splits)
  have "map (\<lambda>p. st_null_count (pg_stats p)) (ps_pages s) = map (\<lambda>vc. length (filter (\<lambda>v. v = None) vc)) (chunks n vs)"
    unfolding s using rel by (induction rule: list_all2_induct) (simp_all add: page_build_nullable_counts)
  then show "sum_list (map (\<lambda>p. st_null_count (pg_stats p)) (ps_pages s)) = st_null_count (ps_stats s)"
    using sum_chunks [OF n, of "\<lambda>vc. length (filter (\<lambda>v. v = None) vc)" vs] assms
    by (auto simp: paged_build_nullable_def Let_def from_columns_nullable_def split: if_splits)
qed

end
