(* ===== verification/Sealing.thy ===== *)
theory Sealing imports Pages Segment_Frame Decimal_Instance begin

text \<open>
  The declared encodings of \<^verbatim>\<open>weft-physical-type/src/schema.rs\<close>: an aspect's declaration, the widening of
  its encoding, and the sealing of columns into a segment or a paged segment, with every refusal. A sealed
  segment is the segment the builders give under the declared encoder (\<open>declared_encoder\<close>), its values stay
  within the declared tolerance, and its frame reads back to them.
\<close>

subsection \<open>The declaration\<close>

record 'd aspect_schema =
  as_value :: physical_type
  as_value_tolerance :: 'd
  as_timestamp_unit :: time_unit

datatype 'd seal_error =
    SealLengthMismatch nat nat | SealEncode column_encode_error | ToleranceExceeded 'd 'd
  | SealEmptyPageSize | SealOutOfOrder nat i64 i64

fun encodes_exactly :: "'d decimal_ops \<Rightarrow> physical_type \<Rightarrow> 'd \<Rightarrow> bool" where
  "encodes_exactly D current value =
    (case encode D current value of Inr encoded \<Rightarrow> is_exactness_exact (en_exactness encoded) | Inl _ \<Rightarrow> False)"

definition widen_value_encoding :: "'d decimal_ops \<Rightarrow> physical_type \<Rightarrow> 'd list \<Rightarrow> physical_type" where
  "widen_value_encoding D current values =
    (if current = BigDecimalText then current
     else if list_all (encodes_exactly D current) values then current else BigDecimalText)"

definition is_value_widening :: "physical_type \<Rightarrow> physical_type \<Rightarrow> bool" where
  "is_value_widening from_type to_type \<longleftrightarrow> from_type \<noteq> to_type \<and> to_type = BigDecimalText"

definition aspect_schema_new :: "physical_type \<Rightarrow> 'd \<Rightarrow> time_unit \<Rightarrow> 'd aspect_schema" where
  "aspect_schema_new value_type value_tolerance timestamp_unit =
    \<lparr>as_value = value_type, as_value_tolerance = value_tolerance, as_timestamp_unit = timestamp_unit\<rparr>"

subsection \<open>Sealing a segment\<close>

definition seal :: "'d::ord decimal_ops \<Rightarrow> 'd aspect_schema \<Rightarrow> i64 list \<Rightarrow> 'd list \<Rightarrow> 'd seal_error + 'd wseg" where
  "seal D schema timestamps values =
    (if length timestamps \<noteq> length values then Inl (SealLengthMismatch (length timestamps) (length values))
     else case encode_column D (as_value schema) values of
       Inl e \<Rightarrow> Inl (SealEncode e)
     | Inr value_col \<Rightarrow>
         if as_value_tolerance schema < ce_max_abs_error value_col
         then Inl (ToleranceExceeded (ce_max_abs_error value_col) (as_value_tolerance schema))
         else Inr \<lparr>sg_version = segment_format_version, sg_values = value_col,
                   sg_timestamps = encode_delta_of_delta timestamps (as_timestamp_unit schema),
                   sg_nulls = all_present (length values), sg_stats = from_columns timestamps values\<rparr>)"

definition seal_sorted :: "'d::ord decimal_ops \<Rightarrow> 'd aspect_schema \<Rightarrow> i64 list \<Rightarrow> 'd list \<Rightarrow> 'd seal_error + 'd wseg" where
  "seal_sorted D schema timestamps values =
    (if length timestamps \<noteq> length values then Inl (SealLengthMismatch (length timestamps) (length values))
     else case first_order_violation timestamps of
       Some (index, previous, current) \<Rightarrow> Inl (SealOutOfOrder index previous current)
     | None \<Rightarrow> seal D schema timestamps values)"

definition remap_present_index :: "column_encode_error \<Rightarrow> bool list \<Rightarrow> column_encode_error" where
  "remap_present_index err present =
    (let rows = map fst (filter (\<lambda>(row, p). p) (enumerate 0 present));
         original_row = (if cee_index err < length rows then rows ! cee_index err else length present)
     in \<lparr>cee_index = original_row, cee_source = cee_source err\<rparr>)"

definition seal_nullable :: "'d::ord decimal_ops \<Rightarrow> 'd aspect_schema \<Rightarrow> i64 list \<Rightarrow> 'd option list \<Rightarrow> 'd seal_error + 'd wseg" where
  "seal_nullable D schema timestamps values =
    (if length timestamps \<noteq> length values then Inl (SealLengthMismatch (length timestamps) (length values))
     else let present = map (\<lambda>v. v \<noteq> None) values; nulls = from_presence present;
              present_values = flatten_present values
     in case encode_column D (as_value schema) present_values of
       Inl e \<Rightarrow> Inl (SealEncode (remap_present_index e present))
     | Inr value_col \<Rightarrow>
         if as_value_tolerance schema < ce_max_abs_error value_col
         then Inl (ToleranceExceeded (ce_max_abs_error value_col) (as_value_tolerance schema))
         else Inr \<lparr>sg_version = segment_format_version, sg_values = value_col,
                   sg_timestamps = encode_delta_of_delta timestamps (as_timestamp_unit schema), sg_nulls = nulls,
                   sg_stats = from_columns_nullable timestamps present_values (nm_null_count nulls)\<rparr>)"

subsection \<open>Sealing pages\<close>

type_synonym 'd wpage = "('d column_encoding, 'd) page"
type_synonym 'd wpaged = "('d column_encoding, 'd) paged_segment"

definition seal_page :: "'d::ord decimal_ops \<Rightarrow> 'd aspect_schema \<Rightarrow> nat \<Rightarrow> i64 list \<Rightarrow> 'd list \<Rightarrow> 'd seal_error + 'd wpage" where
  "seal_page D schema base timestamps values =
    (case encode_column D (as_value schema) values of
       Inl e \<Rightarrow> Inl (SealEncode \<lparr>cee_index = base + cee_index e, cee_source = cee_source e\<rparr>)
     | Inr value_col \<Rightarrow>
         if as_value_tolerance schema < ce_max_abs_error value_col
         then Inl (ToleranceExceeded (ce_max_abs_error value_col) (as_value_tolerance schema))
         else Inr \<lparr>pg_values = value_col, pg_timestamps = encode_delta_of_delta timestamps (as_timestamp_unit schema),
                   pg_nulls = all_present (length values), pg_stats = from_columns timestamps values\<rparr>)"

definition seal_page_nullable :: "'d::ord decimal_ops \<Rightarrow> 'd aspect_schema \<Rightarrow> nat \<Rightarrow> i64 list \<Rightarrow> 'd option list \<Rightarrow> 'd seal_error + 'd wpage" where
  "seal_page_nullable D schema base timestamps values =
    (let present = map (\<lambda>v. v \<noteq> None) values; nulls = from_presence present;
         present_values = flatten_present values
     in case encode_column D (as_value schema) present_values of
       Inl e \<Rightarrow> (let here = remap_present_index e present
                 in Inl (SealEncode \<lparr>cee_index = base + cee_index here, cee_source = cee_source here\<rparr>))
     | Inr value_col \<Rightarrow>
         if as_value_tolerance schema < ce_max_abs_error value_col
         then Inl (ToleranceExceeded (ce_max_abs_error value_col) (as_value_tolerance schema))
         else Inr \<lparr>pg_values = value_col, pg_timestamps = encode_delta_of_delta timestamps (as_timestamp_unit schema),
                   pg_nulls = nulls,
                   pg_stats = from_columns_nullable timestamps present_values (nm_null_count nulls)\<rparr>)"

text \<open>The loop over the chunks, \<open>base\<close> the rows of the pages before.\<close>

fun seal_pages :: "(nat \<Rightarrow> i64 list \<Rightarrow> 'v list \<Rightarrow> 'e + 'p) \<Rightarrow> nat \<Rightarrow> (i64 list \<times> 'v list) list \<Rightarrow> 'e + 'p list" where
  "seal_pages page base [] = Inr []"
| "seal_pages page base ((ts_chunk, vs_chunk) # rest) =
    (case page base ts_chunk vs_chunk of
       Inl e \<Rightarrow> Inl e
     | Inr p \<Rightarrow> (case seal_pages page (base + length ts_chunk) rest of Inl e \<Rightarrow> Inl e | Inr ps \<Rightarrow> Inr (p # ps)))"

definition seal_paged :: "'d::ord decimal_ops \<Rightarrow> 'd aspect_schema \<Rightarrow> i64 list \<Rightarrow> 'd list \<Rightarrow> nat \<Rightarrow> 'd seal_error + 'd wpaged" where
  "seal_paged D schema timestamps values rows_per_page =
    (if length timestamps \<noteq> length values then Inl (SealLengthMismatch (length timestamps) (length values))
     else if rows_per_page = 0 then Inl SealEmptyPageSize
     else case seal_pages (seal_page D schema) 0 (zip (chunks rows_per_page timestamps) (chunks rows_per_page values)) of
       Inl e \<Rightarrow> Inl e
     | Inr pages \<Rightarrow> Inr \<lparr>ps_version = paged_segment_format_version, ps_rows_per_page = rows_per_page, ps_pages = pages,
                         ps_stats = from_columns timestamps values\<rparr>)"

definition seal_paged_sorted :: "'d::ord decimal_ops \<Rightarrow> 'd aspect_schema \<Rightarrow> i64 list \<Rightarrow> 'd list \<Rightarrow> nat \<Rightarrow> 'd seal_error + 'd wpaged" where
  "seal_paged_sorted D schema timestamps values rows_per_page =
    (if length timestamps \<noteq> length values then Inl (SealLengthMismatch (length timestamps) (length values))
     else if rows_per_page = 0 then Inl SealEmptyPageSize
     else case first_order_violation timestamps of
       Some (index, previous, current) \<Rightarrow> Inl (SealOutOfOrder index previous current)
     | None \<Rightarrow> seal_paged D schema timestamps values rows_per_page)"

definition seal_paged_nullable :: "'d::ord decimal_ops \<Rightarrow> 'd aspect_schema \<Rightarrow> i64 list \<Rightarrow> 'd option list \<Rightarrow> nat \<Rightarrow> 'd seal_error + 'd wpaged" where
  "seal_paged_nullable D schema timestamps values rows_per_page =
    (if length timestamps \<noteq> length values then Inl (SealLengthMismatch (length timestamps) (length values))
     else if rows_per_page = 0 then Inl SealEmptyPageSize
     else case seal_pages (seal_page_nullable D schema) 0 (zip (chunks rows_per_page timestamps) (chunks rows_per_page values)) of
       Inl e \<Rightarrow> Inl e
     | Inr pages \<Rightarrow>
         (let present_values = flatten_present values; null_count = length (filter (\<lambda>v. v = None) values)
          in Inr \<lparr>ps_version = paged_segment_format_version, ps_rows_per_page = rows_per_page, ps_pages = pages,
                  ps_stats = from_columns_nullable timestamps present_values null_count\<rparr>))"

subsection \<open>Widening\<close>

lemma encodes_exactly_value:
  assumes "decimal_laws D val" "encodes_exactly D pt v"
  obtains en where "encode D pt v = Inr en" "val (to_logical D (en_value en)) = val v"
proof (cases "encode D pt v")
  case (Inr en)
  with assms(2) have "en_exactness en = Exact" by (cases "en_exactness en") simp_all
  then show thesis using encode_error_exact(2) [OF assms(1) Inr] Inr by (intro that) auto
qed (use assms(2) in simp)

lemma text_encodes_exactly: "encodes_exactly D BigDecimalText v \<longleftrightarrow> plain_digit_count D v \<le> max_plain_digits"
  by (auto simp: encode_def encode_in_def check_decimal_domain_def Let_def)

lemma widened_encodes_exactly:
  assumes "\<forall>v\<in>set vs. plain_digit_count D v \<le> max_plain_digits"
  shows "list_all (encodes_exactly D (widen_value_encoding D current vs)) vs"
  using assms by (auto simp: widen_value_encoding_def list_all_iff text_encodes_exactly simp del: encodes_exactly.simps)

lemma widening_idempotent:
  "widen_value_encoding D (widen_value_encoding D current vs) vs = widen_value_encoding D current vs"
  by (simp add: widen_value_encoding_def)

lemma widening_changes: "widen_value_encoding D current vs \<noteq> current \<Longrightarrow> is_value_widening current (widen_value_encoding D current vs)"
  by (auto simp: widen_value_encoding_def is_value_widening_def split: if_splits)

subsection \<open>A sealed segment is a built one\<close>

text \<open>The builders take the encoder as a parameter; sealing uses the declared one.\<close>

definition declared_encoder :: "'d::ord decimal_ops \<Rightarrow> 'd aspect_schema \<Rightarrow> 'd list \<Rightarrow> 'd column_encoding" where
  "declared_encoder D schema values = projr (encode_column D (as_value schema) values)"

definition declared_fits :: "'d::ord decimal_ops \<Rightarrow> 'd aspect_schema \<Rightarrow> 'd list \<Rightarrow> bool" where
  "declared_fits D schema values \<longleftrightarrow> (\<exists>col. encode_column D (as_value schema) values = Inr col \<and>
    \<not> as_value_tolerance schema < ce_max_abs_error col)"

definition within_tolerance :: "('d \<Rightarrow> rat) \<Rightarrow> 'd \<Rightarrow> 'd \<Rightarrow> 'd \<Rightarrow> bool" where
  "within_tolerance val tol x y \<longleftrightarrow> \<bar>val x - val y\<bar> \<le> val tol"

lemma seal_nullable_Inr:
  "seal_nullable D schema ts vs = Inr seg \<longleftrightarrow> declared_fits D schema (flatten_present vs) \<and>
    build_nullable (declared_encoder D schema) ts vs (as_timestamp_unit schema) = Inr seg"
  by (auto simp: seal_nullable_def build_nullable_def declared_fits_def declared_encoder_def Let_def simp del: not_None_eq
      split: sum.splits if_splits)

lemma seal_page_nullable_Inr:
  "seal_page_nullable D schema base ts vs = Inr p \<longleftrightarrow> declared_fits D schema (flatten_present vs) \<and>
    p = page_build_nullable (declared_encoder D schema) ts vs (as_timestamp_unit schema)"
  by (auto simp: seal_page_nullable_def page_build_nullable_def declared_fits_def declared_encoder_def Let_def simp del: not_None_eq
      split: sum.splits if_splits)

lemma seal_pages_Inr:
  assumes "\<And>base ts vs p. page base ts vs = Inr p \<longleftrightarrow> fits vs \<and> p = mk ts vs"
  shows "seal_pages page base cs = Inr ps \<longleftrightarrow> (\<forall>c\<in>set cs. fits (snd c)) \<and> ps = map (\<lambda>(ts, vs). mk ts vs) cs"
proof (induction cs arbitrary: base ps)
  case (Cons c cs)
  obtain ts vs where c: "c = (ts, vs)" by (cases c)
  show ?case
  proof (cases "page base ts vs")
    case (Inl e)
    then have "\<not> fits vs" using assms [of base ts vs] by auto
    then show ?thesis using Inl c by simp
  next
    case (Inr p)
    then have p: "fits vs" "p = mk ts vs" using assms [of base ts vs] by auto
    show ?thesis
    proof (cases "seal_pages page (base + length ts) cs")
      case rest: (Inl e)
      then have "\<not> (\<forall>c\<in>set cs. fits (snd c))" using Cons.IH [of "base + length ts" "map (\<lambda>(ts, vs). mk ts vs) cs"] by simp
      then show ?thesis using Inr rest c by auto
    next
      case rest: (Inr qs)
      then have "\<forall>c\<in>set cs. fits (snd c)" "qs = map (\<lambda>(ts, vs). mk ts vs) cs" using Cons.IH [of "base + length ts" qs] by simp_all
      then show ?thesis using Inr rest c p by auto
    qed
  qed
qed auto

lemma seal_paged_nullable_Inr:
  "seal_paged_nullable D schema ts vs n = Inr s \<longleftrightarrow> (\<forall>vc\<in>set (chunks n vs). declared_fits D schema (flatten_present vc)) \<and>
    paged_build_nullable (declared_encoder D schema) ts vs (as_timestamp_unit schema) n = Inr s"
proof (cases "length ts = length vs \<and> 0 < n")
  case True
  let ?cs = "zip (chunks n ts) (chunks n vs)"
  have len: "length (chunks n ts) = length (chunks n vs)" using chunks_related True by (metis list_all2_lengthD)
  note pages = seal_pages_Inr [where page = "seal_page_nullable D schema" and fits = "\<lambda>vs. declared_fits D schema (flatten_present vs)"
      and mk = "\<lambda>ts vs. page_build_nullable (declared_encoder D schema) ts vs (as_timestamp_unit schema)",
      OF seal_page_nullable_Inr, of 0 ?cs]
  have all: "(\<forall>c\<in>set ?cs. declared_fits D schema (flatten_present (snd c))) \<longleftrightarrow> (\<forall>vc\<in>set (chunks n vs). declared_fits D schema (flatten_present vc))"
  proof -
    have "set (chunks n vs) = snd ` set ?cs" using arg_cong [OF map_snd_zip [OF len], of set] by simp
    then show ?thesis by simp
  qed
  show ?thesis
  proof (cases "seal_pages (seal_page_nullable D schema) 0 ?cs")
    case (Inl e)
    then show ?thesis using True pages [of "map (\<lambda>(ts, vs). page_build_nullable (declared_encoder D schema) ts vs (as_timestamp_unit schema)) ?cs"] all
      by (simp add: seal_paged_nullable_def)
  next
    case (Inr ps)
    then show ?thesis using True pages [of ps] all by (simp add: seal_paged_nullable_def paged_build_nullable_def Let_def)
  qed
qed (auto simp: seal_paged_nullable_def paged_build_nullable_def)

subsection \<open>The values stay within the declared tolerance\<close>

lemma encoded_within:
  assumes "decimal_laws D val" "encode_column D pt vs = Inr col" "\<not> tol < ce_max_abs_error col"
  shows "list_all2 (within_tolerance val tol) vs (decode_column D col)"
proof -
  note ok = encode_column_ok [OF assms(1,2)]
  have tol: "val (ce_max_abs_error col) \<le> val tol" using assms(3) decimal_lawsD(10) [OF assms(1)] by (simp add: not_less)
  have "within_tolerance val tol (vs ! i) (decode_column D col ! i)" if i: "i < length vs" for i
  proof -
    have "(vs ! i, ce_values col ! i) \<in> set (zip vs (ce_values col))" using i ok(2) by (auto simp: set_zip)
    then have "stored_error D val (vs ! i, ce_values col ! i) \<le> val (ce_max_abs_error col)"
      unfolding ok(6) by (intro Max_ge) auto
    then show ?thesis using tol i ok(2) by (simp add: within_tolerance_def stored_error_def decode_column_def)
  qed
  then show ?thesis using ok(2) by (simp add: list_all2_conv_all_nth decode_column_def)
qed

lemma declared_within:
  assumes "decimal_laws D val" "declared_fits D schema vs"
  shows "list_all2 (within_tolerance val (as_value_tolerance schema)) vs (decode_column D (declared_encoder D schema vs))"
  using encoded_within [OF assms(1)] assms(2) by (auto simp: declared_fits_def declared_encoder_def)

subsection \<open>Refusals name the row\<close>

text \<open>The rows of a nullable column that hold a value, counted from \<open>n\<close>.\<close>

definition present_rows :: "nat \<Rightarrow> 'v option list \<Rightarrow> nat list" where
  "present_rows n vs = map fst (filter (\<lambda>(row, p). p) (enumerate n (map (\<lambda>v. v \<noteq> None) vs)))"

lemma present_rows_simps [simp]:
  "present_rows n [] = []" "present_rows n (None # vs) = present_rows (Suc n) vs"
  "present_rows n (Some v # vs) = n # present_rows (Suc n) vs"
  by (simp_all add: present_rows_def)

lemma present_rows_values:
  "map (\<lambda>row. vs ! (row - n)) (present_rows n vs) = map Some (flatten_present vs) \<and>
    (\<forall>row\<in>set (present_rows n vs). n \<le> row \<and> row < n + length vs) \<and> sorted_wrt (<) (present_rows n vs) \<and>
    (\<forall>j<length vs. vs ! j \<noteq> None \<longrightarrow> n + j \<in> set (present_rows n vs))"
proof (induction vs arbitrary: n)
  case (Cons v vs)
  note IH = Cons [of "Suc n"]
  have shift: "map (\<lambda>row. (v # vs) ! (row - n)) (present_rows (Suc n) vs) = map (\<lambda>row. vs ! (row - Suc n)) (present_rows (Suc n) vs)"
    using IH by (intro map_cong refl) (auto simp: nth_Cons')
  have later: "n + j \<in> set (present_rows n (v # vs))" if "j < Suc (length vs)" "(v # vs) ! j \<noteq> None" for j
    using IH that by (cases j; cases v) auto
  show ?case using IH shift later by (cases v) (auto simp: Suc_le_eq)
qed simp

lemma length_present_rows: "length (present_rows n vs) = length (flatten_present vs)"
  using arg_cong [OF conjunct1 [OF present_rows_values [of vs n]], of length] by simp

lemma remap_present_index_row:
  assumes "cee_index e < length (flatten_present vs)"
  obtains row where "remap_present_index e (map (\<lambda>v. v \<noteq> None) vs) = \<lparr>cee_index = row, cee_source = cee_source e\<rparr>"
    "row < length vs" "vs ! row = Some (flatten_present vs ! cee_index e)"
    "\<And>j w. j < row \<Longrightarrow> vs ! j = Some w \<Longrightarrow> \<exists>k<cee_index e. flatten_present vs ! k = w"
proof -
  let ?rows = "present_rows 0 vs" and ?k = "cee_index e"
  note facts = present_rows_values [of vs 0, simplified]
  have k: "?k < length ?rows" using assms by (simp add: length_present_rows)
  have nth: "vs ! (?rows ! i) = Some (flatten_present vs ! i)" if "i < length ?rows" for i
    using arg_cong [OF conjunct1 [OF facts], of "\<lambda>l. l ! i"] that length_present_rows [of 0 vs] by simp
  have "remap_present_index e (map (\<lambda>v. v \<noteq> None) vs) = \<lparr>cee_index = ?rows ! ?k, cee_source = cee_source e\<rparr>"
    using k by (simp add: remap_present_index_def present_rows_def Let_def del: not_None_eq)
  moreover have "?rows ! ?k < length vs" using facts k nth_mem by blast
  moreover have "\<exists>i<?k. flatten_present vs ! i = w" if j: "j < ?rows ! ?k" "vs ! j = Some w" for j w
  proof -
    have "j \<in> set ?rows" using facts j k nth_mem [OF k] by (metis option.distinct(1) order.strict_trans)
    then obtain i where i: "i < length ?rows" "?rows ! i = j" by (auto simp: in_set_conv_nth)
    have "i < ?k"
    proof (rule ccontr)
      assume "\<not> i < ?k"
      then have "?rows ! ?k \<le> ?rows ! i"
        using facts i(1) by (cases "i = ?k") (auto simp: sorted_wrt_iff_nth_less not_less intro: less_imp_le)
      then show False using i j by simp
    qed
    then show ?thesis using nth [OF i(1)] i(2) j(2) by auto
  qed
  ultimately show thesis using that nth [OF k] by blast
qed

text \<open>The reported row of a column: its value cannot be encoded, and every value before it can.\<close>

definition refused_at :: "'d::ord decimal_ops \<Rightarrow> physical_type \<Rightarrow> 'd option list \<Rightarrow> column_encode_error \<Rightarrow> nat \<Rightarrow> bool" where
  "refused_at D pt vs e row \<longleftrightarrow> row < length vs \<and> (\<exists>v. vs ! row = Some v \<and> encode D pt v = Inl (cee_source e)) \<and>
    (\<forall>j<row. \<forall>w. vs ! j = Some w \<longrightarrow> \<not> isl (encode D pt w))"

lemma remapped_refusal:
  assumes "encode_column D pt (flatten_present vs) = Inl e"
  shows "refused_at D pt vs (remap_present_index e (map (\<lambda>v. v \<noteq> None) vs))
    (cee_index (remap_present_index e (map (\<lambda>v. v \<noteq> None) vs)))"
proof -
  have k: "cee_index e < length (flatten_present vs)" and bad: "encode D pt (flatten_present vs ! cee_index e) = Inl (cee_source e)"
    and good: "\<forall>j<cee_index e. \<not> isl (encode D pt (flatten_present vs ! j))"
    using assms [unfolded encode_column_error] by (auto simp: isl_def)
  obtain row where row: "remap_present_index e (map (\<lambda>v. v \<noteq> None) vs) = \<lparr>cee_index = row, cee_source = cee_source e\<rparr>"
    "row < length vs" "vs ! row = Some (flatten_present vs ! cee_index e)"
    "\<And>j w. j < row \<Longrightarrow> vs ! j = Some w \<Longrightarrow> \<exists>k<cee_index e. flatten_present vs ! k = w"
    using remap_present_index_row [OF k] by blast
  have "\<not> isl (encode D pt w)" if "j < row" "vs ! j = Some w" for j w using row(4) [OF that] good by auto
  then show ?thesis using row(2,3) bad unfolding row(1) refused_at_def by simp
qed

lemma seal_nullable_refused:
  assumes "seal_nullable D schema ts vs = Inl (SealEncode e)"
  shows "refused_at D (as_value schema) vs e (cee_index e)"
  using assms remapped_refusal [of D "as_value schema" vs]
  by (auto simp: seal_nullable_def Let_def simp del: not_None_eq split: sum.splits if_splits)

lemma page_present_ok:
  assumes "declared_fits D schema (flatten_present vs)" "j < length vs" "vs ! j = Some w"
  shows "\<not> isl (encode D (as_value schema) w)"
proof -
  have "w \<in> set (flatten_present vs)"
    using assms(2,3) by (induction vs arbitrary: j rule: flatten_present.induct) (auto simp: nth_Cons split: nat.splits)
  moreover have "\<not> isl (encode_column D (as_value schema) (flatten_present vs))" using assms(1) by (auto simp: declared_fits_def)
  ultimately show ?thesis by (auto simp: encode_column_isl)
qed

lemma seal_pages_refused:
  "seal_pages (seal_page_nullable D schema) base cs = Inl (SealEncode e) \<Longrightarrow> \<forall>c\<in>set cs. length (fst c) = length (snd c) \<Longrightarrow>
    \<exists>row. cee_index e = base + row \<and> refused_at D (as_value schema) (concat (map snd cs)) e row"
proof (induction cs arbitrary: base)
  case (Cons c cs)
  obtain ts vs where c: "c = (ts, vs)" by (cases c)
  have len: "length ts = length vs" using Cons.prems(2) c by simp
  show ?case
  proof (cases "seal_page_nullable D schema base ts vs")
    case (Inl e')
    then have e': "e' = SealEncode e" using Cons.prems(1) c by simp
    let ?r = "\<lambda>e. remap_present_index e (map (\<lambda>v. v \<noteq> None) vs)"
    obtain e0 where e0: "encode_column D (as_value schema) (flatten_present vs) = Inl e0"
      "e = \<lparr>cee_index = base + cee_index (?r e0), cee_source = cee_source (?r e0)\<rparr>"
      using Inl unfolding e' by (auto simp: seal_page_nullable_def Let_def simp del: not_None_eq split: sum.splits if_splits)
    note r = remapped_refusal [OF e0(1)]
    then have "refused_at D (as_value schema) (vs @ concat (map snd cs)) e (cee_index (?r e0))"
      by (auto simp: refused_at_def e0(2) nth_append simp del: not_None_eq)
    then show ?thesis using c e0(2) by (intro exI [of _ "cee_index (?r e0)"]) simp
  next
    case (Inr p)
    then have "seal_pages (seal_page_nullable D schema) (base + length ts) cs = Inl (SealEncode e)"
      using Cons.prems(1) c by (simp split: sum.splits)
    then obtain row where row: "cee_index e = base + length ts + row" "refused_at D (as_value schema) (concat (map snd cs)) e row"
      using Cons.IH [of "base + length ts"] Cons.prems(2) by auto
    have fits: "declared_fits D schema (flatten_present vs)" using Inr by (simp add: seal_page_nullable_Inr)
    have "refused_at D (as_value schema) (vs @ concat (map snd cs)) e (length vs + row)"
      unfolding refused_at_def
    proof (intro conjI allI impI)
      show "length vs + row < length (vs @ concat (map snd cs))" using row(2) by (simp add: refused_at_def)
      show "\<exists>v. (vs @ concat (map snd cs)) ! (length vs + row) = Some v \<and> encode D (as_value schema) v = Inl (cee_source e)"
        using row(2) by (simp add: refused_at_def nth_append)
      show "\<not> isl (encode D (as_value schema) w)" if "j < length vs + row" "(vs @ concat (map snd cs)) ! j = Some w" for j w
      proof (cases "j < length vs")
        case True
        then show ?thesis using page_present_ok [OF fits True] that(2) by (simp add: nth_append)
      next
        case False
        then have "j - length vs < row" "concat (map snd cs) ! (j - length vs) = Some w" using that by (simp_all add: nth_append)
        then show ?thesis using row(2) by (auto simp: refused_at_def)
      qed
    qed
    then show ?thesis using row(1) c len by (intro exI [of _ "length vs + row"]) simp
  qed
qed simp

lemma seal_paged_nullable_refused:
  assumes "seal_paged_nullable D schema ts vs n = Inl (SealEncode e)"
  shows "refused_at D (as_value schema) vs e (cee_index e)"
proof -
  let ?cs = "zip (chunks n ts) (chunks n vs)"
  have l: "length ts = length vs" and n: "0 < n" and p: "seal_pages (seal_page_nullable D schema) 0 ?cs = Inl (SealEncode e)"
    using assms by (auto simp: seal_paged_nullable_def Let_def split: if_splits sum.splits)
  have rel: "list_all2 (\<lambda>a b. length a = length b) (chunks n ts) (chunks n vs)" by (rule chunks_related [OF n l])
  then have "\<forall>c\<in>set ?cs. length (fst c) = length (snd c)" by (auto simp: list_all2_iff)
  moreover have "concat (map snd ?cs) = vs" using rel concat_chunks [OF n] by (simp add: list_all2_lengthD)
  ultimately show ?thesis using seal_pages_refused [OF p] by auto
qed

subsection \<open>A dense column is a nullable one without nulls\<close>

lemma flatten_present_Some [simp]: "flatten_present (map Some vs) = vs"
  by (induction vs) simp_all

lemma present_rows_Some: "present_rows n (map Some vs) = [n..<n + length vs]"
  by (induction vs arbitrary: n) (simp_all add: upt_rec)

lemma presence_Some: "map (\<lambda>v. v \<noteq> None) (map Some vs) = replicate (length vs) True"
  by (induction vs) simp_all

lemma from_presence_Some: "from_presence (map (\<lambda>v. v \<noteq> None) (map Some vs)) = all_present (length vs)"
  by (simp add: presence_Some from_presence_def Let_def del: map_map)

lemma remap_Some:
  assumes "encode_column D pt vs = Inl e"
  shows "remap_present_index e (map (\<lambda>v. v \<noteq> None) (map Some vs)) = e"
proof -
  have "cee_index e < length vs" using assms [unfolded encode_column_error] by auto
  then show ?thesis
    using present_rows_Some [of 0 vs] by (simp add: remap_present_index_def present_rows_def Let_def del: not_None_eq map_map)
qed

lemma from_columns_Some: "from_columns_nullable ts vs (nm_null_count (all_present n)) = from_columns ts vs"
  by (simp add: from_columns_def all_present_def)

lemma seal_dense: "seal D schema ts vs = seal_nullable D schema ts (map Some vs)"
  by (cases "encode_column D (as_value schema) vs")
    (simp_all add: seal_def seal_nullable_def Let_def from_presence_Some remap_Some from_columns_Some del: not_None_eq map_map)

lemma seal_page_dense: "seal_page D schema base ts vs = seal_page_nullable D schema base ts (map Some vs)"
  by (cases "encode_column D (as_value schema) vs")
    (simp_all add: seal_page_def seal_page_nullable_def Let_def from_presence_Some remap_Some from_columns_Some del: not_None_eq map_map)

lemma chunks_map: "chunks n (map f xs) = map (map f) (chunks n xs)"
proof (induction n xs rule: chunks.induct)
  case (1 n xs)
  then show ?case by (subst (1 2) chunks.simps) (simp add: take_map drop_map)
qed

lemma seal_pages_dense:
  assumes "\<And>base ts vs. page base ts vs = page' base ts (map Some vs)"
  shows "seal_pages page base (zip tcs vcs) = seal_pages page' base (zip tcs (map (map Some) vcs))"
proof (induction tcs arbitrary: vcs base)
  case (Cons tc tcs)
  then show ?case by (cases vcs) (simp_all add: assms del: map_map split: sum.split)
qed simp

lemma seal_paged_dense: "seal_paged D schema ts vs n = seal_paged_nullable D schema ts (map Some vs) n"
proof -
  have nulls: "length (filter (\<lambda>v. v = None) (map Some vs)) = 0" by (simp add: filter_empty_conv)
  have stats: "from_columns_nullable ts vs 0 = from_columns ts vs" by (simp add: from_columns_def)
  note pages = seal_pages_dense [where page = "seal_page D schema" and page' = "seal_page_nullable D schema", OF seal_page_dense]
  show ?thesis
    unfolding seal_paged_def seal_paged_nullable_def chunks_map Let_def nulls flatten_present_Some stats pages by simp
qed

subsection \<open>A sealed segment's frame reads back\<close>

lemma iter_domain:
  assumes "decimal_laws D val" "\<forall>v\<in>set vs. plain_digit_count D v \<le> max_plain_digits"
  shows "in_domain D (iter_min (<) vs)" "in_domain D (iter_max (<) vs)"
proof -
  note order = key_order.intro [where lt = "(<)" and key = val, OF decimal_lawsD(10) [OF assms(1)]]
  show "in_domain D (iter_min (<) vs)"
    using assms(2) key_order.iter_min_bound [OF order, of vs] by (auto simp: in_domain_def split: option.split)
  show "in_domain D (iter_max (<) vs)"
    using assms(2) key_order.iter_max_bound [OF order, of vs] by (auto simp: in_domain_def split: option.split)
qed

lemma implied_rows_encoded:
  "case implied_timestamp_rows (encode_delta_of_delta ts unit) of Some n \<Rightarrow> n = length ts | None \<Rightarrow> length ts \<le> 1"
  by (cases ts rule: windows2.cases) (simp_all add: implied_timestamp_rows_def encode_delta_of_delta_def Let_def)

lemma length_encoded_dods: "length (dd_dods (encode_delta_of_delta ts unit)) \<le> length ts"
  by (simp add: encode_delta_of_delta_def Let_def)

lemma present_and_nulls: "length (flatten_present vs) + length (filter (\<lambda>v. v = None) vs) = length vs"
  by (induction vs rule: flatten_present.induct) simp_all

lemma built_columns_ok:
  assumes laws: "decimal_laws D val" and enc: "encode_column D pt (flatten_present vs) = Inr col"
    and rows: "length ts = length vs" "length ts \<le> max_rows" and err: "plain_digit_count D (ce_max_abs_error col) \<le> max_plain_digits"
  shows "columns_ok D (from_columns_nullable ts (flatten_present vs) (nm_null_count (from_presence (map (\<lambda>v. v \<noteq> None) vs))))
    col (encode_delta_of_delta ts unit) (from_presence (map (\<lambda>v. v \<noteq> None) vs))"
proof -
  let ?nulls = "from_presence (map (\<lambda>v. v \<noteq> None) vs)" and ?pv = "flatten_present vs"
  note ok = encode_column_ok [OF laws enc]
  have nulls: "nm_null_count ?nulls + length ?pv = length vs"
    using present_and_nulls [of vs] by (simp add: mask_null_count filter_map comp_def)
  have dom: "\<forall>v\<in>set ?pv. plain_digit_count D v \<le> max_plain_digits"
  proof (rule ccontr)
    assume "\<not> ?thesis"
    then have "isl (encode_column D pt ?pv)" unfolding encode_column_isl using encode_out_of_domain [of D] by (auto simp: not_le)
    then show False by (simp add: enc)
  qed
  have "stats_ok D (from_columns_nullable ts ?pv (nm_null_count ?nulls))"
    using iter_domain [OF laws dom] rows nulls by (simp add: stats_ok_def stats_fields)
  moreover have "column_ok D col" using ok rows err nulls by (simp add: column_ok_def)
  moreover have "check_segment_columns (from_columns_nullable ts ?pv (nm_null_count ?nulls)) col (encode_delta_of_delta ts unit) = Inr ()"
  proof -
    have "length (ce_values col) = length ts - nm_null_count ?nulls" using ok(2) rows(1) nulls by linarith
    then show ?thesis
      using implied_rows_encoded [of ts unit]
      by (cases "implied_timestamp_rows (encode_delta_of_delta ts unit)") (simp_all add: check_segment_columns_def stats_fields)
  qed
  moreover have "length (dd_dods (encode_delta_of_delta ts unit)) \<le> max_rows"
    using length_encoded_dods [of ts unit] rows(2) by (rule order_trans)
  moreover have "nm_row_count ?nulls = length ts" using rows by (auto simp: from_presence_def all_present_def Let_def)
  ultimately show ?thesis by (simp add: columns_ok_def null_mask_ok_from_presence stats_fields)
qed

lemma built_seg_ok:
  assumes "decimal_laws D val" "build_nullable enc ts vs unit = Inr seg" "encode_column D pt (flatten_present vs) = Inr (sg_values seg)"
    "length ts \<le> max_rows" "plain_digit_count D (ce_max_abs_error (sg_values seg)) \<le> max_plain_digits"
  shows "seg_ok D seg"
proof -
  note f = build_nullable_fields [OF assms(2)]
  have "sg_version seg = segment_format_version"
    using assms(2) by (auto simp: build_nullable_def Let_def simp del: not_None_eq split: if_splits)
  then show ?thesis
    using built_columns_ok [OF assms(1,3) f(1) assms(4,5), of unit] unfolding seg_ok_def f(3,5) f(4) by simp
qed

lemma same_segment_decode:
  "same_segment val seg seg' \<Longrightarrow> decode_nullable (decode_column D) seg' = decode_nullable (decode_column D) seg"
  by (simp add: same_segment_def same_column_def same_stats_def decode_nullable_def decode_timestamps_def decode_column_def)

lemma sealed_frame:
  assumes laws: "decimal_laws D val" and seal: "seal_nullable D schema ts vs = Inr seg"
    and rows: "length ts \<le> max_rows" and err: "plain_digit_count D (ce_max_abs_error (sg_values seg)) \<le> max_plain_digits"
    and opts: "options_ok opts"
  shows "\<exists>seg' ws. read_segment D bitsliced (write_segment_with D bitsliced seg opts) = Inr seg' \<and>
    decode_nullable (decode_column D) seg' = (ts, ws) \<and>
    list_all2 (rel_option (within_tolerance val (as_value_tolerance schema))) vs ws"
proof -
  have fits: "declared_fits D schema (flatten_present vs)"
    and built: "build_nullable (declared_encoder D schema) ts vs (as_timestamp_unit schema) = Inr seg"
    using seal by (simp_all add: seal_nullable_Inr)
  have "encode_column D (as_value schema) (flatten_present vs) = Inr (sg_values seg)"
    using fits build_nullable_fields(2) [OF built] by (auto simp: declared_fits_def declared_encoder_def)
  then have "seg_ok D seg" using built_seg_ok [OF laws built] rows err by blast
  then obtain seg' where seg': "read_segment D bitsliced (write_segment_with D bitsliced seg opts) = Inr seg'" "same_segment val seg seg'"
    using segment_round_trip [OF laws _ opts] by metis
  obtain ws where "decode_nullable (decode_column D) seg = (ts, ws)"
    "list_all2 (rel_option (within_tolerance val (as_value_tolerance schema))) vs ws"
    using decode_nullable_related [where dec = "decode_column D" and R = "within_tolerance val (as_value_tolerance schema)",
      OF built declared_within [OF laws fits]] by blast
  then show ?thesis using seg' same_segment_decode [OF seg'(2)] by metis
qed

text \<open>An exact column reports the zero error, which has a plain form.\<close>

lemma exact_column_zero:
  assumes "decimal_laws D val" "encode_column D pt vs = Inr col" "val (ce_max_abs_error col) = 0"
  shows "ce_max_abs_error col = d_zero D"
proof -
  have loop: "encode_column_loop D pt i vs out n e = Inr col \<Longrightarrow> 0 \<le> val e \<Longrightarrow> val (ce_max_abs_error col) \<le> val e \<Longrightarrow>
      ce_max_abs_error col = e" for i out n e
  proof (induction vs arbitrary: i out n e)
    case (Cons v vs)
    obtain en where en: "encode D pt v = Inr en" using Cons.prems by (cases "encode D pt v") auto
    show ?case
    proof (cases "en_exactness en")
      case Exact
      then show ?thesis using Cons en by simp
    next
      case (Lossy x)
      let ?e = "if e < x then x else e"
      have next_: "encode_column_loop D pt (Suc i) vs (out @ [en_value en]) (n + 1) ?e = Inr col" using Cons.prems en Lossy by simp
      have "val ?e \<le> val (ce_max_abs_error col)"
        using encode_column_loop_spec [OF assms(1) next_] Cons.prems(2) decimal_lawsD(10) [OF assms(1), of e x] by (auto intro: Max_ge)
      then have "?e = e" using Cons.prems(3) decimal_lawsD(10) [OF assms(1), of e x] by (auto split: if_splits)
      then show ?thesis using Cons.IH [OF next_] Cons.prems by simp
    qed
  qed auto
  show ?thesis using loop [OF assms(2) [unfolded encode_column_def]] assms(3) val_zero [OF assms(1)] by simp
qed

lemma plain_digit_count_zero: "decimal_laws D val \<Longrightarrow> plain_digit_count D (d_zero D) \<le> max_plain_digits"
  by (simp add: plain_digit_count_def d_zero_def decimal_lawsD(1) max_plain_digits_def) (subst dec_digits.simps, simp)

text \<open>The advisory builders at tolerance zero keep every value, through the file.\<close>

lemma lossless_frame:
  assumes laws: "decimal_laws D val" and dom: "\<forall>v\<in>set (flatten_present vs). plain_digit_count D v \<le> max_plain_digits"
    and rows: "length ts = length vs" "length ts \<le> max_rows" and opts: "options_ok opts"
  shows "\<exists>seg seg' ws. build_nullable (\<lambda>vs. recommend_encoding D vs (d_zero D)) ts vs unit = Inr seg \<and>
    read_segment D bitsliced (write_segment_with D bitsliced seg opts) = Inr seg' \<and>
    decode_nullable (decode_column D) seg' = (ts, ws) \<and> map (map_option val) ws = map (map_option val) vs"
proof -
  let ?enc = "\<lambda>vs. recommend_encoding D vs (d_zero D)" and ?pv = "flatten_present vs"
  have z: "val (d_zero D) = 0" by (rule val_zero [OF laws])
  obtain pt where pt: "encode_column D pt ?pv = Inr (?enc ?pv)" "ce_max_abs_error (?enc ?pv) \<le> d_zero D"
    using recommend_encoding_within [OF laws, of "d_zero D" ?pv] z dom by auto
  obtain seg where built: "build_nullable ?enc ts vs unit = Inr seg"
    using rows by (simp add: build_nullable_def Let_def)
  note f = build_nullable_fields [OF built]
  have "0 \<le> val (ce_max_abs_error (?enc ?pv))" using encode_column_ok(6) [OF laws pt(1)] by (auto intro: Max_ge)
  then have "val (ce_max_abs_error (?enc ?pv)) = 0" using pt(2) z decimal_lawsD(11) [OF laws] by simp
  then have "ce_max_abs_error (sg_values seg) = d_zero D" unfolding f(2) by (rule exact_column_zero [OF laws pt(1)])
  then have "seg_ok D seg" using built_seg_ok [OF laws built pt(1) [folded f(2)] rows(2)] plain_digit_count_zero [OF laws] by simp
  then obtain seg' where seg': "read_segment D bitsliced (write_segment_with D bitsliced seg opts) = Inr seg'" "same_segment val seg seg'"
    using segment_round_trip [OF laws _ opts] by metis
  have "list_all2 (within_tolerance val (d_zero D)) ?pv (decode_column D (?enc ?pv))"
    using encoded_within [OF laws pt(1)] pt(2) decimal_lawsD(10,11) [OF laws] by (simp add: not_less)
  then obtain ws where ws: "decode_nullable (decode_column D) seg = (ts, ws)"
    "list_all2 (rel_option (within_tolerance val (d_zero D))) vs ws"
    using decode_nullable_related [where dec = "decode_column D" and R = "within_tolerance val (d_zero D)", OF built] by blast
  have "map (map_option val) ws = map (map_option val) vs"
    using ws(2) by (induction vs ws rule: list_all2_induct) (auto simp: within_tolerance_def z elim: option.rel_cases)
  then show ?thesis using built seg' same_segment_decode [OF seg'(2)] ws(1) by metis
qed

end
