(* ===== verification/Paged_Frame.thy ===== *)
theory Paged_Frame imports Sealing begin

text \<open>
  The frame of a paged segment in \<^verbatim>\<open>weft-physical-type/src/weftseg.rs\<close>: the page index with the statistics and
  the length of every block, the blocks, and the check that the segment-level counts are the sum of the
  pages'. A written paged segment reads back, and a sealed paged batch survives its file.
\<close>

subsection \<open>Writing\<close>

definition put_page_block :: "'d decimal_ops \<Rightarrow> bool \<Rightarrow> frame_options \<Rightarrow> 'd wpage \<Rightarrow> u8 list" where
  "put_page_block D bitsliced opts page =
    write_value_column_with D bitsliced (pg_values page) opts @
    write_timestamp_column_with (pg_timestamps page) opts @ write_null_column (pg_nulls page)"

definition put_page_entry :: "'d decimal_ops \<Rightarrow> 'd wpage \<times> u8 list \<Rightarrow> u8 list" where
  "put_page_entry D = (\<lambda>(page, block). write_segment_stats D (pg_stats page) @ put_usize (length block))"

definition write_paged_segment_inner :: "'d decimal_ops \<Rightarrow> bool \<Rightarrow> 'd wpaged \<Rightarrow> frame_options \<Rightarrow> u8 list" where
  "write_paged_segment_inner D bitsliced seg opts =
    (let page_blocks = map (put_page_block D bitsliced opts) (ps_pages seg);
         w = put_raw magic @ put_u16_le (ps_version seg) @ put_usize (ps_rows_per_page seg) @
             write_segment_stats D (ps_stats seg) @ put_usize (length (ps_pages seg)) @
             put_many (put_page_entry D) (zip (ps_pages seg) page_blocks) @ put_many put_raw page_blocks
     in w @ put_u32_le (crc32 w))"

definition write_paged_segment :: "'d decimal_ops \<Rightarrow> bool \<Rightarrow> 'd wpaged \<Rightarrow> u8 list" where
  "write_paged_segment D bitsliced seg = write_paged_segment_inner D bitsliced seg frame_options_default"

definition write_paged_segment_checkpointed :: "'d decimal_ops \<Rightarrow> bool \<Rightarrow> 'd wpaged \<Rightarrow> nat \<Rightarrow> u8 list" where
  "write_paged_segment_checkpointed D bitsliced seg stride =
    write_paged_segment_inner D bitsliced seg \<lparr>fo_checkpoint_stride = Some stride, fo_transposed_max_overhead = None\<rparr>"

definition write_paged_segment_with :: "'d decimal_ops \<Rightarrow> bool \<Rightarrow> 'd wpaged \<Rightarrow> frame_options \<Rightarrow> u8 list" where
  "write_paged_segment_with D bitsliced seg opts = write_paged_segment_inner D bitsliced seg opts"

subsection \<open>Reading\<close>

definition check_page_count :: "byte_reader \<Rightarrow> nat \<Rightarrow> weft_seg_error + unit" where
  "check_page_count r page_count =
    (case check_decode_limit ''page_count'' page_count max_pages of
       Inl e \<Rightarrow> Inl e
     | Inr _ \<Rightarrow> if remaining r div 8 < page_count
                then Inl (UnexpectedEof (min (page_count * 8) (2 ^ 64 - 1)) (remaining r)) else Inr ())"

definition read_page_entry :: "'d decimal_ops \<Rightarrow> byte_reader \<Rightarrow> weft_seg_error + ('d segment_stats \<times> nat) \<times> byte_reader" where
  "read_page_entry D r =
    rbind (read_segment_stats D r) (\<lambda>page_stats r. rbind (read_usize r) (\<lambda>block_len r. Inr ((page_stats, block_len), r)))"

definition read_page_index :: "'d decimal_ops \<Rightarrow> byte_reader \<Rightarrow> weft_seg_error + ('d segment_stats \<times> nat) list \<times> byte_reader" where
  "read_page_index D r =
    rbind (read_usize r) (\<lambda>page_count r.
      rcheck (check_page_count r page_count) (read_many (read_page_entry D) page_count r))"

definition read_page :: "'d decimal_ops \<Rightarrow> bool \<Rightarrow> 'd segment_stats \<Rightarrow> u8 list \<Rightarrow> weft_seg_error + 'd wpage" where
  "read_page D bitsliced page_stats block =
    rbind (read_columns D bitsliced page_stats (new_reader block)) (\<lambda>(values, timestamps, nulls) pr.
      Inr \<lparr>pg_values = values, pg_timestamps = timestamps, pg_nulls = nulls, pg_stats = page_stats\<rparr>)"

fun read_pages :: "'d decimal_ops \<Rightarrow> bool \<Rightarrow> ('d segment_stats \<times> nat) list \<Rightarrow> byte_reader \<Rightarrow> weft_seg_error + 'd wpage list \<times> byte_reader" where
  "read_pages D bitsliced [] r = Inr ([], r)"
| "read_pages D bitsliced ((page_stats, block_len) # index) r =
    rbind (read_take block_len r) (\<lambda>block r.
      case read_page D bitsliced page_stats block of
        Inl e \<Rightarrow> Inl e
      | Inr page \<Rightarrow> rbind (read_pages D bitsliced index r) (\<lambda>pages r. Inr (page # pages, r)))"

text \<open>\<open>try_fold(0, checked_add)\<close>.\<close>

definition checked_total :: "nat list \<Rightarrow> nat option" where
  "checked_total ns = foldl (\<lambda>total n. case total of None \<Rightarrow> None | Some t \<Rightarrow> if t + n < 2 ^ 64 then Some (t + n) else None) (Some 0) ns"

definition check_rollup :: "'d segment_stats \<Rightarrow> nat option \<Rightarrow> nat option \<Rightarrow> weft_seg_error + unit" where
  "check_rollup st rolled_rows rolled_nulls =
    (if rolled_rows = Some (st_row_count st) \<and> rolled_nulls = Some (st_null_count st) then Inr ()
     else case rolled_rows of
       Some rows \<Rightarrow>
         if rows \<noteq> st_row_count st then Inl (ColumnLengthMismatch ''page_rollup_row_count'' (st_row_count st) rows)
         else (case rolled_nulls of
             Some nulls \<Rightarrow> Inl (ColumnLengthMismatch ''page_rollup_null_count'' (st_null_count st) nulls)
           | None \<Rightarrow> Inl (DecodeLimit ''page_rollup_row_count'' (2 ^ 64 - 1) max_rows))
     | None \<Rightarrow>
         (case rolled_nulls of
             Some nulls \<Rightarrow> if nulls \<noteq> st_null_count st
               then Inl (ColumnLengthMismatch ''page_rollup_null_count'' (st_null_count st) nulls)
               else Inl (DecodeLimit ''page_rollup_row_count'' (2 ^ 64 - 1) max_rows)
           | None \<Rightarrow> Inl (DecodeLimit ''page_rollup_row_count'' (2 ^ 64 - 1) max_rows)))"

definition read_paged_segment :: "'d decimal_ops \<Rightarrow> bool \<Rightarrow> u8 list \<Rightarrow> weft_seg_error + 'd wpaged" where
  "read_paged_segment D bitsliced bytes =
    rbind (open_body paged_segment_format_version bytes) (\<lambda>body r.
    rbind (read_usize r) (\<lambda>rows_per_page r.
    rbind (read_segment_stats D r) (\<lambda>st r.
    rbind (read_page_index D r) (\<lambda>index r.
    rbind (read_pages D bitsliced index r) (\<lambda>pages r.
    rcheck (check_rollup st (checked_total (map (\<lambda>p. st_row_count (pg_stats p)) pages))
        (checked_total (map (\<lambda>p. st_null_count (pg_stats p)) pages)))
      (if \<not> reader_is_empty r then Inl (TrailingBytes (remaining r))
       else Inr \<lparr>ps_version = paged_segment_format_version, ps_rows_per_page = rows_per_page, ps_pages = pages, ps_stats = st\<rparr>))))))"

subsection \<open>The pages read back\<close>

definition page_ok :: "'d decimal_ops \<Rightarrow> 'd wpage \<Rightarrow> bool" where
  "page_ok D p \<longleftrightarrow> columns_ok D (pg_stats p) (pg_values p) (pg_timestamps p) (pg_nulls p)"

definition same_page :: "('d \<Rightarrow> rat) \<Rightarrow> 'd wpage \<Rightarrow> 'd wpage \<Rightarrow> bool" where
  "same_page val p p' \<longleftrightarrow> same_column val (pg_values p) (pg_values p') \<and> pg_timestamps p' = pg_timestamps p \<and>
    pg_nulls p' = pg_nulls p \<and> same_stats val (pg_stats p) (pg_stats p')"

definition paged_ok :: "'d decimal_ops \<Rightarrow> 'd wpaged \<Rightarrow> bool" where
  "paged_ok D seg \<longleftrightarrow> ps_version seg = paged_segment_format_version \<and> ps_rows_per_page seg < 2 ^ 64 \<and>
    stats_ok D (ps_stats seg) \<and> length (ps_pages seg) \<le> max_pages \<and> list_all (page_ok D) (ps_pages seg) \<and>
    sum_list (map (\<lambda>p. st_row_count (pg_stats p)) (ps_pages seg)) = st_row_count (ps_stats seg) \<and>
    sum_list (map (\<lambda>p. st_null_count (pg_stats p)) (ps_pages seg)) = st_null_count (ps_stats seg)"

definition same_paged :: "('d \<Rightarrow> rat) \<Rightarrow> 'd wpaged \<Rightarrow> 'd wpaged \<Rightarrow> bool" where
  "same_paged val seg seg' \<longleftrightarrow> ps_version seg' = ps_version seg \<and> ps_rows_per_page seg' = ps_rows_per_page seg \<and>
    list_all2 (same_page val) (ps_pages seg) (ps_pages seg') \<and> same_stats val (ps_stats seg) (ps_stats seg')"

lemma put_page_block_section:
  "put_page_block D bitsliced opts page =
    column_section D bitsliced (pg_values page) (pg_timestamps page) (pg_nulls page) opts"
  by (simp add: put_page_block_def column_section_def)

lemma page_entries:
  assumes laws: "decimal_laws D val" and ok: "\<forall>(p, b)\<in>set es. page_ok D p \<and> length b < 2 ^ 64"
  shows "\<exists>sts. list_all2 (\<lambda>e st. same_stats val (pg_stats (fst e)) st \<and> stats_ok D st) es sts \<and>
    (\<forall>pre s. read_many (read_page_entry D) (length es) (rd pre (put_many (put_page_entry D) es @ s)) =
      Inr (zip sts (map (\<lambda>e. length (snd e)) es), rd (pre @ put_many (put_page_entry D) es) s))"
  using ok
proof (induction es)
  case Nil
  then show ?case by (simp add: put_many_def)
next
  case (Cons e es)
  obtain p b where e: "e = (p, b)" by (cases e)
  have st_ok: "stats_ok D (pg_stats p)" and b: "length b < 2 ^ 64" using Cons.prems by (auto simp: e page_ok_def columns_ok_def)
  obtain st where st: "same_stats val (pg_stats p) st" "stats_ok D st"
    "\<And>pre s. read_segment_stats D (rd pre (write_segment_stats D (pg_stats p) @ s)) =
      Inr (st, rd (pre @ write_segment_stats D (pg_stats p)) s)"
    by (rule stats_round_trip [OF laws st_ok], rule that, assumption+)
  obtain sts where sts: "list_all2 (\<lambda>e st. same_stats val (pg_stats (fst e)) st \<and> stats_ok D st) es sts"
    "\<And>pre s. read_many (read_page_entry D) (length es) (rd pre (put_many (put_page_entry D) es @ s)) =
      Inr (zip sts (map (\<lambda>e. length (snd e)) es), rd (pre @ put_many (put_page_entry D) es) s)"
    using Cons by auto
  have "put_many (put_page_entry D) (e # es) =
      write_segment_stats D (pg_stats p) @ put_usize (length b) @ put_many (put_page_entry D) es"
    by (simp add: put_many_def put_page_entry_def e)
  then have "read_many (read_page_entry D) (length (e # es)) (rd pre (put_many (put_page_entry D) (e # es) @ s)) =
      Inr (zip (st # sts) (map (\<lambda>e. length (snd e)) (e # es)), rd (pre @ put_many (put_page_entry D) (e # es)) s)" for pre s
    by (simp add: e read_page_entry_def st(3) usize.get_put [OF b] sts(2))
  then show ?case using st sts(1) e by (intro exI [of _ "st # sts"]) simp
qed

lemma page_columns_read:
  assumes laws: "decimal_laws D val" and ok: "page_ok D p" "same_stats val (pg_stats p) st" "stats_ok D st" "options_ok opts"
  obtains p' where "read_page D bitsliced st (put_page_block D bitsliced opts p) = Inr p'" "same_page val p p'" "page_ok D p'"
proof -
  have cols: "columns_ok D (pg_stats p) (pg_values p) (pg_timestamps p) (pg_nulls p)" using ok(1) by (simp add: page_ok_def)
  let ?block = "column_section D bitsliced (pg_values p) (pg_timestamps p) (pg_nulls p) opts"
  obtain vs where vs: "same_column val (pg_values p) vs" "column_ok D vs"
    "\<And>pre. read_columns D bitsliced st (rd pre ?block) = Inr ((vs, pg_timestamps p, pg_nulls p), rd (pre @ ?block) [])"
    by (rule columns_round_trip [OF laws cols ok(2,4)], rule that, assumption+)
  let ?p = "\<lparr>pg_values = vs, pg_timestamps = pg_timestamps p, pg_nulls = pg_nulls p, pg_stats = st\<rparr>"
  have "read_page D bitsliced st (put_page_block D bitsliced opts p) = Inr ?p"
    using vs(3) [of "[]"] by (simp add: read_page_def put_page_block_section new_reader_rd)
  moreover have "same_page val p ?p" using vs(1) ok(2) by (simp add: same_page_def)
  moreover have "page_ok D ?p"
    using cols ok(2,3) vs check_segment_columns_cong [OF ok(2) vs(1)] by (simp add: page_ok_def columns_ok_def same_stats_def)
  ultimately show thesis by (rule that)
qed

lemma pages_read:
  assumes laws: "decimal_laws D val" and opts: "options_ok opts"
  shows "\<forall>p\<in>set ps. page_ok D p \<Longrightarrow> list_all2 (\<lambda>p st. same_stats val (pg_stats p) st \<and> stats_ok D st) ps sts \<Longrightarrow>
    \<exists>ps'. list_all2 (same_page val) ps ps' \<and> list_all (page_ok D) ps' \<and>
      (\<forall>pre s. read_pages D bitsliced (zip sts (map (\<lambda>p. length (put_page_block D bitsliced opts p)) ps))
          (rd pre (put_many put_raw (map (put_page_block D bitsliced opts) ps) @ s)) =
        Inr (ps', rd (pre @ put_many put_raw (map (put_page_block D bitsliced opts) ps)) s))"
proof (induction ps arbitrary: sts)
  case Nil
  then show ?case by (simp add: put_many_def)
next
  case (Cons p ps)
  from Cons.prems(2) obtain st sts' where sts: "sts = st # sts'" "same_stats val (pg_stats p) st" "stats_ok D st"
    "list_all2 (\<lambda>p st. same_stats val (pg_stats p) st \<and> stats_ok D st) ps sts'" by (auto simp: list_all2_Cons1)
  have p: "page_ok D p" and ps: "\<forall>p\<in>set ps. page_ok D p" using Cons.prems(1) by simp_all
  obtain p' where p': "read_page D bitsliced st (put_page_block D bitsliced opts p) = Inr p'" "same_page val p p'" "page_ok D p'"
    using page_columns_read [OF laws p sts(2,3) opts] by metis
  obtain ps' where ps': "list_all2 (same_page val) ps ps'" "list_all (page_ok D) ps'"
    "\<And>pre s. read_pages D bitsliced (zip sts' (map (\<lambda>p. length (put_page_block D bitsliced opts p)) ps))
          (rd pre (put_many put_raw (map (put_page_block D bitsliced opts) ps) @ s)) =
        Inr (ps', rd (pre @ put_many put_raw (map (put_page_block D bitsliced opts) ps)) s)"
    using Cons.IH [OF ps sts(4)] by blast
  have put: "put_many put_raw (map (put_page_block D bitsliced opts) (p # ps)) =
      put_page_block D bitsliced opts p @ put_many put_raw (map (put_page_block D bitsliced opts) ps)"
    by (simp add: put_many_def put_raw_def)
  have "read_pages D bitsliced (zip sts (map (\<lambda>p. length (put_page_block D bitsliced opts p)) (p # ps)))
        (rd pre (put_many put_raw (map (put_page_block D bitsliced opts) (p # ps)) @ s)) =
      Inr (p' # ps', rd (pre @ put_many put_raw (map (put_page_block D bitsliced opts) (p # ps))) s)" for pre s
    unfolding put sts(1) by (simp add: read_take_rd p'(1) ps'(3))
  then show ?case using p'(2,3) ps'(1,2) by (intro exI [of _ "p' # ps'"]) simp
qed

lemma checked_total_sum:
  assumes "sum_list ns < 2 ^ 64"
  shows "checked_total ns = Some (sum_list ns)"
proof -
  have "foldl (\<lambda>total n. case total of None \<Rightarrow> None | Some t \<Rightarrow> if t + n < 2 ^ 64 then Some (t + n) else None) (Some a) ns =
      Some (a + sum_list ns)" if "a + sum_list ns < 2 ^ 64" for a
    using that by (induction ns arbitrary: a) (simp_all add: add.assoc)
  then show ?thesis using assms by (simp add: checked_total_def)
qed

lemma page_entry_length: "8 \<le> length (put_page_entry D e)"
proof -
  have n: "1 \<le> length (put_usize n)" for n by (rule put_usize_nonempty)
  have o: "1 \<le> length (put_opt_i64 x)" for x by (cases x) (simp_all add: put_opt_i64_def put_u8_def)
  have d: "1 \<le> length (put_opt_decimal D x)" for x by (cases x) (simp_all add: put_opt_decimal_def put_u8_def)
  obtain p b where e: "e = (p, b)" by (cases e)
  show ?thesis
    using n [of "st_row_count (pg_stats p)"] n [of "st_null_count (pg_stats p)"] n [of "length b"]
      o [of "st_min_ts (pg_stats p)"] o [of "st_max_ts (pg_stats p)"] d [of "st_min_value (pg_stats p)"] d [of "st_max_value (pg_stats p)"]
    by (simp add: e put_page_entry_def write_segment_stats_def put_u8_def)
qed

lemma page_entries_length: "8 * length es \<le> length (put_many (put_page_entry D) es)"
proof (induction es)
  case (Cons e es)
  then show ?case using page_entry_length [of D e] by (simp add: put_many_def)
qed simp

lemma page_count_fits:
  assumes "length es \<le> max_pages"
  shows "check_page_count (rd pre (put_many (put_page_entry D) es @ s)) (length es) = Inr ()"
proof -
  have "length es \<le> (length (put_many (put_page_entry D) es) + length s) div 8" using page_entries_length [of es D] by linarith
  then show ?thesis using assms by (simp add: check_page_count_def check_decode_limit_def)
qed

lemma length_le_concat: "x \<in> set xs \<Longrightarrow> length x \<le> length (concat xs)"
  by (induction xs) auto

lemma page_block_small:
  assumes "length (write_paged_segment_inner D bitsliced seg opts) < 2 ^ 64" "p \<in> set (ps_pages seg)"
  shows "length (put_page_block D bitsliced opts p) < 2 ^ 64"
proof -
  have "put_page_block D bitsliced opts p \<in> set (map (put_page_block D bitsliced opts) (ps_pages seg))" using assms(2) by simp
  from length_le_concat [OF this]
  have "length (put_page_block D bitsliced opts p) \<le> length (put_many put_raw (map (put_page_block D bitsliced opts) (ps_pages seg)))"
    by (simp add: put_many_def put_raw_def comp_def)
  also have "\<dots> \<le> length (write_paged_segment_inner D bitsliced seg opts)" by (simp add: write_paged_segment_inner_def Let_def)
  finally show ?thesis using assms(1) by simp
qed

text \<open>What stands before the blocks reads back: the statistics of the segment and the index of the pages.\<close>

lemma paged_index_read:
  assumes laws: "decimal_laws D val" and ok: "paged_ok D seg"
    and fits: "length (write_paged_segment_inner D bitsliced seg opts) < 2 ^ 64"
  obtains st' sts where "same_stats val (ps_stats seg) st'" "stats_ok D st'"
    "list_all2 (\<lambda>p st. same_stats val (pg_stats p) st \<and> stats_ok D st) (ps_pages seg) sts"
    "\<And>pre s. read_segment_stats D (rd pre (write_segment_stats D (ps_stats seg) @ s)) =
      Inr (st', rd (pre @ write_segment_stats D (ps_stats seg)) s)"
    "\<And>pre s. read_page_index D (rd pre (put_usize (length (ps_pages seg)) @
        put_many (put_page_entry D) (zip (ps_pages seg) (map (put_page_block D bitsliced opts) (ps_pages seg))) @ s)) =
      Inr (zip sts (map (\<lambda>p. length (put_page_block D bitsliced opts p)) (ps_pages seg)),
        rd ((pre @ put_usize (length (ps_pages seg))) @
          put_many (put_page_entry D) (zip (ps_pages seg) (map (put_page_block D bitsliced opts) (ps_pages seg)))) s)"
proof -
  let ?block = "put_page_block D bitsliced opts" and ?ps = "ps_pages seg" and ?st = "ps_stats seg"
  let ?es = "zip ?ps (map ?block ?ps)"
  have st_ok: "stats_ok D ?st" and n: "length ?ps \<le> max_pages" and pages: "\<forall>p\<in>set ?ps. page_ok D p"
    using ok by (simp_all add: paged_ok_def list_all_iff)
  have n64: "length ?ps < 2 ^ 64" using n by (simp add: max_pages_def)
  obtain st' where st': "same_stats val ?st st'" "stats_ok D st'"
    "\<And>pre s. read_segment_stats D (rd pre (write_segment_stats D ?st @ s)) = Inr (st', rd (pre @ write_segment_stats D ?st) s)"
    by (rule stats_round_trip [OF laws st_ok], rule that, assumption+)
  have es: "\<forall>(p, b)\<in>set ?es. page_ok D p \<and> length b < 2 ^ 64"
    using pages page_block_small [OF fits] by (auto simp: zip_map2 zip_same_conv_map)
  obtain sts where sts0: "list_all2 (\<lambda>e st. same_stats val (pg_stats (fst e)) st \<and> stats_ok D st) ?es sts"
    "\<And>pre s. read_many (read_page_entry D) (length ?es) (rd pre (put_many (put_page_entry D) ?es @ s)) =
      Inr (zip sts (map (\<lambda>e. length (snd e)) ?es), rd (pre @ put_many (put_page_entry D) ?es) s)"
    using page_entries [OF laws es] by blast
  have fst_es: "map fst ?es = ?ps" by simp
  have "list_all2 (\<lambda>p st. same_stats val (pg_stats p) st \<and> stats_ok D st) (map fst ?es) sts"
    unfolding list_all2_map1 by (rule sts0(1))
  then have sts: "list_all2 (\<lambda>p st. same_stats val (pg_stats p) st \<and> stats_ok D st) ?ps sts" by (simp only: fst_es)
  have lens: "map (\<lambda>e. length (snd e)) ?es = map (\<lambda>p. length (?block p)) ?ps" by (simp add: zip_map2 zip_same_conv_map)
  have index: "read_page_index D (rd pre (put_usize (length ?ps) @ put_many (put_page_entry D) ?es @ s)) =
      Inr (zip sts (map (\<lambda>p. length (?block p)) ?ps), rd ((pre @ put_usize (length ?ps)) @ put_many (put_page_entry D) ?es) s)" for pre s
    using page_count_fits [of ?es "pre @ put_usize (length ?ps)" D s] n sts0(2)
    by (simp add: read_page_index_def usize.get_put [OF n64] rcheck_def lens)
  show thesis using that [OF st'(1,2) sts st'(3) index] .
qed

lemma paged_frame_parts:
  assumes "ps_version seg = paged_segment_format_version"
  shows "write_paged_segment_inner D bitsliced seg opts =
    (let w = (put_raw magic @ put_u16_le paged_segment_format_version) @ put_usize (ps_rows_per_page seg) @
           write_segment_stats D (ps_stats seg) @ put_usize (length (ps_pages seg)) @
           put_many (put_page_entry D) (zip (ps_pages seg) (map (put_page_block D bitsliced opts) (ps_pages seg))) @
           put_many put_raw (map (put_page_block D bitsliced opts) (ps_pages seg))
     in w @ put_u32_le (crc32 w))"
  by (simp add: write_paged_segment_inner_def Let_def assms)

lemma paged_round_trip:
  assumes laws: "decimal_laws D val" and ok: "paged_ok D seg" "options_ok opts"
    and fits: "length (write_paged_segment_inner D bitsliced seg opts) < 2 ^ 64"
  obtains seg' where "read_paged_segment D bitsliced (write_paged_segment_inner D bitsliced seg opts) = Inr seg'"
    "same_paged val seg seg'" "paged_ok D seg'"
proof -
  let ?block = "put_page_block D bitsliced opts" and ?ps = "ps_pages seg" and ?st = "ps_stats seg"
  have v: "ps_version seg = paged_segment_format_version" "ps_rows_per_page seg < 2 ^ 64" and st_ok: "stats_ok D ?st"
    and n: "length ?ps \<le> max_pages" and pages: "\<forall>p\<in>set ?ps. page_ok D p"
    and sums: "sum_list (map (\<lambda>p. st_row_count (pg_stats p)) ?ps) = st_row_count ?st"
      "sum_list (map (\<lambda>p. st_null_count (pg_stats p)) ?ps) = st_null_count ?st"
    using ok(1) by (simp_all add: paged_ok_def list_all_iff)
  obtain st' sts where st': "same_stats val ?st st'" "stats_ok D st'"
    and sts: "list_all2 (\<lambda>p st. same_stats val (pg_stats p) st \<and> stats_ok D st) ?ps sts"
    and reads: "\<And>pre s. read_segment_stats D (rd pre (write_segment_stats D ?st @ s)) = Inr (st', rd (pre @ write_segment_stats D ?st) s)"
      "\<And>pre s. read_page_index D (rd pre (put_usize (length ?ps) @ put_many (put_page_entry D) (zip ?ps (map ?block ?ps)) @ s)) =
        Inr (zip sts (map (\<lambda>p. length (?block p)) ?ps),
          rd ((pre @ put_usize (length ?ps)) @ put_many (put_page_entry D) (zip ?ps (map ?block ?ps))) s)"
    by (rule paged_index_read [OF laws ok(1) fits]) blast
  obtain ps' where ps': "list_all2 (same_page val) ?ps ps'" "list_all (page_ok D) ps'"
    "\<And>pre s. read_pages D bitsliced (zip sts (map (\<lambda>p. length (?block p)) ?ps)) (rd pre (put_many put_raw (map ?block ?ps) @ s)) =
      Inr (ps', rd (pre @ put_many put_raw (map ?block ?ps)) s)"
    using pages_read [OF laws ok(2) pages sts] by blast
  have last: "read_pages D bitsliced (zip sts (map (\<lambda>p. length (?block p)) ?ps)) (rd pre (put_many put_raw (map ?block ?ps))) =
      Inr (ps', rd (pre @ put_many put_raw (map ?block ?ps)) [])" for pre
    using ps'(3) [of pre "[]"] by simp
  have counts: "map (\<lambda>p. st_row_count (pg_stats p)) ps' = map (\<lambda>p. st_row_count (pg_stats p)) ?ps"
    "map (\<lambda>p. st_null_count (pg_stats p)) ps' = map (\<lambda>p. st_null_count (pg_stats p)) ?ps"
    using ps'(1) by (induction rule: list_all2_induct) (simp_all add: same_page_def same_stats_def)
  have small: "st_row_count ?st < 2 ^ 64" "st_null_count ?st < 2 ^ 64" using st_ok by (simp_all add: stats_ok_def max_rows_def)
  have rollup: "check_rollup st' (checked_total (map (\<lambda>p. st_row_count (pg_stats p)) ps')) (checked_total (map (\<lambda>p. st_null_count (pg_stats p)) ps')) = Inr ()"
    using st'(1) small by (simp add: counts checked_total_sum sums check_rollup_def same_stats_def)
  let ?seg = "\<lparr>ps_version = paged_segment_format_version, ps_rows_per_page = ps_rows_per_page seg, ps_pages = ps', ps_stats = st'\<rparr>"
  have "read_paged_segment D bitsliced (write_paged_segment_inner D bitsliced seg opts) = Inr ?seg"
    unfolding paged_frame_parts [OF v(1)] Let_def read_paged_segment_def
    by (simp only: open_body_put [OF refl] rbind.simps usize.get_put [OF v(2)] reads last rollup rcheck_def sum.case
        reader_is_empty_rd simp_thms if_True if_False not_True_eq_False)
  moreover have "same_paged val seg ?seg" using v ps'(1) st'(1) by (simp add: same_paged_def)
  moreover have "paged_ok D ?seg"
    using v n st' ps' sums counts list_all2_lengthD [OF ps'(1)] by (simp add: paged_ok_def same_stats_def)
  ultimately show thesis by (intro that)
qed

subsection \<open>The reads do not see the difference\<close>

lemma same_page_reads:
  assumes "same_page val p p'"
  shows "page_decode_nullable (decode_column D) p' = page_decode_nullable (decode_column D) p"
    "page_overlaps_time p' a b = page_overlaps_time p a b"
    "page_value_at (decode_column D) p' t = page_value_at (decode_column D) p t"
proof -
  show d: "page_decode_nullable (decode_column D) p' = page_decode_nullable (decode_column D) p"
    using assms by (simp add: same_page_def same_column_def same_stats_def page_decode_nullable_def page_decode_timestamps_def decode_column_def)
  show o: "page_overlaps_time p' a b = page_overlaps_time p a b" for a b
    using assms by (simp add: same_page_def same_stats_def page_overlaps_time_def page_time_range_def)
  show "page_value_at (decode_column D) p' t = page_value_at (decode_column D) p t"
    using assms by (simp add: page_value_at_def d o same_page_def same_stats_def)
qed

lemma read_time_range_pages:
  "read_time_range dec s a b =
    foldl (\<lambda>acc p. case page_decode_nullable dec p of (ts, vs) \<Rightarrow> case window_rows a b ts vs of (ts', vs') \<Rightarrow> (fst acc @ ts', snd acc @ vs'))
      ([], []) (filter (\<lambda>p. page_overlaps_time p a b) (ps_pages s))"
  by (simp add: read_time_range_def prune_pages_by_time_def Let_def split_def
      foldl_pruned [symmetric, where f = "\<lambda>acc p. (fst acc @ fst (window_rows a b (fst (page_decode_nullable dec p)) (snd (page_decode_nullable dec p))),
        snd acc @ snd (window_rows a b (fst (page_decode_nullable dec p)) (snd (page_decode_nullable dec p))))"])

lemma paged_value_at_pages:
  "paged_value_at dec s t = find_map (\<lambda>p. page_value_at dec p t) (filter (\<lambda>p. page_overlaps_time p t t) (ps_pages s))"
  by (simp add: paged_value_at_def prune_pages_by_time_def find_map_pruned [of "\<lambda>p. page_value_at dec p t"])

lemma same_pages_filter:
  "list_all2 (same_page val) ps ps' \<Longrightarrow>
    list_all2 (same_page val) (filter (\<lambda>p. page_overlaps_time p a b) ps) (filter (\<lambda>p. page_overlaps_time p a b) ps')"
  by (induction rule: list_all2_induct) (simp_all add: same_page_reads)

lemma same_paged_reads:
  assumes "same_paged val s s'"
  shows "paged_decode_nullable (decode_column D) s' = paged_decode_nullable (decode_column D) s"
    "read_time_range (decode_column D) s' a b = read_time_range (decode_column D) s a b"
    "paged_value_at (decode_column D) s' t = paged_value_at (decode_column D) s t"
proof -
  have pages: "list_all2 (same_page val) (ps_pages s) (ps_pages s')" using assms by (simp add: same_paged_def)
  have fold: "foldl f x ps' = foldl f x ps" if "list_all2 (same_page val) ps ps'" "\<And>x p p'. same_page val p p' \<Longrightarrow> f x p' = f x p" for f :: "'b \<Rightarrow> 'a wpage \<Rightarrow> 'b" and x ps ps'
    using that(1) by (induction arbitrary: x rule: list_all2_induct) (simp_all add: that(2))
  have find: "find_map f ps' = find_map f ps" if "list_all2 (same_page val) ps ps'" "\<And>p p'. same_page val p p' \<Longrightarrow> f p' = f p" for f :: "'a wpage \<Rightarrow> 'a option" and ps ps'
    using that(1) by (induction rule: list_all2_induct) (simp_all add: that(2) split: option.split)
  show "paged_decode_nullable (decode_column D) s' = paged_decode_nullable (decode_column D) s"
    unfolding paged_decode_nullable_def by (rule fold [OF pages]) (simp add: same_page_reads split_def)
  show "read_time_range (decode_column D) s' a b = read_time_range (decode_column D) s a b"
    unfolding read_time_range_pages by (rule fold [OF same_pages_filter [OF pages]]) (simp add: same_page_reads)
  show "paged_value_at (decode_column D) s' t = paged_value_at (decode_column D) s t"
    unfolding paged_value_at_pages by (rule find [OF same_pages_filter [OF pages]]) (simp add: same_page_reads)
qed

subsection \<open>A sealed paged batch survives its file\<close>

lemma length_chunk: "c \<in> set (chunks n xs) \<Longrightarrow> length c \<le> length xs"
proof (induction n xs rule: chunks.induct)
  case (1 n xs)
  then show ?case by (subst (asm) (2) chunks.simps) (fastforce split: if_splits)
qed

lemma sealed_page_ok:
  assumes laws: "decimal_laws D val" and fits: "declared_fits D schema (flatten_present vc)"
    and rows: "length tc = length vc" "length tc \<le> max_rows"
    and err: "plain_digit_count D (ce_max_abs_error (pg_values (page_build_nullable (declared_encoder D schema) tc vc unit))) \<le> max_plain_digits"
  shows "page_ok D (page_build_nullable (declared_encoder D schema) tc vc unit)"
proof -
  let ?p = "page_build_nullable (declared_encoder D schema) tc vc unit"
  have enc: "encode_column D (as_value schema) (flatten_present vc) = Inr (pg_values ?p)"
    using fits by (auto simp: page_build_nullable_def declared_encoder_def declared_fits_def Let_def)
  show ?thesis
    using built_columns_ok [OF laws enc rows err, of unit] by (simp add: page_ok_def page_build_nullable_def Let_def del: not_None_eq)
qed

lemma set_flatten_present: "v \<in> set (flatten_present vs) \<longleftrightarrow> Some v \<in> set vs"
  by (induction vs rule: flatten_present.induct) auto

lemma sealed_paged_ok:
  assumes laws: "decimal_laws D val" and seal: "seal_paged_nullable D schema ts vs n = Inr s"
    and rows: "length ts \<le> max_rows" "n < 2 ^ 64" "length (ps_pages s) \<le> max_pages"
    and err: "\<forall>p\<in>set (ps_pages s). plain_digit_count D (ce_max_abs_error (pg_values p)) \<le> max_plain_digits"
  shows "paged_ok D s"
proof -
  let ?enc = "declared_encoder D schema" and ?unit = "as_timestamp_unit schema"
  have fits: "\<forall>vc\<in>set (chunks n vs). declared_fits D schema (flatten_present vc)"
    and built: "paged_build_nullable ?enc ts vs ?unit n = Inr s" using seal by (simp_all add: seal_paged_nullable_Inr)
  have n: "0 < n" and l: "length ts = length vs"
    and s: "ps_pages s = map (\<lambda>(ts, vs). page_build_nullable ?enc ts vs ?unit) (zip (chunks n ts) (chunks n vs))"
      "ps_version s = paged_segment_format_version" "ps_rows_per_page s = n"
      "ps_stats s = from_columns_nullable ts (flatten_present vs) (length (filter (\<lambda>v. v = None) vs))"
    using built by (auto simp: paged_build_nullable_def Let_def split: if_splits)
  have pages: "page_ok D p" if "p \<in> set (ps_pages s)" for p
  proof -
    obtain tc vc where c: "(tc, vc) \<in> set (zip (chunks n ts) (chunks n vs))" and p: "p = page_build_nullable ?enc tc vc ?unit"
      using \<open>p \<in> set (ps_pages s)\<close> unfolding s(1) by auto
    have "length tc = length vc" using chunks_related [OF n l] c by (auto simp: list_all2_iff)
    moreover have "length tc \<le> max_rows" using length_chunk [OF set_zip_leftD [OF c]] rows(1) by simp
    ultimately show ?thesis unfolding p
      using sealed_page_ok [OF laws, of schema vc tc ?unit] fits set_zip_rightD [OF c] err \<open>p \<in> set (ps_pages s)\<close> p by simp
  qed
  have dom: "\<forall>v\<in>set (flatten_present vs). plain_digit_count D v \<le> max_plain_digits"
  proof
    fix v assume "v \<in> set (flatten_present vs)"
    then have "Some v \<in> set vs" by (simp add: set_flatten_present)
    then obtain vc where vc: "vc \<in> set (chunks n vs)" "Some v \<in> set vc" using concat_chunks [OF n, of vs] by (metis UN_E set_concat)
    then have "v \<in> set (flatten_present vc)" by (simp add: set_flatten_present)
    moreover have "\<not> isl (encode_column D (as_value schema) (flatten_present vc))" using fits vc(1) by (auto simp: declared_fits_def)
    ultimately show "plain_digit_count D v \<le> max_plain_digits"
      using encode_out_of_domain [of D v] unfolding encode_column_isl by (auto simp: not_le [symmetric])
  qed
  have "stats_ok D (ps_stats s)"
    using iter_domain [OF laws dom] rows(1) l present_and_nulls [of vs] by (simp add: s(4) stats_ok_def stats_fields)
  then show ?thesis using s(2,3) rows pages paged_rollup [OF built] by (simp add: paged_ok_def list_all_iff)
qed

lemma sealed_pages_frame:
  assumes laws: "decimal_laws D val" and seal: "seal_paged_nullable D schema ts vs n = Inr s"
    and rows: "length ts \<le> max_rows" "n < 2 ^ 64" "length (ps_pages s) \<le> max_pages"
    and err: "\<forall>p\<in>set (ps_pages s). plain_digit_count D (ce_max_abs_error (pg_values p)) \<le> max_plain_digits"
    and opts: "options_ok opts" "length (write_paged_segment_with D bitsliced s opts) < 2 ^ 64"
  shows "\<exists>s' ws. read_paged_segment D bitsliced (write_paged_segment_with D bitsliced s opts) = Inr s' \<and>
    list_all2 (rel_option (within_tolerance val (as_value_tolerance schema))) vs ws \<and>
    paged_decode_nullable (decode_column D) s' = (ts, ws) \<and>
    (\<forall>a b. read_time_range (decode_column D) s' a b = window_rows a b ts ws) \<and>
    (\<forall>t. paged_value_at (decode_column D) s' t = first_present ts ws t)"
proof -
  note opts = opts [unfolded write_paged_segment_with_def]
  obtain s' where s': "read_paged_segment D bitsliced (write_paged_segment_inner D bitsliced s opts) = Inr s'" "same_paged val s s'"
    using paged_round_trip [OF laws sealed_paged_ok [OF laws seal rows err] opts] by metis
  have "\<forall>vc\<in>set (chunks n vs). list_all2 (within_tolerance val (as_value_tolerance schema)) (flatten_present vc)
      (decode_column D (declared_encoder D schema (flatten_present vc)))"
    using seal declared_within [OF laws] by (auto simp: seal_paged_nullable_Inr)
  then obtain ws where "list_all2 (rel_option (within_tolerance val (as_value_tolerance schema))) vs ws"
    "paged_decode_nullable (decode_column D) s = (ts, ws)"
    "\<forall>a b. read_time_range (decode_column D) s a b = window_rows a b ts ws"
    "\<forall>t. paged_value_at (decode_column D) s t = first_present ts ws t"
    using seal paged_reads by (auto simp: seal_paged_nullable_Inr) blast
  then show ?thesis using s' same_paged_reads [OF s'(2)] unfolding write_paged_segment_with_def by metis
qed

end
