(* ===== verification/Section_Reads.thy ===== *)
theory Section_Reads imports Paged_Frame Value_Access begin

text \<open>
  The point and range readers over one column section of \<^verbatim>\<open>weft-physical-type/src/weftseg.rs\<close> (a value block, a
  timestamp block and the null column): the batch of points with its three ways to find a row (closed
  form on a regular column, persisted checkpoints, decoded timestamps), and the window of rows, in closed
  form or by decoding and filtering. On a section the writers emit they answer what the decoded rows
  answer. A batch gathers its values by a walk that is a partial function, so its result is an \<open>option\<close>.
\<close>

subsection \<open>Points\<close>

definition in_span :: "i64 \<Rightarrow> i64 \<Rightarrow> i64 \<Rightarrow> bool" where
  "in_span lo hi t \<longleftrightarrow> sint lo \<le> sint t \<and> sint t \<le> sint hi"

text \<open>
  How a row is found for an instant; the source keeps an option for each way, of which exactly one is set.
\<close>

datatype row_search =
    Closed_Form i64 i64
  | Lazy_Index lazy_checkpointed_ts
  | Decoded_Rows "i64 list"

definition sorted_stride :: "bool \<Rightarrow> delta_of_delta_column \<Rightarrow> (i64 \<times> i64) option" where
  "sorted_stride is_sorted col =
    (if is_sorted
     then (case arithmetic_stride col of
         Some (first, step) \<Rightarrow> if 0 < sint step then Some (first, step) else None
       | None \<Rightarrow> None)
     else None)"

definition read_row_search :: "bool \<Rightarrow> byte_reader \<Rightarrow> weft_seg_error + row_search \<times> byte_reader" where
  "read_row_search is_sorted r =
    rbind (if is_sorted then read_lazy_checkpointed_ts r else Inr (None, r)) (\<lambda>lazy r.
      case lazy of
        Some lz \<Rightarrow> Inr (Lazy_Index lz, r)
      | None \<Rightarrow> rbind (read_timestamp_column r) (\<lambda>ts_col r.
          Inr (case sorted_stride is_sorted ts_col of
                 Some (first, step) \<Rightarrow> Closed_Form first step
               | None \<Rightarrow> Decoded_Rows (decode_delta_of_delta ts_col), r)))"

definition closed_form_row :: "nat \<Rightarrow> null_mask \<Rightarrow> i64 \<Rightarrow> i64 \<Rightarrow> i64 \<Rightarrow> nat option" where
  "closed_form_row row_count nulls first step t =
    (let diff = t - first in
     if i64_rem diff step \<noteq> 0 then None
     else let quotient = i64_div diff step in
       if sint quotient < 0 then None
       else let row = nat (sint quotient) in
         if row_count \<le> row \<or> first + quotient * step \<noteq> t \<or> \<not> is_present nulls row then None else Some row)"

definition resolve_instant :: "nat \<Rightarrow> bool \<Rightarrow> null_mask \<Rightarrow> row_search \<Rightarrow> i64 \<Rightarrow> nat option" where
  "resolve_instant row_count is_sorted nulls search t =
    (case search of
       Closed_Form first step \<Rightarrow> map_option (dense_rank nulls) (closed_form_row row_count nulls first step t)
     | Lazy_Index lz \<Rightarrow> map_option (dense_rank nulls) (lazy_lookup lz t (\<lambda>row. row < row_count \<and> is_present nulls row))
     | Decoded_Rows timestamps \<Rightarrow> locate_present_dense_index timestamps nulls is_sorted t)"

text \<open>\<open>for (k, v) in hits { out[k] = v }\<close> over a vector of \<open>None\<close>.\<close>

definition fill :: "nat \<Rightarrow> (nat \<times> 'v option) list \<Rightarrow> 'v option list" where
  "fill n hits = foldl (\<lambda>out (k, v). out[k := v]) (replicate n None) hits"

definition resolve_batch :: "nat \<Rightarrow> bool \<Rightarrow> i64 \<Rightarrow> i64 \<Rightarrow> null_mask \<Rightarrow> row_search \<Rightarrow> i64 list \<Rightarrow> (nat \<times> nat) list" where
  "resolve_batch row_count is_sorted min_ts max_ts nulls search ts =
    List.map_filter (\<lambda>(k, t). if sint t < sint min_ts \<or> sint max_ts < sint t then None
        else map_option (\<lambda>dense_index. (k, dense_index)) (resolve_instant row_count is_sorted nulls search t))
      (enumerate 0 ts)"

definition read_points_from_section :: "'d decimal_ops \<Rightarrow> bool \<Rightarrow> u8 list \<Rightarrow> 'd segment_stats \<Rightarrow> i64 list \<Rightarrow>
    (weft_seg_error + 'd option list) option" where
  "read_points_from_section D bitsliced section st ts =
    (case span_of (st_min_ts st) (st_max_ts st) of
       None \<Rightarrow> Some (Inr (replicate (length ts) None))
     | Some (min_ts, max_ts) \<Rightarrow>
         if \<not> list_ex (in_span min_ts max_ts) ts then Some (Inr (replicate (length ts) None))
         else case
           rbind (if value_block_has_random_access_codec D section
                  then rbind (skip_random_access_value_column D (new_reader section)) (\<lambda>_ r. Inr (None, r))
                  else rbind (read_value_column D bitsliced (new_reader section)) (\<lambda>col r. Inr (Some (ce_values col), r)))
             (\<lambda>present_values r.
           rbind (read_row_search (st_time_sorted st) r) (\<lambda>search r.
           rbind (read_null_column (st_row_count st) (st_null_count st) r) (\<lambda>nulls r.
             Inr (present_values, resolve_batch (st_row_count st) (st_time_sorted st) min_ts max_ts nulls search ts)))) of
           Inl e \<Rightarrow> Some (Inl e)
         | Inr (None, resolved) \<Rightarrow>
             map_option (\<lambda>res. case res of
                 Inl e \<Rightarrow> Inl e
               | Inr values \<Rightarrow> Inr (fill (length ts) (zip (map fst resolved) (map (map_option (to_logical D)) values))))
               (read_values_at D bitsliced section (map snd resolved))
         | Inr (Some values, resolved) \<Rightarrow>
             Some (Inr (fill (length ts) (map (\<lambda>(k, i). (k, map_option (to_logical D) (list_get values i))) resolved))))"

definition read_point_from_section :: "'d decimal_ops \<Rightarrow> bool \<Rightarrow> u8 list \<Rightarrow> 'd segment_stats \<Rightarrow> i64 \<Rightarrow>
    (weft_seg_error + 'd option) option" where
  "read_point_from_section D bitsliced section st t =
    map_option (\<lambda>res. case res of Inl e \<Rightarrow> Inl e | Inr out \<Rightarrow> Inr (if out = [] then None else last out))
      (read_points_from_section D bitsliced section st [t])"

subsection \<open>Ranges\<close>

text \<open>The loop of the fallback, \<open>dense\<close> the present rows before.\<close>

fun filter_window :: "(physical_value \<Rightarrow> 'v) \<Rightarrow> physical_value list \<Rightarrow> null_mask \<Rightarrow> i64 \<Rightarrow> i64 \<Rightarrow> nat \<Rightarrow> nat \<Rightarrow> i64 list \<Rightarrow>
    i64 list \<times> 'v option list" where
  "filter_window f values nulls from_ts to_ts row dense [] = ([], [])"
| "filter_window f values nulls from_ts to_ts row dense (t # ts) =
    (let present = is_present nulls row;
         (out_times, out_values) = filter_window f values nulls from_ts to_ts (row + 1) (if present then dense + 1 else dense) ts
     in if in_span from_ts to_ts t
        then (t # out_times, (if present then map_option f (list_get values dense) else None) # out_values)
        else (out_times, out_values))"

definition full_filtered :: "'d decimal_ops \<Rightarrow> bool \<Rightarrow> u8 list \<Rightarrow> 'd segment_stats \<Rightarrow> i64 \<Rightarrow> i64 \<Rightarrow> (physical_value \<Rightarrow> 'v) \<Rightarrow>
    weft_seg_error + i64 list \<times> 'v option list" where
  "full_filtered D bitsliced section st from_ts to_ts f =
    rbind (read_value_column D bitsliced (new_reader section)) (\<lambda>col fr.
    rbind (read_timestamp_column fr) (\<lambda>ts_col fr.
    rbind (read_null_column (st_row_count st) (st_null_count st) fr) (\<lambda>nulls fr.
      Inr (filter_window f (ce_values col) nulls from_ts to_ts 0 0 (decode_delta_of_delta ts_col)))))"

text \<open>
  The window of rows in closed form. The differences are \<open>i128\<close> in the source and cannot overflow; their
  quotients by a positive step are taken of positive numbers only. \<open>row_count - 1\<close> and \<open>hi + 1\<close> are machine
  subtraction and addition.
\<close>

definition usize_max :: nat where "usize_max = 2 ^ 64 - 1"

definition window_lo :: "i64 \<Rightarrow> i64 \<Rightarrow> i64 \<Rightarrow> nat" where
  "window_lo first step from_ts =
    (let start_off = sint from_ts - sint first in
     if start_off \<le> 0 then 0
     else let q = start_off div sint step; rem = start_off mod sint step in
       min (nat (if rem = 0 then q else q + 1)) usize_max)"

definition window_hi :: "nat \<Rightarrow> i64 \<Rightarrow> i64 \<Rightarrow> i64 \<Rightarrow> nat" where
  "window_hi row_count first step to_ts =
    min (min (nat ((sint to_ts - sint first) div sint step)) usize_max) ((row_count + usize_max) mod 2 ^ 64)"

text \<open>The loop over the rows of the window, \<open>k\<close> the present rows of it already passed.\<close>

fun window_loop :: "(physical_value \<Rightarrow> 'v) \<Rightarrow> physical_value list \<Rightarrow> null_mask \<Rightarrow> i64 \<Rightarrow> i64 \<Rightarrow> nat \<Rightarrow> nat list \<Rightarrow>
    i64 list \<times> 'v option list" where
  "window_loop f window nulls first step k [] = ([], [])"
| "window_loop f window nulls first step k (row # rows) =
    (let t = first + (if row < 2 ^ 63 then of_nat row else i64_max) * step in
     if is_present nulls row
     then (let (ts, vs) = window_loop f window nulls first step (k + 1) rows in (t # ts, map_option f (list_get window k) # vs))
     else (let (ts, vs) = window_loop f window nulls first step k rows in (t # ts, None # vs)))"

definition closed_form_window :: "'d decimal_ops \<Rightarrow> bool \<Rightarrow> u8 list \<Rightarrow> nat \<Rightarrow> null_mask \<Rightarrow> i64 \<Rightarrow> i64 \<Rightarrow> i64 \<Rightarrow> i64 \<Rightarrow>
    (physical_value \<Rightarrow> 'v) \<Rightarrow> weft_seg_error + i64 list \<times> 'v option list" where
  "closed_form_window D bitsliced section row_count nulls first step from_ts to_ts f =
    (let lo = window_lo first step from_ts in
     if sint to_ts - sint first < 0 then Inr ([], [])
     else let hi = window_hi row_count first step to_ts in
       if hi < lo then Inr ([], [])
       else let dense_lo = dense_rank nulls lo; dense_hi = dense_rank nulls ((hi + 1) mod 2 ^ 64) in
         case read_value_range D bitsliced section dense_lo (dense_hi - dense_lo) of
           Inl e \<Rightarrow> Inl e
         | Inr window \<Rightarrow> Inr (window_loop f window nulls first step 0 [lo..<hi + 1]))"

definition read_range_from_section_with :: "'d decimal_ops \<Rightarrow> bool \<Rightarrow> u8 list \<Rightarrow> 'd segment_stats \<Rightarrow> i64 \<Rightarrow> i64 \<Rightarrow>
    (physical_value \<Rightarrow> 'v) \<Rightarrow> weft_seg_error + i64 list \<times> 'v option list" where
  "read_range_from_section_with D bitsliced section st from_ts to_ts f =
    (case span_of (st_min_ts st) (st_max_ts st) of
       None \<Rightarrow> Inr ([], [])
     | Some (min_ts, max_ts) \<Rightarrow>
         if sint to_ts < sint min_ts \<or> sint max_ts < sint from_ts then Inr ([], [])
         else if \<not> value_block_has_random_access_codec D section then full_filtered D bitsliced section st from_ts to_ts f
         else rbind (skip_random_access_value_column D (new_reader section)) (\<lambda>_ sr.
              rbind (read_timestamp_column sr) (\<lambda>ts_col sr.
              rbind (read_null_column (st_row_count st) (st_null_count st) sr) (\<lambda>nulls sr.
                case sorted_stride (st_time_sorted st) ts_col of
                  None \<Rightarrow> full_filtered D bitsliced section st from_ts to_ts f
                | Some (first, step) \<Rightarrow>
                    closed_form_window D bitsliced section (st_row_count st) nulls first step from_ts to_ts f))))"

subsection \<open>Rows and the mask\<close>

lemma scan_find:
  "find_map (\<lambda>(i, x). if x = t \<and> P i then Some i else None) (enumerate k ts) =
    find (\<lambda>r. ts ! (r - k) = t \<and> P r) [k..<k + length ts]"
proof (induction ts arbitrary: k)
  case (Cons x ts)
  have "find (\<lambda>r. (x # ts) ! (r - k) = t \<and> P r) [Suc k..<Suc k + length ts] =
      find (\<lambda>r. ts ! (r - Suc k) = t \<and> P r) [Suc k..<Suc k + length ts]"
    by (rule find_cong) (auto simp: nth_Cons Suc_diff_Suc [symmetric] split: nat.split)
  with Cons [of "Suc k"] show ?case by (simp add: upt_conv_Cons del: upt_Suc)
qed simp

lemma first_match_scan:
  "first_match ts t P = find_map (\<lambda>(i, x). if x = t \<and> P i then Some i else None) (enumerate 0 ts)"
  by (simp add: first_match_def scan_find)

lemma first_match_bound: "first_match ts t P = Some i \<Longrightarrow> i < length ts \<and> ts ! i = t \<and> P i"
  by (auto simp: first_match_def find_Some_iff)

lemma first_match_cong: "(\<And>i. i < length ts \<Longrightarrow> P i = Q i) \<Longrightarrow> first_match ts t P = first_match ts t Q"
  unfolding first_match_def by (rule find_cong) auto

text \<open>What the point readers answer with: the value of the first present row of the instant.\<close>

lemma first_present_row:
  assumes "null_mask_ok nulls" "nm_row_count nulls = length ts"
    and "length (filter (is_present nulls) [0..<length ts]) \<le> length values"
  shows "first_present ts (nullable_loop nulls values (length ts) 0 0) t =
    (case first_match ts t (is_present nulls) of None \<Rightarrow> None | Some row \<Rightarrow> list_get values (dense_rank nulls row))"
  using point_lookup_dense_index [OF assms, of False t]
  by (simp add: point_lookup_first_present length_nullable_loop locate_present_dense_index_def first_match_scan
      split: option.split)

subsection \<open>A regular column in closed form\<close>

lemma sint_add_ascending:
  assumes "0 < sint (s :: i64)" "sint a \<le> sint (a + s)"
  shows "sint (a + s) = sint a + sint s"
proof (cases "sint a + sint s < 2 ^ 63")
  case True
  have "a + s = word_of_int (sint a + sint s)" by simp
  then show ?thesis using sint_word_of_int_id [of "sint a + sint s"] True assms(1) sint_range [of a] by simp
next
  case False
  have sum: "a + s = word_of_int (sint a + sint s - 2 ^ 64)" by simp
  have "sint (a + s) = sint a + sint s - 2 ^ 64"
    unfolding sum by (rule sint_word_of_int_id) (use False sint_range [of a] sint_range [of s] in simp_all)
  then show ?thesis using assms(2) sint_range [of s] by simp
qed

lemma regular_rows:
  assumes stride: "arithmetic_stride col = Some (first, step)" and step: "0 < sint step"
    and asc: "time_sorted (decode_delta_of_delta col)" and i: "i < length (decode_delta_of_delta col)"
  shows "sint (decode_delta_of_delta col ! i) = sint first + int i * sint step"
  using i
proof (induction i)
  case 0
  then show ?case using arithmetic_stride_nth [OF stride, of 0] by (simp add: length_decode_delta_of_delta)
next
  case (Suc i)
  let ?T = "decode_delta_of_delta col"
  have T: "?T ! k = first + of_nat k * step" if "k < length ?T" for k
    using arithmetic_stride_nth [OF stride] that by (simp add: length_decode_delta_of_delta)
  have next': "?T ! Suc i = ?T ! i + step" using T [of i] T [of "Suc i"] Suc.prems by (simp add: algebra_simps)
  have le: "sint (?T ! i) \<le> sint (?T ! i + step)"
    using asc Suc.prems next' unfolding time_sorted_adjacent by metis
  then show ?case using Suc next' sint_add_ascending [OF step le] by (simp add: algebra_simps)
qed

text \<open>
  The closed form finds the row unless the offset from the first row leaves the signed range, where the
  wrapped difference is taken modulo the step.
\<close>

lemma closed_form_row_match:
  assumes stride: "arithmetic_stride col = Some (first, step)" and step: "0 < sint step"
    and asc: "time_sorted (decode_delta_of_delta col)"
    and t: "sint first \<le> sint t" "sint t - sint first < 2 ^ 63"
  shows "closed_form_row (length (decode_delta_of_delta col)) nulls first step t =
    first_match (decode_delta_of_delta col) t (is_present nulls)"
proof -
  let ?T = "decode_delta_of_delta col"
  define d where "d = sint t - sint first"
  note T = regular_rows [OF stride step asc]
  have d: "0 \<le> d" "d < 2 ^ 63" using t by (simp_all add: d_def)
  have "t - first = word_of_int d" by (simp add: d_def)
  then have diff: "sint (t - first) = d" using sint_word_of_int_id [of d] d by simp
  have q: "i64_div (t - first) step = word_of_int (d div sint step)" "i64_rem (t - first) step = word_of_int (d mod sint step)"
    using d step by (cases "d = 0"; simp add: i64_div_def i64_rem_def diff signed_divide_int_def signed_modulo_int_def)+
  have small: "0 \<le> d div sint step" "d div sint step \<le> d" "0 \<le> d mod sint step" "d mod sint step < sint step"
    using d step zdiv_mono2 [of d 1 "sint step"] by (simp_all add: pos_imp_zdiv_nonneg_iff)
  have sq: "sint (i64_div (t - first) step) = d div sint step"
    unfolding q(1) by (rule sint_word_of_int_id) (use small d in linarith)+
  have sr: "sint (i64_rem (t - first) step) = d mod sint step"
    unfolding q(2) by (rule sint_word_of_int_id) (use small sint_range [of step] in linarith)+
  have hit: "?T ! i = t \<longleftrightarrow> int i * sint step = d" if "i < length ?T" for i
    using T [OF that] by (auto simp: d_def dest: sint_injD)
  have unique: "i = nat (d div sint step) \<and> d mod sint step = 0" if "i < length ?T" "?T ! i = t" for i
    using hit [OF that(1)] that(2) step by (auto simp flip: mult.commute)
  show ?thesis
  proof (cases "d mod sint step = 0 \<and> nat (d div sint step) < length ?T \<and> is_present nulls (nat (d div sint step))")
    case True
    let ?row = "nat (d div sint step)"
    have "int ?row * sint step = d" using True small by (simp add: mod_eq_0_iff_dvd)
    then have row: "?T ! ?row = t" using hit True by simp
    have "first_match ?T t (is_present nulls) = Some ?row"
    proof (cases "first_match ?T t (is_present nulls)")
      case None
      then show ?thesis using True row by (auto simp: first_match_def find_None_iff)
    next
      case (Some i)
      then show ?thesis using first_match_bound [OF Some] unique by simp
    qed
    moreover have "first + i64_div (t - first) step * step = t"
    proof -
      have "first + i64_div (t - first) step * step = word_of_int (sint first + d div sint step * sint step)"
        by (simp add: q(1))
      also have "sint first + d div sint step * sint step = sint t" using True by (simp add: d_def mod_eq_0_iff_dvd)
      finally show ?thesis by simp
    qed
    moreover have "i64_rem (t - first) step = 0" using sr True by (metis sint_injD signed_0)
    ultimately show ?thesis using True small sq by (simp add: closed_form_row_def Let_def)
  next
    case False
    have none: "first_match ?T t (is_present nulls) = None"
    proof (rule ccontr)
      assume "first_match ?T t (is_present nulls) \<noteq> None"
      then obtain i where "first_match ?T t (is_present nulls) = Some i" by blast
      from first_match_bound [OF this] show False using unique False by blast
    qed
    have "i64_rem (t - first) step = 0 \<Longrightarrow> d mod sint step = 0" using sr by simp
    then show ?thesis using False sq none by (auto simp: closed_form_row_def Let_def)
  qed
qed

text \<open>
  Where the offset from the first row leaves the signed range, the wrapped difference is negative and
  the closed form finds nothing.
\<close>

lemma closed_form_row_beyond:
  assumes "0 < sint step" "2 ^ 63 \<le> sint t - sint first"
  shows "closed_form_row n nulls first step t = None"
proof -
  define d where "d = sint t - sint first - 2 ^ 64"
  have d: "- (2 ^ 63) \<le> d" "d < 0"
    using assms(2) sint_range [of t] sint_range [of first] by (simp_all add: d_def)
  have wrap: "(18446744073709551616 :: i64) = 0" by simp
  have diff: "sint (t - first) = d" using sint_word_of_int_id [of d] d by (simp add: d_def wrap)
  let ?q = "d sdiv sint step"
  have q: "?q = - ((- d) div sint step)" using d assms(1) by (simp add: signed_divide_int_def)
  have "0 \<le> (- d) div sint step" "(- d) div sint step \<le> - d"
    using d assms(1) zdiv_mono2 [of "- d" 1 "sint step"] by (simp_all add: pos_imp_zdiv_nonneg_iff)
  then have fits: "- (2 ^ 63) \<le> ?q" "?q < 2 ^ 63" using d unfolding q by linarith+
  then have quot: "sint (i64_div (t - first) step) = ?q"
    using sint_word_of_int_id [of ?q] by (simp add: i64_div_def diff)
  have "sint (i64_div (t - first) step) < 0" if "i64_rem (t - first) step = 0"
  proof -
    have m: "d smod sint step = d - ?q * sint step" by (rule minus_sdiv_mult_eq_smod [symmetric])
    have "- d - (- d) div sint step * sint step = (- d) mod sint step" by (simp add: minus_div_mult_eq_mod)
    then have "\<bar>d smod sint step\<bar> < sint step"
      unfolding m q using pos_mod_bound [OF assms(1), of "- d"] pos_mod_sign [OF assms(1), of "- d"] by simp
    then have "sint (i64_rem (t - first) step) = d smod sint step"
      using sint_word_of_int_id [of "d smod sint step"] sint_range [of step] by (simp add: i64_rem_def diff)
    then have "?q * sint step = d" using that m by simp
    then have "?q * sint step < 0" using d(2) by simp
    then show ?thesis unfolding quot using assms(1) by (simp add: mult_less_0_iff)
  qed
  then show ?thesis by (auto simp: closed_form_row_def Let_def)
qed

lemma closed_form_row_far:
  assumes "arithmetic_stride col = Some (first, step)" "0 < sint step" "time_sorted (decode_delta_of_delta col)"
    and "i < length (decode_delta_of_delta col)" "is_present nulls i"
  shows "first_match (decode_delta_of_delta col) (decode_delta_of_delta col ! i) (is_present nulls) = Some i \<and>
    closed_form_row (length (decode_delta_of_delta col)) nulls first step (decode_delta_of_delta col ! i) =
      (if sint (decode_delta_of_delta col ! i) - sint first < 2 ^ 63 then Some i else None)"
proof -
  let ?T = "decode_delta_of_delta col"
  note T = regular_rows [OF assms(1-3)]
  have unique: "j = i" if "j < length ?T" "?T ! j = ?T ! i" for j
  proof -
    have "int j * sint step = int i * sint step" using T [OF that(1)] T [OF assms(4)] unfolding that(2) by linarith
    then have "int j = int i" using assms(2) by (metis less_irrefl mult_right_cancel)
    then show ?thesis by simp
  qed
  have found: "first_match ?T (?T ! i) (is_present nulls) = Some i"
  proof (cases "first_match ?T (?T ! i) (is_present nulls)")
    case None
    then show ?thesis using assms(4,5) by (auto simp: first_match_def find_None_iff)
  next
    case (Some j)
    then show ?thesis using first_match_bound [OF Some] unique by simp
  qed
  have "sint first \<le> sint (?T ! i)" using T [OF assms(4)] assms(2) by simp
  then show ?thesis
    using found closed_form_row_match [OF assms(1-3)] closed_form_row_beyond [OF assms(2)] by (simp add: not_less)
qed

subsection \<open>Sections the writers emit\<close>

text \<open>What a reader of a written section meets, and what its statistics say of the rows.\<close>

definition section_holds :: "'d decimal_ops \<Rightarrow> bool \<Rightarrow> u8 list \<Rightarrow> 'd segment_stats \<Rightarrow> physical_value list \<Rightarrow>
    delta_of_delta_column \<Rightarrow> null_mask \<Rightarrow> bool" where
  "section_holds D bitsliced section st values ts_col nulls \<longleftrightarrow>
    (\<exists>col r1 r2 r3. read_value_column D bitsliced (new_reader section) = Inr (col, r1) \<and> ce_values col = values \<and>
      read_timestamp_column r1 = Inr (ts_col, r2) \<and>
      read_null_column (st_row_count st) (st_null_count st) r2 = Inr (nulls, r3) \<and>
      (read_lazy_checkpointed_ts r1 = Inr (None, r1) \<or>
       (\<exists>lz. read_lazy_checkpointed_ts r1 = Inr (Some lz, r2) \<and>
         (time_sorted (decode_delta_of_delta ts_col) \<longrightarrow>
           (\<forall>t accept. lazy_lookup lz t accept = first_match (decode_delta_of_delta ts_col) t accept)))))"

definition rows_described :: "'d segment_stats \<Rightarrow> physical_value list \<Rightarrow> i64 list \<Rightarrow> null_mask \<Rightarrow> bool" where
  "rows_described st values ts nulls \<longleftrightarrow> st_row_count st = length ts \<and> st_null_count st = nm_null_count nulls \<and> null_mask_ok nulls \<and> nm_row_count nulls = length ts \<and>
    length values = length (filter (is_present nulls) [0..<length ts]) \<and>
    st_time_sorted st = time_sorted ts \<and> st_min_ts st = iter_min ts_less ts \<and> st_max_ts st = iter_max ts_less ts"

lemma dod_codec_tag: "\<exists>codec rest. write_dod_codec col = put_u8 codec @ rest \<and> codec \<noteq> ts_codec_checkpointed"
  by (auto simp: write_dod_codec_def Let_def split_def ts_codec_defs intro!: exI)

lemma lazy_read_plain:
  assumes "length (dd_dods col) \<le> max_rows"
  shows "read_lazy_checkpointed_ts (rd pre (write_timestamp_column col @ s)) = Inr (None, rd pre (write_timestamp_column col @ s))"
proof -
  obtain codec rest where codec: "write_dod_codec col = put_u8 codec @ rest" "codec \<noteq> ts_codec_checkpointed"
    using dod_codec_tag by blast
  show ?thesis
    using assms codec(2)
    by (simp add: read_lazy_checkpointed_ts_def write_timestamp_column_def put_ts_head_def codec(1) u8.get_put i64.get_put
        read_opt_delta_put usize.get_put max_rows_def split: option.split)
qed

lemma lazy_read_with:
  assumes n: "length (dd_dods col) \<le> max_rows" and opts: "options_ok opts"
  shows "read_lazy_checkpointed_ts (rd pre (write_timestamp_column_with col opts @ s)) =
      Inr (None, rd pre (write_timestamp_column_with col opts @ s)) \<or>
    (\<exists>lz. read_lazy_checkpointed_ts (rd pre (write_timestamp_column_with col opts @ s)) =
        Inr (Some lz, rd (pre @ write_timestamp_column_with col opts) s) \<and>
      (time_sorted (decode_delta_of_delta col) \<longrightarrow>
        (\<forall>t accept. lazy_lookup lz t accept = first_match (decode_delta_of_delta col) t accept)))"
proof (cases "fo_checkpoint_stride opts")
  case None
  then show ?thesis using lazy_read_plain [OF n] by (simp add: write_timestamp_column_with_def)
next
  case (Some stride)
  then have stride: "stride < 2 ^ 64" using opts by (simp add: options_ok_def)
  show ?thesis
  proof (cases "dd_first_delta col")
    case None
    then have "write_timestamp_column_checkpointed col stride = write_timestamp_column col"
      by (simp add: write_timestamp_column_checkpointed_def checkpoints_def Let_def)
    then show ?thesis using lazy_read_plain [OF n] Some by (simp add: write_timestamp_column_with_def)
  next
    case fd: (Some fd)
    have dods: "blocked_bitpack_decode (blocked_bitpack_encode (dd_dods col) blocked_bitpack_block) blocked_bitpack_block
        (length (dd_dods col)) = dd_dods col"
      using blocked_bitpack_decode_encode [of "dd_dods col" blocked_bitpack_block "[]"] by simp
    have "search_sorted_with \<lparr>cks_stride = x, cks_points = cks_points (checkpoints col stride), cks_rows = y\<rparr> col t accept =
        first_match (decode_delta_of_delta col) t accept" if "time_sorted (decode_delta_of_delta col)" for x y t accept
      using search_sorted_with_correct [OF that, of stride t accept]
        search_sorted_with_points [of "\<lparr>cks_stride = x, cks_points = cks_points (checkpoints col stride), cks_rows = y\<rparr>"]
      by simp
    then show ?thesis
      using lazy_read_checkpointed [OF n stride fd] lazy_lookup_search fd dods Some
      by (simp add: write_timestamp_column_with_def)
  qed
qed

lemma written_section_holds:
  assumes laws: "decimal_laws D val" and ok: "columns_ok D st vs ts nulls" "same_stats val st st'" "options_ok opts"
  shows "section_holds D bitsliced (column_section D bitsliced vs ts nulls opts) st' (ce_values vs) ts nulls"
proof -
  obtain codec where codec: "codec_applies vs codec"
    "write_value_column_with D bitsliced vs opts = write_value_column_selected D bitsliced vs codec"
    by (rule value_block_with)
  have col: "column_ok D vs" and n: "length (dd_dods ts) \<le> max_rows" using ok(1) by (simp_all add: columns_ok_def)
  obtain e where e: "\<And>pre s. read_value_column D bitsliced (rd pre (write_value_column_selected D bitsliced vs codec @ s)) =
      Inr (vs\<lparr>ce_max_abs_error := e\<rparr>, rd (pre @ write_value_column_selected D bitsliced vs codec) s)"
    by (rule value_column_round_trip [OF laws col codec(1)], rule that, assumption+)
  let ?block = "write_value_column_with D bitsliced vs opts"
  let ?r1 = "rd ?block (write_timestamp_column_with ts opts @ write_null_column nulls)"
  let ?r2 = "rd (?block @ write_timestamp_column_with ts opts) (write_null_column nulls)"
  have "read_value_column D bitsliced (new_reader (column_section D bitsliced vs ts nulls opts)) = Inr (vs\<lparr>ce_max_abs_error := e\<rparr>, ?r1)"
    using e [of "[]"] by (simp add: new_reader_rd column_section_def codec(2))
  moreover have "read_timestamp_column ?r1 = Inr (ts, ?r2)" by (rule ts_block_with_round_trip [OF n ok(3)])
  moreover have "read_null_column (st_row_count st') (st_null_count st') ?r2 =
      Inr (nulls, rd ((?block @ write_timestamp_column_with ts opts) @ write_null_column nulls) [])"
    using null_column_round_trip [of nulls _ "[]"] ok(1,2) by (simp add: columns_ok_def same_stats_def stats_ok_def)
  ultimately show ?thesis
    unfolding section_holds_def using lazy_read_with [OF n ok(3), of ?block "write_null_column nulls"]
    by (intro exI [of _ "vs\<lparr>ce_max_abs_error := e\<rparr>"] exI [of _ ?r1] exI [of _ ?r2] exI) simp
qed

subsection \<open>The batch of points answers the decoded rows\<close>

lemma fill_at:
  "foldl (\<lambda>out (k, v). out[k := v]) (pre @ replicate (length ts) None)
      (List.map_filter (\<lambda>(k, t). map_option (\<lambda>i. (k, g i)) (h t)) (enumerate (length pre) ts)) =
    pre @ map (\<lambda>t. Option.bind (h t) g) ts"
proof (induction ts arbitrary: pre)
  case (Cons t ts)
  have "foldl (\<lambda>out (k, v). out[k := v]) (pre @ replicate (length (t # ts)) None)
      (List.map_filter (\<lambda>(k, t). map_option (\<lambda>i. (k, g i)) (h t)) (enumerate (length pre) (t # ts))) =
    foldl (\<lambda>out (k, v). out[k := v]) ((pre @ [Option.bind (h t) g]) @ replicate (length ts) None)
      (List.map_filter (\<lambda>(k, t). map_option (\<lambda>i. (k, g i)) (h t)) (enumerate (length (pre @ [Option.bind (h t) g])) ts))"
    by (cases "h t") (simp_all add: List.map_filter_simps list_update_append)
  then show ?case using Cons [of "pre @ [Option.bind (h t) g]"] by simp
qed (simp add: List.map_filter_simps)

lemma fill_map_filter:
  "fill (length ts) (List.map_filter (\<lambda>(k, t). map_option (\<lambda>i. (k, g i)) (h t)) (enumerate 0 ts)) =
    map (\<lambda>t. Option.bind (h t) g) ts"
  using fill_at [of "[]" ts g h] by (simp add: fill_def)

lemma map_map_filter: "map f (List.map_filter g xs) = List.map_filter (\<lambda>x. map_option f (g x)) xs"
  by (induction xs) (auto simp: List.map_filter_simps split: option.split)

lemma fill_batch:
  "fill (length ts) (map (\<lambda>(k, i). (k, g i)) (resolve_batch n s lo hi nulls search ts)) =
    map (\<lambda>t. if in_span lo hi t then Option.bind (resolve_instant n s nulls search t) g else None) ts"
proof -
  let ?h = "\<lambda>t. if sint t < sint lo \<or> sint hi < sint t then None else resolve_instant n s nulls search t"
  have hits: "map (\<lambda>(k, i). (k, g i)) (resolve_batch n s lo hi nulls search ts) =
      List.map_filter (\<lambda>(k, t). map_option (\<lambda>i. (k, g i)) (?h t)) (enumerate 0 ts)"
    unfolding resolve_batch_def map_map_filter
    by (rule arg_cong [where f = "\<lambda>f. List.map_filter f (enumerate 0 ts)"]) (auto simp: fun_eq_iff option.map_comp comp_def)
  show ?thesis unfolding hits fill_map_filter by (auto simp: in_span_def)
qed

lemma zip_hits: "zip (map fst xs) (map f (map snd xs)) = map (\<lambda>(k, i). (k, f i)) xs"
  by (induction xs) auto

text \<open>The row a search found is the first present one that holds the instant.\<close>

definition search_exact :: "bool \<Rightarrow> delta_of_delta_column \<Rightarrow> row_search \<Rightarrow> bool" where
  "search_exact is_sorted col search \<longleftrightarrow>
    (case search of
       Closed_Form first step \<Rightarrow> is_sorted \<and> arithmetic_stride col = Some (first, step) \<and> 0 < sint step
     | Lazy_Index lz \<Rightarrow> is_sorted \<and> (time_sorted (decode_delta_of_delta col) \<longrightarrow>
         (\<forall>t accept. lazy_lookup lz t accept = first_match (decode_delta_of_delta col) t accept))
     | Decoded_Rows ts \<Rightarrow> ts = decode_delta_of_delta col)"

lemma read_row_search_exact:
  assumes "read_timestamp_column r = Inr (col, r')"
    and "read_lazy_checkpointed_ts r = Inr (None, r) \<or>
      (\<exists>lz. read_lazy_checkpointed_ts r = Inr (Some lz, r') \<and> (time_sorted (decode_delta_of_delta col) \<longrightarrow>
         (\<forall>t accept. lazy_lookup lz t accept = first_match (decode_delta_of_delta col) t accept)))"
  obtains search where "read_row_search s r = Inr (search, r')" "search_exact s col search"
proof (cases "s \<and> read_lazy_checkpointed_ts r \<noteq> Inr (None, r)")
  case True
  then obtain lz where "read_lazy_checkpointed_ts r = Inr (Some lz, r')"
    "time_sorted (decode_delta_of_delta col) \<longrightarrow>
      (\<forall>t accept. lazy_lookup lz t accept = first_match (decode_delta_of_delta col) t accept)"
    using assms(2) by blast
  then show thesis using True by (intro that [of "Lazy_Index lz"]) (simp_all add: read_row_search_def search_exact_def)
next
  case False
  then show thesis
    by (intro that [of "case sorted_stride s col of Some (first, step) \<Rightarrow> Closed_Form first step
          | None \<Rightarrow> Decoded_Rows (decode_delta_of_delta col)"])
      (auto simp: read_row_search_def assms(1) search_exact_def sorted_stride_def split: option.splits)
qed

lemma resolved_first_present:
  assumes rows: "rows_described st values ts nulls" "decode_delta_of_delta col = ts"
    and exact: "search_exact (st_time_sorted st) col search"
    and wide: "\<forall>a\<in>set ts. sint a \<le> sint t \<longrightarrow> sint t - sint a < 2 ^ 63" and low: "\<exists>a\<in>set ts. sint a \<le> sint t"
  shows "Option.bind (resolve_instant (st_row_count st) (st_time_sorted st) nulls search t) (list_get values) =
    first_present ts (nullable_loop nulls values (length ts) 0 0) t"
proof -
  have mask: "null_mask_ok nulls" "nm_row_count nulls = length ts"
    "length (filter (is_present nulls) [0..<length ts]) \<le> length values" and n: "st_row_count st = length ts"
    and asc: "st_time_sorted st = time_sorted ts"
    using rows(1) by (simp_all add: rows_described_def)
  note first_present_row = first_present_row [OF mask, of t]
  show ?thesis
  proof (cases search)
    case (Closed_Form first step)
    then have s: "time_sorted ts" "arithmetic_stride col = Some (first, step)" "0 < sint step"
      using exact asc by (simp_all add: search_exact_def)
    have ne: "0 < length ts" using low by (cases ts) auto
    have first: "first = ts ! 0" using arithmetic_stride_nth [OF s(2), of 0] ne length_decode_delta_of_delta [of col] unfolding rows(2) by simp
    have "sint first \<le> sint a" if "a \<in> set ts" for a
      using that s(1) ne unfolding first by (cases ts) auto
    then have "sint first \<le> sint t" using low by force
    moreover from this have "sint t - sint first < 2 ^ 63" using wide ne first by simp
    ultimately have "closed_form_row (length ts) nulls first step t = first_match ts t (is_present nulls)"
      using closed_form_row_match [OF s(2,3)] s(1) rows(2) by simp
    then show ?thesis
      by (simp add: Closed_Form resolve_instant_def n first_present_row split: option.split)
  next
    case (Lazy_Index lz)
    then have "lazy_lookup lz t accept = first_match ts t accept" for accept
      using exact asc rows(2) by (simp add: search_exact_def)
    moreover have "first_match ts t (\<lambda>row. row < length ts \<and> is_present nulls row) = first_match ts t (is_present nulls)"
      by (rule first_match_cong) simp
    ultimately show ?thesis by (simp add: Lazy_Index resolve_instant_def n first_present_row split: option.split)
  next
    case (Decoded_Rows ts')
    then have "ts' = ts" using exact rows(2) by (simp add: search_exact_def)
    then show ?thesis
      using point_lookup_dense_index [OF mask, of "st_time_sorted st" t] asc
      by (simp add: Decoded_Rows resolve_instant_def point_lookup_first_present length_nullable_loop split: option.splits)
  qed
qed

lemma nullable_loop_map: "nullable_loop nulls (map f present) n row cursor = map (map_option f) (nullable_loop nulls present n row cursor)"
proof (induction nulls present n row cursor rule: nullable_loop.induct)
  case step: (1 nulls present n row cursor)
  then show ?case by (simp add: nullable_loop.simps [of nulls _ n row])
qed

lemma first_present_map: "first_present ts (map (map_option f) vs) t = map_option f (first_present ts vs t)"
proof (induction ts arbitrary: vs)
  case (Cons x ts)
  then show ?case by (cases vs) (simp_all add: first_present_def split: option.split)
qed (simp add: first_present_def)

lemma read_points_answers:
  assumes holds: "section_holds D bitsliced section st values col nulls" and rows: "rows_described st values ts nulls"
    and col: "ts \<noteq> [] \<Longrightarrow> decode_delta_of_delta col = ts"
    and wide: "\<forall>a\<in>set ts. \<forall>b\<in>set ts. sint b - sint a < 2 ^ 63"
  shows "read_points_from_section D bitsliced section st q =
    Some (Inr (map (first_present ts (nullable_loop nulls (map (to_logical D) values) (length ts) 0 0)) q))"
proof -
  let ?vs = "nullable_loop nulls (map (to_logical D) values) (length ts) 0 0"
  have span: "span_of (st_min_ts st) (st_max_ts st) = span_of (iter_min ts_less ts) (iter_max ts_less ts)"
    using rows by (simp add: rows_described_def)
  show ?thesis
  proof (cases "span_of (st_min_ts st) (st_max_ts st)")
    case None
    then have "ts = []" by (simp add: span ts_order.span_None)
    then have "map (first_present ts ?vs) q = map (\<lambda>_. None) q" by (intro map_cong refl) (simp add: first_present_def)
    then have "map (first_present ts ?vs) q = replicate (length q) None" by (simp only: map_replicate_const)
    then show ?thesis using None by (simp add: read_points_from_section_def)
  next
    case (Some p)
    then obtain lo hi where p: "span_of (st_min_ts st) (st_max_ts st) = Some (lo, hi)" by (cases p) auto
    then have ends: "lo \<in> set ts" "hi \<in> set ts" "\<forall>x\<in>set ts. sint lo \<le> sint x \<and> sint x \<le> sint hi"
      using ts_order.span_bound [of ts lo hi] span by auto
    then have dec: "decode_delta_of_delta col = ts" using col by force
    have out: "first_present ts ?vs t = None" if "\<not> in_span lo hi t" for t
      using that ends(3) by (intro first_present_absent) (auto simp: in_span_def)
    show ?thesis
    proof (cases "list_ex (in_span lo hi) q")
      case False
      then have "map (first_present ts ?vs) q = replicate (length q) None"
        using out by (simp add: list_ex_iff map_replicate_const [symmetric])
      then show ?thesis using False p by (simp add: read_points_from_section_def)
    next
      case True
      obtain c r1 r2 r3 where read: "read_value_column D bitsliced (new_reader section) = Inr (c, r1)" "ce_values c = values"
        and ts: "read_timestamp_column r1 = Inr (col, r2)"
        and mask: "read_null_column (st_row_count st) (st_null_count st) r2 = Inr (nulls, r3)"
        and lazy: "read_lazy_checkpointed_ts r1 = Inr (None, r1) \<or>
          (\<exists>lz. read_lazy_checkpointed_ts r1 = Inr (Some lz, r2) \<and> (time_sorted (decode_delta_of_delta col) \<longrightarrow>
             (\<forall>t accept. lazy_lookup lz t accept = first_match (decode_delta_of_delta col) t accept)))"
        using holds unfolding section_holds_def by blast
      obtain search where search: "read_row_search (st_time_sorted st) r1 = Inr (search, r2)"
        and exact: "search_exact (st_time_sorted st) col search"
        by (rule read_row_search_exact [OF ts lazy])
      let ?batch = "resolve_batch (st_row_count st) (st_time_sorted st) lo hi nulls search q"
      let ?get = "\<lambda>i. map_option (to_logical D) (list_get values i)"
      have answer: "(if in_span lo hi t then Option.bind (resolve_instant (st_row_count st) (st_time_sorted st) nulls search t) ?get
          else None) = first_present ts ?vs t" for t
      proof (cases "in_span lo hi t")
        case inside: True
        have "Option.bind x ?get = map_option (to_logical D) (Option.bind x (list_get values))" for x by (cases x) simp_all
        moreover have near: "\<forall>a\<in>set ts. sint a \<le> sint t \<longrightarrow> sint t - sint a < 2 ^ 63"
          using wide ends(2) inside by (force simp: in_span_def)
        moreover have low: "\<exists>a\<in>set ts. sint a \<le> sint t" using ends(1) inside by (auto simp: in_span_def)
        ultimately show ?thesis
          using resolved_first_present [OF rows dec exact near low] inside by (simp add: nullable_loop_map first_present_map)
      qed (simp add: out)
      have "fill (length q) (map (\<lambda>(k, i). (k, ?get i)) ?batch) = map (first_present ts ?vs) q"
        unfolding fill_batch answer by simp
      then show ?thesis
        using p True read search mask skip_column [OF read(1)] read_values_at_column [OF read(1)]
        by (simp add: read_points_from_section_def zip_hits [symmetric] comp_def)
    qed
  qed
qed

subsection \<open>The window of rows\<close>

lemma filter_window_rows:
  "filter_window f present nulls a b row dense ts =
    window_rows a b ts (nullable_loop nulls (map f present) (row + length ts) row dense)"
proof (induction ts arbitrary: row dense)
  case (Cons t ts)
  then show ?case
    by (simp add: nullable_loop.simps [of nulls _ "Suc (row + length ts)"] in_span_def list_get_def Let_def split_def)
qed simp

lemma window_rows_zip:
  "window_rows a b ts vs =
    (map fst (filter (\<lambda>p. in_span a b (fst p)) (zip ts vs)), map snd (filter (\<lambda>p. in_span a b (fst p)) (zip ts vs)))"
  by (induction a b ts vs rule: window_rows.induct) (simp_all add: in_span_def Let_def split_def)

lemma window_rows_index:
  assumes "length vs = length ts"
  shows "window_rows a b ts vs =
    (let rows = filter (\<lambda>i. in_span a b (ts ! i)) [0..<length ts] in (map ((!) ts) rows, map ((!) vs) rows))"
proof -
  have "zip ts vs = map (\<lambda>i. (ts ! i, vs ! i)) [0..<length ts]" by (rule nth_equalityI) (simp_all add: assms)
  then show ?thesis by (simp add: window_rows_zip filter_map comp_def Let_def)
qed

lemma filter_rows_between:
  assumes "\<And>i. i < n \<Longrightarrow> P i \<longleftrightarrow> lo \<le> i \<and> i < stop" "stop \<le> n"
  shows "filter P [0..<n] = [lo..<stop]"
proof (cases "lo \<le> stop")
  case True
  then have "[0..<n] = [0..<lo] @ [lo..<stop] @ [stop..<n]"
    using assms(2) upt_add_eq_append [of 0 lo "n - lo"] upt_add_eq_append [of lo stop "n - stop"] by simp
  then show ?thesis using assms True by (simp add: filter_empty_conv filter_id_conv)
next
  case False
  then show ?thesis using assms by (force simp: filter_empty_conv)
qed

lemma list_get_window: "k < n \<Longrightarrow> list_get (take n (drop d xs)) k = list_get xs (d + k)"
  by (auto simp: list_get_def)

lemma window_loop_rows:
  assumes "stop \<le> length vs" "length vs \<le> max_rows"
    and vs: "\<And>i. i < length vs \<Longrightarrow> vs ! i = (if is_present nulls i then map_option f (list_get present (rank i)) else None)"
    and rank: "\<And>i. rank (Suc i) = (if is_present nulls i then Suc (rank i) else rank i)"
    and "lo \<le> row" "row \<le> stop"
  shows "window_loop f (take (rank stop - rank lo) (drop (rank lo) present)) nulls first step (rank row - rank lo) [row..<stop] =
    (map (\<lambda>i. first + of_nat i * step) [row..<stop], map ((!) vs) [row..<stop])"
  using assms(5,6)
proof (induction "stop - row" arbitrary: row)
  case (Suc d)
  have mono: "rank i \<le> rank j" if "i \<le> j" for i j using lift_Suc_mono_le [of rank, OF _ that] by (simp add: rank)
  have row: "row < stop" using Suc.hyps by simp
  have upt: "[row..<stop] = row # [Suc row..<stop]" using row by (simp add: upt_conv_Cons)
  have small: "row < 2 ^ 63" using row assms(1,2) by (simp add: max_rows_def)
  have le: "rank lo \<le> rank row" "rank (Suc row) \<le> rank stop" using mono Suc.prems row by simp_all
  have "window_loop f (take (rank stop - rank lo) (drop (rank lo) present)) nulls first step (rank (Suc row) - rank lo) [Suc row..<stop] =
    (map (\<lambda>i. first + of_nat i * step) [Suc row..<stop], map ((!) vs) [Suc row..<stop])"
    using Suc.hyps Suc.prems row by (intro Suc.hyps(1)) simp_all
  then show ?case
    using le vs [of row] rank [of row] row assms(1) small
    by (cases "is_present nulls row") (simp_all add: upt Let_def Suc_diff_le list_get_window del: upt_Suc)
qed simp

lemma int_le_div_iff:
  assumes "0 < (s :: int)"
  shows "i \<le> y div s \<longleftrightarrow> i * s \<le> y"
proof
  assume "i \<le> y div s"
  then have "i * s \<le> y div s * s" using assms by simp
  also have "\<dots> \<le> y" using assms pos_mod_sign [of s y] div_mult_mod_eq [of y s] by linarith
  finally show "i * s \<le> y" .
next
  assume "i * s \<le> y"
  then show "i \<le> y div s" using zdiv_mono1 [of "i * s" y s] assms by simp
qed

lemma ceiling_div:
  assumes "0 < (s :: int)"
  shows "(if x mod s = 0 then x div s else x div s + 1) \<le> i \<longleftrightarrow> x \<le> i * s"
proof -
  have "x div s + 1 \<le> i \<longleftrightarrow> x < i * s" using int_le_div_iff [OF assms, of i x] by linarith
  moreover have "x div s \<le> i \<longleftrightarrow> x \<le> i * s" if "x mod s = 0"
  proof -
    have "x = x div s * s" using that by (simp add: mod_eq_0_iff_dvd)
    then show ?thesis using assms by (metis mult_le_cancel_right_pos)
  qed
  moreover have "x \<noteq> i * s" if "x mod s \<noteq> 0" using that by auto
  ultimately show ?thesis by auto
qed

lemma regular_window:
  assumes T: "\<And>i. i < n \<Longrightarrow> sint (T i) = sint first + int i * sint step" and step: "0 < sint step"
    and n: "0 < n" "n \<le> max_rows"
  shows "window_hi n first step b < n"
    "filter (\<lambda>i. in_span a b (T i)) [0..<n] =
      (if sint b < sint first then [] else [window_lo first step a..<window_hi n first step b + 1])"
proof -
  have last_row: "(n + usize_max) mod 2 ^ 64 = n - 1"
  proof -
    have "n + usize_max = (n - 1) + 2 ^ 64" using n(1) by (simp add: usize_max_def)
    then have "(n + usize_max) mod 2 ^ 64 = (n - 1) mod 2 ^ 64" by (simp only: mod_add_self2)
    then show ?thesis using n(2) by (simp add: max_rows_def)
  qed
  then have eq: "window_hi n first step b = min (min (nat ((sint b - sint first) div sint step)) usize_max) (n - 1)"
    by (simp only: window_hi_def)
  then show hi: "window_hi n first step b < n" using n(1) by simp
  have small: "i < usize_max" if "i < n" for i using that n(2) by (simp add: max_rows_def usize_max_def)
  have lo: "window_lo first step a \<le> i \<longleftrightarrow> sint a \<le> sint first + int i * sint step" if "i < n" for i
  proof (cases "sint a - sint first \<le> 0")
    case True
    moreover have "0 \<le> int i * sint step" using step by simp
    ultimately show ?thesis by (simp add: window_lo_def)
  next
    case False
    then show ?thesis
      using small [OF that] ceiling_div [OF step, of "sint a - sint first" "int i"]
      by (auto simp: window_lo_def Let_def min_le_iff_disj nat_le_iff split: if_splits)
  qed
  have up: "i \<le> window_hi n first step b \<longleftrightarrow> int i * sint step \<le> sint b - sint first" if "i < n" "sint first \<le> sint b" for i
    using small [OF that(1)] that n(1) int_le_div_iff [OF step, of "int i" "sint b - sint first"]
    by (auto simp: eq le_nat_iff pos_imp_zdiv_nonneg_iff step)
  show "filter (\<lambda>i. in_span a b (T i)) [0..<n] =
      (if sint b < sint first then [] else [window_lo first step a..<window_hi n first step b + 1])"
  proof (cases "sint b < sint first")
    case True
    have "\<not> in_span a b (T i)" if "i < n" for i
    proof -
      have "0 \<le> int i * sint step" using step by simp
      then show ?thesis using True T [OF that] by (simp add: in_span_def)
    qed
    then show ?thesis using True by (simp add: filter_empty_conv)
  next
    case False
    have "in_span a b (T i) \<longleftrightarrow> window_lo first step a \<le> i \<and> i < window_hi n first step b + 1" if "i < n" for i
      using lo [OF that] up [OF that] T [OF that] False by (auto simp: in_span_def)
    then show ?thesis using False hi filter_rows_between [of n] by simp
  qed
qed

lemma closed_form_window_rows:
  assumes read: "read_value_column D bitsliced (new_reader section) = Inr (c, r)" "ce_values c = present"
    and rows: "rows_described st present ts nulls" "decode_delta_of_delta col = ts" "length ts \<le> max_rows" "ts \<noteq> []"
    and stride: "arithmetic_stride col = Some (first, step)" "0 < sint step" "time_sorted ts"
  shows "closed_form_window D bitsliced section (length ts) nulls first step a b f =
    Inr (window_rows a b ts (nullable_loop nulls (map f present) (length ts) 0 0))"
proof -
  let ?n = "length ts" and ?V = "nullable_loop nulls (map f present) (length ts) 0 0"
  let ?lo = "window_lo first step a" and ?hi = "window_hi (length ts) first step b"
  let ?rank = "\<lambda>i. length (filter (is_present nulls) [0..<i])"
  have mask: "null_mask_ok nulls" "nm_row_count nulls = ?n" using rows(1) by (simp_all add: rows_described_def)
  have T: "sint (ts ! i) = sint first + int i * sint step" if "i < ?n" for i
    using regular_rows [OF stride(1,2)] stride(3) that rows(2) by simp
  have ne: "0 < ?n" using rows(4) by simp
  note hi = regular_window(1) [OF T stride(2) ne rows(3), of b]
  have shown: "window_rows a b ts ?V = (if sint b < sint first then ([], [])
      else (map ((!) ts) [?lo..<?hi + 1], map ((!) ?V) [?lo..<?hi + 1]))"
    using regular_window(2) [OF T stride(2) ne rows(3), of a b]
    by (subst window_rows_index) (simp_all add: length_nullable_loop)
  show ?thesis
  proof (cases "sint b < sint first \<or> ?hi < ?lo")
    case True
    then show ?thesis by (auto simp: closed_form_window_def Let_def shown)
  next
    case False
    have rank: "dense_rank nulls i = ?rank i" if "i \<le> ?n" for i using dense_rank_count [OF mask(1)] mask(2) that by simp
    have wrap: "(?hi + 1) mod 2 ^ 64 = ?hi + 1" using hi rows(3) by (simp add: max_rows_def)
    let ?window = "take (?rank (?hi + 1) - ?rank ?lo) (drop (?rank ?lo) present)"
    have V: "?V ! i = (if is_present nulls i then map_option f (list_get present (?rank i)) else None)" if "i < length ?V" for i
      using nullable_loop_nth [of 0 i ?n nulls "map f present" 0] that by (simp add: length_nullable_loop list_get_map)
    have "window_loop f ?window nulls first step (?rank ?lo - ?rank ?lo) [?lo..<?hi + 1] =
        (map (\<lambda>i. first + of_nat i * step) [?lo..<?hi + 1], map ((!) ?V) [?lo..<?hi + 1])"
      using hi False rows(3) by (intro window_loop_rows V) (simp_all add: length_nullable_loop)
    moreover have "map (\<lambda>i. first + of_nat i * step) [?lo..<?hi + 1] = map ((!) ts) [?lo..<?hi + 1]"
    proof (rule map_cong [OF refl])
      fix i assume "i \<in> set [?lo..<?hi + 1]"
      then have "i < ?n" using hi by (auto simp del: upt_Suc)
      then show "first + of_nat i * step = ts ! i"
        using arithmetic_stride_nth [OF stride(1), of i] length_decode_delta_of_delta [of col] unfolding rows(2) by simp
    qed
    moreover have "read_value_range D bitsliced section (dense_rank nulls ?lo) (dense_rank nulls (?hi + 1) - dense_rank nulls ?lo) = Inr ?window"
      using read_value_range_column [OF read(1)] read(2) rank hi False by simp
    ultimately have "closed_form_window D bitsliced section ?n nulls first step a b f =
        Inr (map ((!) ts) [?lo..<?hi + 1], map ((!) ?V) [?lo..<?hi + 1])"
      using False unfolding closed_form_window_def Let_def wrap by (simp del: upt_Suc)
    then show ?thesis using False by (simp only: shown) simp
  qed
qed

lemma full_filtered_rows:
  assumes "section_holds D bitsliced section st present col nulls"
  shows "full_filtered D bitsliced section st a b f =
    Inr (window_rows a b (decode_delta_of_delta col) (nullable_loop nulls (map f present) (length (decode_delta_of_delta col)) 0 0))"
  using assms by (auto simp: section_holds_def full_filtered_def filter_window_rows)

lemma read_range_answers:
  assumes holds: "section_holds D bitsliced section st present col nulls" and rows: "rows_described st present ts nulls"
    and col: "ts \<noteq> [] \<Longrightarrow> decode_delta_of_delta col = ts" and n: "length ts \<le> max_rows"
  shows "read_range_from_section_with D bitsliced section st a b f =
    Inr (window_rows a b ts (nullable_loop nulls (map f present) (length ts) 0 0))"
proof -
  let ?V = "nullable_loop nulls (map f present) (length ts) 0 0"
  have span: "span_of (st_min_ts st) (st_max_ts st) = span_of (iter_min ts_less ts) (iter_max ts_less ts)"
    using rows by (simp add: rows_described_def)
  show ?thesis
  proof (cases "span_of (st_min_ts st) (st_max_ts st)")
    case None
    then have "ts = []" by (simp add: span ts_order.span_None)
    then show ?thesis using None by (simp add: read_range_from_section_with_def)
  next
    case (Some p)
    then obtain lo hi where p: "span_of (st_min_ts st) (st_max_ts st) = Some (lo, hi)" by (cases p) auto
    then have ends: "lo \<in> set ts" "\<forall>x\<in>set ts. sint lo \<le> sint x \<and> sint x \<le> sint hi"
      using ts_order.span_bound [of ts lo hi] span by auto
    then have ne: "ts \<noteq> []" and dec: "decode_delta_of_delta col = ts" using col by force+
    show ?thesis
    proof (cases "sint b < sint lo \<or> sint hi < sint a")
      case True
      then have "window_rows a b ts ?V = ([], [])" using ends(2) by (intro window_rows_none) force
      then show ?thesis using True p by (simp add: read_range_from_section_with_def)
    next
      case False
      note full = full_filtered_rows [OF holds, of a b f, unfolded dec]
      obtain c r1 r2 r3 where read: "read_value_column D bitsliced (new_reader section) = Inr (c, r1)" "ce_values c = present"
        and ts: "read_timestamp_column r1 = Inr (col, r2)"
        and mask: "read_null_column (st_row_count st) (st_null_count st) r2 = Inr (nulls, r3)"
        using holds unfolding section_holds_def by blast
      have asc: "st_time_sorted st = time_sorted ts" and rc: "st_row_count st = length ts" using rows by (simp_all add: rows_described_def)
      show ?thesis
      proof (cases "value_block_has_random_access_codec D section")
        case True
        note skip = skip_column [OF read(1) True]
        show ?thesis
        proof (cases "sorted_stride (st_time_sorted st) col")
          case None
          then show ?thesis using False True p full skip ts mask by (simp add: read_range_from_section_with_def)
        next
          case (Some q)
          then obtain first step where q: "sorted_stride (st_time_sorted st) col = Some (first, step)" by (cases q) auto
          then have s: "time_sorted ts" "arithmetic_stride col = Some (first, step)" "0 < sint step"
            using asc by (auto simp: sorted_stride_def split: if_splits option.splits)
          show ?thesis
            using False True p q skip ts mask closed_form_window_rows [OF read rows dec n ne s(2,3,1), of a b f] rc
            by (simp add: read_range_from_section_with_def)
        qed
      next
        case other: False
        then show ?thesis using False p full by (simp add: read_range_from_section_with_def)
      qed
    qed
  qed
qed

subsection \<open>Properties\<close>

text \<open>
  C40: In every regular time-ordered column of positive step, a present row whose offset from the
  first row is 2^63 or more is missed by the closed form of the batch readers, because the wrapped
  difference is negative there; the search of the decoded rows finds that very row. Rows less than
  2^63 away are found by both.
\<close>

theorem regular_read_misses_far_row:
  assumes "arithmetic_stride col = Some (first, step)" "0 < sint step" "time_sorted (decode_delta_of_delta col)"
    and "i < length (decode_delta_of_delta col)" "is_present nulls i"
  shows "first_match (decode_delta_of_delta col) (decode_delta_of_delta col ! i) (is_present nulls) = Some i \<and>
    closed_form_row (length (decode_delta_of_delta col)) nulls first step (decode_delta_of_delta col ! i) =
      (if sint (decode_delta_of_delta col ! i) - sint first < 2 ^ 63 then Some i else None)"
  by (rule closed_form_row_far [OF assms])

theorem regular_read_misses_far_row_witness:
  "(let col = encode_delta_of_delta [0x8000000000000000, 0xE000000000000000, 0x4000000000000000] Nanos in
     first_match (decode_delta_of_delta col) 0x4000000000000000 (is_present (all_present 3)) = Some 2 \<and>
     closed_form_row 3 (all_present 3) 0x8000000000000000 0x6000000000000000 0x4000000000000000 = None)"
proof -
  let ?col = "encode_delta_of_delta [0x8000000000000000, 0xE000000000000000, 0x4000000000000000] Nanos"
  have rows: "decode_delta_of_delta ?col = [0x8000000000000000, 0xE000000000000000, 0x4000000000000000]" by code_simp
  have col: "arithmetic_stride ?col = Some (0x8000000000000000, 0x6000000000000000)" "0 < sint (0x6000000000000000 :: i64)"
    "time_sorted (decode_delta_of_delta ?col)" by code_simp+
  have far: "\<not> sint (0x4000000000000000 :: i64) - sint (0x8000000000000000 :: i64) < 2 ^ 63" "is_present (all_present 3) 2" by code_simp+
  show ?thesis
    using regular_read_misses_far_row [OF col, of 2 "all_present 3"] far by (simp add: Let_def rows eval_nat_numeral)
qed

end
