(* ===== verification/Frame_Reads.thy ===== *)
theory Frame_Reads imports Section_Reads begin

text \<open>
  The point, batch and range readers over whole frames of \<^verbatim>\<open>weft-physical-type/src/weftseg.rs\<close>: a single-block
  frame, a paged frame whose index lets pages be skipped, and either one inside an envelope. They answer
  what the decoded rows answer, without reading the columns they can skip.
\<close>

subsection \<open>A single-block frame\<close>

text \<open>What every reader of the layout does first: the section runs from the position behind the statistics.\<close>

definition open_section :: "'d decimal_ops \<Rightarrow> u8 list \<Rightarrow> weft_seg_error + 'd segment_stats \<times> u8 list" where
  "open_section D bytes =
    rbind (open_body segment_format_version bytes) (\<lambda>body r.
    rbind (read_segment_stats D r) (\<lambda>st r. Inr (st, drop (br_pos r) body)))"

definition read_segment_point :: "'d decimal_ops \<Rightarrow> bool \<Rightarrow> u8 list \<Rightarrow> i64 \<Rightarrow> (weft_seg_error + 'd option) option" where
  "read_segment_point D bitsliced bytes t =
    (case open_section D bytes of
       Inl e \<Rightarrow> Some (Inl e)
     | Inr (st, section) \<Rightarrow>
         if stats_is_all_null st then Some (Inr None) else read_point_from_section D bitsliced section st t)"

definition read_segment_points :: "'d decimal_ops \<Rightarrow> bool \<Rightarrow> u8 list \<Rightarrow> i64 list \<Rightarrow> (weft_seg_error + 'd option list) option" where
  "read_segment_points D bitsliced bytes ts =
    (case open_section D bytes of
       Inl e \<Rightarrow> Some (Inl e)
     | Inr (st, section) \<Rightarrow>
         if stats_is_all_null st then Some (Inr (replicate (length ts) None))
         else read_points_from_section D bitsliced section st ts)"

definition read_segment_range_with :: "'d decimal_ops \<Rightarrow> bool \<Rightarrow> u8 list \<Rightarrow> i64 \<Rightarrow> i64 \<Rightarrow> (physical_value \<Rightarrow> 'v) \<Rightarrow>
    weft_seg_error + i64 list \<times> 'v option list" where
  "read_segment_range_with D bitsliced bytes from_ts to_ts f =
    (case open_section D bytes of
       Inl e \<Rightarrow> Inl e
     | Inr (st, section) \<Rightarrow> read_range_from_section_with D bitsliced section st from_ts to_ts f)"

definition read_segment_range :: "'d decimal_ops \<Rightarrow> bool \<Rightarrow> u8 list \<Rightarrow> i64 \<Rightarrow> i64 \<Rightarrow> weft_seg_error + i64 list \<times> 'd option list" where
  "read_segment_range D bitsliced bytes from_ts to_ts = read_segment_range_with D bitsliced bytes from_ts to_ts (to_logical D)"

definition read_segment_range_physical :: "'d decimal_ops \<Rightarrow> bool \<Rightarrow> u8 list \<Rightarrow> i64 \<Rightarrow> i64 \<Rightarrow>
    weft_seg_error + i64 list \<times> physical_value option list" where
  "read_segment_range_physical D bitsliced bytes from_ts to_ts = read_segment_range_with D bitsliced bytes from_ts to_ts (\<lambda>v. v)"

subsection \<open>A paged frame\<close>

definition open_paged :: "'d decimal_ops \<Rightarrow> u8 list \<Rightarrow> weft_seg_error + ('d segment_stats \<times> u8 list) \<times> byte_reader" where
  "open_paged D bytes =
    rbind (open_body paged_segment_format_version bytes) (\<lambda>body r.
    rbind (read_uvarint r) (\<lambda>rows_per_page r.
    rbind (read_segment_stats D r) (\<lambda>seg_stats r. Inr ((seg_stats, body), r))))"

definition stats_contain :: "'d segment_stats \<Rightarrow> i64 \<Rightarrow> bool" where
  "stats_contain st t = (case span_of (st_min_ts st) (st_max_ts st) of Some (lo, hi) \<Rightarrow> in_span lo hi t | None \<Rightarrow> False)"

definition stats_meet :: "'d segment_stats \<Rightarrow> i64 \<Rightarrow> i64 \<Rightarrow> bool" where
  "stats_meet st from_ts to_ts =
    (case span_of (st_min_ts st) (st_max_ts st) of
       Some (lo, hi) \<Rightarrow> sint lo \<le> sint to_ts \<and> sint from_ts \<le> sint hi | None \<Rightarrow> False)"

text \<open>\<open>body.get(block_start..block_start + block_len)\<close>; the offsets are machine sums.\<close>

definition page_section :: "u8 list \<Rightarrow> nat \<Rightarrow> nat \<Rightarrow> weft_seg_error + u8 list" where
  "page_section body block_start block_len =
    (let stop = (block_start + block_len) mod 2 ^ 64 in
     if block_start \<le> stop \<and> stop \<le> length body then Inr (take (stop - block_start) (drop block_start body))
     else Inl (UnexpectedEof block_len (length body - block_start)))"

fun paged_point_loop :: "'d decimal_ops \<Rightarrow> bool \<Rightarrow> u8 list \<Rightarrow> i64 \<Rightarrow> ('d segment_stats \<times> nat) list \<Rightarrow> nat \<Rightarrow>
    (weft_seg_error + 'd option) option" where
  "paged_point_loop D bitsliced body t [] block_start = Some (Inr None)"
| "paged_point_loop D bitsliced body t ((page_stats, block_len) # index) block_start =
    (let skip = paged_point_loop D bitsliced body t index ((block_start + block_len) mod 2 ^ 64) in
     if stats_contain page_stats t \<and> \<not> stats_is_all_null page_stats
     then (case page_section body block_start block_len of
         Inl e \<Rightarrow> Some (Inl e)
       | Inr section \<Rightarrow>
           (case read_point_from_section D bitsliced section page_stats t of
              None \<Rightarrow> None
            | Some (Inl e) \<Rightarrow> Some (Inl e)
            | Some (Inr (Some v)) \<Rightarrow> Some (Inr (Some v))
            | Some (Inr None) \<Rightarrow> skip))
     else skip)"

definition read_paged_segment_point :: "'d decimal_ops \<Rightarrow> bool \<Rightarrow> u8 list \<Rightarrow> i64 \<Rightarrow> (weft_seg_error + 'd option) option" where
  "read_paged_segment_point D bitsliced bytes t =
    (case open_paged D bytes of
       Inl e \<Rightarrow> Some (Inl e)
     | Inr ((seg_stats, body), r) \<Rightarrow>
         if \<not> stats_contain seg_stats t \<or> stats_is_all_null seg_stats then Some (Inr None)
         else (case read_page_index D r of
             Inl e \<Rightarrow> Some (Inl e)
           | Inr (index, r) \<Rightarrow> paged_point_loop D bitsliced body t index (br_pos r)))"

text \<open>A slot takes the first hit; \<open>resolved\<close> remembers which have one.\<close>

definition take_hits :: "'v option list \<Rightarrow> bool list \<Rightarrow> 'v option list \<Rightarrow> 'v option list \<times> bool list" where
  "take_hits out resolved hits =
    (let slots = map (\<lambda>((slot, done), hit). if \<not> done \<and> hit \<noteq> None then (hit, True) else (slot, done)) (zip (zip out resolved) hits)
     in (map fst slots, map snd slots))"

fun paged_points_loop :: "'d decimal_ops \<Rightarrow> bool \<Rightarrow> u8 list \<Rightarrow> i64 list \<Rightarrow> ('d segment_stats \<times> nat) list \<Rightarrow> nat \<Rightarrow>
    'd option list \<Rightarrow> bool list \<Rightarrow> (weft_seg_error + 'd option list) option" where
  "paged_points_loop D bitsliced body ts [] block_start out resolved = Some (Inr out)"
| "paged_points_loop D bitsliced body ts ((page_stats, block_len) # index) block_start out resolved =
    (let block_start' = (block_start + block_len) mod 2 ^ 64 in
     if span_of (st_min_ts page_stats) (st_max_ts page_stats) \<noteq> None \<and> \<not> stats_is_all_null page_stats \<and>
       list_ex (\<lambda>(t, done). \<not> done \<and> stats_contain page_stats t) (zip ts resolved)
     then (case page_section body block_start block_len of
         Inl e \<Rightarrow> Some (Inl e)
       | Inr section \<Rightarrow>
           (case read_points_from_section D bitsliced section page_stats ts of
              None \<Rightarrow> None
            | Some (Inl e) \<Rightarrow> Some (Inl e)
            | Some (Inr hits) \<Rightarrow>
                (let (out, resolved) = take_hits out resolved hits
                 in paged_points_loop D bitsliced body ts index block_start' out resolved)))
     else paged_points_loop D bitsliced body ts index block_start' out resolved)"

definition read_paged_segment_points :: "'d decimal_ops \<Rightarrow> bool \<Rightarrow> u8 list \<Rightarrow> i64 list \<Rightarrow>
    (weft_seg_error + 'd option list) option" where
  "read_paged_segment_points D bitsliced bytes ts =
    (let none = replicate (length ts) None in
     case open_paged D bytes of
       Inl e \<Rightarrow> Some (Inl e)
     | Inr ((seg_stats, body), r) \<Rightarrow>
         if \<not> list_ex (stats_contain seg_stats) ts \<or> stats_is_all_null seg_stats then Some (Inr none)
         else (case read_page_index D r of
             Inl e \<Rightarrow> Some (Inl e)
           | Inr (index, r) \<Rightarrow>
               paged_points_loop D bitsliced body ts index (br_pos r) none (replicate (length ts) False)))"

fun paged_range_loop :: "'d decimal_ops \<Rightarrow> bool \<Rightarrow> u8 list \<Rightarrow> i64 \<Rightarrow> i64 \<Rightarrow> (physical_value \<Rightarrow> 'v) \<Rightarrow>
    ('d segment_stats \<times> nat) list \<Rightarrow> nat \<Rightarrow> i64 list \<Rightarrow> 'v option list \<Rightarrow> weft_seg_error + i64 list \<times> 'v option list" where
  "paged_range_loop D bitsliced body from_ts to_ts f [] block_start timestamps vals = Inr (timestamps, vals)"
| "paged_range_loop D bitsliced body from_ts to_ts f ((page_stats, block_len) # index) block_start timestamps vals =
    (let block_start' = (block_start + block_len) mod 2 ^ 64 in
     if stats_meet page_stats from_ts to_ts
     then (case page_section body block_start block_len of
         Inl e \<Rightarrow> Inl e
       | Inr section \<Rightarrow>
           (case read_range_from_section_with D bitsliced section page_stats from_ts to_ts f of
              Inl e \<Rightarrow> Inl e
            | Inr (pt, pv) \<Rightarrow> paged_range_loop D bitsliced body from_ts to_ts f index block_start' (timestamps @ pt) (vals @ pv)))
     else paged_range_loop D bitsliced body from_ts to_ts f index block_start' timestamps vals)"

definition read_paged_segment_range_with :: "'d decimal_ops \<Rightarrow> bool \<Rightarrow> u8 list \<Rightarrow> i64 \<Rightarrow> i64 \<Rightarrow> (physical_value \<Rightarrow> 'v) \<Rightarrow>
    weft_seg_error + i64 list \<times> 'v option list" where
  "read_paged_segment_range_with D bitsliced bytes from_ts to_ts f =
    (case open_paged D bytes of
       Inl e \<Rightarrow> Inl e
     | Inr ((seg_stats, body), r) \<Rightarrow>
         if \<not> stats_meet seg_stats from_ts to_ts then Inr ([], [])
         else (case read_page_index D r of
             Inl e \<Rightarrow> Inl e
           | Inr (index, r) \<Rightarrow> paged_range_loop D bitsliced body from_ts to_ts f index (br_pos r) [] []))"

definition read_paged_segment_range :: "'d decimal_ops \<Rightarrow> bool \<Rightarrow> u8 list \<Rightarrow> i64 \<Rightarrow> i64 \<Rightarrow> weft_seg_error + i64 list \<times> 'd option list" where
  "read_paged_segment_range D bitsliced bytes from_ts to_ts = read_paged_segment_range_with D bitsliced bytes from_ts to_ts (to_logical D)"

definition read_paged_segment_range_physical :: "'d decimal_ops \<Rightarrow> bool \<Rightarrow> u8 list \<Rightarrow> i64 \<Rightarrow> i64 \<Rightarrow>
    weft_seg_error + i64 list \<times> physical_value option list" where
  "read_paged_segment_range_physical D bitsliced bytes from_ts to_ts =
    read_paged_segment_range_with D bitsliced bytes from_ts to_ts (\<lambda>v. v)"

subsection \<open>A frame of either layout, wrapped or not\<close>

definition read_frame_segment :: "'d decimal_ops \<Rightarrow> bool \<Rightarrow> u8 list \<Rightarrow> weft_seg_error + 'd wseg" where
  "read_frame_segment D bitsliced bytes =
    (case unwrap_frame_envelope bytes of Inl e \<Rightarrow> Inl e | Inr body \<Rightarrow> read_segment D bitsliced body)"

definition read_frame_paged_segment :: "'d decimal_ops \<Rightarrow> bool \<Rightarrow> u8 list \<Rightarrow> weft_seg_error + 'd wpaged" where
  "read_frame_paged_segment D bitsliced bytes =
    (case unwrap_frame_envelope bytes of Inl e \<Rightarrow> Inl e | Inr body \<Rightarrow> read_paged_segment D bitsliced body)"

definition read_frame_point :: "'d decimal_ops \<Rightarrow> bool \<Rightarrow> u8 list \<Rightarrow> i64 \<Rightarrow> (weft_seg_error + 'd option) option" where
  "read_frame_point D bitsliced bytes t =
    (case read_frame_body bytes of
       Inl e \<Rightarrow> Some (Inl e)
     | Inr (body, SingleBlock) \<Rightarrow> read_segment_point D bitsliced body t
     | Inr (body, Paged) \<Rightarrow> read_paged_segment_point D bitsliced body t)"

definition read_frame_points :: "'d decimal_ops \<Rightarrow> bool \<Rightarrow> u8 list \<Rightarrow> i64 list \<Rightarrow> (weft_seg_error + 'd option list) option" where
  "read_frame_points D bitsliced bytes ts =
    (case read_frame_body bytes of
       Inl e \<Rightarrow> Some (Inl e)
     | Inr (body, SingleBlock) \<Rightarrow> read_segment_points D bitsliced body ts
     | Inr (body, Paged) \<Rightarrow> read_paged_segment_points D bitsliced body ts)"

definition read_frame_range :: "'d decimal_ops \<Rightarrow> bool \<Rightarrow> u8 list \<Rightarrow> i64 \<Rightarrow> i64 \<Rightarrow> weft_seg_error + i64 list \<times> 'd option list" where
  "read_frame_range D bitsliced bytes from_ts to_ts =
    (case read_frame_body bytes of
       Inl e \<Rightarrow> Inl e
     | Inr (body, SingleBlock) \<Rightarrow> read_segment_range D bitsliced body from_ts to_ts
     | Inr (body, Paged) \<Rightarrow> read_paged_segment_range D bitsliced body from_ts to_ts)"

definition read_frame_range_physical :: "'d decimal_ops \<Rightarrow> bool \<Rightarrow> u8 list \<Rightarrow> i64 \<Rightarrow> i64 \<Rightarrow>
    weft_seg_error + i64 list \<times> physical_value option list" where
  "read_frame_range_physical D bitsliced bytes from_ts to_ts =
    (case read_frame_body bytes of
       Inl e \<Rightarrow> Inl e
     | Inr (body, SingleBlock) \<Rightarrow> read_segment_range_physical D bitsliced body from_ts to_ts
     | Inr (body, Paged) \<Rightarrow> read_paged_segment_range_physical D bitsliced body from_ts to_ts)"

subsection \<open>What the statistics say of the rows\<close>

lemma rows_described_same: "same_stats val st st' \<Longrightarrow> rows_described st present ts nulls \<Longrightarrow> rows_described st' present ts nulls"
  by (simp add: rows_described_def same_stats_def)

lemma built_rows_described:
  assumes "length ts = length vs" "length present = length (flatten_present vs)"
  shows "rows_described (from_columns_nullable ts (flatten_present vs) (nm_null_count (from_presence (map (\<lambda>v. v \<noteq> None) vs))))
    present ts (from_presence (map (\<lambda>v. v \<noteq> None) vs))"
proof -
  let ?nulls = "from_presence (map (\<lambda>v. v \<noteq> None) vs)"
  have rows: "nm_row_count ?nulls = length ts" using assms(1) by (auto simp: from_presence_def all_present_def Let_def)
  have "map (is_present ?nulls) [0..<length vs] = map (\<lambda>v. v \<noteq> None) vs"
    by (rule nth_equalityI) (simp_all add: is_present_from_presence del: not_None_eq)
  then have "length (filter (is_present ?nulls) [0..<length vs]) = length (filter (\<lambda>v. v \<noteq> None) vs)"
    using length_filter_map [of "\<lambda>b. b" "is_present ?nulls"] length_filter_map [of "\<lambda>b. b" "\<lambda>v. v \<noteq> None" vs]
    by (metis (no_types, lifting) comp_def filter_cong)
  also have "\<dots> = length (flatten_present vs)" by (induction vs rule: flatten_present.induct) simp_all
  finally show ?thesis
    using assms rows null_mask_ok_from_presence [of "map (\<lambda>v. v \<noteq> None) vs"] by (simp add: rows_described_def stats_fields)
qed

lemma built_timestamps: "ts \<noteq> [] \<Longrightarrow> decode_delta_of_delta (encode_delta_of_delta ts unit) = ts"
  by (rule decode_encode_delta_of_delta)

lemma all_null_rows:
  assumes rows: "rows_described st present ts nulls" and null: "stats_is_all_null st"
  shows "first_present ts (nullable_loop nulls vs (length ts) 0 0) t = None"
proof -
  have mask: "null_mask_ok nulls" "nm_row_count nulls = length ts" "nm_null_count nulls = length ts" "0 < length ts"
    using rows null by (simp_all add: rows_described_def stats_is_all_null_def)
  then obtain bits where bits: "nm_bits nulls = Some bits" by (auto simp: null_mask_ok_def split: option.splits)
  then have "length (filter (\<lambda>i. \<not> is_present nulls i) [0..<length ts]) = length [0..<length ts]"
    using mask by (simp add: null_mask_ok_def)
  then have absent: "\<not> is_present nulls i" if "i < length ts" for i
    using that by (metis (no_types, lifting) filter_id_conv length_filter_less atLeastLessThan_iff less_irrefl set_upt zero_le)
  have "(nullable_loop nulls vs (length ts) 0 0) ! i = None" if "i < length ts" for i
    using nullable_loop_nth [of 0 i "length ts" nulls vs 0] absent that by simp
  then show ?thesis
    unfolding first_present_def by (intro find_map_None) (auto simp: set_zip length_nullable_loop)
qed

subsection \<open>A written single-block frame answers its rows\<close>

lemma opened_section:
  assumes laws: "decimal_laws D val" and ok: "seg_ok D seg" "options_ok opts"
  obtains st where "open_section D (write_segment_with D bitsliced seg opts) =
      Inr (st, column_section D bitsliced (sg_values seg) (sg_timestamps seg) (sg_nulls seg) opts)"
    "same_stats val (sg_stats seg) st"
proof -
  have st_ok: "stats_ok D (sg_stats seg)" and v: "sg_version seg = segment_format_version"
    using ok(1) by (simp_all add: seg_ok_def columns_ok_def)
  obtain st where st: "same_stats val (sg_stats seg) st"
    "\<And>pre s. read_segment_stats D (rd pre (write_segment_stats D (sg_stats seg) @ s)) = Inr (st, rd (pre @ write_segment_stats D (sg_stats seg)) s)"
    by (rule stats_round_trip [OF laws st_ok], rule that, assumption+)
  have "open_section D (write_segment_with D bitsliced seg opts) =
      Inr (st, column_section D bitsliced (sg_values seg) (sg_timestamps seg) (sg_nulls seg) opts)"
    unfolding write_segment_with_section put_frame_prefix v open_section_def
    by (simp only: open_body_put [OF refl] rbind.simps st(2)) (simp add: rd_def)
  then show thesis using st(1) by (rule that)
qed

lemma point_from_points:
  "read_points_from_section D bitsliced section st [t] = Some (Inr [v]) \<Longrightarrow> read_point_from_section D bitsliced section st t = Some (Inr v)"
  by (simp add: read_point_from_section_def)

lemma segment_frame_answers:
  fixes f :: "physical_value \<Rightarrow> 'v"
  assumes laws: "decimal_laws D val" and ok: "seg_ok D seg" "options_ok opts"
    and rows: "rows_described (sg_stats seg) (ce_values (sg_values seg)) ts (sg_nulls seg)"
    and col: "ts \<noteq> [] \<longrightarrow> decode_delta_of_delta (sg_timestamps seg) = ts" and n: "length ts \<le> max_rows"
  shows "\<forall>a\<in>set ts. \<forall>b\<in>set ts. sint b - sint a < 2 ^ 63 \<Longrightarrow>
      read_segment_points D bitsliced (write_segment_with D bitsliced seg opts) q =
        Some (Inr (map (first_present ts (nullable_loop (sg_nulls seg) (decode_column D (sg_values seg)) (length ts) 0 0)) q))"
    and "\<forall>a\<in>set ts. \<forall>b\<in>set ts. sint b - sint a < 2 ^ 63 \<Longrightarrow>
      read_segment_point D bitsliced (write_segment_with D bitsliced seg opts) t =
        Some (Inr (first_present ts (nullable_loop (sg_nulls seg) (decode_column D (sg_values seg)) (length ts) 0 0) t))"
    and "read_segment_range_with D bitsliced (write_segment_with D bitsliced seg opts) x y f =
        Inr (window_rows x y ts (nullable_loop (sg_nulls seg) (map f (ce_values (sg_values seg))) (length ts) 0 0))"
proof -
  let ?section = "column_section D bitsliced (sg_values seg) (sg_timestamps seg) (sg_nulls seg) opts"
  obtain st where st: "open_section D (write_segment_with D bitsliced seg opts) = Inr (st, ?section)" "same_stats val (sg_stats seg) st"
    by (rule opened_section [OF laws ok])
  have cols: "columns_ok D (sg_stats seg) (sg_values seg) (sg_timestamps seg) (sg_nulls seg)" using ok(1) by (simp add: seg_ok_def)
  note holds = written_section_holds [OF laws cols st(2) ok(2), of bitsliced]
  note rows' = rows_described_same [OF st(2) rows]
  note null = all_null_rows [OF rows', of "decode_column D (sg_values seg)"]
  show "read_segment_range_with D bitsliced (write_segment_with D bitsliced seg opts) x y f =
        Inr (window_rows x y ts (nullable_loop (sg_nulls seg) (map f (ce_values (sg_values seg))) (length ts) 0 0))"
    using read_range_answers [OF holds rows' col [rule_format] n, of x y f] by (simp add: read_segment_range_with_def st(1))
  assume wide: "\<forall>a\<in>set ts. \<forall>b\<in>set ts. sint b - sint a < 2 ^ 63"
  note points = read_points_answers [OF holds rows' col [rule_format] wide, folded decode_column_def]
  show "read_segment_points D bitsliced (write_segment_with D bitsliced seg opts) q =
        Some (Inr (map (first_present ts (nullable_loop (sg_nulls seg) (decode_column D (sg_values seg)) (length ts) 0 0)) q))"
    using points [of q] null by (simp add: read_segment_points_def st(1) map_replicate_const [symmetric])
  show "read_segment_point D bitsliced (write_segment_with D bitsliced seg opts) t =
        Some (Inr (first_present ts (nullable_loop (sg_nulls seg) (decode_column D (sg_values seg)) (length ts) 0 0) t))"
    using point_from_points [OF points [of "[t]", unfolded list.map]] null by (simp add: read_segment_point_def st(1))
qed

subsection \<open>A written paged frame answers its rows\<close>

text \<open>A page with the statistics the index gives for it and the timestamps of its rows.\<close>

type_synonym 'd page_entry = "'d wpage \<times> 'd segment_stats \<times> i64 list"

definition page_entry_ok :: "'d decimal_ops \<Rightarrow> ('d \<Rightarrow> rat) \<Rightarrow> 'd page_entry \<Rightarrow> bool" where
  "page_entry_ok D val = (\<lambda>(p, st, ts). page_ok D p \<and> same_stats val (pg_stats p) st \<and>
    rows_described (pg_stats p) (ce_values (pg_values p)) ts (pg_nulls p) \<and>
    (ts \<noteq> [] \<longrightarrow> decode_delta_of_delta (pg_timestamps p) = ts) \<and> length ts \<le> max_rows)"

definition entry_ts :: "'d page_entry \<Rightarrow> i64 list" where
  "entry_ts = (\<lambda>(p, st, ts). ts)"

definition entry_values :: "(physical_value \<Rightarrow> 'v) \<Rightarrow> 'd page_entry \<Rightarrow> 'v option list" where
  "entry_values f = (\<lambda>(p, st, ts). nullable_loop (pg_nulls p) (map f (ce_values (pg_values p))) (length ts) 0 0)"

definition entry_block :: "'d decimal_ops \<Rightarrow> bool \<Rightarrow> frame_options \<Rightarrow> 'd page_entry \<Rightarrow> u8 list" where
  "entry_block D bitsliced opts = (\<lambda>(p, st, ts). put_page_block D bitsliced opts p)"

definition index_of :: "'d decimal_ops \<Rightarrow> bool \<Rightarrow> frame_options \<Rightarrow> 'd page_entry list \<Rightarrow> ('d segment_stats \<times> nat) list" where
  "index_of D bitsliced opts es = map (\<lambda>e. (fst (snd e), length (entry_block D bitsliced opts e))) es"

lemma entry_length: "length (entry_values f e) = length (entry_ts e)"
  by (simp add: entry_values_def entry_ts_def length_nullable_loop split_def)

lemma entry_section:
  assumes laws: "decimal_laws D val" and ok: "page_entry_ok D val e" "options_ok opts"
  shows "section_holds D bitsliced (entry_block D bitsliced opts e) (fst (snd e)) (ce_values (pg_values (fst e)))
      (pg_timestamps (fst e)) (pg_nulls (fst e))"
    "rows_described (fst (snd e)) (ce_values (pg_values (fst e))) (entry_ts e) (pg_nulls (fst e))"
    "entry_ts e \<noteq> [] \<Longrightarrow> decode_delta_of_delta (pg_timestamps (fst e)) = entry_ts e" "length (entry_ts e) \<le> max_rows"
proof -
  obtain p st ts where e: "e = (p, st, ts)" by (cases e)
  have p: "columns_ok D (pg_stats p) (pg_values p) (pg_timestamps p) (pg_nulls p)" and st: "same_stats val (pg_stats p) st"
    using ok(1) by (simp_all add: e page_entry_ok_def page_ok_def)
  show "section_holds D bitsliced (entry_block D bitsliced opts e) (fst (snd e)) (ce_values (pg_values (fst e)))
      (pg_timestamps (fst e)) (pg_nulls (fst e))"
    using written_section_holds [OF laws p st ok(2)] by (simp add: e entry_block_def put_page_block_section)
  show "rows_described (fst (snd e)) (ce_values (pg_values (fst e))) (entry_ts e) (pg_nulls (fst e))"
    "entry_ts e \<noteq> [] \<Longrightarrow> decode_delta_of_delta (pg_timestamps (fst e)) = entry_ts e" "length (entry_ts e) \<le> max_rows"
    using ok(1) rows_described_same [OF st] by (simp_all add: e page_entry_ok_def entry_ts_def)
qed

lemma entry_range:
  assumes "decimal_laws D val" "page_entry_ok D val e" "options_ok opts"
  shows "read_range_from_section_with D bitsliced (entry_block D bitsliced opts e) (fst (snd e)) x y f =
    Inr (window_rows x y (entry_ts e) (entry_values f e))"
  using read_range_answers [OF entry_section [OF assms]] by (simp add: entry_values_def entry_ts_def split_def)

lemma entry_points:
  assumes "decimal_laws D val" "page_entry_ok D val e" "options_ok opts"
    and wide: "\<forall>a\<in>set (entry_ts e). \<forall>b\<in>set (entry_ts e). sint b - sint a < 2 ^ 63"
  shows "read_points_from_section D bitsliced (entry_block D bitsliced opts e) (fst (snd e)) q =
    Some (Inr (map (first_present (entry_ts e) (entry_values (to_logical D) e)) q))"
  using read_points_answers [OF entry_section(1,2,3) [OF assms(1-3)] wide] by (simp add: entry_values_def entry_ts_def split_def)

text \<open>What an entry's statistics rule out.\<close>

lemma entry_pruned:
  assumes "page_entry_ok D val e"
  shows "\<not> stats_meet (fst (snd e)) x y \<Longrightarrow> window_rows x y (entry_ts e) vs = ([], [])"
    and "\<not> stats_contain (fst (snd e)) t \<Longrightarrow> first_present (entry_ts e) vs t = None"
    and "stats_is_all_null (fst (snd e)) \<Longrightarrow> first_present (entry_ts e) (entry_values f e) t = None"
proof -
  obtain p st ts where e: "e = (p, st, ts)" by (cases e)
  have rows: "rows_described st (ce_values (pg_values p)) ts (pg_nulls p)"
    using assms rows_described_same [of val "pg_stats p" st] by (simp add: e page_entry_ok_def)
  then have span: "span_of (st_min_ts st) (st_max_ts st) = span_of (iter_min ts_less ts) (iter_max ts_less ts)"
    by (simp add: rows_described_def)
  have inside: "\<exists>lo hi. span_of (st_min_ts st) (st_max_ts st) = Some (lo, hi) \<and> sint lo \<le> sint t \<and> sint t \<le> sint hi" if "t \<in> set ts" for t
    using that span ts_order.span_None [of ts] ts_order.span_bound [of ts]
    by (cases "span_of (st_min_ts st) (st_max_ts st)") fastforce+
  show "\<not> stats_meet (fst (snd e)) x y \<Longrightarrow> window_rows x y (entry_ts e) vs = ([], [])"
    using inside by (intro window_rows_none) (fastforce simp: e stats_meet_def entry_ts_def split: option.splits)
  show "\<not> stats_contain (fst (snd e)) t \<Longrightarrow> first_present (entry_ts e) vs t = None"
    using inside by (intro first_present_absent) (fastforce simp: e stats_contain_def in_span_def entry_ts_def split: option.splits)
  show "stats_is_all_null (fst (snd e)) \<Longrightarrow> first_present (entry_ts e) (entry_values f e) t = None"
    using all_null_rows [OF rows] by (simp add: e entry_values_def entry_ts_def)
qed

lemma page_section_block:
  assumes "length (pre @ block @ rest) < 2 ^ 64"
  shows "page_section (pre @ block @ rest) (length pre) (length block) = Inr block"
    "(length pre + length block) mod 2 ^ 64 = length (pre @ block)"
  using assms by (simp_all add: page_section_def Let_def)

abbreviation blocks_of :: "'d decimal_ops \<Rightarrow> bool \<Rightarrow> frame_options \<Rightarrow> 'd page_entry list \<Rightarrow> u8 list" where
  "blocks_of D bitsliced opts es \<equiv> concat (map (entry_block D bitsliced opts) es)"

abbreviation rows_ts :: "'d page_entry list \<Rightarrow> i64 list" where
  "rows_ts es \<equiv> concat (map entry_ts es)"

abbreviation rows_values :: "(physical_value \<Rightarrow> 'v) \<Rightarrow> 'd page_entry list \<Rightarrow> 'v option list" where
  "rows_values f es \<equiv> concat (map (entry_values f) es)"

lemma paged_range_loop_rows:
  assumes laws: "decimal_laws D val" and opts: "options_ok opts"
  shows "\<forall>e\<in>set es. page_entry_ok D val e \<Longrightarrow> length (pre @ blocks_of D bitsliced opts es) < 2 ^ 64 \<Longrightarrow>
    paged_range_loop D bitsliced (pre @ blocks_of D bitsliced opts es) x y f (index_of D bitsliced opts es) (length pre) ts vs =
      Inr (ts @ fst (window_rows x y (rows_ts es) (rows_values f es)), vs @ snd (window_rows x y (rows_ts es) (rows_values f es)))"
proof (induction es arbitrary: pre ts vs)
  case (Cons e es)
  let ?block = "entry_block D bitsliced opts e"
  have ok: "page_entry_ok D val e" using Cons.prems(1) by simp
  note part = page_section_block [of pre ?block "blocks_of D bitsliced opts es"]
  note rest = Cons.IH [of "pre @ ?block"]
  note rows = window_rows_append [OF entry_length [symmetric], of x y e "rows_ts es" f "rows_values f es"]
  show ?case
  proof (cases "stats_meet (fst (snd e)) x y")
    case True
    then show ?thesis using Cons.prems part rest entry_range [OF laws ok opts, of bitsliced x y f] rows
      by (simp add: index_of_def split_def Let_def)
  next
    case False
    then show ?thesis using Cons.prems part rest entry_pruned(1) [OF ok False, of "entry_values f e"] rows by (simp add: index_of_def Let_def)
  qed
qed (simp add: index_of_def)

lemma paged_point_loop_rows:
  assumes laws: "decimal_laws D val" and opts: "options_ok opts"
  shows "\<forall>e\<in>set es. page_entry_ok D val e \<and> (\<forall>a\<in>set (entry_ts e). \<forall>b\<in>set (entry_ts e). sint b - sint a < 2 ^ 63) \<Longrightarrow>
    length (pre @ blocks_of D bitsliced opts es) < 2 ^ 64 \<Longrightarrow>
    paged_point_loop D bitsliced (pre @ blocks_of D bitsliced opts es) t (index_of D bitsliced opts es) (length pre) =
      Some (Inr (first_present (rows_ts es) (rows_values (to_logical D) es) t))"
proof (induction es arbitrary: pre)
  case Nil
  then show ?case by (simp add: index_of_def first_present_def)
next
  case (Cons e es)
  let ?block = "entry_block D bitsliced opts e" and ?here = "first_present (entry_ts e) (entry_values (to_logical D) e) t"
  have ok: "page_entry_ok D val e" and wide: "\<forall>a\<in>set (entry_ts e). \<forall>b\<in>set (entry_ts e). sint b - sint a < 2 ^ 63"
    using Cons.prems(1) by simp_all
  note part = page_section_block [of pre ?block "blocks_of D bitsliced opts es"]
  note rest = Cons.IH [of "pre @ ?block"]
  have rows: "first_present (rows_ts (e # es)) (rows_values (to_logical D) (e # es)) t =
      (case ?here of Some v \<Rightarrow> Some v | None \<Rightarrow> first_present (rows_ts es) (rows_values (to_logical D) es) t)"
    using first_present_append [OF entry_length [symmetric]] by simp
  show ?case
  proof (cases "stats_contain (fst (snd e)) t \<and> \<not> stats_is_all_null (fst (snd e))")
    case True
    have "read_point_from_section D bitsliced ?block (fst (snd e)) t = Some (Inr ?here)"
      using point_from_points [OF entry_points [OF laws ok opts wide, of bitsliced "[t]", unfolded list.map]] .
    then show ?thesis using True Cons.prems part rest unfolding rows by (cases ?here) (simp_all add: index_of_def Let_def)
  next
    case False
    then have "?here = None" using entry_pruned(2,3) [OF ok] by blast
    then show ?thesis using Cons.prems part rest unfolding rows by (simp add: index_of_def Let_def False)
  qed
qed

lemma take_hits_map:
  "take_hits (map g ts) (map (\<lambda>t. g t \<noteq> None) ts) (map h ts) =
    (map (\<lambda>t. case g t of Some v \<Rightarrow> Some v | None \<Rightarrow> h t) ts,
     map (\<lambda>t. (case g t of Some v \<Rightarrow> Some v | None \<Rightarrow> h t) \<noteq> None) ts)"
proof -
  have "zip (zip (map g ts) (map (\<lambda>t. g t \<noteq> None) ts)) (map h ts) = map (\<lambda>t. ((g t, g t \<noteq> None), h t)) ts"
    by (induction ts) simp_all
  then show ?thesis by (auto simp: take_hits_def Let_def comp_def split: option.split)
qed

lemma paged_points_loop_rows:
  assumes laws: "decimal_laws D val" and opts: "options_ok opts"
  shows "\<forall>e\<in>set es. page_entry_ok D val e \<and> (\<forall>a\<in>set (entry_ts e). \<forall>b\<in>set (entry_ts e). sint b - sint a < 2 ^ 63) \<Longrightarrow>
    length (pre @ blocks_of D bitsliced opts es) < 2 ^ 64 \<Longrightarrow>
    paged_points_loop D bitsliced (pre @ blocks_of D bitsliced opts es) ts (index_of D bitsliced opts es) (length pre)
        (map g ts) (map (\<lambda>t. g t \<noteq> None) ts) =
      Some (Inr (map (\<lambda>t. case g t of Some v \<Rightarrow> Some v | None \<Rightarrow> first_present (rows_ts es) (rows_values (to_logical D) es) t) ts))"
proof (induction es arbitrary: pre g)
  case Nil
  then show ?case by (auto simp: index_of_def first_present_def split: option.split)
next
  case (Cons e es)
  let ?block = "entry_block D bitsliced opts e" and ?here = "first_present (entry_ts e) (entry_values (to_logical D) e)"
  let ?g = "\<lambda>t. case g t of Some v \<Rightarrow> Some v | None \<Rightarrow> ?here t"
  have ok: "page_entry_ok D val e" and wide: "\<forall>a\<in>set (entry_ts e). \<forall>b\<in>set (entry_ts e). sint b - sint a < 2 ^ 63"
    using Cons.prems(1) by simp_all
  note part = page_section_block [of pre ?block "blocks_of D bitsliced opts es"]
  have rows: "(case g t of Some v \<Rightarrow> Some v | None \<Rightarrow> first_present (rows_ts (e # es)) (rows_values (to_logical D) (e # es)) t) =
      (case ?g t of Some v \<Rightarrow> Some v | None \<Rightarrow> first_present (rows_ts es) (rows_values (to_logical D) es) t)" for t
    using first_present_append [OF entry_length [symmetric], of e "rows_ts es" "to_logical D" "rows_values (to_logical D) es" t]
    by (cases "g t") simp_all
  have rest: "paged_points_loop D bitsliced (pre @ blocks_of D bitsliced opts (e # es)) ts (index_of D bitsliced opts es)
      (length (pre @ ?block)) (map ?g ts) (map (\<lambda>t. ?g t \<noteq> None) ts) =
    Some (Inr (map (\<lambda>t. case ?g t of Some v \<Rightarrow> Some v | None \<Rightarrow> first_present (rows_ts es) (rows_values (to_logical D) es) t) ts))"
    using Cons.IH [of "pre @ ?block" ?g] Cons.prems by simp
  let ?take = "span_of (st_min_ts (fst (snd e))) (st_max_ts (fst (snd e))) \<noteq> None \<and> \<not> stats_is_all_null (fst (snd e)) \<and>
       list_ex (\<lambda>(t, done). \<not> done \<and> stats_contain (fst (snd e)) t) (zip ts (map (\<lambda>t. g t \<noteq> None) ts))"
  have fit: "length (pre @ ?block @ blocks_of D bitsliced opts es) < 2 ^ 64" using Cons.prems(2) by simp
  have step: "paged_points_loop D bitsliced (pre @ blocks_of D bitsliced opts (e # es)) ts (index_of D bitsliced opts (e # es))
      (length pre) (map g ts) (map (\<lambda>t. g t \<noteq> None) ts) =
    paged_points_loop D bitsliced (pre @ blocks_of D bitsliced opts (e # es)) ts (index_of D bitsliced opts es)
      (length (pre @ ?block)) (map ?g ts) (map (\<lambda>t. ?g t \<noteq> None) ts)"
  proof (cases ?take)
    case True
    then show ?thesis
      using entry_points [OF laws ok opts wide, of bitsliced ts]
      by (simp add: index_of_def Let_def part(1) [OF fit] part(2) [OF fit, simplified] take_hits_map del: not_None_eq)
  next
    case False
    have pairs: "zip ts (map (\<lambda>t. g t \<noteq> None) ts) = map (\<lambda>t. (t, g t \<noteq> None)) ts" by (induction ts) simp_all
    have "?here t = None" if "t \<in> set ts" "g t = None" for t
    proof -
      have "\<not> stats_contain (fst (snd e)) t \<or> stats_is_all_null (fst (snd e))"
        using False that unfolding pairs by (auto simp: stats_contain_def list_ex_iff split: option.splits)
      then show ?thesis using entry_pruned(2,3) [OF ok] by blast
    qed
    then have same: "map ?g ts = map g ts" "map (\<lambda>t. ?g t \<noteq> None) ts = map (\<lambda>t. g t \<noteq> None) ts"
      by (auto split: option.split)
    show ?thesis unfolding same by (simp add: index_of_def Let_def part(2) [OF fit, simplified] False del: not_None_eq)
  qed
  show ?case unfolding step rest rows ..
qed

definition page_described :: "'d wpage \<Rightarrow> i64 list \<Rightarrow> bool" where
  "page_described p ts \<longleftrightarrow> rows_described (pg_stats p) (ce_values (pg_values p)) ts (pg_nulls p) \<and>
    (ts \<noteq> [] \<longrightarrow> decode_delta_of_delta (pg_timestamps p) = ts) \<and> length ts \<le> max_rows"

definition page_vals :: "(physical_value \<Rightarrow> 'v) \<Rightarrow> 'd wpage \<times> i64 list \<Rightarrow> 'v option list" where
  "page_vals f = (\<lambda>(p, ts). nullable_loop (pg_nulls p) (map f (ce_values (pg_values p))) (length ts) 0 0)"

lemma paged_entries:
  assumes "list_all2 page_described ps tcs" "list_all2 (\<lambda>p st. same_stats val (pg_stats p) st \<and> stats_ok D st) ps sts"
    "\<forall>p\<in>set ps. page_ok D p"
  shows "\<exists>es. (\<forall>e\<in>set es. page_entry_ok D val e) \<and> map entry_ts es = tcs \<and>
    (\<forall>f :: physical_value \<Rightarrow> 'v. map (entry_values f) es = map (page_vals f) (zip ps tcs)) \<and>
    (\<forall>f :: physical_value \<Rightarrow> 'd. map (entry_values f) es = map (page_vals f) (zip ps tcs)) \<and>
    index_of D bitsliced opts es = zip sts (map (\<lambda>p. length (put_page_block D bitsliced opts p)) ps) \<and>
    map (entry_block D bitsliced opts) es = map (put_page_block D bitsliced opts) ps"
  using assms
proof (induction ps tcs arbitrary: sts rule: list_all2_induct)
  case Nil
  then show ?case by (intro exI [of _ "[]"]) (simp add: index_of_def)
next
  case (Cons p ps ts tcs)
  from Cons.prems(1) obtain st sts' where sts: "sts = st # sts'" "same_stats val (pg_stats p) st"
    "list_all2 (\<lambda>p st. same_stats val (pg_stats p) st \<and> stats_ok D st) ps sts'" by (auto simp: list_all2_Cons1)
  obtain es where es: "\<forall>e\<in>set es. page_entry_ok D val e" "map entry_ts es = tcs"
    "\<forall>f :: physical_value \<Rightarrow> 'v. map (entry_values f) es = map (page_vals f) (zip ps tcs)"
    "\<forall>f :: physical_value \<Rightarrow> 'd. map (entry_values f) es = map (page_vals f) (zip ps tcs)"
    "index_of D bitsliced opts es = zip sts' (map (\<lambda>p. length (put_page_block D bitsliced opts p)) ps)"
    "map (entry_block D bitsliced opts) es = map (put_page_block D bitsliced opts) ps"
    using Cons.IH [OF sts(3)] Cons.prems(2) by auto
  have "page_entry_ok D val (p, st, ts)" using Cons.hyps(1) Cons.prems(2) sts(2) by (simp add: page_entry_ok_def page_described_def)
  then show ?case
    using es by (intro exI [of _ "(p, st, ts) # es"]) (simp add: index_of_def sts(1) entry_ts_def entry_values_def page_vals_def entry_block_def)
qed

lemma opened_paged:
  assumes laws: "decimal_laws D val" and ok: "paged_ok D seg"
    and fits: "length (write_paged_segment_inner D bitsliced seg opts) < 2 ^ 64"
  obtains st sts r pre where "same_stats val (ps_stats seg) st"
    "list_all2 (\<lambda>p st. same_stats val (pg_stats p) st \<and> stats_ok D st) (ps_pages seg) sts"
    "open_paged D (write_paged_segment_inner D bitsliced seg opts) =
      Inr ((st, pre @ concat (map (put_page_block D bitsliced opts) (ps_pages seg))), r)"
    "read_page_index D r = Inr (zip sts (map (\<lambda>p. length (put_page_block D bitsliced opts p)) (ps_pages seg)),
      rd pre (concat (map (put_page_block D bitsliced opts) (ps_pages seg))))"
    "length (pre @ concat (map (put_page_block D bitsliced opts) (ps_pages seg))) < 2 ^ 64"
proof -
  let ?block = "put_page_block D bitsliced opts" and ?ps = "ps_pages seg" and ?st = "ps_stats seg"
  let ?entries = "put_many (put_page_entry D) (zip ?ps (map ?block ?ps))"
  have v: "ps_version seg = paged_segment_format_version" using ok by (simp add: paged_ok_def)
  obtain st sts where st: "same_stats val ?st st" "list_all2 (\<lambda>p st. same_stats val (pg_stats p) st \<and> stats_ok D st) ?ps sts"
    and reads: "\<And>pre s. read_segment_stats D (rd pre (write_segment_stats D ?st @ s)) = Inr (st, rd (pre @ write_segment_stats D ?st) s)"
      "\<And>pre s. read_page_index D (rd pre (put_usize (length ?ps) @ ?entries @ s)) =
        Inr (zip sts (map (\<lambda>p. length (?block p)) ?ps), rd ((pre @ put_usize (length ?ps)) @ ?entries) s)"
    by (rule paged_index_read [OF laws ok fits]) blast
  have blocks: "put_many put_raw (map ?block ?ps) = concat (map ?block ?ps)" by (simp add: put_many_def put_raw_def comp_def)
  have n: "read_uvarint (rd p (put_usize (ps_rows_per_page seg) @ s)) =
      Inr (of_nat (ps_rows_per_page seg), rd (p @ put_usize (ps_rows_per_page seg)) s)" for p s
    unfolding put_usize_def by (rule uvarint.get_put) simp
  let ?head = "((put_raw magic @ put_u16_le paged_segment_format_version) @ put_usize (ps_rows_per_page seg)) @ write_segment_stats D ?st"
  let ?pre = "(?head @ put_usize (length ?ps)) @ ?entries"
  have opened: "open_paged D (write_paged_segment_inner D bitsliced seg opts) =
      Inr ((st, ?pre @ concat (map ?block ?ps)), rd ?head (put_usize (length ?ps) @ ?entries @ concat (map ?block ?ps)))"
    unfolding paged_frame_parts [OF v] Let_def open_paged_def blocks
    by (simp only: open_body_put [OF refl] rbind.simps n reads(1)) (simp only: append_assoc)
  have small: "length (?pre @ concat (map ?block ?ps)) < 2 ^ 64"
    using fits unfolding paged_frame_parts [OF v] Let_def blocks by simp
  show thesis by (rule that [OF st opened reads(2) small])
qed

text \<open>The reads of a paged frame, given what the statistics of the segment say of all its rows.\<close>

lemma paged_frame_answers:
  fixes f :: "physical_value \<Rightarrow> 'v" and D :: "'d::ord decimal_ops"
  assumes laws: "decimal_laws D val" and ok: "paged_ok D seg" "options_ok opts"
    and fits: "length (write_paged_segment_inner D bitsliced seg opts) < 2 ^ 64"
    and pages: "list_all2 page_described (ps_pages seg) tcs"
    and span: "st_min_ts (ps_stats seg) = iter_min ts_less (concat tcs)" "st_max_ts (ps_stats seg) = iter_max ts_less (concat tcs)"
    and ws: "ws = concat (map (page_vals (to_logical D)) (zip (ps_pages seg) tcs))"
    and null: "stats_is_all_null (ps_stats seg) \<longrightarrow> (\<forall>t. first_present (concat tcs) ws t = None)"
  shows "\<forall>a\<in>set (concat tcs). \<forall>b\<in>set (concat tcs). sint b - sint a < 2 ^ 63 \<Longrightarrow>
      read_paged_segment_points D bitsliced (write_paged_segment_inner D bitsliced seg opts) q =
        Some (Inr (map (first_present (concat tcs) ws) q))"
    and "\<forall>a\<in>set (concat tcs). \<forall>b\<in>set (concat tcs). sint b - sint a < 2 ^ 63 \<Longrightarrow>
      read_paged_segment_point D bitsliced (write_paged_segment_inner D bitsliced seg opts) t =
        Some (Inr (first_present (concat tcs) ws t))"
    and "read_paged_segment_range_with D bitsliced (write_paged_segment_inner D bitsliced seg opts) x y f =
        Inr (window_rows x y (concat tcs) (concat (map (page_vals f) (zip (ps_pages seg) tcs))))"
proof -
  let ?ps = "ps_pages seg" and ?ts = "concat tcs"
  let ?blocks = "concat (map (put_page_block D bitsliced opts) ?ps)"
  obtain st sts r pre where st: "same_stats val (ps_stats seg) st"
      "list_all2 (\<lambda>p st. same_stats val (pg_stats p) st \<and> stats_ok D st) ?ps sts"
    and opened: "open_paged D (write_paged_segment_inner D bitsliced seg opts) = Inr ((st, pre @ ?blocks), r)"
    and index: "read_page_index D r = Inr (zip sts (map (\<lambda>p. length (put_page_block D bitsliced opts p)) ?ps), rd pre ?blocks)"
    and small: "length (pre @ ?blocks) < 2 ^ 64"
    by (rule opened_paged [OF laws ok(1) fits]) blast
  have "\<forall>p\<in>set ?ps. page_ok D p" using ok(1) by (simp add: paged_ok_def list_all_iff)
  from paged_entries [OF pages st(2) this, where bitsliced = bitsliced and opts = opts and 'v = 'v]
  obtain es where es: "\<forall>e\<in>set es. page_entry_ok D val e" and ts: "map entry_ts es = tcs"
    and all_vals: "\<forall>f :: physical_value \<Rightarrow> 'v. map (entry_values f) es = map (page_vals f) (zip ?ps tcs)"
      "\<forall>f :: physical_value \<Rightarrow> 'd. map (entry_values f) es = map (page_vals f) (zip ?ps tcs)"
    and entries: "index_of D bitsliced opts es = zip sts (map (\<lambda>p. length (put_page_block D bitsliced opts p)) ?ps)"
      "map (entry_block D bitsliced opts) es = map (put_page_block D bitsliced opts) ?ps" by (elim exE conjE)
  note vals = all_vals(1) [rule_format, of f] all_vals(2) [rule_format, of "to_logical D"]
  have pos: "br_pos (rd pre ?blocks) = length pre" by (simp add: rd_def)
  have bounds: "st_min_ts st = iter_min ts_less ?ts" "st_max_ts st = iter_max ts_less ?ts"
    "stats_is_all_null st = stats_is_all_null (ps_stats seg)"
    using st(1) span by (simp_all add: same_stats_def stats_is_all_null_def)
  have inside: "\<exists>lo hi. span_of (st_min_ts st) (st_max_ts st) = Some (lo, hi) \<and> sint lo \<le> sint t \<and> sint t \<le> sint hi"
    if "t \<in> set ?ts" for t
    using that ts_order.span_None [of ?ts] ts_order.span_bound [of ?ts] unfolding bounds
    by (cases "span_of (iter_min ts_less ?ts) (iter_max ts_less ?ts)") fastforce+
  have absent: "\<not> stats_contain st t \<Longrightarrow> first_present ?ts ws t = None" for t
    using inside by (intro first_present_absent) (fastforce simp: stats_contain_def in_span_def split: option.splits)
  have disjoint: "\<not> stats_meet st x y \<Longrightarrow> window_rows x y ?ts (concat (map (page_vals f) (zip ?ps tcs))) = ([], [])"
    using inside by (intro window_rows_none) (fastforce simp: stats_meet_def split: option.splits)
  show "read_paged_segment_range_with D bitsliced (write_paged_segment_inner D bitsliced seg opts) x y f =
        Inr (window_rows x y ?ts (concat (map (page_vals f) (zip ?ps tcs))))"
    using disjoint paged_range_loop_rows [OF laws ok(2) es, of pre bitsliced x y f "[]" "[]"] small pos index
    by (simp add: read_paged_segment_range_with_def opened entries ts vals)
  assume wide: "\<forall>a\<in>set ?ts. \<forall>b\<in>set ?ts. sint b - sint a < 2 ^ 63"
  have wide': "\<forall>e\<in>set es. page_entry_ok D val e \<and> (\<forall>a\<in>set (entry_ts e). \<forall>b\<in>set (entry_ts e). sint b - sint a < 2 ^ 63)"
    using es wide ts by auto
  show "read_paged_segment_point D bitsliced (write_paged_segment_inner D bitsliced seg opts) t =
        Some (Inr (first_present ?ts ws t))"
    using absent [of t] null paged_point_loop_rows [OF laws ok(2) wide', of pre bitsliced t] small pos index bounds(3)
    by (cases "stats_contain st t"; cases "stats_is_all_null (ps_stats seg)") (simp_all add: read_paged_segment_point_def opened entries ts vals ws)
  have "map (first_present ?ts ws) q = replicate (length q) None"
    if "\<not> list_ex (stats_contain st) q \<or> stats_is_all_null st"
  proof -
    have "map (first_present ?ts ws) q = map (\<lambda>_. None) q"
      using that absent null bounds(3) by (intro map_cong refl) (auto simp: list_ex_iff)
    then show ?thesis by (simp only: map_replicate_const)
  qed
  then show "read_paged_segment_points D bitsliced (write_paged_segment_inner D bitsliced seg opts) q =
        Some (Inr (map (first_present ?ts ws) q))"
    using paged_points_loop_rows [OF laws ok(2) wide', of pre bitsliced q "\<lambda>_. None"] small pos index
    by (simp add: read_paged_segment_points_def opened entries ts vals ws Let_def map_replicate_const)
qed

subsection \<open>Files that carry a frame\<close>

text \<open>The frame itself, or an envelope around it whose extensions a reader may pass over.\<close>

definition carries :: "u8 list \<Rightarrow> u8 list \<Rightarrow> bool" where
  "carries bytes frame \<longleftrightarrow> bytes = frame \<or>
    (\<exists>exts. wrap_frame_envelope frame exts = Inr bytes \<and> length exts \<le> max_extensions \<and>
      (\<forall>e\<in>set exts. length (fe_payload e) < 2 ^ 64 \<and> \<not> unknown_critical e))"

lemma plain_body:
  assumes "layout_of v = Some l" "w = magic @ put_u16_le v @ s" "frame = w @ put_u32_le (crc32 w)"
  shows "read_frame_body frame = Inr (frame, l)"
proof -
  have v: "v \<noteq> frame_envelope" using assms(1) by (auto simp: layout_of_def frame_single_block_def frame_paged_def frame_envelope_def)
  have fv: "frame_version frame = Inr v" unfolding assms(2,3) using frame_version_header by simp
  have len: "13 \<le> length frame" by (simp add: assms(2,3))
  have cut: "take (length frame - 4) frame = w" "drop (length frame - 4) frame = put_u32_le (crc32 w)"
    by (simp_all add: assms(3))
  have crc: "from_le (put_u32_le (crc32 w)) = crc32 w"
    by (simp add: put_u32_le_def from_le_to_le del: from_le.simps)
  have "frame_parts_of frame = Inr \<lparr>fp_version = v, fp_body_version = v, fp_extensions = [], fp_unknown_critical = False, fp_body = frame\<rparr>"
    using v by (simp only: frame_parts_of_alt [OF len] fv cut crc sum.case Let_def simp_thms if_False if_True)
  then show ?thesis using v assms(1) by (simp add: read_frame_body_def critical_refusal_def)
qed

lemma carried_body:
  assumes "layout_of v = Some l" "w = magic @ put_u16_le v @ s" "frame = w @ put_u32_le (crc32 w)" "carries bytes frame"
  shows "read_frame_body bytes = Inr (frame, l)"
proof (cases "bytes = frame")
  case True
  then show ?thesis using plain_body [OF assms(1-3)] by simp
next
  case False
  then obtain exts where w: "wrap_frame_envelope frame exts = Inr bytes" and n: "length exts \<le> max_extensions"
    and e: "\<forall>e\<in>set exts. length (fe_payload e) < 2 ^ 64" "\<forall>e\<in>set exts. \<not> unknown_critical e"
    using assms(4) by (auto simp: carries_def)
  have fv: "frame_version frame = Inr v" unfolding assms(2,3) using frame_version_header by simp
  have "\<not> list_ex unknown_critical exts" using e(2) by (simp add: list_ex_iff)
  then show ?thesis
    using frame_parts_wrap [OF fv assms(1) n e(1) w] assms(1) by (simp add: read_frame_body_def critical_refusal_def)
qed

lemma segment_frame_body:
  assumes "sg_version seg = segment_format_version" "carries bytes (write_segment_with D bitsliced seg opts)"
  shows "read_frame_body bytes = Inr (write_segment_with D bitsliced seg opts, SingleBlock)"
  by (rule carried_body [OF _ refl _ assms(2), where v = segment_format_version and
      s = "write_segment_stats D (sg_stats seg) @ column_section D bitsliced (sg_values seg) (sg_timestamps seg) (sg_nulls seg) opts"])
    (simp_all add: layout_of_def frame_single_block_def segment_format_version_def write_segment_with_section put_frame_def
      assms(1) [unfolded segment_format_version_def] put_raw_def Let_def)

lemma paged_frame_body:
  assumes "ps_version seg = paged_segment_format_version" "carries bytes (write_paged_segment_inner D bitsliced seg opts)"
  shows "read_frame_body bytes = Inr (write_paged_segment_inner D bitsliced seg opts, Paged)"
  by (rule carried_body [OF _ refl _ assms(2), where v = paged_segment_format_version and
      s = "put_usize (ps_rows_per_page seg) @ write_segment_stats D (ps_stats seg) @ put_usize (length (ps_pages seg)) @
        put_many (put_page_entry D) (zip (ps_pages seg) (map (put_page_block D bitsliced opts) (ps_pages seg))) @
        put_many put_raw (map (put_page_block D bitsliced opts) (ps_pages seg))"])
    (simp_all add: layout_of_def frame_single_block_def frame_paged_def paged_segment_format_version_def write_paged_segment_inner_def
      assms(1) [unfolded paged_segment_format_version_def] put_raw_def Let_def)

subsection \<open>Reads of sealed batches\<close>

lemma sealed_segment_reads:
  assumes laws: "decimal_laws D val" and seal: "seal_nullable D schema ts vs = Inr seg"
    and rows: "length ts \<le> max_rows" and err: "plain_digit_count D (ce_max_abs_error (sg_values seg)) \<le> max_plain_digits"
    and opts: "options_ok opts" and wide: "\<forall>a\<in>set ts. \<forall>b\<in>set ts. sint b - sint a < 2 ^ 63"
    and stored: "carries bytes (write_segment_with D bitsliced seg opts)"
  shows "\<exists>ws. list_all2 (rel_option (within_tolerance val (as_value_tolerance schema))) vs ws \<and>
    (\<forall>q. read_frame_points D bitsliced bytes q = Some (Inr (map (first_present ts ws) q))) \<and>
    (\<forall>t. read_frame_point D bitsliced bytes t = Some (Inr (first_present ts ws t))) \<and>
    (\<forall>x y. read_frame_range D bitsliced bytes x y = Inr (window_rows x y ts ws))"
proof -
  have fits: "declared_fits D schema (flatten_present vs)"
    and built: "build_nullable (declared_encoder D schema) ts vs (as_timestamp_unit schema) = Inr seg"
    using seal by (simp_all add: seal_nullable_Inr)
  note f = build_nullable_fields [OF built]
  have enc: "encode_column D (as_value schema) (flatten_present vs) = Inr (sg_values seg)"
    using fits f(2) by (auto simp: declared_fits_def declared_encoder_def)
  have ok: "seg_ok D seg" using built_seg_ok [OF laws built enc rows err] .
  obtain ws where ws: "decode_nullable (decode_column D) seg = (ts, ws)"
    "list_all2 (rel_option (within_tolerance val (as_value_tolerance schema))) vs ws"
    using decode_nullable_related [where dec = "decode_column D" and R = "within_tolerance val (as_value_tolerance schema)",
      OF built declared_within [OF laws fits]] by blast
  have described: "rows_described (sg_stats seg) (ce_values (sg_values seg)) ts (sg_nulls seg)"
    unfolding f(5) f(4) by (rule built_rows_described [OF f(1) encode_column_ok(2) [OF laws enc]])
  have dec: "ts \<noteq> [] \<longrightarrow> decode_delta_of_delta (sg_timestamps seg) = ts" unfolding f(3) using built_timestamps by blast
  have loop: "nullable_loop (sg_nulls seg) (decode_column D (sg_values seg)) (length ts) 0 0 = ws"
    using ws(1) described by (simp add: decode_nullable_def rows_described_def)
  note answers = segment_frame_answers [OF laws ok opts described dec rows, of bitsliced]
  have body: "read_frame_body bytes = Inr (write_segment_with D bitsliced seg opts, SingleBlock)"
    using segment_frame_body [OF _ stored] ok by (simp add: seg_ok_def)
  show ?thesis
    using ws(2) answers(1) [OF wide] answers(2) [OF wide] answers(3) [of _ _ "to_logical D", folded decode_column_def]
    unfolding loop by (intro exI [of _ ws]) (simp add: read_frame_points_def read_frame_point_def read_frame_range_def read_segment_range_def body)
qed

lemma built_page_described:
  assumes ok: "page_ok D p" and p: "p = page_build_nullable enc tc vc unit" and l: "length tc = length vc"
  shows "page_described p tc"
proof -
  let ?nulls = "from_presence (map (\<lambda>v. v \<noteq> None) vc)"
  have cols: "columns_ok D (pg_stats p) (pg_values p) (pg_timestamps p) (pg_nulls p)" using ok by (simp add: page_ok_def)
  have st: "pg_stats p = from_columns_nullable tc (flatten_present vc) (nm_null_count ?nulls)" and nulls: "pg_nulls p = ?nulls"
    and ts: "pg_timestamps p = encode_delta_of_delta tc unit" by (simp_all add: p page_build_nullable_def Let_def del: not_None_eq)
  have "length (ce_values (pg_values p)) = st_row_count (pg_stats p) - st_null_count (pg_stats p)"
    using cols by (auto simp: columns_ok_def check_segment_columns_def Let_def split: if_splits option.splits)
  also have "\<dots> = length (flatten_present vc)"
    using present_and_nulls [of vc] l by (simp add: st stats_fields mask_null_count filter_map comp_def)
  finally have "rows_described (pg_stats p) (ce_values (pg_values p)) tc (pg_nulls p)"
    unfolding st nulls by (rule built_rows_described [OF l])
  moreover have "length tc \<le> max_rows" using cols by (simp add: columns_ok_def stats_ok_def st stats_fields)
  ultimately show ?thesis using built_timestamps by (auto simp: page_described_def ts)
qed

lemma built_pages_described:
  "pages_ok enc dec unit R cs \<Longrightarrow> \<forall>p\<in>set (built_pages enc unit cs). page_ok D p \<Longrightarrow> dec = decode_column D \<Longrightarrow>
    list_all2 page_described (built_pages enc unit cs) (map fst cs) \<and>
    concat (map (page_vals (to_logical D)) (zip (built_pages enc unit cs) (map fst cs))) = all_ws cs"
proof (induction cs)
  case (Cons c cs)
  obtain tc vc wc where c: "c = (tc, vc, wc)" by (cases c)
  let ?p = "page_build_nullable enc tc vc unit"
  have rows: "page_rows enc dec unit R tc vc wc" using Cons.prems(1) by (simp add: c pages_ok_Cons)
  then have l: "length tc = length vc" by (simp add: page_rows_def)
  have "page_ok D ?p" using Cons.prems(2) by (simp add: c built_pages_def)
  note described = built_page_described [OF this refl l]
  have "page_vals (to_logical D) (?p, tc) = wc"
    using rows described Cons.prems(3)
    by (simp add: page_rows_def page_decode_nullable_def page_described_def rows_described_def page_vals_def decode_column_def)
  then show ?case using Cons described by (simp add: c built_pages_def pages_ok_Cons)
qed (simp add: built_pages_def)

lemma related_None: "list_all2 (rel_option R) vs ws \<Longrightarrow> \<forall>v\<in>set vs. v = None \<Longrightarrow> \<forall>w\<in>set ws. w = None"
  by (induction rule: list_all2_induct) auto

lemma sealed_pages_reads:
  assumes laws: "decimal_laws D val" and seal: "seal_paged_nullable D schema ts vs n = Inr s"
    and rows: "length ts \<le> max_rows" "n < 2 ^ 64" "length (ps_pages s) \<le> max_pages"
    and err: "\<forall>p\<in>set (ps_pages s). plain_digit_count D (ce_max_abs_error (pg_values p)) \<le> max_plain_digits"
    and opts: "options_ok opts" "length (write_paged_segment_with D bitsliced s opts) < 2 ^ 64"
    and wide: "\<forall>a\<in>set ts. \<forall>b\<in>set ts. sint b - sint a < 2 ^ 63"
    and stored: "carries bytes (write_paged_segment_with D bitsliced s opts)"
  shows "\<exists>ws. list_all2 (rel_option (within_tolerance val (as_value_tolerance schema))) vs ws \<and>
    (\<forall>q. read_frame_points D bitsliced bytes q = Some (Inr (map (first_present ts ws) q))) \<and>
    (\<forall>t. read_frame_point D bitsliced bytes t = Some (Inr (first_present ts ws t))) \<and>
    (\<forall>x y. read_frame_range D bitsliced bytes x y = Inr (window_rows x y ts ws))"
proof -
  let ?enc = "declared_encoder D schema" and ?unit = "as_timestamp_unit schema" and ?R = "within_tolerance val (as_value_tolerance schema)"
  note opts = opts [unfolded write_paged_segment_with_def] and stored = stored [unfolded write_paged_segment_with_def]
  have ok: "paged_ok D s" by (rule sealed_paged_ok [OF laws seal rows err])
  have "\<forall>vc\<in>set (chunks n vs). list_all2 ?R (flatten_present vc) (decode_column D (?enc (flatten_present vc)))"
    and built: "paged_build_nullable ?enc ts vs ?unit n = Inr s"
    using seal declared_within [OF laws] by (auto simp: seal_paged_nullable_Inr)
  then obtain cs where cs: "ps_pages s = built_pages ?enc ?unit cs" "pages_ok ?enc (decode_column D) ?unit ?R cs" "all_ts cs = ts"
    "list_all2 (rel_option ?R) vs (all_ws cs)" using paged_build_rows [OF built] by metis
  have "\<forall>p\<in>set (built_pages ?enc ?unit cs). page_ok D p" using ok by (simp add: paged_ok_def list_all_iff cs(1))
  note described = built_pages_described [OF cs(2) this refl, folded cs(1)]
  have st: "ps_stats s = from_columns_nullable ts (flatten_present vs) (length (filter (\<lambda>v. v = None) vs))" "length ts = length vs"
    using built by (auto simp: paged_build_nullable_def Let_def split: if_splits)
  have null: "stats_is_all_null (ps_stats s) \<longrightarrow> (\<forall>t. first_present (concat (map fst cs)) (all_ws cs) t = None)"
  proof (intro impI allI)
    fix t assume all_null: "stats_is_all_null (ps_stats s)"
    then have "length (filter (\<lambda>v. v = None) vs) = length vs" using st by (simp add: stats_is_all_null_def stats_fields)
    then have "\<forall>v\<in>set vs. v = None" by (metis (mono_tags, lifting) filter_id_conv length_filter_less less_irrefl)
    then have "\<forall>w\<in>set (all_ws cs). w = None" by (rule related_None [OF cs(4)])
    then show "first_present (concat (map fst cs)) (all_ws cs) t = None"
      unfolding first_present_def by (intro find_map_None) (force dest: set_zip_rightD)
  qed
  have bounds: "st_min_ts (ps_stats s) = iter_min ts_less (concat (map fst cs))" "st_max_ts (ps_stats s) = iter_max ts_less (concat (map fst cs))"
    using st(1) cs(3) by (simp_all add: stats_fields)
  note answers = paged_frame_answers [OF laws ok opts conjunct1 [OF described] bounds conjunct2 [OF described, symmetric] null, unfolded cs(3)]
  have body: "read_frame_body bytes = Inr (write_paged_segment_inner D bitsliced s opts, Paged)"
    using paged_frame_body [OF _ stored] ok by (simp add: paged_ok_def)
  show ?thesis
    using cs(4) answers(1) [OF wide] answers(2) [OF wide] answers(3) [where f = "to_logical D", unfolded conjunct2 [OF described]]
    by (intro exI [of _ "all_ws cs"]) (simp add: read_frame_points_def read_frame_point_def read_frame_range_def read_paged_segment_range_def body)
qed

end
