(* ===== verification/Column_Properties.thy ===== *)
theory Column_Properties imports Frame_Reads begin

text \<open>
  What a reader of stored columns may rely on: the properties of the value columns (column.rs), their
  blocks and frames (weftseg.rs), the pages (page.rs) and the declared encodings (schema.rs), over the
  lemmas of the theories that model them.
\<close>

subsection \<open>A sample column and segment\<close>

abbreviation sample_column :: "decimal column_encoding" where
  "sample_column \<equiv> \<lparr>ce_physical_type = ScaledI64 1, ce_values = [VScaledI64 13 1, VScaledI64 50 1], ce_lossy_count = 1,
    ce_max_abs_error = Decimal 5 2\<rparr>"

abbreviation sample_values :: "decimal option list" where
  "sample_values \<equiv> [Some (Decimal 125 2), None, Some (Decimal 5 0)]"

abbreviation sample_schema :: "decimal aspect_schema" where
  "sample_schema \<equiv> aspect_schema_new (ScaledI64 1) (Decimal 5 2) Seconds"

lemma sample_encoded: "encode_column plain_decimal_ops (ScaledI64 1) [Decimal 125 2, Decimal 5 0] = Inr sample_column"
  by (simp add: encode_column_def decimal_evals)

lemma sample_refused:
  "encode_column plain_decimal_ops (ScaledI64 1) [Decimal 125 2, Decimal 1000000000000000000000000000000 0] = Inl \<lparr>cee_index = 1, cee_source = Overflow\<rparr>"
  by (simp add: encode_column_def decimal_evals)

lemma sample_column_ok: "column_ok plain_decimal_ops sample_column"
  by (simp add: column_ok_def column_typed_def decimal_evals max_rows_def)

lemma sample_sealed:
  "\<exists>seg. seal_nullable plain_decimal_ops sample_schema [100, 110, 105] sample_values = Inr seg \<and> sg_values seg = sample_column"
  by (simp add: seal_nullable_def aspect_schema_new_def sample_encoded decimal_evals Let_def)

lemma sample_digits: "plain_digit_count plain_decimal_ops (Decimal 5 2) \<le> max_plain_digits"
  by (simp add: decimal_evals)

lemma sample_paged:
  "\<exists>s. seal_paged_nullable plain_decimal_ops sample_schema [100, 110, 105] sample_values 2 = Inr s"
  by (simp add: seal_paged_nullable_def seal_page_nullable_def aspect_schema_new_def encode_column_def chunks.simps decimal_evals Let_def)

lemma sample_read:
  "\<exists>col r. read_value_column plain_decimal_ops True (new_reader (write_value_column plain_decimal_ops True sample_column)) = Inr (col, r)"
  using value_column_round_trip [OF plain_decimal_laws sample_column_ok selectors_apply(1)]
  by (metis append_Nil append_Nil2 new_reader_rd write_value_column_def)

lemma sample_values_encode:
  "\<exists>en. encode plain_decimal_ops (ScaledI64 1) (Decimal 125 2) = Inr en" "\<exists>en. encode plain_decimal_ops Decimal128 (Decimal 125 2) = Inr en"
proof -
  show "\<exists>en. encode plain_decimal_ops (ScaledI64 1) (Decimal 125 2) = Inr en" by (simp add: decimal_evals)
  show "\<exists>en. encode plain_decimal_ops Decimal128 (Decimal 125 2) = Inr en" by (simp add: decimal_evals split: prod.split)
qed

lemma sample_large_encodes:
  "\<exists>en. encode plain_decimal_ops Decimal128 (Decimal 100000000000000000000000001 1) = Inr en"
  by (simp add: decimal_evals split: prod.split)

subsection \<open>A sample of pages\<close>

text \<open>The frame of the sample is short, as the frame of a paged segment must be for its block lengths to fit.\<close>

abbreviation one_value :: "decimal \<Rightarrow> i64 \<Rightarrow> nat \<Rightarrow> decimal column_encoding" where
  "one_value e m l \<equiv> \<lparr>ce_physical_type = ScaledI64 1, ce_values = [VScaledI64 m 1], ce_lossy_count = l, ce_max_abs_error = e\<rparr>"
abbreviation sample_pages :: "decimal wpage list" where
  "sample_pages \<equiv> [\<lparr>pg_values = one_value (Decimal 5 2) 13 1, pg_timestamps = encode_delta_of_delta [100, 110] Seconds,
     pg_nulls = from_presence [True, False], pg_stats = from_columns_nullable [100, 110] [Decimal 125 2] 1\<rparr>,
    \<lparr>pg_values = one_value (Decimal 0 0) 50 0, pg_timestamps = encode_delta_of_delta [105] Seconds,
     pg_nulls = from_presence [True], pg_stats = from_columns_nullable [105] [Decimal 5 0] 0\<rparr>]"
lemma sample_paged_pages:
  assumes "seal_paged_nullable plain_decimal_ops sample_schema [100, 110, 105] sample_values 2 = Inr s"
  shows "ps_pages s = sample_pages" "ps_stats s = from_columns_nullable [100, 110, 105] [Decimal 125 2, Decimal 5 0] 1" "ps_rows_per_page s = 2"
  using assms
  by (auto simp add: seal_paged_nullable_def seal_page_nullable_def aspect_schema_new_def encode_column_def chunks.simps decimal_evals Let_def mask_null_count)

lemma length_put_usize: "length (put_usize n) \<le> 10"
proof -
  have ceil: "div_ceil m 7 \<le> 10" if "m \<le> 64" for m using that by (simp add: div_ceil_def) presburger
  have "max 1 (bit_length (of_nat n :: u64)) \<le> 64" using bit_length_le [of "of_nat n :: u64"] by simp
  then show ?thesis by (simp only: put_usize_def length_put_uvarint uvarint_len_bit_length ceil)
qed

lemma length_put_str: "length (put_str s) \<le> length s + 10"
  using length_put_usize [of "length s"] by (simp add: put_str_def put_bytes_def put_usize_def)

lemma length_stats: "length (write_segment_stats D st) \<le> 43 + length (put_opt_decimal D (st_min_value st)) + length (put_opt_decimal D (st_max_value st))"
  using length_put_usize [of "st_row_count st"] length_put_usize [of "st_null_count st"]
  by (auto simp: write_segment_stats_def put_opt_i64_def put_i64_le_def to_le_def put_u8_def split: option.split)
lemma sample_plain:
  "length (d_to_plain plain_decimal_ops (Decimal 5 2)) < 50"
  "length (d_to_plain plain_decimal_ops (Decimal 0 0)) < 50"
  "length (d_to_plain plain_decimal_ops (Decimal 125 2)) < 50"
  "length (d_to_plain plain_decimal_ops (Decimal 5 0)) < 50"
  by (simp_all add: decimal_evals)
lemma sample_blocks:
  "best_value_codec (one_value e 13 1) = ''varint''" "best_value_codec (one_value e 50 0) = ''varint''"
  "length (put_many write_physical_value [VScaledI64 13 1]) = 1" "length (put_many write_physical_value [VScaledI64 50 1]) = 1"
  "length (write_null_column (from_presence [True, False])) < 100" "length (write_null_column (from_presence [True])) < 100"
  "length (write_timestamp_column (encode_delta_of_delta [100, 110] Seconds)) < 100"
  "length (write_timestamp_column (encode_delta_of_delta [105] Seconds)) < 100"
  by code_simp+

lemma length_opt_decimal: "length (put_opt_decimal D v) \<le> 11 + (case v of None \<Rightarrow> 0 | Some v \<Rightarrow> length (d_to_plain D v))"
  using length_put_str [of "d_to_plain D (the v)"] by (auto simp: put_opt_decimal_def put_u8_def split: option.split)

lemma sample_block_lengths:
  "length (put_page_block plain_decimal_ops b frame_options_default (sample_pages ! 0)) < 500"
  "length (put_page_block plain_decimal_ops b frame_options_default (sample_pages ! 1)) < 500"
proof -
  have l: "length (write_value_column plain_decimal_ops b (one_value e m n)) < 110"
    if "length (d_to_plain plain_decimal_ops e) < 50" "best_value_codec (one_value e m n) = ''varint''" "length (put_many write_physical_value [VScaledI64 m 1]) = 1" for e m n
    using that length_put_usize [of 1] length_put_usize [of n] length_put_str [of "d_to_plain plain_decimal_ops e"]
    by (simp add: write_value_column_def write_value_column_selected_def put_value_head_def put_scale_def put_u8_def)
  show "length (put_page_block plain_decimal_ops b frame_options_default (sample_pages ! 0)) < 500"
    using l [OF sample_plain(1) sample_blocks(1,3)] sample_blocks(5,7)
    by (simp add: put_page_block_def write_value_column_with_def write_timestamp_column_with_def frame_options_default_def)
  show "length (put_page_block plain_decimal_ops b frame_options_default (sample_pages ! 1)) < 500"
    using l [OF sample_plain(2) sample_blocks(2,4)] sample_blocks(6,8)
    by (simp add: put_page_block_def write_value_column_with_def write_timestamp_column_with_def frame_options_default_def)
qed

lemma sample_stats:
  "length (write_segment_stats plain_decimal_ops (from_columns_nullable ts [Decimal 125 2] n)) < 250"
  "length (write_segment_stats plain_decimal_ops (from_columns_nullable ts [Decimal 5 0] n)) < 250"
  "length (write_segment_stats plain_decimal_ops (from_columns_nullable ts [Decimal 125 2, Decimal 5 0] n)) < 250"
proof -
  have l: "length (write_segment_stats plain_decimal_ops st) < 250"
    if "st_min_value st \<in> Some ` {Decimal 125 2, Decimal 5 0}" "st_max_value st \<in> Some ` {Decimal 125 2, Decimal 5 0}" for st
    using that length_stats [of plain_decimal_ops st] length_opt_decimal [of plain_decimal_ops "st_min_value st"]
      length_opt_decimal [of plain_decimal_ops "st_max_value st"] sample_plain(3,4) by auto
  show "length (write_segment_stats plain_decimal_ops (from_columns_nullable ts [Decimal 125 2] n)) < 250"
    "length (write_segment_stats plain_decimal_ops (from_columns_nullable ts [Decimal 5 0] n)) < 250"
    "length (write_segment_stats plain_decimal_ops (from_columns_nullable ts [Decimal 125 2, Decimal 5 0] n)) < 250"
    by (rule l; simp add: from_columns_nullable_def)+
qed

lemma two_page_frame:
  assumes pages: "ps_pages s = [p, q]" and stats: "length (write_segment_stats D (ps_stats s)) < 250"
    "length (write_segment_stats D (pg_stats p)) < 250" "length (write_segment_stats D (pg_stats q)) < 250"
    and blocks: "length (put_page_block D b opts p) < 500" "length (put_page_block D b opts q) < 500"
  shows "length (write_paged_segment_with D b s opts) < 2 ^ 64"
proof -
  have "length (write_paged_segment_with D b s opts) < 5000"
    using stats blocks length_put_usize [of "ps_rows_per_page s"] length_put_usize [of "Suc (Suc 0)"]
      length_put_usize [of "length (put_page_block D b opts p)"] length_put_usize [of "length (put_page_block D b opts q)"]
    by (simp add: write_paged_segment_with_def write_paged_segment_inner_def pages put_page_entry_def put_many_def put_raw_def Let_def magic_def)
  also have "(5000 :: nat) < 2 ^ 64" by simp
  finally show ?thesis .
qed

lemma sample_paged_frame:
  assumes "seal_paged_nullable plain_decimal_ops sample_schema [100, 110, 105] sample_values 2 = Inr s"
  shows "length (write_paged_segment_with plain_decimal_ops b s frame_options_default) < 2 ^ 64"
  by (rule two_page_frame [OF sample_paged_pages(1) [OF assms]])
    (use sample_block_lengths [of b] sample_stats sample_paged_pages(2) [OF assms] in simp_all)

subsection \<open>Properties\<close>

text \<open>
  C1: A batch sealed under a declared encoding, written to a frame under any options and read
  back, decodes to the same timestamps, the same null rows and values that each differ from the
  given ones by at most the declared tolerance; nothing is silently downcast further.
\<close>

theorem sealed_batch_survives_file:
  assumes "decimal_laws D val" "seal_nullable D schema ts vs = Inr seg" "length ts \<le> max_rows"
    and "plain_digit_count D (ce_max_abs_error (sg_values seg)) \<le> max_plain_digits" "options_ok opts"
  shows "\<exists>seg' ws. read_segment D bitsliced (write_segment_with D bitsliced seg opts) = Inr seg' \<and>
    decode_nullable (decode_column D) seg' = (ts, ws) \<and>
    list_all2 (rel_option (within_tolerance val (as_value_tolerance schema))) vs ws"
  by (rule sealed_frame [OF assms])

theorem sealed_batch_survives_file_witness:
  "\<exists>seg. seal_nullable plain_decimal_ops sample_schema [100, 110, 105] sample_values = Inr seg \<and>
    (\<exists>seg' ws. read_segment plain_decimal_ops False (write_segment_with plain_decimal_ops False seg frame_options_default) = Inr seg' \<and>
      decode_nullable (decode_column plain_decimal_ops) seg' = ([100, 110, 105], ws) \<and>
      list_all2 (rel_option (within_tolerance decimal_val (as_value_tolerance sample_schema))) sample_values ws)"
proof -
  obtain seg where seg: "seal_nullable plain_decimal_ops sample_schema [100, 110, 105] sample_values = Inr seg"
    "sg_values seg = sample_column" using sample_sealed by blast
  have "options_ok frame_options_default" by (simp add: options_ok_def frame_options_default_def)
  then show ?thesis
    using seg sealed_batch_survives_file [OF plain_decimal_laws seg(1), of frame_options_default False] sample_digits
    by (simp add: max_rows_def)
qed

text \<open>
  C2: A nullable batch built with the advisory encoding at tolerance zero, whose values have a
  plain form the store admits, comes back from its frame with every value equal as a number and
  every null in its place.
\<close>

theorem lossless_batch_survives_file:
  assumes "decimal_laws D val" "\<forall>v\<in>set (flatten_present vs). plain_digit_count D v \<le> max_plain_digits"
    and "length ts = length vs" "length ts \<le> max_rows" "options_ok opts"
  shows "\<exists>seg seg' ws. build_nullable (\<lambda>vs. recommend_encoding D vs (d_zero D)) ts vs unit = Inr seg \<and>
    read_segment D bitsliced (write_segment_with D bitsliced seg opts) = Inr seg' \<and>
    decode_nullable (decode_column D) seg' = (ts, ws) \<and> map (map_option val) ws = map (map_option val) vs"
  by (rule lossless_frame [OF assms])

theorem lossless_batch_survives_file_witness:
  "\<exists>seg seg' ws. build_nullable (\<lambda>vs. recommend_encoding plain_decimal_ops vs (d_zero plain_decimal_ops)) [100, 110, 105]
      sample_values Millis = Inr seg \<and>
    read_segment plain_decimal_ops True (write_segment_with plain_decimal_ops True seg frame_options_default) = Inr seg' \<and>
    decode_nullable (decode_column plain_decimal_ops) seg' = ([100, 110, 105], ws) \<and>
    map (map_option decimal_val) ws = map (map_option decimal_val) sample_values"
  by (rule lossless_batch_survives_file [OF plain_decimal_laws])
    (simp_all add: decimal_evals max_rows_def options_ok_def frame_options_default_def)

text \<open>
  C3: The frame of a sealed batch, under any options and wrapped in an envelope or not, answers
  every batch of points, every single point and every time window exactly as the decoded rows do,
  values within the declared tolerance, by whichever way the reader finds a row: in closed form,
  through the persisted checkpoints or by searching the decoded timestamps. The timestamps of the
  batch lie less than 2^63 apart, the range in which the closed form is exact.
\<close>

theorem sealed_batch_answers_reads:
  assumes "decimal_laws D val" "seal_nullable D schema ts vs = Inr seg" "length ts \<le> max_rows"
    and "plain_digit_count D (ce_max_abs_error (sg_values seg)) \<le> max_plain_digits" "options_ok opts"
    and "\<forall>a\<in>set ts. \<forall>b\<in>set ts. sint b - sint a < 2 ^ 63" "carries bytes (write_segment_with D bitsliced seg opts)"
  shows "\<exists>ws. list_all2 (rel_option (within_tolerance val (as_value_tolerance schema))) vs ws \<and>
    (\<forall>q. read_frame_points D bitsliced bytes q = Some (Inr (map (first_present ts ws) q))) \<and>
    (\<forall>t. read_frame_point D bitsliced bytes t = Some (Inr (first_present ts ws t))) \<and>
    (\<forall>x y. read_frame_range D bitsliced bytes x y = Inr (window_rows x y ts ws))"
  by (rule sealed_segment_reads [OF assms])

theorem sealed_batch_answers_reads_witness:
  "\<exists>seg ws. seal_nullable plain_decimal_ops sample_schema [100, 110, 105] sample_values = Inr seg \<and>
    list_all2 (rel_option (within_tolerance decimal_val (as_value_tolerance sample_schema))) sample_values ws \<and>
    read_frame_points plain_decimal_ops True (write_segment_with plain_decimal_ops True seg frame_options_default) [105, 7] =
      Some (Inr [first_present [100, 110, 105] ws 105, first_present [100, 110, 105] ws 7]) \<and>
    read_frame_range plain_decimal_ops True (write_segment_with plain_decimal_ops True seg frame_options_default) 101 200 =
      Inr (window_rows 101 200 [100, 110, 105] ws)"
proof -
  obtain seg where seg: "seal_nullable plain_decimal_ops sample_schema [100, 110, 105] sample_values = Inr seg"
    "sg_values seg = sample_column" using sample_sealed by blast
  let ?frame = "write_segment_with plain_decimal_ops True seg frame_options_default"
  have "carries ?frame ?frame" by (simp add: carries_def)
  moreover have "options_ok frame_options_default" by (simp add: options_ok_def frame_options_default_def)
  moreover have "plain_digit_count plain_decimal_ops (ce_max_abs_error (sg_values seg)) \<le> max_plain_digits"
    using sample_digits by (simp add: seg(2))
  moreover have "length [100, 110, 105 :: i64] \<le> max_rows" "\<forall>a\<in>set [100, 110, 105 :: i64]. \<forall>b\<in>set [100, 110, 105 :: i64]. sint (b :: i64) - sint (a :: i64) < 2 ^ 63"
    by (simp_all add: max_rows_def)
  ultimately obtain ws where
    "list_all2 (rel_option (within_tolerance decimal_val (as_value_tolerance sample_schema))) sample_values ws"
    "\<forall>q. read_frame_points plain_decimal_ops True ?frame q = Some (Inr (map (first_present [100, 110, 105] ws) q))"
    "\<forall>x y. read_frame_range plain_decimal_ops True ?frame x y = Inr (window_rows x y [100, 110, 105] ws)"
    using sealed_batch_answers_reads [OF plain_decimal_laws seg(1), of frame_options_default ?frame True] by blast
  then show ?thesis using seg(1) by (intro exI [of _ seg] exI [of _ ws]) simp
qed

text \<open>
  C4: The frame of a batch sealed into pages, under any options and wrapped or not, answers every
  batch of points, every single point and every time window exactly as the rows in one piece do:
  the pages skipped from their statistics hold no answer, a page block is found at the offset the
  index sums up to, and an instant takes its first present value in page order. The timestamps lie
  less than 2^63 apart, as for a single block.
\<close>

theorem sealed_pages_answer_reads:
  assumes "decimal_laws D val" "seal_paged_nullable D schema ts vs n = Inr s"
    and "length ts \<le> max_rows" "n < 2 ^ 64" "length (ps_pages s) \<le> max_pages"
    and "\<forall>p\<in>set (ps_pages s). plain_digit_count D (ce_max_abs_error (pg_values p)) \<le> max_plain_digits"
    and "options_ok opts" "length (write_paged_segment_with D bitsliced s opts) < 2 ^ 64"
    and "\<forall>a\<in>set ts. \<forall>b\<in>set ts. sint b - sint a < 2 ^ 63" "carries bytes (write_paged_segment_with D bitsliced s opts)"
  shows "\<exists>ws. list_all2 (rel_option (within_tolerance val (as_value_tolerance schema))) vs ws \<and>
    (\<forall>q. read_frame_points D bitsliced bytes q = Some (Inr (map (first_present ts ws) q))) \<and>
    (\<forall>t. read_frame_point D bitsliced bytes t = Some (Inr (first_present ts ws t))) \<and>
    (\<forall>x y. read_frame_range D bitsliced bytes x y = Inr (window_rows x y ts ws))"
  by (rule sealed_pages_reads [OF assms])

theorem sealed_pages_answer_reads_witness:
  "\<exists>s ws. seal_paged_nullable plain_decimal_ops sample_schema [100, 110, 105] sample_values 2 = Inr s \<and>
    list_all2 (rel_option (within_tolerance decimal_val (as_value_tolerance sample_schema))) sample_values ws \<and>
    read_frame_points plain_decimal_ops True (write_paged_segment_with plain_decimal_ops True s frame_options_default) [105, 7] =
      Some (Inr [first_present [100, 110, 105] ws 105, first_present [100, 110, 105] ws 7]) \<and>
    read_frame_range plain_decimal_ops True (write_paged_segment_with plain_decimal_ops True s frame_options_default) 101 200 =
      Inr (window_rows 101 200 [100, 110, 105] ws)"
proof -
  obtain s where s: "seal_paged_nullable plain_decimal_ops sample_schema [100, 110, 105] sample_values 2 = Inr s"
    using sample_paged by blast
  let ?frame = "write_paged_segment_with plain_decimal_ops True s frame_options_default"
  have err: "\<forall>p\<in>set (ps_pages s). plain_digit_count plain_decimal_ops (ce_max_abs_error (pg_values p)) \<le> max_plain_digits"
    by (simp add: sample_paged_pages(1) [OF s] decimal_evals)
  have "carries ?frame ?frame" by (simp add: carries_def)
  moreover have "options_ok frame_options_default" by (simp add: options_ok_def frame_options_default_def)
  moreover have "length [100, 110, 105 :: i64] \<le> max_rows" "(2 :: nat) < 2 ^ 64" "length (ps_pages s) \<le> max_pages"
      "\<forall>a\<in>set [100, 110, 105 :: i64]. \<forall>b\<in>set [100, 110, 105 :: i64]. sint (b :: i64) - sint (a :: i64) < 2 ^ 63"
    by (simp_all add: max_rows_def max_pages_def sample_paged_pages(1) [OF s])
  ultimately obtain ws where
    "list_all2 (rel_option (within_tolerance decimal_val (as_value_tolerance sample_schema))) sample_values ws"
    "\<forall>q. read_frame_points plain_decimal_ops True ?frame q = Some (Inr (map (first_present [100, 110, 105] ws) q))"
    "\<forall>x y. read_frame_range plain_decimal_ops True ?frame x y = Inr (window_rows x y [100, 110, 105] ws)"
    using sealed_pages_answer_reads [OF plain_decimal_laws s _ _ _ err _ sample_paged_frame [OF s]] by blast
  then show ?thesis using s by (intro exI [of _ s] exI [of _ ws]) simp
qed

text \<open>
  C5: A batch sealed into pages, written to a paged frame under any options and read back, keeps
  every value within the declared tolerance, and every read across the pages that were read (all
  rows, a time window through page pruning, a point lookup) answers what the same read of the
  given rows answers.
\<close>

theorem sealed_pages_survive_file:
  assumes "decimal_laws D val" "seal_paged_nullable D schema ts vs n = Inr s"
    and "length ts \<le> max_rows" "n < 2 ^ 64" "length (ps_pages s) \<le> max_pages"
    and "\<forall>p\<in>set (ps_pages s). plain_digit_count D (ce_max_abs_error (pg_values p)) \<le> max_plain_digits"
    and "options_ok opts" "length (write_paged_segment_with D bitsliced s opts) < 2 ^ 64"
  shows "\<exists>s' ws. read_paged_segment D bitsliced (write_paged_segment_with D bitsliced s opts) = Inr s' \<and>
    list_all2 (rel_option (within_tolerance val (as_value_tolerance schema))) vs ws \<and>
    paged_decode_nullable (decode_column D) s' = (ts, ws) \<and>
    (\<forall>a b. read_time_range (decode_column D) s' a b = window_rows a b ts ws) \<and>
    (\<forall>t. paged_value_at (decode_column D) s' t = first_present ts ws t)"
  by (rule sealed_pages_frame [OF assms])

theorem sealed_pages_survive_file_witness:
  "\<exists>s s' ws. seal_paged_nullable plain_decimal_ops sample_schema [100, 110, 105] sample_values 2 = Inr s \<and>
    read_paged_segment plain_decimal_ops True (write_paged_segment_with plain_decimal_ops True s frame_options_default) = Inr s' \<and>
    list_all2 (rel_option (within_tolerance decimal_val (as_value_tolerance sample_schema))) sample_values ws \<and>
    paged_decode_nullable (decode_column plain_decimal_ops) s' = ([100, 110, 105], ws) \<and>
    paged_value_at (decode_column plain_decimal_ops) s' 105 = first_present [100, 110, 105] ws 105"
proof -
  obtain s where s: "seal_paged_nullable plain_decimal_ops sample_schema [100, 110, 105] sample_values 2 = Inr s"
    using sample_paged by blast
  have err: "\<forall>p\<in>set (ps_pages s). plain_digit_count plain_decimal_ops (ce_max_abs_error (pg_values p)) \<le> max_plain_digits"
    by (simp add: sample_paged_pages(1) [OF s] decimal_evals)
  have "options_ok frame_options_default" by (simp add: options_ok_def frame_options_default_def)
  from sealed_pages_survive_file [OF plain_decimal_laws s _ _ _ err this sample_paged_frame [OF s, of True]]
  show ?thesis using s by (auto simp: max_rows_def max_pages_def sample_paged_pages(1) [OF s])
qed

text \<open>
  C9: The frame of a segment, under any combination of the checkpointed and bit-sliced layouts,
  reads back as the same segment (decimals compared as numbers), and what was read is again a
  consistent segment.
\<close>

theorem segment_frame_round_trip:
  assumes "decimal_laws D val" "seg_ok D seg" "options_ok opts"
  shows "\<exists>seg'. read_segment D bitsliced (write_segment_with D bitsliced seg opts) = Inr seg' \<and>
    same_segment val seg seg' \<and> seg_ok D seg'"
  using segment_round_trip [OF assms] by metis

theorem segment_frame_round_trip_witness:
  "\<exists>seg seg'. read_segment plain_decimal_ops True (write_segment_with plain_decimal_ops True seg
      \<lparr>fo_checkpoint_stride = Some 2, fo_transposed_max_overhead = None\<rparr>) = Inr seg' \<and>
    same_segment decimal_val seg seg' \<and> seg_ok plain_decimal_ops seg' \<and> sg_values seg = sample_column"
proof -
  obtain seg where seg: "build_nullable (\<lambda>_. sample_column) [100, 110, 105] sample_values Seconds = Inr seg" "sg_values seg = sample_column"
    by (auto simp: build_nullable_def Let_def)
  have "seg_ok plain_decimal_ops seg"
    by (rule built_seg_ok [OF plain_decimal_laws seg(1), where pt = "ScaledI64 1"])
      (simp_all add: seg(2) sample_encoded max_rows_def sample_digits)
  then show ?thesis
    using segment_frame_round_trip [OF plain_decimal_laws, of seg "\<lparr>fo_checkpoint_stride = Some 2, fo_transposed_max_overhead = None\<rparr>" True] seg(2)
    by (auto simp: options_ok_def)
qed

text \<open>
  C10: A value block, written by the size-selected or by the cascading selector, reads back as the
  same column wherever it stands in a buffer, with the reader right behind it.
\<close>

theorem value_block_round_trip:
  assumes "decimal_laws D val" "column_ok D col"
  shows "\<exists>col'. same_column val col col' \<and>
    (\<forall>pre s. read_value_column D bitsliced (rd pre (write_value_column D bitsliced col @ s)) =
        Inr (col', rd (pre @ write_value_column D bitsliced col) s) \<and>
      read_value_column D bitsliced (rd pre (write_value_column_cascading D bitsliced col @ s)) =
        Inr (col', rd (pre @ write_value_column_cascading D bitsliced col) s))"
proof -
  obtain e where e: "val e = val (ce_max_abs_error col)"
    "\<And>codec pre s. codec_applies col codec \<Longrightarrow>
      read_value_column D bitsliced (rd pre (write_value_column_selected D bitsliced col codec @ s)) =
        Inr (col\<lparr>ce_max_abs_error := e\<rparr>, rd (pre @ write_value_column_selected D bitsliced col codec) s)"
    by (rule value_column_reads [OF assms]) blast
  show ?thesis
    using e(2) [OF selectors_apply(1)] e(2) [OF selectors_apply(2)] e(1)
    by (intro exI [of _ "col\<lparr>ce_max_abs_error := e\<rparr>"]) (simp add: same_column_def write_value_column_def write_value_column_cascading_def)
qed

theorem value_block_round_trip_witness:
  "\<exists>col'. same_column decimal_val sample_column col' \<and>
    (\<forall>pre s. read_value_column plain_decimal_ops True (rd pre (write_value_column plain_decimal_ops True sample_column @ s)) =
        Inr (col', rd (pre @ write_value_column plain_decimal_ops True sample_column) s) \<and>
      read_value_column plain_decimal_ops True (rd pre (write_value_column_cascading plain_decimal_ops True sample_column @ s)) =
        Inr (col', rd (pre @ write_value_column_cascading plain_decimal_ops True sample_column) s))"
  by (rule value_block_round_trip [OF plain_decimal_laws sample_column_ok])

text \<open>
  C16: When a seal is refused because a value cannot be represented, single-block or paged, the
  index it reports is the row of the caller: that row holds a value, encoding it fails with the
  reported error, and every value in an earlier row can be encoded.
\<close>

theorem seal_refusal_names_row:
  assumes "seal_nullable D schema ts vs = Inl (SealEncode e) \<or> seal_paged_nullable D schema ts vs n = Inl (SealEncode e)"
  shows "refused_at D (as_value schema) vs e (cee_index e)"
  using assms seal_nullable_refused seal_paged_nullable_refused by blast

theorem seal_refusal_names_row_witness:
  "seal_nullable plain_decimal_ops sample_schema [100, 110, 105] [Some (Decimal 125 2), None, Some (Decimal 1000000000000000000000000000000 0)] =
      Inl (SealEncode \<lparr>cee_index = 2, cee_source = Overflow\<rparr>) \<and>
    refused_at plain_decimal_ops (as_value sample_schema) [Some (Decimal 125 2), None, Some (Decimal 1000000000000000000000000000000 0)]
      \<lparr>cee_index = 2, cee_source = Overflow\<rparr> (cee_index \<lparr>cee_index = 2, cee_source = Overflow\<rparr>)"
proof -
  have e: "seal_nullable plain_decimal_ops sample_schema [100, 110, 105] [Some (Decimal 125 2), None, Some (Decimal 1000000000000000000000000000000 0)] =
      Inl (SealEncode \<lparr>cee_index = 2, cee_source = Overflow\<rparr>)"
    by (simp add: seal_nullable_def aspect_schema_new_def sample_refused remap_present_index_def Let_def)
  show ?thesis using e seal_refusal_names_row [of plain_decimal_ops sample_schema, OF disjI1, OF e] by (rule conjI)
qed

text \<open>
  C17: A paged seal keeps every value within the declared tolerance and every read across its
  pages (all rows, a time window through page pruning, a point lookup) answers what the same read
  of the rows in one piece answers.
\<close>

theorem sealed_pages_within_tolerance:
  assumes "decimal_laws D val" "seal_paged_nullable D schema ts vs n = Inr s"
  shows "\<exists>ws. list_all2 (rel_option (within_tolerance val (as_value_tolerance schema))) vs ws \<and>
    paged_decode_nullable (decode_column D) s = (ts, ws) \<and>
    (\<forall>a b. read_time_range (decode_column D) s a b = window_rows a b ts ws) \<and>
    (\<forall>t. paged_value_at (decode_column D) s t = first_present ts ws t)"
proof -
  have "\<forall>vc\<in>set (chunks n vs). list_all2 (within_tolerance val (as_value_tolerance schema)) (flatten_present vc)
      (decode_column D (declared_encoder D schema (flatten_present vc)))"
    using assms(2) declared_within [OF assms(1)] by (auto simp: seal_paged_nullable_Inr)
  then show ?thesis using assms(2) paged_reads by (auto simp: seal_paged_nullable_Inr)
qed

theorem sealed_pages_within_tolerance_witness:
  "\<exists>s ws. seal_paged_nullable plain_decimal_ops sample_schema [100, 110, 105] sample_values 2 = Inr s \<and>
    list_all2 (rel_option (within_tolerance decimal_val (as_value_tolerance sample_schema))) sample_values ws \<and>
    paged_decode_nullable (decode_column plain_decimal_ops) s = ([100, 110, 105], ws) \<and>
    (\<forall>a b. read_time_range (decode_column plain_decimal_ops) s a b = window_rows a b [100, 110, 105] ws) \<and>
    (\<forall>t. paged_value_at (decode_column plain_decimal_ops) s t = first_present [100, 110, 105] ws t)"
  using sample_paged sealed_pages_within_tolerance [OF plain_decimal_laws] by blast

text \<open>
  C18: Read_values_at, whose gather walk is a loop that need not end on arbitrary bytes, returns
  on every block the whole-column reader accepts, for every list of indices in any order and with
  repetitions, and answers each request with the value at that index.
\<close>

theorem batch_value_read_returns:
  assumes "read_value_column D bitsliced (new_reader bytes) = Inr (col, r)"
  shows "read_values_at D bitsliced bytes indices = Some (Inr (map (list_get (ce_values col)) indices))"
  by (rule read_values_at_column [OF assms])

theorem batch_value_read_returns_witness:
  "\<exists>col r. read_value_column plain_decimal_ops True (new_reader (write_value_column plain_decimal_ops True sample_column)) = Inr (col, r) \<and>
    read_values_at plain_decimal_ops True (write_value_column plain_decimal_ops True sample_column) [1, 0, 7, 1] =
      Some (Inr (map (list_get (ce_values col)) [1, 0, 7, 1]))"
  using sample_read batch_value_read_returns [where indices = "[1, 0, 7, 1]"] by blast

text \<open>
  C19: Read_value_range answers the clamped slice of the whole decoded column, for every block the
  whole-column reader accepts.
\<close>

theorem value_range_read_agrees:
  assumes "read_value_column D bitsliced (new_reader bytes) = Inr (col, r)"
  shows "read_value_range D bitsliced bytes start len = Inr (take len (drop start (ce_values col)))"
  by (rule read_value_range_column [OF assms])

theorem value_range_read_agrees_witness:
  "\<exists>col r. read_value_column plain_decimal_ops True (new_reader (write_value_column plain_decimal_ops True sample_column)) = Inr (col, r) \<and>
    read_value_range plain_decimal_ops True (write_value_column plain_decimal_ops True sample_column) 1 5 =
      Inr (take 5 (drop 1 (ce_values col)))"
  using sample_read value_range_read_agrees [where start = 1 and len = 5] by blast

text \<open>
  C26: The point lookup of a sealed segment, with its rejection by the time bounds and its binary
  search or linear scan chosen by the recorded order flag, returns for every timestamp the first
  present value at it in row order, and None exactly when there is none; the rows meant are the
  decoded ones, which are the rows given with every value within the declared tolerance.
\<close>

theorem sealed_lookup_is_first_present:
  assumes "decimal_laws D val" "seal_nullable D schema ts vs = Inr seg"
  shows "\<exists>ws. decode_nullable (decode_column D) seg = (ts, ws) \<and>
    list_all2 (rel_option (within_tolerance val (as_value_tolerance schema))) vs ws \<and>
    (\<forall>t. value_at (decode_column D) seg t = find_map (\<lambda>(x, v). if x = t then v else None) (zip ts ws))"
proof -
  have fits: "declared_fits D schema (flatten_present vs)"
    and built: "build_nullable (declared_encoder D schema) ts vs (as_timestamp_unit schema) = Inr seg"
    using assms(2) by (simp_all add: seal_nullable_Inr)
  obtain ws where ws: "decode_nullable (decode_column D) seg = (ts, ws)"
    "list_all2 (rel_option (within_tolerance val (as_value_tolerance schema))) vs ws"
    using decode_nullable_related [where dec = "decode_column D" and R = "within_tolerance val (as_value_tolerance schema)",
      OF built declared_within [OF assms(1) fits]] by blast
  have "length ws = length ts"
    using list_all2_lengthD [OF ws(2)] built by (simp add: build_nullable_def split: if_splits)
  then show ?thesis
    using ws value_at_decoded [OF built ws(1)] by (auto simp: first_present_def)
qed

theorem sealed_lookup_is_first_present_witness:
  "\<exists>seg ws. seal_nullable plain_decimal_ops sample_schema [100, 110, 105] sample_values = Inr seg \<and>
    list_all2 (rel_option (within_tolerance decimal_val (as_value_tolerance sample_schema))) sample_values ws \<and>
    value_at (decode_column plain_decimal_ops) seg 105 = ws ! 2 \<and> value_at (decode_column plain_decimal_ops) seg 7 = None"
proof -
  obtain seg where seg: "seal_nullable plain_decimal_ops sample_schema [100, 110, 105] sample_values = Inr seg"
    using sample_sealed by blast
  obtain ws where ws: "list_all2 (rel_option (within_tolerance decimal_val (as_value_tolerance sample_schema))) sample_values ws"
    "\<forall>t. value_at (decode_column plain_decimal_ops) seg t = find_map (\<lambda>(x, v). if x = t then v else None) (zip [100, 110, 105] ws)"
    using sealed_lookup_is_first_present [OF plain_decimal_laws seg] by blast
  have "length ws = 3" using list_all2_lengthD [OF ws(1)] by simp
  then obtain a b c where "ws = [a, b, c]" by (auto simp: length_Suc_conv numeral_3_eq_3)
  then show ?thesis using seg ws by (intro exI [of _ seg] exI [of _ ws]) (auto split: option.splits)
qed

text \<open>
  C29: A column encoded under a physical type holds exactly one value of that type for each input,
  every stored text parses back to a decimal of the admitted domain, and the lossy count never
  exceeds the height.
\<close>

theorem encoded_column_is_typed:
  assumes "decimal_laws D val" "encode_column D pt vs = Inr col"
  shows "ce_physical_type col = pt \<and> length (ce_values col) = length vs \<and> column_typed col \<and>
    list_all (value_readable D) (ce_values col)"
  using encode_column_ok [OF assms] by simp

theorem encoded_column_is_typed_witness:
  "ce_physical_type sample_column = ScaledI64 1 \<and> length (ce_values sample_column) = length [Decimal 125 2, Decimal 5 0] \<and>
    column_typed sample_column \<and> list_all (value_readable plain_decimal_ops) (ce_values sample_column)"
  by (rule encoded_column_is_typed [OF plain_decimal_laws sample_encoded])

text \<open>
  C30: The error an encoded column reports is the largest distance between a given value and the
  number its stored form stands for, and its lossy count is the number of values not stored
  exactly.
\<close>

theorem encoded_column_reports_worst_error:
  assumes "decimal_laws D val" "encode_column D pt vs = Inr col"
  shows "val (ce_max_abs_error col) = Max (insert 0 (set (map (stored_error D val) (zip vs (ce_values col))))) \<and>
    ce_lossy_count col = length (filter (\<lambda>p. stored_error D val p \<noteq> 0) (zip vs (ce_values col)))"
  using encode_column_ok [OF assms] by simp

theorem encoded_column_reports_worst_error_witness:
  "decimal_val (ce_max_abs_error sample_column) =
      Max (insert 0 (set (map (stored_error plain_decimal_ops decimal_val) (zip [Decimal 125 2, Decimal 5 0] (ce_values sample_column))))) \<and>
    ce_lossy_count sample_column =
      length (filter (\<lambda>p. stored_error plain_decimal_ops decimal_val p \<noteq> 0) (zip [Decimal 125 2, Decimal 5 0] (ce_values sample_column)))"
  by (rule encoded_column_reports_worst_error [OF plain_decimal_laws sample_encoded])

text \<open>
  C31: Whenever a value is stored as a 64-bit integer at some scale, it is off by at most half a
  unit of its last place; and whenever one is stored as a 128-bit decimal, whether or not it would
  fit 64 bits at any scale, it keeps thirty-seven significant digits.
\<close>

theorem scaled_encodings_bound_the_error:
  assumes "decimal_laws D val"
  shows "(\<forall>en. encode D (ScaledI64 scale) x = Inr en \<longrightarrow> \<bar>val x - val (to_logical D (en_value en))\<bar> \<le> 1 / 2 / 10 ^ unat scale) \<and>
    (\<forall>en. encode D Decimal128 x = Inr en \<longrightarrow> \<bar>val x - val (to_logical D (en_value en))\<bar> * 10 ^ 37 \<le> \<bar>val x\<bar>)"
  using scaled_i64_half_unit [OF assms] decimal128_relative [OF assms] by blast

theorem scaled_encodings_bound_the_error_witness:
  "\<exists>en en'. encode plain_decimal_ops (ScaledI64 1) (Decimal 125 2) = Inr en \<and>
    \<bar>decimal_val (Decimal 125 2) - decimal_val (to_logical plain_decimal_ops (en_value en))\<bar> \<le> 1 / 2 / 10 ^ unat (1 :: u8) \<and>
    encode plain_decimal_ops Decimal128 (Decimal 100000000000000000000000001 1) = Inr en' \<and>
    \<bar>decimal_val (Decimal 100000000000000000000000001 1) - decimal_val (to_logical plain_decimal_ops (en_value en'))\<bar> * 10 ^ 37
      \<le> \<bar>decimal_val (Decimal 100000000000000000000000001 1)\<bar>"
proof -
  obtain en where en: "encode plain_decimal_ops (ScaledI64 1) (Decimal 125 2) = Inr en" using sample_values_encode(1) by blast
  obtain en' where en': "encode plain_decimal_ops Decimal128 (Decimal 100000000000000000000000001 1) = Inr en'"
    using sample_large_encodes by blast
  show ?thesis using scaled_encodings_bound_the_error [OF plain_decimal_laws] en en' by blast
qed

subsection \<open>Further facts\<close>

text \<open>
  Read_value_at, which decodes one block of the value stream, answers what indexing the whole
  decoded column answers, for every block the whole-column reader accepts, whatever its codec, and
  every index, also past the end.
\<close>

lemma single_value_read_agrees:
  assumes "read_value_column D bitsliced (new_reader bytes) = Inr (col, r)"
  shows "read_value_at D bitsliced bytes index = Inr (list_get (ce_values col) index)"
  by (rule read_value_at_column [OF assms])

lemma single_value_read_agrees_witness:
  "\<exists>col r. read_value_column plain_decimal_ops True (new_reader (write_value_column plain_decimal_ops True sample_column)) = Inr (col, r) \<and>
    read_value_at plain_decimal_ops True (write_value_column plain_decimal_ops True sample_column) 1 = Inr (list_get (ce_values col) 1)"
  using sample_read single_value_read_agrees [where index = 1] by blast

text \<open>
  The rows and the nulls the pages of a built paged segment count add up to the counts of the
  segment-level statistics.
\<close>

lemma page_statistics_roll_up:
  assumes "paged_build_nullable enc ts vs unit n = Inr s"
  shows "sum_list (map (\<lambda>p. st_row_count (pg_stats p)) (ps_pages s)) = st_row_count (ps_stats s) \<and>
    sum_list (map (\<lambda>p. st_null_count (pg_stats p)) (ps_pages s)) = st_null_count (ps_stats s)"
  using paged_rollup [OF assms] by (rule conjI)

lemma page_statistics_roll_up_witness:
  "\<exists>s. paged_build_nullable (\<lambda>vs. vs) [100, 110, 105] [Some (4 :: int), None, Some 5] Seconds 2 = Inr s \<and>
    sum_list (map (\<lambda>p. st_row_count (pg_stats p)) (ps_pages s)) = st_row_count (ps_stats s) \<and>
    sum_list (map (\<lambda>p. st_null_count (pg_stats p)) (ps_pages s)) = st_null_count (ps_stats s)"
proof -
  obtain s where s: "paged_build_nullable (\<lambda>vs. vs) [100, 110, 105] [Some (4 :: int), None, Some 5] Seconds 2 = Inr s"
    by (simp add: paged_build_nullable_def Let_def)
  show ?thesis using s page_statistics_roll_up [OF s] by blast
qed

text \<open>
  Sealing a dense batch, in one block or in pages, gives exactly what sealing the same batch as a
  nullable one without nulls gives, errors and their indices included.
\<close>

lemma dense_seal_is_nullable_seal:
  "seal D schema ts vs = seal_nullable D schema ts (map Some vs) \<and>
    seal_paged D schema ts vs n = seal_paged_nullable D schema ts (map Some vs) n"
  using seal_dense seal_paged_dense by (rule conjI)

end
