(* ===== verification/Btree_Map.thy ===== *)
theory Btree_Map imports Main begin

text \<open>
  \<open>std::collections::BTreeMap\<close> as the crates \<^verbatim>\<open>weft-reduce\<close> and \<^verbatim>\<open>weftdb\<close> use it: the entries in
  ascending key order, each key once. A lookup is \<open>map_of\<close>, iteration is the list itself, and
  \<open>bt_insert\<close> replaces the value of a key or puts a new entry at its place.
\<close>

type_synonym ('k, 'v) btree = "('k \<times> 'v) list"

fun bt_insert :: "'k::linorder \<Rightarrow> 'v \<Rightarrow> ('k, 'v) btree \<Rightarrow> ('k, 'v) btree" where
  "bt_insert k v [] = [(k, v)]"
| "bt_insert k v ((a, w) # m) =
    (if k < a then (k, v) # (a, w) # m else if k = a then (k, v) # m else (a, w) # bt_insert k v m)"

definition bt_ok :: "('k::linorder, 'v) btree \<Rightarrow> bool" where
  "bt_ok m \<longleftrightarrow> sorted_wrt (<) (map fst m)"

lemma bt_ok_Nil [simp]: "bt_ok []"
  by (simp add: bt_ok_def)

lemma bt_ok_Cons [simp]: "bt_ok ((k, v) # m) \<longleftrightarrow> (\<forall>x\<in>set m. k < fst x) \<and> bt_ok m"
  by (simp add: bt_ok_def)

lemma map_of_bt_insert [simp]: "map_of (bt_insert k v m) = (map_of m)(k \<mapsto> v)"
  by (induction k v m rule: bt_insert.induct) (auto simp: fun_eq_iff)

lemma set_bt_insert: "set (bt_insert k v m) \<subseteq> insert (k, v) (set m)"
  by (induction k v m rule: bt_insert.induct) auto

lemma bt_ok_insert [simp]:
  assumes "bt_ok m"
  shows "bt_ok (bt_insert k v m)"
  using assms
proof (induction k v m rule: bt_insert.induct)
  case (2 k v a w m)
  moreover have "\<forall>x\<in>set (bt_insert k v m). a < fst x" if "a < k" "\<forall>x\<in>set m. a < fst x"
    using set_bt_insert [of k v m] that by auto
  ultimately show ?case by auto
qed simp

lemma bt_insert_not_Nil [simp]: "bt_insert k v m \<noteq> []"
  by (induction k v m rule: bt_insert.induct) auto

lemma bt_head_not_in:
  fixes k :: "'k::linorder"
  assumes "\<forall>x\<in>set m. a < fst x" "k \<le> a"
  shows "map_of m k = None"
  using assms by (induction m) auto

lemma bt_distinct: "bt_ok m \<Longrightarrow> distinct (map fst m)"
  by (simp add: bt_ok_def strict_sorted_iff)

lemma bt_ext:
  assumes "bt_ok m" "bt_ok n" "map_of m = map_of n"
  shows "m = n"
proof -
  have "sorted (map fst m)" "sorted (map fst n)"
    using assms(1,2) by (simp_all add: bt_ok_def strict_sorted_imp_sorted)
  moreover have "set (map fst m) = set (map fst n)"
    using assms(3) by (simp flip: dom_map_of_conv_image_fst)
  ultimately have keys: "map fst m = map fst n"
    using bt_distinct [OF assms(1)] bt_distinct [OF assms(2)] by (intro sorted_distinct_set_unique)
  show ?thesis
  proof (rule nth_equalityI)
    show "length m = length n" using keys by (metis length_map)
    fix i assume i: "i < length m"
    then have n: "i < length n" using keys by (metis length_map)
    have "fst (m ! i) = fst (n ! i)" using keys i n by (metis nth_map)
    moreover have "map_of m (fst (m ! i)) = Some (snd (m ! i))" "map_of n (fst (n ! i)) = Some (snd (n ! i))"
      using i n assms(1,2) by (simp_all add: bt_distinct)
    ultimately show "m ! i = n ! i" using assms(3) by (simp add: prod_eq_iff)
  qed
qed

text \<open>The lookup of an entry that is listed.\<close>

lemma bt_lookup:
  assumes "bt_ok m" "(k, v) \<in> set m"
  shows "map_of m k = Some v"
  using assms by (simp add: bt_distinct)

text \<open>Folding entries into a map with a total combination, the pattern
  \<open>*map.entry(k).or_insert(zero) += c\<close>.\<close>

definition bt_add :: "'k::linorder \<Rightarrow> nat \<Rightarrow> ('k, nat) btree \<Rightarrow> ('k, nat) btree" where
  "bt_add k c m = bt_insert k ((case map_of m k of None \<Rightarrow> 0 | Some x \<Rightarrow> x) + c) m"

definition bt_count :: "('k, nat) btree \<Rightarrow> 'k \<Rightarrow> nat" where
  "bt_count m k = (case map_of m k of None \<Rightarrow> 0 | Some x \<Rightarrow> x)"

lemma bt_ok_add [simp]: "bt_ok m \<Longrightarrow> bt_ok (bt_add k c m)"
  by (simp add: bt_add_def)

lemma bt_count_add: "bt_count (bt_add k c m) x = bt_count m x + (if x = k then c else 0)"
  by (simp add: bt_count_def bt_add_def)

lemma dom_bt_add [simp]: "dom (map_of (bt_add k c m)) = insert k (dom (map_of m))"
  by (simp add: bt_add_def)

lemma bt_add_ext:
  assumes "bt_ok m" "bt_ok n" "dom (map_of m) = dom (map_of n)" "bt_count m = bt_count n"
  shows "m = n"
proof (rule bt_ext [OF assms(1,2)], rule ext)
  fix k
  show "map_of m k = map_of n k"
    using fun_cong [OF assms(4), of k] eqset_imp_iff [OF assms(3), of k]
    by (auto simp: bt_count_def domIff split: option.splits)
qed

subsection \<open>Entries that merge\<close>

text \<open>The loop \<open>match map.entry(k)\<close> of the code: the value is merged into the entry of its key, or becomes
  that entry; a merge may be refused.\<close>

definition entry_merge :: "('v \<Rightarrow> 'v \<Rightarrow> 'e + 'v) \<Rightarrow> 'k::linorder \<Rightarrow> 'v \<Rightarrow> ('k, 'v) btree \<Rightarrow> 'e + ('k, 'v) btree" where
  "entry_merge merge k v m =
    (case map_of m k of
       Some mine \<Rightarrow> (case merge mine v of Inl e \<Rightarrow> Inl e | Inr merged \<Rightarrow> Inr (bt_insert k merged m))
     | None \<Rightarrow> Inr (bt_insert k v m))"

fun merge_entries ::
    "('v \<Rightarrow> 'v \<Rightarrow> 'e + 'v) \<Rightarrow> ('k \<Rightarrow> 'k::linorder) \<Rightarrow> ('k, 'v) btree \<Rightarrow> ('k \<times> 'v) list \<Rightarrow> 'e + ('k, 'v) btree" where
  "merge_entries merge h m [] = Inr m"
| "merge_entries merge h m ((k, v) # es) =
    (case entry_merge merge (h k) v m of Inl e \<Rightarrow> Inl e | Inr m \<Rightarrow> merge_entries merge h m es)"

text \<open>The same samples in time order: at every instant the same ones in the same order.\<close>

definition same_in_time :: "('x \<Rightarrow> int) \<Rightarrow> 'x list \<Rightarrow> 'x list \<Rightarrow> bool" where
  "same_in_time key xs ys \<longleftrightarrow> (\<forall>t. filter (\<lambda>x. key x = t) xs = filter (\<lambda>x. key x = t) ys)"

lemma same_in_time_refl [simp]: "same_in_time key xs xs"
  by (simp add: same_in_time_def)

lemma same_in_time_trans: "same_in_time key xs ys \<Longrightarrow> same_in_time key ys zs \<Longrightarrow> same_in_time key xs zs"
  by (simp add: same_in_time_def)

lemma same_in_time_append:
  "same_in_time key xs ys \<Longrightarrow> same_in_time key xs' ys' \<Longrightarrow> same_in_time key (xs @ xs') (ys @ ys')"
  by (simp add: same_in_time_def)

lemma same_in_time_set:
  assumes "same_in_time key xs ys"
  shows "set xs = set ys"
proof -
  have "x \<in> set zs \<longleftrightarrow> x \<in> set (filter (\<lambda>y. key y = key x) zs)" for x zs by simp
  then show ?thesis using assms unfolding same_in_time_def set_eq_iff by metis
qed

lemma same_in_time_filter:
  assumes "same_in_time key xs ys"
  shows "same_in_time key (filter (\<lambda>x. P (key x)) xs) (filter (\<lambda>x. P (key x)) ys)"
proof -
  have swap: "filter (\<lambda>x. key x = t) (filter (\<lambda>x. P (key x)) zs) = (if P t then filter (\<lambda>x. key x = t) zs else [])" for t zs
    by (induction zs) auto
  show ?thesis using assms unfolding same_in_time_def swap by simp
qed

text \<open>A map groups the samples \<open>xs\<close> by \<open>g\<close> of their instant: its keys are the groups, and each value
  stands for its group.\<close>

definition grouped ::
    "('x list \<Rightarrow> 'a \<Rightarrow> bool) \<Rightarrow> ('x \<Rightarrow> int) \<Rightarrow> (int \<Rightarrow> int) \<Rightarrow> 'x list \<Rightarrow> (int, 'a) btree \<Rightarrow> bool" where
  "grouped holds key g xs m \<longleftrightarrow> bt_ok m \<and> dom (map_of m) = (\<lambda>x. g (key x)) ` set xs \<and>
    (\<forall>b a. map_of m b = Some a \<longrightarrow> (\<exists>ys. same_in_time key ys (filter (\<lambda>x. g (key x) = b) xs) \<and> holds ys a))"

lemma grouped_Nil [simp]: "grouped holds key g [] []"
  by (simp add: grouped_def)

lemma groupedD:
  assumes "grouped holds key g xs m" "map_of m b = Some a"
  shows "\<exists>ys. same_in_time key ys (filter (\<lambda>x. g (key x) = b) xs) \<and> holds ys a"
  using assms unfolding grouped_def by blast

lemma grouped_cong:
  assumes "grouped holds key g xs m" "same_in_time key xs ys"
  shows "grouped holds key g ys m"
  using assms same_in_time_set [OF assms(2)] same_in_time_filter [OF assms(2), of "\<lambda>t. g t = b" for b]
  unfolding grouped_def by (metis (no_types, lifting) same_in_time_trans)

lemma grouped_put:
  assumes "grouped holds key g zs m" "\<forall>y\<in>set ys. g (key y) = b" "ys \<noteq> []"
    and "case map_of m b of None \<Rightarrow> holds ys a
      | Some c \<Rightarrow> \<forall>ws. same_in_time key ws (filter (\<lambda>x. g (key x) = b) zs) \<and> holds ws c \<longrightarrow> (\<exists>vs. same_in_time key vs (ws @ ys) \<and> holds vs a)"
  shows "grouped holds key g (zs @ ys) (bt_insert b a m)"
proof -
  have ok: "bt_ok m" and dom: "dom (map_of m) = (\<lambda>x. g (key x)) ` set zs" using assms(1) by (simp_all add: grouped_def)
  have img: "(\<lambda>x. g (key x)) ` set ys = {b}" using assms(2,3) by (cases ys) auto
  have own: "filter (\<lambda>x. g (key x) = b) ys = ys" using assms(2) by simp
  have other: "filter (\<lambda>x. g (key x) = c) ys = []" if "c \<noteq> b" for c using assms(2) that by (auto simp: filter_empty_conv)
  have "\<exists>vs. same_in_time key vs (filter (\<lambda>x. g (key x) = b) zs @ ys) \<and> holds vs a"
  proof (cases "map_of m b")
    case None
    then have "b \<notin> (\<lambda>x. g (key x)) ` set zs" using dom by (metis domIff)
    then have "filter (\<lambda>x. g (key x) = b) zs = []" by (auto simp: filter_empty_conv)
    then show ?thesis using None assms(4) by (intro exI [of _ ys]) simp
  next
    case (Some c)
    then obtain ws where ws: "same_in_time key ws (filter (\<lambda>x. g (key x) = b) zs)" "holds ws c"
      using groupedD [OF assms(1)] by blast
    obtain vs where vs: "same_in_time key vs (ws @ ys)" "holds vs a" using assms(4) Some ws by auto
    show ?thesis
      using vs same_in_time_trans [OF vs(1) same_in_time_append [OF ws(1) same_in_time_refl]] by blast
  qed
  then show ?thesis
    using assms(1) ok dom img own other by (auto simp: grouped_def image_Un)
qed

text \<open>An accumulator that can be merged: merging the states of two lists of samples gives the state of
  their concatenation.\<close>

locale mergeable =
  fixes holds :: "'x list \<Rightarrow> 'a \<Rightarrow> bool" and merge :: "'a \<Rightarrow> 'a \<Rightarrow> 'e + 'a" and key :: "'x \<Rightarrow> int"
  assumes merge_holds: "holds xs a \<Longrightarrow> holds ys b \<Longrightarrow> \<exists>c. merge a b = Inr c \<and> holds (xs @ ys) c"
begin

lemma entry_merge_grouped:
  assumes "grouped holds key g zs m" "holds ys a" "\<forall>y\<in>set ys. g (key y) = b" "ys \<noteq> []"
  shows "\<exists>n. entry_merge merge b a m = Inr n \<and> grouped holds key g (zs @ ys) n"
proof (cases "map_of m b")
  case None
  then show ?thesis using grouped_put [OF assms(1,3,4), of a] assms(2) by (simp add: entry_merge_def)
next
  case (Some c)
  then obtain ws where ws: "same_in_time key ws (filter (\<lambda>x. g (key x) = b) zs)" "holds ws c"
    using groupedD [OF assms(1)] by blast
  obtain d where d: "merge c a = Inr d" using merge_holds [OF ws(2) assms(2)] by blast
  have "\<exists>vs. same_in_time key vs (us @ ys) \<and> holds vs d" if "holds us c" for us
    using merge_holds [OF that assms(2)] d by (intro exI [of _ "us @ ys"]) auto
  then show ?thesis using grouped_put [OF assms(1,3,4), of d] Some d by (simp add: entry_merge_def)
qed

text \<open>Merging the entries of a map of groups into another map, each under a key that its own determines.\<close>

lemma merge_entries_grouped:
  assumes "grouped holds key h zs m" "grouped holds key g xs es" "\<And>t. h t = f (g t)"
  shows "\<exists>n. merge_entries merge f m es = Inr n \<and> grouped holds key h (zs @ xs) n"
proof -
  have parts: "\<exists>n vs. merge_entries merge f m fs = Inr n \<and> grouped holds key h (zs @ vs) n \<and>
      (\<forall>t. filter (\<lambda>x. key x = t) vs = (if g t \<in> fst ` set fs then filter (\<lambda>x. key x = t) xs else []))"
    if "grouped holds key h zs m" "set fs \<subseteq> set es" "distinct (map fst fs)" for fs m zs
    using that
  proof (induction fs arbitrary: m zs)
    case Nil
    then show ?case by (intro exI [of _ m] exI [of _ "[]"]) simp
  next
    case (Cons p fs)
    obtain b a where p: "p = (b, a)" by (cases p)
    have es: "map_of es b = Some a"
      using Cons.prems(2) assms(2) by (intro bt_lookup) (auto simp: p grouped_def)
    then obtain ys where ys: "same_in_time key ys (filter (\<lambda>x. g (key x) = b) xs)" "holds ys a"
      using groupedD [OF assms(2) es] by blast
    have group: "\<forall>y\<in>set ys. g (key y) = b" using same_in_time_set [OF ys(1)] by auto
    have "b \<in> (\<lambda>x. g (key x)) ` set xs" using es assms(2) by (auto simp: grouped_def dom_def)
    then have "ys \<noteq> []" using same_in_time_set [OF ys(1)] by auto
    moreover have "\<forall>y\<in>set ys. h (key y) = f b" using group by (simp add: assms(3))
    ultimately obtain n where n: "entry_merge merge (f b) a m = Inr n" "grouped holds key h (zs @ ys) n"
      using entry_merge_grouped [OF Cons.prems(1) ys(2)] by blast
    obtain q vs where q: "merge_entries merge f n fs = Inr q" "grouped holds key h ((zs @ ys) @ vs) q"
      "\<forall>t. filter (\<lambda>x. key x = t) vs = (if g t \<in> fst ` set fs then filter (\<lambda>x. key x = t) xs else [])"
      using Cons.IH [OF n(2)] Cons.prems by auto
    have ys_t: "filter (\<lambda>x. key x = t) ys = (if g t = b then filter (\<lambda>x. key x = t) xs else [])" for t
    proof -
      have "filter (\<lambda>x. key x = t) (filter (\<lambda>x. g (key x) = b) us) = (if g t = b then filter (\<lambda>x. key x = t) us else [])" for us
        by (induction us) auto
      then show ?thesis using ys(1) by (simp add: same_in_time_def)
    qed
    have "b \<notin> fst ` set fs" using Cons.prems(3) by (simp add: p)
    then show ?case
      using n(1) q by (intro exI [of _ q] exI [of _ "ys @ vs"]) (auto simp: p ys_t)
  qed
  have "distinct (map fst es)" using assms(2) by (simp add: grouped_def bt_distinct)
  then obtain n vs where n: "merge_entries merge f m es = Inr n" "grouped holds key h (zs @ vs) n"
    "\<forall>t. filter (\<lambda>x. key x = t) vs = (if g t \<in> fst ` set es then filter (\<lambda>x. key x = t) xs else [])"
    using parts [OF assms(1), of es] by auto
  have keys: "fst ` set es = (\<lambda>x. g (key x)) ` set xs"
    using assms(2) by (simp add: grouped_def dom_map_of_conv_image_fst)
  have "same_in_time key vs xs"
    unfolding same_in_time_def
  proof
    fix t
    have "filter (\<lambda>x. key x = t) xs = []" if "g t \<notin> (\<lambda>x. g (key x)) ` set xs"
      using that by (auto simp: filter_empty_conv)
    then show "filter (\<lambda>x. key x = t) vs = filter (\<lambda>x. key x = t) xs" using n(3) unfolding keys by auto
  qed
  then show ?thesis
    using n(1) grouped_cong [OF n(2) same_in_time_append [OF same_in_time_refl]] by blast
qed

end

end
