(* ===== verification/Std_Text.thy ===== *)
theory Std_Text imports Main begin

text \<open>
  The functions on strings of the Rust standard library that the parsers of \<^verbatim>\<open>weft-reduce\<close> and
  \<^verbatim>\<open>weft-line-protocol\<close> call. A \<open>str\<close> is the list of its UTF-8 bytes. A loop over the characters that
  compares them with ASCII characters only is the same loop over the bytes, since no byte of a longer
  character is an ASCII byte; \<open>White_Space\<close> characters of two and three bytes are listed as such.
\<close>

definition white_space :: "string list" where
  "white_space =
    [[CHR 0x09], [CHR 0x0A], [CHR 0x0B], [CHR 0x0C], [CHR 0x0D], [CHR 0x20],
     [CHR 0xC2, CHR 0x85], [CHR 0xC2, CHR 0xA0], [CHR 0xE1, CHR 0x9A, CHR 0x80],
     [CHR 0xE2, CHR 0x80, CHR 0x80], [CHR 0xE2, CHR 0x80, CHR 0x81], [CHR 0xE2, CHR 0x80, CHR 0x82],
     [CHR 0xE2, CHR 0x80, CHR 0x83], [CHR 0xE2, CHR 0x80, CHR 0x84], [CHR 0xE2, CHR 0x80, CHR 0x85],
     [CHR 0xE2, CHR 0x80, CHR 0x86], [CHR 0xE2, CHR 0x80, CHR 0x87], [CHR 0xE2, CHR 0x80, CHR 0x88],
     [CHR 0xE2, CHR 0x80, CHR 0x89], [CHR 0xE2, CHR 0x80, CHR 0x8A], [CHR 0xE2, CHR 0x80, CHR 0xA8],
     [CHR 0xE2, CHR 0x80, CHR 0xA9], [CHR 0xE2, CHR 0x80, CHR 0xAF], [CHR 0xE2, CHR 0x81, CHR 0x9F],
     [CHR 0xE3, CHR 0x80, CHR 0x80]]"

definition has_prefix :: "string \<Rightarrow> string \<Rightarrow> bool" where
  "has_prefix w s \<longleftrightarrow> take (length w) s = w"

function strip_any :: "string list \<Rightarrow> string \<Rightarrow> string" where
  "strip_any ws s =
    (case find (\<lambda>w. w \<noteq> [] \<and> has_prefix w s) ws of None \<Rightarrow> s | Some w \<Rightarrow> strip_any ws (drop (length w) s))"
  by pat_completeness auto
termination
proof (relation "measure (\<lambda>(ws, s). length s)", goal_cases)
  case (2 ws s w)
  then have "w \<noteq> []" "has_prefix w s" by (auto simp: find_Some_iff)
  then show ?case by (cases s) (auto simp: has_prefix_def)
qed simp

declare strip_any.simps [simp del]

definition trim_start :: "string \<Rightarrow> string" where
  "trim_start = strip_any white_space"

definition trim_end :: "string \<Rightarrow> string" where
  "trim_end s = rev (strip_any (map rev white_space) (rev s))"

definition trim_text :: "string \<Rightarrow> string" where
  "trim_text s = trim_end (trim_start s)"

definition ascii_digit :: "char \<Rightarrow> bool" where
  "ascii_digit c \<longleftrightarrow> 48 \<le> (of_char c :: nat) \<and> (of_char c :: nat) \<le> 57"

definition ascii_lower :: "char \<Rightarrow> char" where
  "ascii_lower c =
    (if 65 \<le> (of_char c :: nat) \<and> (of_char c :: nat) \<le> 90 then char_of ((of_char c :: nat) + 32) else c)"

definition to_ascii_lowercase :: "string \<Rightarrow> string" where
  "to_ascii_lowercase = map ascii_lower"

definition digits_value :: "string \<Rightarrow> nat" where
  "digits_value ds = foldl (\<lambda>a c. a * 10 + (of_char c - 48)) 0 ds"

definition parse_digits :: "string \<Rightarrow> nat option" where
  "parse_digits ds = (if ds \<noteq> [] \<and> list_all ascii_digit ds then Some (digits_value ds) else None)"

text \<open>\<open>str::parse\<close> for an unsigned integer with largest value \<open>hi\<close>: an optional \<open>+\<close>, then digits; and
  for a signed one: an optional sign, then digits, the value within the bounds.\<close>

definition parse_unsigned :: "nat \<Rightarrow> string \<Rightarrow> nat option" where
  "parse_unsigned hi s =
    (case parse_digits (case s of c # ds \<Rightarrow> if c = CHR ''+'' then ds else s | [] \<Rightarrow> s) of
       None \<Rightarrow> None
     | Some n \<Rightarrow> if n \<le> hi then Some n else None)"

definition parse_signed :: "int \<Rightarrow> int \<Rightarrow> string \<Rightarrow> int option" where
  "parse_signed lo hi s =
    (let (sign, ds) = (case s of c # ds \<Rightarrow> if c = CHR ''-'' then (- 1, ds) else if c = CHR ''+'' then (1, ds) else (1, s) | [] \<Rightarrow> (1, s))
     in case parse_digits ds of
          None \<Rightarrow> None
        | Some n \<Rightarrow> (let x = sign * int n in if lo \<le> x \<and> x \<le> hi then Some x else None))"

definition parse_i64 :: "string \<Rightarrow> int option" where
  "parse_i64 = parse_signed (- (2 ^ 63)) (2 ^ 63 - 1)"

definition parse_u64 :: "string \<Rightarrow> nat option" where
  "parse_u64 = parse_unsigned (2 ^ 64 - 1)"

definition parse_u32 :: "string \<Rightarrow> nat option" where
  "parse_u32 = parse_unsigned (2 ^ 32 - 1)"

subsection \<open>Printing and reading back\<close>

fun show_nat :: "nat \<Rightarrow> string" where
  "show_nat n = (if n < 10 then [char_of (48 + n)] else show_nat (n div 10) @ [char_of (48 + n mod 10)])"

declare show_nat.simps [simp del]

definition show_int :: "int \<Rightarrow> string" where
  "show_int x = (if x < 0 then CHR ''-'' # show_nat (nat (- x)) else show_nat (nat x))"

lemma digits_value_snoc: "digits_value (ds @ [c]) = digits_value ds * 10 + (of_char c - 48)"
  by (simp add: digits_value_def)

lemma digit_char:
  assumes "d < 10"
  shows "ascii_digit (char_of (48 + d))" "(of_char (char_of (48 + d) :: char) :: nat) = 48 + d"
  using assms by (simp_all add: ascii_digit_def)

lemma show_nat_digits: "show_nat n \<noteq> [] \<and> list_all ascii_digit (show_nat n) \<and> digits_value (show_nat n) = n"
proof (induction n rule: show_nat.induct)
  case (1 n)
  show ?case
  proof (cases "n < 10")
    case True
    then show ?thesis by (subst (1 2 3) show_nat.simps) (simp add: digit_char digits_value_def)
  next
    case False
    have step: "show_nat n = show_nat (n div 10) @ [char_of (48 + n mod 10)]"
      using False by (subst show_nat.simps) simp
    have d: "n mod 10 < 10" by simp
    show ?thesis
      unfolding step digits_value_snoc
      using 1 [OF False] digit_char [OF d] by simp
  qed
qed

lemma parse_digits_show [simp]: "parse_digits (show_nat n) = Some n"
  using show_nat_digits [of n] by (simp add: parse_digits_def)

lemma show_nat_head:
  obtains c cs where "show_nat n = c # cs" "ascii_digit c"
  using show_nat_digits [of n] by (cases "show_nat n") auto

lemma not_digit_signs [simp]: "\<not> ascii_digit (CHR ''-'')" "\<not> ascii_digit (CHR ''+'')"
  by (simp_all add: ascii_digit_def)

lemma parse_unsigned_show:
  assumes "n \<le> hi"
  shows "parse_unsigned hi (show_nat n) = Some n"
proof -
  obtain c cs where "show_nat n = c # cs" "ascii_digit c" by (rule show_nat_head)
  then have "(case show_nat n of c # ds \<Rightarrow> if c = CHR ''+'' then ds else show_nat n | [] \<Rightarrow> show_nat n) = show_nat n"
    by auto
  then show ?thesis using assms by (simp add: parse_unsigned_def)
qed

lemma parse_signed_show:
  assumes "lo \<le> x" "x \<le> hi"
  shows "parse_signed lo hi (show_int x) = Some x"
proof (cases "x < 0")
  case True
  then show ?thesis using assms by (simp add: parse_signed_def show_int_def)
next
  case False
  obtain c cs where c: "show_nat (nat x) = c # cs" "ascii_digit c" by (rule show_nat_head)
  then have neq: "c \<noteq> CHR ''-''" "c \<noteq> CHR ''+''" by auto
  have "parse_digits (c # cs) = Some (nat x)" using c by (metis parse_digits_show)
  then show ?thesis using False assms c neq by (simp add: parse_signed_def show_int_def)
qed

end
