(* ===== verification/Bucket_Grid.thy ===== *)
theory Bucket_Grid imports Timestamps Std_Text "HOL-Library.Monad_Syntax" begin

text \<open>
  The epoch grid of the reductions: \<^verbatim>\<open>bucket_index\<close>, \<^verbatim>\<open>bucket_start\<close>, \<^verbatim>\<open>grids_nest\<close> of
  \<^verbatim>\<open>weft-reduce/src/lib.rs\<close>, the widths of \<^verbatim>\<open>weft-reduce/src/width.rs\<close>, and the integer form of
  the grid in \<^verbatim>\<open>weft-reduce/src/scaled.rs\<close>.

  A \<open>DateTime<Utc>\<close> is its number of nanoseconds since the epoch, an \<open>int\<close>. \<open>Resolution\<close> belongs to the
  crate splimes and the range of instants to chrono: the resolutions are a type parameter \<open>'r\<close>, and what
  the code calls is a field of \<open>time_ops\<close>, the argument of every definition that calls it. An \<open>i64\<close> is an
  \<open>int\<close>, and every checked operation of the code is \<open>checked_i64\<close> on the exact result.
\<close>

subsection \<open>What the other crates provide\<close>

record 'r time_ops =
  to_step_nanos :: "'r \<Rightarrow> int"
  to_representable :: "int \<Rightarrow> bool"
  to_parse :: "string \<Rightarrow> 'r option"
  to_name :: "'r \<Rightarrow> string"
  to_nanoseconds :: 'r
  to_microseconds :: 'r
  to_milliseconds :: 'r
  to_seconds :: 'r
  to_minutes :: 'r
  to_hours :: 'r
  to_days :: 'r
  to_weeks :: 'r

definition fits_i64 :: "int \<Rightarrow> bool" where
  "fits_i64 x \<longleftrightarrow> - (2 ^ 63) \<le> x \<and> x < 2 ^ 63"

definition checked_i64 :: "int \<Rightarrow> int option" where
  "checked_i64 x = (if fits_i64 x then Some x else None)"

text \<open>A step is a positive \<open>i64\<close>.\<close>

definition time_laws :: "'r time_ops \<Rightarrow> bool" where
  "time_laws T \<longleftrightarrow> (\<forall>r. 0 < to_step_nanos T r \<and> to_step_nanos T r < 2 ^ 63)"

definition from_timestamp :: "'r time_ops \<Rightarrow> int \<Rightarrow> int \<Rightarrow> int option" where
  "from_timestamp T secs subsec = (let t = secs * 10 ^ 9 + subsec in if to_representable T t then Some t else None)"

definition timestamp_nanos_opt :: "int \<Rightarrow> int option" where
  "timestamp_nanos_opt t = checked_i64 t"

datatype reduce_error = TimestampRange | BucketStartOverflow | SketchValue

subsection \<open>The grid of a resolution\<close>

definition nanos_per_second :: int where "nanos_per_second = 1000000000"

definition resolution_step_secs :: "'r time_ops \<Rightarrow> 'r \<Rightarrow> int option" where
  "resolution_step_secs T r =
    (let step = to_step_nanos T r
     in if nanos_per_second \<le> step \<and> step mod nanos_per_second = 0 then Some (step div nanos_per_second) else None)"

definition bucket_index :: "'r time_ops \<Rightarrow> 'r \<Rightarrow> int \<Rightarrow> reduce_error + int" where
  "bucket_index T r timestamp =
    (case resolution_step_secs T r of
       Some step_secs \<Rightarrow> Inr ((timestamp div nanos_per_second) sdiv step_secs)
     | None \<Rightarrow>
         (let nanos = (timestamp div nanos_per_second) * nanos_per_second + timestamp mod nanos_per_second
          in case checked_i64 (nanos div to_step_nanos T r) of None \<Rightarrow> Inl TimestampRange | Some i \<Rightarrow> Inr i))"

definition bucket_start :: "'r time_ops \<Rightarrow> 'r \<Rightarrow> int \<Rightarrow> int option" where
  "bucket_start T r base =
    (let nanos = base * to_step_nanos T r
     in do {
       secs \<leftarrow> checked_i64 (nanos div nanos_per_second);
       from_timestamp T secs (nanos mod nanos_per_second)
     })"

definition grids_nest :: "'r time_ops \<Rightarrow> 'r \<Rightarrow> 'r \<Rightarrow> bool" where
  "grids_nest T from to =
    (case (resolution_step_secs T from, resolution_step_secs T to) of
       (Some f, Some t) \<Rightarrow> t mod f = 0
     | _ \<Rightarrow> False)"

subsection \<open>The grid on epoch nanoseconds\<close>

definition base_of :: "'r time_ops \<Rightarrow> 'r \<Rightarrow> int \<Rightarrow> int" where
  "base_of T r nanos =
    (case resolution_step_secs T r of
       Some step_secs \<Rightarrow> (nanos div nanos_per_second) sdiv step_secs
     | None \<Rightarrow> nanos div to_step_nanos T r)"

definition base_range :: "'r time_ops \<Rightarrow> 'r \<Rightarrow> int \<Rightarrow> (int \<times> int) option" where
  "base_range T r base =
    (case resolution_step_secs T r of
       None \<Rightarrow> (let step = to_step_nanos T r in do {
         lo \<leftarrow> checked_i64 (base * step);
         hi \<leftarrow> checked_i64 (lo + (step - 1));
         Some (lo, hi)
       })
     | Some step \<Rightarrow> do {
         anchor \<leftarrow> checked_i64 (base * step);
         (lo_secs, hi_secs) \<leftarrow>
           (if 0 < base then map_option (Pair anchor) (checked_i64 (anchor + (step - 1)))
            else if base = 0 then Some (- (step - 1), step - 1)
            else map_option (\<lambda>lo. (lo, anchor)) (checked_i64 (anchor - (step - 1))));
         lo \<leftarrow> checked_i64 (lo_secs * nanos_per_second);
         hi' \<leftarrow> checked_i64 (hi_secs * nanos_per_second);
         hi \<leftarrow> checked_i64 (hi' + (nanos_per_second - 1));
         Some (lo, hi)
       })"

subsection \<open>Bucket widths\<close>

record 'r bucket_width =
  bw_unit :: 'r
  bw_count :: nat

definition width_of_unit :: "'r \<Rightarrow> 'r bucket_width" where
  "width_of_unit unit = \<lparr>bw_unit = unit, bw_count = 1\<rparr>"

definition new_width :: "'r \<Rightarrow> nat \<Rightarrow> 'r bucket_width option" where
  "new_width unit count = (if count = 0 then None else Some \<lparr>bw_unit = unit, bw_count = count\<rparr>)"

definition width_step_nanos :: "'r time_ops \<Rightarrow> 'r bucket_width \<Rightarrow> int" where
  "width_step_nanos T w = to_step_nanos T (bw_unit w) * int (bw_count w)"

definition width_index :: "'r time_ops \<Rightarrow> 'r bucket_width \<Rightarrow> int \<Rightarrow> reduce_error + int" where
  "width_index T w timestamp =
    (case bucket_index T (bw_unit w) timestamp of Inl e \<Rightarrow> Inl e | Inr i \<Rightarrow> Inr (i div int (bw_count w)))"

definition width_start :: "'r time_ops \<Rightarrow> 'r bucket_width \<Rightarrow> int \<Rightarrow> int option" where
  "width_start T w index = checked_i64 (index * int (bw_count w)) \<bind> bucket_start T (bw_unit w)"

definition resolution_of_name :: "'r time_ops \<Rightarrow> string \<Rightarrow> 'r option" where
  "resolution_of_name T unit =
    (if unit = ''ns'' then Some (to_nanoseconds T)
     else if unit = ''us'' \<or> unit = [CHR 0xC2, CHR 0xB5, CHR ''s''] then Some (to_microseconds T)
     else if unit = ''ms'' then Some (to_milliseconds T)
     else if unit = ''s'' then Some (to_seconds T)
     else if unit = ''m'' then Some (to_minutes T)
     else if unit = ''h'' then Some (to_hours T)
     else if unit = ''d'' then Some (to_days T)
     else if unit = ''w'' then Some (to_weeks T)
     else case to_parse T unit of Some r \<Rightarrow> Some r | None \<Rightarrow> to_parse T (unit @ ''s''))"

definition width_parse :: "'r time_ops \<Rightarrow> string \<Rightarrow> 'r bucket_width option" where
  "width_parse T token =
    (let token = trim_text token; digits = takeWhile ascii_digit token
     in do {
       (count, unit) \<leftarrow>
         (if digits = [] then Some (1, token)
          else do { n \<leftarrow> parse_u32 digits; Some (n, trim_start (drop (length digits) token)) });
       unit \<leftarrow> resolution_of_name T (to_ascii_lowercase unit);
       new_width unit count
     })"

definition width_display :: "'r time_ops \<Rightarrow> 'r bucket_width \<Rightarrow> string" where
  "width_display T w =
    (if bw_count w = 1 then to_name T (bw_unit w) else show_nat (bw_count w) @ '' '' @ to_name T (bw_unit w))"

subsection \<open>Truncated quotients\<close>

lemma div_eq_iff_range:
  fixes m d q :: int
  assumes "0 < d"
  shows "m div d = q \<longleftrightarrow> q * d \<le> m \<and> m \<le> q * d + (d - 1)"
proof
  assume "m div d = q"
  then have "m = q * d + m mod d" by (metis div_mult_mod_eq)
  then show "q * d \<le> m \<and> m \<le> q * d + (d - 1)"
    using pos_mod_sign [OF assms, of m] pos_mod_bound [OF assms, of m] by linarith
next
  assume "q * d \<le> m \<and> m \<le> q * d + (d - 1)"
  then show "m div d = q" using int_div_pos_eq [of m d q "m - q * d"] by (simp add: mult.commute)
qed

lemma sdiv_eq_iff:
  fixes n d b :: int
  assumes "0 < d"
  shows "n sdiv d = b \<longleftrightarrow>
    (if 0 < b then b * d \<le> n \<and> n \<le> b * d + (d - 1)
     else if b = 0 then - (d - 1) \<le> n \<and> n \<le> d - 1
     else b * d - (d - 1) \<le> n \<and> n \<le> b * d)"
proof (cases "0 \<le> n")
  case True
  then have q: "0 \<le> n div d" using assms by (simp add: pos_imp_zdiv_nonneg_iff)
  have neg: "b * d \<le> - d" if "b < 0" using that assms mult_right_mono [of b "- 1" d] by simp
  show ?thesis
    using True assms q neg div_eq_iff_range [OF assms, of n b] by (auto simp: sdiv_pos)
next
  case False
  then have q: "0 \<le> (- n) div d" using assms by (simp add: pos_imp_zdiv_nonneg_iff)
  have pos: "d \<le> b * d" if "0 < b" using that assms mult_right_mono [of 1 b d] by simp
  then have "\<not> b * d \<le> n" if "0 < b" using pos [OF that] False assms by linarith
  then show ?thesis
    using False assms q pos div_eq_iff_range [OF assms, of "- n" "- b"] by (auto simp: sdiv_pos)
qed

lemma sdiv_mono:
  fixes d :: int
  assumes "0 < d" "m \<le> n"
  shows "m sdiv d \<le> n sdiv d"
proof -
  have "0 \<le> n div d" if "0 \<le> n" using that assms(1) by (simp add: pos_imp_zdiv_nonneg_iff)
  moreover have "0 \<le> (- m) div d" if "m < 0" using that assms(1) by (simp add: pos_imp_zdiv_nonneg_iff)
  ultimately show ?thesis
    using assms zdiv_mono1 [OF assms(2,1)] zdiv_mono1 [of "- n" "- m" d] by (auto simp: sdiv_pos)
qed

lemma sdiv_mult [simp]: "0 < (d :: int) \<Longrightarrow> (b * d) sdiv d = b"
  by (subst sdiv_eq_iff) auto

lemma sdiv_sdiv:
  fixes d k :: int
  assumes "0 < d" "0 < k"
  shows "(n sdiv d) sdiv k = n sdiv (d * k)"
proof (cases "0 \<le> n")
  case True
  then have "0 \<le> n div d" using assms by (simp add: pos_imp_zdiv_nonneg_iff)
  then show ?thesis using True assms by (simp add: sdiv_pos zdiv_zmult2_eq)
next
  case False
  then have "0 \<le> (- n) div d" using assms by (simp add: pos_imp_zdiv_nonneg_iff)
  then consider "(- n) div d = 0" | "0 < (- n) div d" by linarith
  then show ?thesis using False assms by cases (simp_all add: sdiv_pos zdiv_zmult2_eq)
qed

subsection \<open>The laws of the grid\<close>

lemma step_secs:
  assumes "resolution_step_secs T r = Some s"
  shows "0 < s" "to_step_nanos T r = s * nanos_per_second"
proof -
  have m: "nanos_per_second \<le> to_step_nanos T r" "to_step_nanos T r mod nanos_per_second = 0"
      and s: "s = to_step_nanos T r div nanos_per_second"
    using assms by (auto simp: resolution_step_secs_def Let_def split: if_splits)
  show eq: "to_step_nanos T r = s * nanos_per_second"
    using m(2) unfolding s by (simp add: mult.commute dvd_eq_mod_eq_0 [symmetric])
  show "0 < s" using m(1) unfolding eq by (simp add: nanos_per_second_def)
qed

lemma fits_div:
  fixes n d :: int
  assumes "fits_i64 n" "0 < d"
  shows "fits_i64 (n div d)"
proof -
  have "n div d \<le> n" if "0 \<le> n" using zdiv_mono2 [of n 1 d] that assms(2) by simp
  moreover have "n div d < 0" if "n < 0" using that assms(2) by (simp add: pos_imp_zdiv_neg_iff)
  moreover have "n \<le> n div d" if "n < 0"
  proof -
    have "n div d = n div d * 1" by simp
    have "n * d \<le> n" using that assms(2) by (simp add: mult_le_cancel_left1)
    then have "n * d div d \<le> n div d" using assms(2) by (rule zdiv_mono1)
    then show ?thesis using assms(2) by simp
  qed
  moreover have "0 \<le> n div d" if "0 \<le> n" using that assms(2) by (simp add: pos_imp_zdiv_nonneg_iff)
  ultimately show ?thesis using assms(1) by (cases "0 \<le> n") (auto simp: fits_i64_def)
qed

lemma bucket_index_base_of:
  assumes "time_laws T" "fits_i64 t"
  shows "bucket_index T r t = Inr (base_of T r t)"
  using assms fits_div [OF assms(2), of "to_step_nanos T r"]
  by (auto simp: bucket_index_def base_of_def time_laws_def checked_i64_def split: option.splits)

lemma bucket_index_Inr:
  assumes "bucket_index T r t = Inr b"
  shows "b = base_of T r t" "resolution_step_secs T r = None \<Longrightarrow> fits_i64 b"
  using assms by (auto simp: bucket_index_def base_of_def checked_i64_def split: option.splits if_splits)

lemma base_of_mono:
  assumes "time_laws T" "x \<le> y"
  shows "base_of T r x \<le> base_of T r y"
proof (cases "resolution_step_secs T r")
  case None
  then show ?thesis using assms by (simp add: base_of_def time_laws_def zdiv_mono1)
next
  case (Some s)
  have "x div nanos_per_second \<le> y div nanos_per_second"
    using assms(2) by (simp add: nanos_per_second_def zdiv_mono1)
  then show ?thesis using Some step_secs(1) [OF Some] by (simp add: base_of_def sdiv_mono)
qed

lemma bucket_start_Some:
  assumes "bucket_start T r b = Some t"
  shows "t = b * to_step_nanos T r"
  using assms
  by (auto simp: bucket_start_def from_timestamp_def Let_def checked_i64_def nanos_per_second_def
      split: bind_splits if_splits) presburger?

lemma base_of_start:
  assumes "time_laws T"
  shows "base_of T r (b * to_step_nanos T r) = b"
proof (cases "resolution_step_secs T r")
  case None
  moreover have "0 < to_step_nanos T r" using assms by (simp add: time_laws_def)
  ultimately show ?thesis by (simp add: base_of_def)
next
  case (Some s)
  have "b * to_step_nanos T r div nanos_per_second = b * s"
    using step_secs(2) [OF Some] by (simp add: nanos_per_second_def flip: mult.assoc)
  then show ?thesis using Some step_secs(1) [OF Some] by (simp add: base_of_def)
qed

lemma bucket_index_of_start:
  assumes "time_laws T" "fits_i64 b" "bucket_start T r b = Some t"
  shows "bucket_index T r t = Inr b"
  using assms(2) base_of_start [OF assms(1), of r b] bucket_start_Some [OF assms(3)]
  by (auto simp: bucket_index_def base_of_def checked_i64_def split: option.splits)

lemma bucket_index_regroups:
  assumes "time_laws T" "grids_nest T from to" "bucket_index T from t = Inr b" "bucket_start T from b = Some s"
  shows "bucket_index T to s = bucket_index T to t"
proof -
  obtain f g where f: "resolution_step_secs T from = Some f" and g: "resolution_step_secs T to = Some g" and "g mod f = 0"
    using assms(2) by (auto simp: grids_nest_def split: option.splits)
  then obtain k where k: "g = f * k" by (auto elim: dvdE simp: dvd_eq_mod_eq_0 [symmetric])
  have pos: "0 < f" "0 < k" using step_secs(1) [OF f] step_secs(1) [OF g] by (simp_all add: k zero_less_mult_iff)
  have b: "b = (t div nanos_per_second) sdiv f"
    using bucket_index_Inr(1) [OF assms(3)] f by (simp add: base_of_def)
  have "s div nanos_per_second = b * f"
    using bucket_start_Some [OF assms(4)] step_secs(2) [OF f] by (simp add: nanos_per_second_def flip: mult.assoc)
  moreover have "b * f sdiv (f * k) = b sdiv k"
    using sdiv_sdiv [OF pos, of "b * f"] pos by simp
  ultimately show ?thesis
    using g pos sdiv_sdiv [OF pos, of "t div nanos_per_second"] by (simp add: bucket_index_def k b)
qed

lemma seconds_range:
  "lo \<le> n div nanos_per_second \<and> n div nanos_per_second \<le> hi \<longleftrightarrow>
   lo * nanos_per_second \<le> n \<and> n \<le> hi * nanos_per_second + (nanos_per_second - 1)"
proof -
  let ?d = "nanos_per_second" and ?q = "n div nanos_per_second"
  have pos: "0 < ?d" by (simp add: nanos_per_second_def)
  have n: "?q * ?d \<le> n \<and> n \<le> ?q * ?d + (?d - 1)" using div_eq_iff_range [OF pos] by blast
  have "lo * ?d \<le> n" if "lo \<le> ?q" using that n pos mult_right_mono [of lo ?q ?d] by linarith
  moreover have "lo \<le> ?q" if "lo * ?d \<le> n" using that zdiv_mono1 [of "lo * ?d" n ?d] pos by simp
  moreover have "n \<le> hi * ?d + (?d - 1)" if "?q \<le> hi" using that n pos mult_right_mono [of ?q hi ?d] by linarith
  moreover have "?q \<le> hi" if "n \<le> hi * ?d + (?d - 1)"
    using that zdiv_mono1 [of n "hi * ?d + (?d - 1)" ?d] pos div_eq_iff_range [OF pos, of "hi * ?d + (?d - 1)" hi] by simp
  ultimately show ?thesis by blast
qed

lemma base_range_exact:
  assumes "time_laws T" "base_range T r b = Some (lo, hi)"
  shows "lo \<le> n \<and> n \<le> hi \<longleftrightarrow> base_of T r n = b"
proof (cases "resolution_step_secs T r")
  case None
  have "0 < to_step_nanos T r" using assms(1) by (simp add: time_laws_def)
  then show ?thesis
    using None assms(2) div_eq_iff_range [of "to_step_nanos T r" n b]
    by (auto simp: base_range_def base_of_def Let_def checked_i64_def split: bind_splits if_splits)
next
  case (Some s)
  obtain l h where lh: "lo = l * nanos_per_second" "hi = h * nanos_per_second + (nanos_per_second - 1)"
    and range: "(if 0 < b then l = b * s \<and> h = b * s + (s - 1)
      else if b = 0 then l = - (s - 1) \<and> h = s - 1 else l = b * s - (s - 1) \<and> h = b * s)"
    using assms(2) Some by (auto simp: base_range_def checked_i64_def split: bind_splits if_splits)
  show ?thesis
    using range Some sdiv_eq_iff [OF step_secs(1) [OF Some], of "n div nanos_per_second" b]
    unfolding lh seconds_range [symmetric] by (auto simp: base_of_def split: if_splits)
qed

subsection \<open>The laws of a width\<close>

lemma width_of_unit_index: "width_index T (width_of_unit r) t = bucket_index T r t"
  by (simp add: width_index_def width_of_unit_def split: sum.splits)

lemma width_of_unit_start: "fits_i64 i \<Longrightarrow> width_start T (width_of_unit r) i = bucket_start T r i"
  by (simp add: width_start_def width_of_unit_def checked_i64_def)

lemma width_index_of_start:
  assumes "time_laws T" "0 < bw_count w" "width_start T w i = Some t"
  shows "width_index T w t = Inr i"
proof -
  have "fits_i64 (i * int (bw_count w))" and start: "bucket_start T (bw_unit w) (i * int (bw_count w)) = Some t"
    using assms(3) by (auto simp: width_start_def checked_i64_def split: bind_splits if_splits)
  then show ?thesis
    using bucket_index_of_start [OF assms(1) _ start] assms(2) by (simp add: width_index_def)
qed

lemma width_start_Some:
  assumes "width_start T w i = Some t"
  shows "t = i * width_step_nanos T w" "to_representable T t"
proof -
  have start: "bucket_start T (bw_unit w) (i * int (bw_count w)) = Some t"
    using assms by (auto simp: width_start_def checked_i64_def split: bind_splits if_splits)
  show "t = i * width_step_nanos T w"
    using bucket_start_Some [OF start] by (simp add: width_step_nanos_def)
  show "to_representable T t"
    using start by (auto simp: bucket_start_def from_timestamp_def Let_def split: bind_splits if_splits)
qed

end
