(* ===== verification/Dd_Sketch.thy ===== *)
theory Dd_Sketch imports Decimals Btree_Map Bucket_Grid begin

text \<open>
  The quantile sketch of the approximate percentiles, \<^verbatim>\<open>weft-reduce/src/sketch.rs\<close>: a mapping of the
  positive floats to logarithmic buckets, two ordered stores of bucket counts, the budget of buckets,
  merging and the rank a quantile selects.

  An \<open>f64\<close> is its bit pattern, and its comparisons and sign operations are those of the pattern. The
  rounded arithmetic of the processor and the logarithm of its library are the fields of \<open>float_ops\<close>,
  an argument; \<open>float_laws\<close> names what is used of them.
\<close>

unbundle bit_operations_syntax

subsection \<open>Floats\<close>

record float_ops =
  fo_add :: "u64 \<Rightarrow> u64 \<Rightarrow> u64"
  fo_sub :: "u64 \<Rightarrow> u64 \<Rightarrow> u64"
  fo_mul :: "u64 \<Rightarrow> u64 \<Rightarrow> u64"
  fo_div :: "u64 \<Rightarrow> u64 \<Rightarrow> u64"
  fo_ceil :: "u64 \<Rightarrow> u64"
  fo_ln :: "u64 \<Rightarrow> u64"
  fo_exp :: "u64 \<Rightarrow> u64"
  fo_powi :: "u64 \<Rightarrow> int \<Rightarrow> u64"
  fo_of_int :: "int \<Rightarrow> u64"
  fo_to_int :: "u64 \<Rightarrow> int option"

definition f64_sign :: u64 where "f64_sign = 0x8000000000000000"
definition f64_one :: u64 where "f64_one = 0x3FF0000000000000"
definition f64_two :: u64 where "f64_two = 0x4000000000000000"
definition f64_epsilon :: u64 where "f64_epsilon = 0x3CB0000000000000"

definition f64_neg :: "u64 \<Rightarrow> u64" where "f64_neg x = x XOR f64_sign"
definition f64_abs :: "u64 \<Rightarrow> u64" where "f64_abs x = x AND NOT f64_sign"

definition f64_is_nan :: "u64 \<Rightarrow> bool" where
  "f64_is_nan x \<longleftrightarrow> drop_bit 52 x AND 0x7FF = 0x7FF \<and> x AND 0xFFFFFFFFFFFFF \<noteq> 0"

definition f64_key :: "u64 \<Rightarrow> int" where
  "f64_key x = (if x AND f64_sign = 0 then uint x else - uint (f64_abs x))"

definition f64_lt :: "u64 \<Rightarrow> u64 \<Rightarrow> bool" where
  "f64_lt x y \<longleftrightarrow> \<not> f64_is_nan x \<and> \<not> f64_is_nan y \<and> f64_key x < f64_key y"

definition f64_le :: "u64 \<Rightarrow> u64 \<Rightarrow> bool" where
  "f64_le x y \<longleftrightarrow> \<not> f64_is_nan x \<and> \<not> f64_is_nan y \<and> f64_key x \<le> f64_key y"

definition f64_max :: "u64 \<Rightarrow> u64 \<Rightarrow> u64" where
  "f64_max x y = (if f64_is_nan x then y else if f64_is_nan y then x else if f64_lt x y then y else x)"

definition float_laws :: "float_ops \<Rightarrow> bool" where
  "float_laws F \<longleftrightarrow>
    (\<forall>g. f64_is_finite g \<longrightarrow> fo_sub F g g = 0) \<and>
    (\<forall>g. \<not> f64_lt g 0 \<longrightarrow> \<not> f64_lt (fo_mul F f64_epsilon g) 0)"

subsection \<open>A decimal as a float\<close>

definition exact_powers_of_ten :: "u64 list" where
  "exact_powers_of_ten =
    [0x3FF0000000000000, 0x4024000000000000, 0x4059000000000000, 0x408F400000000000, 0x40C3880000000000,
     0x40F86A0000000000, 0x412E848000000000, 0x416312D000000000, 0x4197D78400000000, 0x41CDCD6500000000,
     0x4202A05F20000000, 0x42374876E8000000, 0x426D1A94A2000000, 0x42A2309CE5400000, 0x42D6BCC41E900000,
     0x430C6BF526340000, 0x4341C37937E08000, 0x4376345785D8A000, 0x43ABC16D674EC800, 0x43E158E460913D00,
     0x4415AF1D78B58C40, 0x444B1AE4D6E2EF50, 0x4480F0CF064DD592]"

definition scaled_to_f64 :: "float_ops \<Rightarrow> int \<Rightarrow> int \<Rightarrow> u64 option" where
  "scaled_to_f64 F mantissa scale =
    (if 2 ^ 53 \<le> \<bar>mantissa\<bar> then None
     else if scale < 0 \<or> length exact_powers_of_ten \<le> nat scale then None
     else Some (fo_div F (fo_of_int F mantissa) (exact_powers_of_ten ! nat scale)))"

definition decimal_to_f64 :: "float_ops \<Rightarrow> 'd decimal_ops \<Rightarrow> 'd \<Rightarrow> u64 option" where
  "decimal_to_f64 F D v =
    (let (digits, scale) = d_parts D v
     in case checked_i64 digits \<bind> (\<lambda>m. scaled_to_f64 F m (sint scale)) of
          Some f \<Rightarrow> Some f
        | None \<Rightarrow> d_to_f64 D v)"

subsection \<open>The sketch\<close>

datatype sketch_error = InvalidAccuracy | InvalidMaxBins | AccuracyMismatch | ValueRange

record dd_sketch =
  sk_alpha :: u64
  sk_gamma :: u64
  sk_log_gamma :: u64
  sk_positive :: "(int, nat) btree"
  sk_negative :: "(int, nat) btree"
  sk_zeros :: nat
  sk_count :: nat
  sk_max_bins :: "nat option"
  sk_last_bin :: "(int \<times> u64 \<times> u64) option"

definition bin_cache_margin :: u64 where "bin_cache_margin = 0x3E112E0BE826D695"
definition sketch_alpha :: u64 where "sketch_alpha = 0x3F847AE147AE147B"
definition sketch_max_bins :: nat where "sketch_max_bins = 2048"

definition sketch_from_alpha :: "float_ops \<Rightarrow> u64 \<Rightarrow> dd_sketch" where
  "sketch_from_alpha F alpha =
    (let gamma = fo_div F (fo_add F f64_one alpha) (fo_sub F f64_one alpha)
     in \<lparr>sk_alpha = alpha, sk_gamma = gamma, sk_log_gamma = fo_ln F gamma, sk_positive = [], sk_negative = [],
         sk_zeros = 0, sk_count = 0, sk_max_bins = None, sk_last_bin = None\<rparr>)"

definition new_sketch :: "float_ops \<Rightarrow> u64 \<Rightarrow> sketch_error + dd_sketch" where
  "new_sketch F alpha =
    (if \<not> (f64_is_finite alpha \<and> f64_lt 0 alpha \<and> f64_lt alpha f64_one) then Inl InvalidAccuracy
     else Inr (sketch_from_alpha F alpha))"

definition with_default_accuracy :: "float_ops \<Rightarrow> dd_sketch" where
  "with_default_accuracy F = (sketch_from_alpha F sketch_alpha)\<lparr>sk_max_bins := Some sketch_max_bins\<rparr>"

definition with_max_bins :: "float_ops \<Rightarrow> u64 \<Rightarrow> nat \<Rightarrow> sketch_error + dd_sketch" where
  "with_max_bins F alpha max_bins =
    (if max_bins = 0 then Inl InvalidMaxBins
     else case new_sketch F alpha of Inl e \<Rightarrow> Inl e | Inr s \<Rightarrow> Inr (s\<lparr>sk_max_bins := Some max_bins\<rparr>))"

fun collapse_lowest :: "nat \<Rightarrow> (int, nat) btree \<Rightarrow> (int, nat) btree" where
  "collapse_lowest max_bins [] = []"
| "collapse_lowest max_bins [e] = [e]"
| "collapse_lowest max_bins ((lowest, evicted) # (next_key, c) # store) =
    (if max_bins < length store + 2 then collapse_lowest max_bins ((next_key, c + evicted) # store)
     else (lowest, evicted) # (next_key, c) # store)"

definition bounded :: "nat option \<Rightarrow> (int, nat) btree \<Rightarrow> (int, nat) btree" where
  "bounded max_bins store = (case max_bins of None \<Rightarrow> store | Some n \<Rightarrow> collapse_lowest n store)"

definition enforce_max_bins :: "dd_sketch \<Rightarrow> dd_sketch" where
  "enforce_max_bins s =
    s\<lparr>sk_positive := bounded (sk_max_bins s) (sk_positive s), sk_negative := bounded (sk_max_bins s) (sk_negative s)\<rparr>"

definition sketch_bucket_count :: "dd_sketch \<Rightarrow> nat" where
  "sketch_bucket_count s = length (sk_positive s) + length (sk_negative s) + (if 0 < sk_zeros s then 1 else 0)"

definition sketch_index :: "float_ops \<Rightarrow> u64 \<Rightarrow> u64 \<Rightarrow> sketch_error + int" where
  "sketch_index F log_gamma v =
    (case fo_to_int F (fo_ceil F (fo_div F (fo_ln F v) log_gamma)) of
       Some i \<Rightarrow> if - (2 ^ 31) \<le> i \<and> i < 2 ^ 31 then Inr i else Inl ValueRange
     | None \<Rightarrow> Inl ValueRange)"

text \<open>The interval the cache keeps for bucket \<open>i\<close>.\<close>

definition bin_interval :: "float_ops \<Rightarrow> u64 \<Rightarrow> int \<Rightarrow> u64 \<times> u64" where
  "bin_interval F log_gamma i =
    (let lo = fo_mul F (fo_sub F (fo_of_int F i) f64_one) log_gamma; hi = fo_mul F (fo_of_int F i) log_gamma
     in (fo_mul F (fo_exp F lo) (fo_add F f64_one bin_cache_margin),
         fo_mul F (fo_exp F hi) (fo_sub F f64_one bin_cache_margin)))"

definition refill_bin :: "float_ops \<Rightarrow> u64 \<Rightarrow> dd_sketch \<Rightarrow> sketch_error + (int \<times> dd_sketch)" where
  "refill_bin F v s =
    (case sketch_index F (sk_log_gamma s) v of
       Inl e \<Rightarrow> Inl e
     | Inr i \<Rightarrow> (let (lo, hi) = bin_interval F (sk_log_gamma s) i in
         Inr (i, s\<lparr>sk_last_bin := (if f64_is_finite lo \<and> f64_is_finite hi \<and> f64_lt lo hi then Some (i, lo, hi) else None)\<rparr>)))"

definition positive_index :: "float_ops \<Rightarrow> u64 \<Rightarrow> dd_sketch \<Rightarrow> sketch_error + (int \<times> dd_sketch)" where
  "positive_index F v s =
    (case sk_last_bin s of
       Some (i, lo, hi) \<Rightarrow> if f64_lt lo v \<and> f64_lt v hi then Inr (i, s) else refill_bin F v s
     | None \<Rightarrow> refill_bin F v s)"

definition value_of :: "float_ops \<Rightarrow> dd_sketch \<Rightarrow> int \<Rightarrow> u64" where
  "value_of F s i = fo_div F (fo_mul F f64_two (fo_powi F (sk_gamma s) i)) (fo_add F (sk_gamma s) f64_one)"

definition sketch_add :: "float_ops \<Rightarrow> u64 \<Rightarrow> dd_sketch \<Rightarrow> sketch_error + dd_sketch" where
  "sketch_add F v s =
    (if \<not> f64_is_finite v then Inl ValueRange
     else if f64_lt 0 v then
       (case positive_index F v s of
          Inl e \<Rightarrow> Inl e
        | Inr (i, s) \<Rightarrow> Inr (enforce_max_bins (s\<lparr>sk_positive := bt_add i 1 (sk_positive s), sk_count := sk_count s + 1\<rparr>)))
     else if f64_lt v 0 then
       (case sketch_index F (sk_log_gamma s) (f64_neg v) of
          Inl e \<Rightarrow> Inl e
        | Inr i \<Rightarrow> Inr (enforce_max_bins (s\<lparr>sk_negative := bt_add i 1 (sk_negative s), sk_count := sk_count s + 1\<rparr>)))
     else Inr (enforce_max_bins (s\<lparr>sk_zeros := sk_zeros s + 1, sk_count := sk_count s + 1\<rparr>)))"

definition add_decimal :: "float_ops \<Rightarrow> 'd decimal_ops \<Rightarrow> 'd \<Rightarrow> dd_sketch \<Rightarrow> sketch_error + dd_sketch" where
  "add_decimal F D v s = (case decimal_to_f64 F D v of None \<Rightarrow> Inl ValueRange | Some f \<Rightarrow> sketch_add F f s)"

definition add_scaled :: "float_ops \<Rightarrow> 'd decimal_ops \<Rightarrow> int \<Rightarrow> i64 \<Rightarrow> dd_sketch \<Rightarrow> sketch_error + dd_sketch" where
  "add_scaled F D mantissa scale s =
    (case scaled_to_f64 F mantissa (sint scale) of
       Some f \<Rightarrow> sketch_add F f s
     | None \<Rightarrow> add_decimal F D (d_new D mantissa scale) s)"

definition sketch_merge :: "float_ops \<Rightarrow> dd_sketch \<Rightarrow> dd_sketch \<Rightarrow> sketch_error + dd_sketch" where
  "sketch_merge F s other =
    (if f64_lt (fo_mul F f64_epsilon (f64_max (sk_gamma s) (sk_gamma other)))
          (f64_abs (fo_sub F (sk_gamma s) (sk_gamma other)))
     then Inl AccuracyMismatch
     else Inr (enforce_max_bins (s\<lparr>
       sk_positive := foldl (\<lambda>m (i, c). bt_add i c m) (sk_positive s) (sk_positive other),
       sk_negative := foldl (\<lambda>m (i, c). bt_add i c m) (sk_negative s) (sk_negative other),
       sk_zeros := sk_zeros s + sk_zeros other, sk_count := sk_count s + sk_count other\<rparr>)))"

fun first_reaching :: "nat \<Rightarrow> nat \<Rightarrow> (int, nat) btree \<Rightarrow> int option \<times> nat" where
  "first_reaching ordinal seen [] = (None, seen)"
| "first_reaching ordinal seen ((i, c) # store) =
    (let seen = seen + c in if ordinal \<le> seen then (Some i, seen) else first_reaching ordinal seen store)"

definition sketch_ordinal :: "float_ops \<Rightarrow> u64 \<Rightarrow> nat \<Rightarrow> nat" where
  "sketch_ordinal F q count =
    (let n = (case fo_to_int F (fo_ceil F (fo_mul F q (fo_of_int F (int count)))) of
         Some n \<Rightarrow> if 0 \<le> n \<and> n < 2 ^ 64 then nat n else 0 | None \<Rightarrow> 0)
     in max 1 (min n count))"

definition sketch_quantile :: "float_ops \<Rightarrow> dd_sketch \<Rightarrow> u64 \<Rightarrow> u64 option" where
  "sketch_quantile F s q =
    (if sk_count s = 0 \<or> \<not> (f64_le 0 q \<and> f64_le q f64_one) then None
     else let ordinal = sketch_ordinal F q (sk_count s) in
       case first_reaching ordinal 0 (rev (sk_negative s)) of
         (Some i, _) \<Rightarrow> Some (f64_neg (value_of F s i))
       | (None, seen) \<Rightarrow>
           (let seen = seen + sk_zeros s in
            if 0 < sk_zeros s \<and> ordinal \<le> seen then Some 0
            else case first_reaching ordinal seen (sk_positive s) of
              (Some i, _) \<Rightarrow> Some (value_of F s i)
            | (None, _) \<Rightarrow>
                if sk_positive s \<noteq> [] then Some (value_of F s (fst (last (sk_positive s))))
                else if 0 < sk_zeros s then Some 0
                else if sk_negative s \<noteq> [] then Some (f64_neg (value_of F s (fst (hd (sk_negative s)))))
                else None))"

definition quantile_decimal :: "float_ops \<Rightarrow> 'd decimal_ops \<Rightarrow> dd_sketch \<Rightarrow> u64 \<Rightarrow> 'd option" where
  "quantile_decimal F D s q = sketch_quantile F s q \<bind> d_from_f64 D"

subsection \<open>Collapsing the lowest buckets\<close>

lemma collapse_small: "length m \<le> n \<Longrightarrow> collapse_lowest n m = m"
  by (induction n m rule: collapse_lowest.induct) auto

lemma collapse_step:
  assumes "n < length m" "m = (l, e) # (k, c) # r"
  shows "collapse_lowest n m = collapse_lowest n ((k, c + e) # r)"
  using assms by simp

lemma length_collapse: "0 < n \<Longrightarrow> length (collapse_lowest n m) \<le> n"
  by (induction n m rule: collapse_lowest.induct) auto

lemma bt_ok_collapse: "bt_ok m \<Longrightarrow> bt_ok (collapse_lowest n m)"
  by (induction n m rule: collapse_lowest.induct) auto

definition total :: "(int, nat) btree \<Rightarrow> nat" where
  "total m = sum_list (map snd m)"

lemma total_simps [simp]: "total [] = 0" "total ((k, c) # m) = c + total m"
  by (simp_all add: total_def)

lemma total_collapse [simp]: "total (collapse_lowest n m) = total m"
  by (induction n m rule: collapse_lowest.induct) auto

lemma bt_add_Cons:
  "bt_ok ((a, x) # m) \<Longrightarrow> bt_add k c ((a, x) # m) =
    (if k < a then (k, c) # (a, x) # m else if k = a then (a, x + c) # m else (a, x) # bt_add k c m)"
  by (auto simp: bt_add_def bt_head_not_in [of m a] split: option.splits)

lemma bt_add_Nil [simp]: "bt_add k c [] = [(k, c)]"
  by (simp add: bt_add_def)

lemma total_bt_add: "bt_ok m \<Longrightarrow> total (bt_add k c m) = total m + c"
  by (induction m) (auto simp: bt_add_Cons split: prod.splits)

lemma length_bt_add: "bt_ok m \<Longrightarrow> length m \<le> length (bt_add k c m)"
  by (induction m) (auto simp: bt_add_Cons split: prod.splits)

text \<open>An entry added before or after the lowest bucket is folded makes no difference once the store is
  folded again.\<close>

lemma collapse_add_step:
  assumes "bt_ok ((l, e) # (k, d) # r)" "n < length r + 2"
  shows "collapse_lowest n (bt_add i c ((l, e) # (k, d) # r)) = collapse_lowest n (bt_add i c ((k, d + e) # r))"
proof -
  have ok: "bt_ok ((k, d) # r)" "bt_ok ((k, d + e) # r)" "l < k" using assms(1) by auto
  have len: "length r \<le> length (bt_add i c r)" using ok by (simp add: length_bt_add)
  consider "i < l" | "i = l" | "l < i" "i < k" | "i = k" | "k < i" by linarith
  then show ?thesis
    using assms ok len by cases (auto simp: bt_add_Cons [OF assms(1)] bt_add_Cons [OF ok(1)] bt_add_Cons [OF ok(2)] ac_simps)
qed

lemma collapse_add_collapse:
  assumes "bt_ok m"
  shows "collapse_lowest n (bt_add i c (collapse_lowest n m)) = collapse_lowest n (bt_add i c m)"
  using assms
proof (induction n m rule: collapse_lowest.induct)
  case (3 n l e k d r)
  show ?case
  proof (cases "n < length r + 2")
    case True
    have "bt_ok ((k, d + e) # r)" using 3(2) by simp
    then show ?thesis using 3(1) [OF True] True collapse_add_step [OF 3(2) True, of i c] by simp
  qed simp
qed simp_all

definition add_all :: "(int, nat) btree \<Rightarrow> (int, nat) btree \<Rightarrow> (int, nat) btree" where
  "add_all m es = foldl (\<lambda>m (i, c). bt_add i c m) m es"

lemma add_all_simps [simp]:
  "add_all m [] = m" "add_all m ((i, c) # es) = add_all (bt_add i c m) es"
  by (simp_all add: add_all_def)

lemma add_all_append [simp]: "add_all m (es @ fs) = add_all (add_all m es) fs"
  by (simp add: add_all_def)

lemma bt_ok_add_all [simp]: "bt_ok m \<Longrightarrow> bt_ok (add_all m es)"
  by (induction es arbitrary: m) auto

lemma total_add_all: "bt_ok m \<Longrightarrow> total (add_all m es) = total m + total es"
  by (induction es arbitrary: m) (auto simp: total_bt_add)

lemma dom_add_all [simp]: "dom (map_of (add_all m es)) = dom (map_of m) \<union> fst ` set es"
proof (induction es arbitrary: m)
  case (Cons x es)
  then show ?case by (cases x) simp
qed simp

lemma count_add_all:
  "bt_count (add_all m es) k = bt_count m k + (\<Sum>(i, c)\<leftarrow>es. if k = i then c else 0)"
  by (induction es arbitrary: m) (auto simp: bt_count_add)

lemma collapse_add_all_collapse:
  assumes "bt_ok m"
  shows "collapse_lowest n (add_all (collapse_lowest n m) es) = collapse_lowest n (add_all m es)"
  using assms
proof (induction es arbitrary: m)
  case Nil
  then show ?case
    by (induction n m rule: collapse_lowest.induct) auto
next
  case (Cons x es)
  obtain i c where x: "x = (i, c)" by (cases x)
  have "collapse_lowest n (add_all (bt_add i c (collapse_lowest n m)) es)
      = collapse_lowest n (add_all (collapse_lowest n (bt_add i c (collapse_lowest n m))) es)"
    using Cons by (simp add: bt_ok_collapse)
  also have "\<dots> = collapse_lowest n (add_all (bt_add i c m) es)"
    using Cons by (simp add: collapse_add_collapse)
  finally show ?case by (simp add: x)
qed

text \<open>A store of more buckets than the budget: the highest \<open>n - 1\<close> buckets are kept, and everything
  below them is in the next one.\<close>

lemma collapse_split:
  assumes "m \<noteq> []" "length high = n - 1" "0 < n"
  shows "collapse_lowest n (m @ high) = (fst (last m), total m) # high"
  using assms
proof (induction "length m" arbitrary: m)
  case 0
  then show ?case by simp
next
  case (Suc s)
  show ?case
  proof (cases m rule: list.exhaust)
    case (Cons p r)
    then show ?thesis
    proof (cases r)
      case Nil
      then show ?thesis using Cons Suc.prems by (cases p) (simp add: collapse_small)
    next
      case (Cons q t)
      obtain a x b y where m: "m = (a, x) # (b, y) # t"
        using Cons \<open>m = p # r\<close> by (cases p; cases q) simp
      have "collapse_lowest n (((b, y + x) # t) @ high) = (fst (last ((b, y + x) # t)), total ((b, y + x) # t)) # high"
        using Suc by (intro Suc(1)) (simp_all add: m)
      then show ?thesis using Suc.prems by (simp add: m)
    qed
  qed (use Suc.prems in simp)
qed

lemma bt_add_append:
  assumes "bt_ok (m @ high)" "\<forall>p\<in>set high. i < fst p"
  shows "bt_add i e (m @ high) = bt_add i e m @ high"
  using assms
proof (induction m)
  case Nil
  then show ?case by (cases high) (auto simp: bt_add_Cons)
next
  case (Cons p m)
  then have "bt_ok ((fst p, snd p) # m)" "bt_ok ((fst p, snd p) # m @ high)" by (auto simp: bt_ok_def sorted_wrt_append)
  then show ?case using Cons by (cases p) (auto simp: bt_add_Cons)
qed

lemma last_bt_add:
  assumes "bt_ok m" "m \<noteq> []" "i \<le> fst (last m)"
  shows "fst (last (bt_add i e m)) = fst (last m)"
  using assms
proof (induction m)
  case (Cons p m)
  then show ?case by (cases p; cases m) (auto simp: bt_add_Cons bt_add_def)
qed simp

lemma collapse_add_below:
  assumes "bt_ok m" "length high = n - 1" "0 < n" "m = low @ [(peak, w)] @ high" "i \<le> peak"
  shows "collapse_lowest n (bt_add i e m) = (peak, total low + w + e) # high"
proof -
  let ?low = "low @ [(peak, w)]"
  have ok: "bt_ok ?low" "bt_ok (?low @ high)" "\<forall>p\<in>set high. i < fst p"
    using assms(1,4,5) by (auto simp: bt_ok_def sorted_wrt_append)
  have "bt_add i e m = bt_add i e ?low @ high"
    using bt_add_append [OF ok(2,3)] assms(4) by simp
  moreover have "fst (last (bt_add i e ?low)) = peak" using last_bt_add [OF ok(1)] assms(5) by simp
  moreover have "total (bt_add i e ?low) = total low + w + e" using ok(1) by (simp add: total_bt_add) (simp add: total_def)
  moreover have "bt_add i e ?low \<noteq> []" by (simp add: bt_add_def)
  ultimately show ?thesis using collapse_split [of "bt_add i e ?low" high n] assms(2,3) by simp
qed

text \<open>So a count below a key that \<open>n\<close> keys reach may as well be put at that key.\<close>

lemma collapse_add_up:
  assumes "bt_ok m" "l \<le> k" "0 < n" "n \<le> card {a \<in> dom (map_of m). k \<le> a}"
  shows "collapse_lowest n (bt_add l e m) = collapse_lowest n (bt_add k e m)"
proof -
  have keys: "set (map fst m) = dom (map_of m)" by (simp add: dom_map_of_conv_image_fst)
  have card: "card {a \<in> dom (map_of m). k \<le> a} = length (filter (\<lambda>a. k \<le> a) (map fst m))"
  proof -
    have "{a \<in> dom (map_of m). k \<le> a} = {a. k \<le> a} \<inter> set (map fst m)" unfolding keys by blast
    then show ?thesis using distinct_length_filter [OF bt_distinct [OF assms(1)]] by (simp only:)
  qed
  have "n \<le> length m"
    using assms(4) unfolding card by (rule order_trans [OF _ order_trans [OF length_filter_le]]) simp
  define high where "high = drop (length m - (n - 1)) m"
  define low where "low = take (length m - n) m"
  obtain peak w where tw: "m ! (length m - n) = (peak, w)" by (cases "m ! (length m - n)")
  have "Suc (length m - n) = length m - (n - 1)" using assms(3) \<open>n \<le> length m\<close> by simp
  then have m: "m = low @ [(peak, w)] @ high"
    using id_take_nth_drop [of "length m - n" m] tw assms(3) \<open>n \<le> length m\<close> by (simp add: low_def high_def)
  have len: "length high = n - 1" using \<open>n \<le> length m\<close> by (simp add: high_def)
  have "k \<le> peak"
  proof (rule ccontr)
    assume "\<not> k \<le> peak"
    then have "\<forall>a\<in>set (map fst (low @ [(peak, w)])). \<not> k \<le> a"
      using assms(1) unfolding m by (fastforce simp: bt_ok_def sorted_wrt_append)
    then have "filter (\<lambda>a. k \<le> a) (map fst (low @ [(peak, w)])) = []" by (rule filter_False)
    moreover have "map fst m = map fst (low @ [(peak, w)]) @ map fst high" by (simp add: m)
    ultimately have "length (filter (\<lambda>a. k \<le> a) (map fst m)) = length (filter (\<lambda>a. k \<le> a) (map fst high))"
      by (simp only: filter_append append_Nil)
    also have "\<dots> \<le> n - 1" using length_filter_le [of "\<lambda>a. k \<le> a" "map fst high"] len by simp
    finally show False using assms(3,4) card by simp
  qed
  then show ?thesis
    using collapse_add_below [OF assms(1) len assms(3) m] assms(2) by simp
qed

lemma collapse_add_all_right:
  assumes "bt_ok b" "bt_ok m" "0 < n"
  shows "collapse_lowest n (add_all m (collapse_lowest n b)) = collapse_lowest n (add_all m b)"
  using assms
proof (induction n b rule: collapse_lowest.induct)
  case (3 n l e k d r)
  show ?case
  proof (cases "n < length r + 2")
    case True
    let ?M = "add_all m ((k, d) # r)"
    have ok: "bt_ok ?M" using 3(3) by (intro bt_ok_add_all)
    have "n \<le> card (fst ` set ((k, d) # r))"
      using True bt_distinct [of "(k, d) # r"] 3(2) by (simp add: distinct_card flip: set_map)
    also have "\<dots> \<le> card {a \<in> dom (map_of ?M). k \<le> a}"
      using 3(2) by (intro card_mono) (auto simp: finite_dom_map_of less_imp_le)
    finally have "collapse_lowest n (bt_add l e ?M) = collapse_lowest n (bt_add k e ?M)"
      using collapse_add_up [OF ok, of l k n e] 3(2,4) by simp
    moreover have "bt_add l e ?M = add_all m ((l, e) # (k, d) # r)" "bt_add k e ?M = add_all m ((k, d + e) # r)"
      using 3(3) by (simp_all add: bt_add_ext fun_eq_iff bt_count_add count_add_all insert_commute)
    ultimately have "collapse_lowest n (add_all m ((k, d + e) # r)) = collapse_lowest n (add_all m ((l, e) # (k, d) # r))"
      by simp
    moreover have "bt_ok ((k, d + e) # r)" using 3(2) by simp
    ultimately show ?thesis using 3(1) [OF True] 3(3,4) True by simp
  qed simp
qed simp_all

lemma collapse_merges:
  assumes "bt_ok a" "bt_ok b" "0 < n"
  shows "collapse_lowest n (add_all (collapse_lowest n a) (collapse_lowest n b)) = collapse_lowest n (add_all a b)"
  using collapse_add_all_collapse [OF assms(1)] collapse_add_all_right [OF assms(2,1,3)] by simp

subsection \<open>What a sketch holds\<close>

text \<open>The equality of sketches leaves the cache aside, as \<open>PartialEq\<close> does.\<close>

definition sketch_eq :: "dd_sketch \<Rightarrow> dd_sketch \<Rightarrow> bool" where
  "sketch_eq s t \<longleftrightarrow> s\<lparr>sk_last_bin := None\<rparr> = t\<lparr>sk_last_bin := None\<rparr>"

fun sketch_feed :: "float_ops \<Rightarrow> u64 list \<Rightarrow> dd_sketch \<Rightarrow> sketch_error + dd_sketch" where
  "sketch_feed F [] s = Inr s"
| "sketch_feed F (v # vs) s = (case sketch_add F v s of Inl e \<Rightarrow> Inl e | Inr t \<Rightarrow> sketch_feed F vs t)"

text \<open>The bound on the rounding of the logarithm that the cache relies on: a value inside the interval
  kept for a bucket has that bucket's index.\<close>

definition cache_exact :: "float_ops \<Rightarrow> u64 \<Rightarrow> bool" where
  "cache_exact F log_gamma \<longleftrightarrow>
    (\<forall>i v. f64_lt (fst (bin_interval F log_gamma i)) v \<and> f64_lt v (snd (bin_interval F log_gamma i)) \<longrightarrow>
      sketch_index F log_gamma v = Inr i)"

text \<open>The store a value goes to (1, -1, or 0 for the zeros) and its bucket.\<close>

definition signed_index :: "float_ops \<Rightarrow> u64 \<Rightarrow> u64 \<Rightarrow> sketch_error + (int \<times> int)" where
  "signed_index F log_gamma v =
    (if \<not> f64_is_finite v then Inl ValueRange
     else if f64_lt 0 v then map_sum id (Pair 1) (sketch_index F log_gamma v)
     else if f64_lt v 0 then map_sum id (Pair (- 1)) (sketch_index F log_gamma (f64_neg v))
     else Inr (0, 0))"

definition tally :: "int \<Rightarrow> (int \<times> int) list \<Rightarrow> (int, nat) btree" where
  "tally g xs = add_all [] (map (\<lambda>(h, i). (i, 1)) (filter (\<lambda>(h, i). h = g) xs))"

definition tallied :: "dd_sketch \<Rightarrow> (int \<times> int) list \<Rightarrow> dd_sketch" where
  "tallied s xs = s\<lparr>sk_positive := bounded (sk_max_bins s) (tally 1 xs), sk_negative := bounded (sk_max_bins s) (tally (- 1) xs),
    sk_zeros := length (filter (\<lambda>(h, i). h = 0) xs), sk_count := length xs\<rparr>"

definition empty_sketch :: "float_ops \<Rightarrow> dd_sketch \<Rightarrow> bool" where
  "empty_sketch F s \<longleftrightarrow> sk_positive s = [] \<and> sk_negative s = [] \<and> sk_zeros s = 0 \<and> sk_count s = 0 \<and>
    sk_last_bin s = None \<and> sk_max_bins s \<noteq> Some 0 \<and> cache_exact F (sk_log_gamma s)"

lemma sketch_eq_refl [simp]: "sketch_eq s s"
  by (simp add: sketch_eq_def)

lemma sketch_eq_sym: "sketch_eq s t \<Longrightarrow> sketch_eq t s"
  by (simp add: sketch_eq_def)

lemma sketch_eq_trans: "sketch_eq s t \<Longrightarrow> sketch_eq t u \<Longrightarrow> sketch_eq s u"
  by (simp add: sketch_eq_def)

lemma tally_Nil [simp]: "tally g [] = []"
  by (simp add: tally_def)

lemma tally_snoc: "tally g (xs @ [(h, i)]) = (if h = g then bt_add i 1 (tally g xs) else tally g xs)"
  by (simp add: tally_def)

lemma bt_ok_tally [simp]: "bt_ok (tally g xs)"
  by (simp add: tally_def)

lemma sum_entries:
  assumes "bt_ok b"
  shows "(\<Sum>(i, c)\<leftarrow>b. if k = i then c else 0) = bt_count b k"
  using assms
proof (induction b)
  case (Cons p b)
  then show ?case by (cases p) (auto simp: bt_count_def bt_head_not_in)
qed (simp add: bt_count_def)

lemma count_tally: "bt_count (tally g xs) k = length (filter (\<lambda>x. x = (g, k)) xs)"
proof (induction xs rule: rev_induct)
  case (snoc x xs)
  then show ?case by (cases x) (auto simp: tally_snoc bt_count_add)
qed (simp add: bt_count_def)

lemma dom_tally: "dom (map_of (tally g xs)) = snd ` set (filter (\<lambda>(h, i). h = g) xs)"
  by (simp add: tally_def image_image case_prod_beta)

lemma add_all_tally: "add_all (tally g xs) (tally g ys) = tally g (xs @ ys)"
proof (rule bt_add_ext)
  show "bt_count (add_all (tally g xs) (tally g ys)) = bt_count (tally g (xs @ ys))"
    by (simp add: fun_eq_iff count_add_all sum_entries count_tally)
  have "fst ` set (tally g ys) = dom (map_of (tally g ys))" by (simp add: dom_map_of_conv_image_fst)
  then show "dom (map_of (add_all (tally g xs) (tally g ys))) = dom (map_of (tally g (xs @ ys)))"
    by (simp add: dom_tally image_Un)
qed simp_all

lemma bounded_merges:
  assumes "n \<noteq> Some 0" "bt_ok a" "bt_ok b"
  shows "bounded n (add_all (bounded n a) (bounded n b)) = bounded n (add_all a b)"
  using assms by (cases n) (simp_all add: bounded_def collapse_merges)

lemma bounded_adds:
  assumes "bt_ok m"
  shows "bounded n (bt_add i c (bounded n m)) = bounded n (bt_add i c m)"
  using assms by (cases n) (simp_all add: bounded_def collapse_add_collapse)

lemma bounded_bounded: "bt_ok m \<Longrightarrow> bounded n (bounded n m) = bounded n m"
  using collapse_add_all_collapse [of m _ "[]"] by (cases n) (simp_all add: bounded_def)

text \<open>One value: its index, or the refusal, is that of the mapping, whatever the cache holds.\<close>

lemma map_sum_eq [simp]:
  "map_sum id f x = Inl e \<longleftrightarrow> x = Inl e" "map_sum id f x = Inr y \<longleftrightarrow> (\<exists>z. x = Inr z \<and> y = f z)"
  by (cases x; auto)+

definition cache_holds :: "float_ops \<Rightarrow> u64 \<Rightarrow> (int \<times> u64 \<times> u64) option \<Rightarrow> bool" where
  "cache_holds F log_gamma c \<longleftrightarrow>
    (\<forall>i lo hi v. c = Some (i, lo, hi) \<and> f64_lt lo v \<and> f64_lt v hi \<longrightarrow> sketch_index F log_gamma v = Inr i)"

lemma refill_bin_exact:
  assumes "cache_exact F (sk_log_gamma s)"
  shows "refill_bin F v s = Inl e \<longleftrightarrow> sketch_index F (sk_log_gamma s) v = Inl e"
    and "sketch_index F (sk_log_gamma s) v = Inr i \<Longrightarrow>
      \<exists>c. refill_bin F v s = Inr (i, s\<lparr>sk_last_bin := c\<rparr>) \<and> cache_holds F (sk_log_gamma s) c"
proof -
  obtain lo hi where b: "bin_interval F (sk_log_gamma s) i = (lo, hi)" by fastforce
  have "cache_holds F (sk_log_gamma s) (Some (i, lo, hi))"
    using assms b by (auto simp: cache_holds_def cache_exact_def dest: spec [of _ i])
  moreover have "cache_holds F (sk_log_gamma s) None" by (simp add: cache_holds_def)
  ultimately show "\<exists>c. refill_bin F v s = Inr (i, s\<lparr>sk_last_bin := c\<rparr>) \<and> cache_holds F (sk_log_gamma s) c"
    if "sketch_index F (sk_log_gamma s) v = Inr i"
    using that b by (auto simp: refill_bin_def)
qed (simp add: refill_bin_def split: sum.splits prod.splits)

lemma positive_index_exact:
  assumes "cache_exact F (sk_log_gamma s)" "cache_holds F (sk_log_gamma s) (sk_last_bin s)"
  shows "sketch_index F (sk_log_gamma s) v = Inl e \<Longrightarrow> positive_index F v s = Inl e"
    and "sketch_index F (sk_log_gamma s) v = Inr i \<Longrightarrow>
      \<exists>c. positive_index F v s = Inr (i, s\<lparr>sk_last_bin := c\<rparr>) \<and> cache_holds F (sk_log_gamma s) c"
proof -
  have hit: "sketch_index F (sk_log_gamma s) v = Inr j" if "sk_last_bin s = Some (j, lo, hi)" "f64_lt lo v" "f64_lt v hi" for j lo hi
    using assms(2) that by (auto simp: cache_holds_def)
  show "positive_index F v s = Inl e" if "sketch_index F (sk_log_gamma s) v = Inl e"
    using that hit refill_bin_exact(1) [OF assms(1)]
    by (auto simp: positive_index_def split: option.splits)
  assume i: "sketch_index F (sk_log_gamma s) v = Inr i"
  show "\<exists>c. positive_index F v s = Inr (i, s\<lparr>sk_last_bin := c\<rparr>) \<and> cache_holds F (sk_log_gamma s) c"
  proof (cases "\<exists>j lo hi. sk_last_bin s = Some (j, lo, hi) \<and> f64_lt lo v \<and> f64_lt v hi")
    case True
    then have "positive_index F v s = Inr (i, s\<lparr>sk_last_bin := sk_last_bin s\<rparr>)"
      using hit i by (auto simp: positive_index_def)
    then show ?thesis using assms(2) by blast
  next
    case False
    then have "positive_index F v s = refill_bin F v s"
      by (auto simp: positive_index_def split: option.splits)
    then show ?thesis using refill_bin_exact(2) [OF assms(1) i] by simp
  qed
qed

lemma sketch_add_tallied:
  assumes "empty_sketch F s" "cache_holds F (sk_log_gamma s) c"
  shows "signed_index F (sk_log_gamma s) v = Inl e \<Longrightarrow> sketch_add F v ((tallied s xs)\<lparr>sk_last_bin := c\<rparr>) = Inl e"
    and "signed_index F (sk_log_gamma s) v = Inr x \<Longrightarrow>
      \<exists>d. sketch_add F v ((tallied s xs)\<lparr>sk_last_bin := c\<rparr>) = Inr ((tallied s (xs @ [x]))\<lparr>sk_last_bin := d\<rparr>) \<and>
        cache_holds F (sk_log_gamma s) d"
proof -
  let ?t = "(tallied s xs)\<lparr>sk_last_bin := c\<rparr>"
  have mapping: "sk_log_gamma ?t = sk_log_gamma s" "sk_last_bin ?t = c" by (simp_all add: tallied_def)
  have exact: "cache_exact F (sk_log_gamma ?t)" "cache_holds F (sk_log_gamma ?t) (sk_last_bin ?t)"
    using assms unfolding mapping by (simp_all add: empty_sketch_def)
  note index = positive_index_exact [OF exact, of v, unfolded mapping(1)]
  show "sketch_add F v ?t = Inl e" if "signed_index F (sk_log_gamma s) v = Inl e"
    using that index(1) [of e] mapping(1)
    by (auto simp: sketch_add_def signed_index_def split: if_splits)
  assume x: "signed_index F (sk_log_gamma s) v = Inr x"
  have fin: "f64_is_finite v" using x by (auto simp: signed_index_def split: if_splits)
  consider (pos) i where "f64_lt 0 v" "x = (1, i)" "sketch_index F (sk_log_gamma s) v = Inr i"
    | (neg) i where "\<not> f64_lt 0 v" "f64_lt v 0" "x = (- 1, i)" "sketch_index F (sk_log_gamma s) (f64_neg v) = Inr i"
    | (zero) "\<not> f64_lt 0 v" "\<not> f64_lt v 0" "x = (0, 0)"
    using x fin by (auto simp: signed_index_def split: if_splits)
  then show "\<exists>d. sketch_add F v ?t = Inr ((tallied s (xs @ [x]))\<lparr>sk_last_bin := d\<rparr>) \<and> cache_holds F (sk_log_gamma s) d"
  proof cases
    case pos
    obtain d where "positive_index F v ?t = Inr (i, ?t\<lparr>sk_last_bin := d\<rparr>)" "cache_holds F (sk_log_gamma s) d"
      using index(2) [OF pos(3)] by blast
    then show ?thesis
      using pos fin by (intro exI [of _ d])
        (simp add: sketch_add_def enforce_max_bins_def tallied_def tally_snoc bounded_adds bounded_bounded)
  next
    case neg
    then show ?thesis
      using fin assms(2) by (intro exI [of _ c])
        (simp add: sketch_add_def enforce_max_bins_def tallied_def tally_snoc bounded_adds bounded_bounded)
  next
    case zero
    then show ?thesis
      using fin assms(2) by (intro exI [of _ c])
        (simp add: sketch_add_def enforce_max_bins_def tallied_def tally_snoc bounded_adds bounded_bounded)
  qed
qed

lemma sketch_feed_tallied:
  assumes "empty_sketch F s" "cache_holds F (sk_log_gamma s) c"
  shows "(\<exists>e. sketch_feed F vs ((tallied s xs)\<lparr>sk_last_bin := c\<rparr>) = Inl e \<and> (\<exists>v\<in>set vs. signed_index F (sk_log_gamma s) v = Inl e)) \<or>
    (\<exists>ys d. map (signed_index F (sk_log_gamma s)) vs = map Inr ys \<and>
      sketch_feed F vs ((tallied s xs)\<lparr>sk_last_bin := c\<rparr>) = Inr ((tallied s (xs @ ys))\<lparr>sk_last_bin := d\<rparr>) \<and>
      cache_holds F (sk_log_gamma s) d)"
  using assms(2)
proof (induction vs arbitrary: xs c)
  case Nil
  then show ?case by auto
next
  case (Cons v vs)
  show ?case
  proof (cases "signed_index F (sk_log_gamma s) v")
    case (Inl e)
    then show ?thesis using sketch_add_tallied(1) [OF assms(1) Cons.prems Inl] by auto
  next
    case (Inr x)
    obtain d where d: "sketch_add F v ((tallied s xs)\<lparr>sk_last_bin := c\<rparr>) = Inr ((tallied s (xs @ [x]))\<lparr>sk_last_bin := d\<rparr>)"
      "cache_holds F (sk_log_gamma s) d" using sketch_add_tallied(2) [OF assms(1) Cons.prems Inr] by blast
    show ?thesis
      using Cons.IH [OF d(2), of "xs @ [x]"]
    proof (elim disjE exE conjE, goal_cases)
      case (1 e)
      then show ?case using d(1) by auto
    next
      case (2 ys f)
      then show ?case using d(1) Inr by (intro disjI2 exI [of _ "x # ys"] exI [of _ f]) simp
    qed
  qed
qed

lemma tallied_empty: "empty_sketch F s \<Longrightarrow> s = (tallied s [])\<lparr>sk_last_bin := None\<rparr>"
  by (cases s) (auto simp: empty_sketch_def tallied_def bounded_def split: option.splits)

lemma sketch_feed_empty:
  assumes "empty_sketch F s" "sketch_feed F vs s = Inr a"
  obtains xs d where "map (signed_index F (sk_log_gamma s)) vs = map Inr xs" "a = (tallied s xs)\<lparr>sk_last_bin := d\<rparr>"
    "cache_holds F (sk_log_gamma s) d"
proof -
  have "cache_holds F (sk_log_gamma s) None" by (simp add: cache_holds_def)
  from sketch_feed_tallied [OF assms(1) this, of vs "[]"] show ?thesis
    using assms(2) that unfolding tallied_empty [OF assms(1), symmetric] by auto
qed

lemma sketch_feed_indices:
  assumes "empty_sketch F s" "map (signed_index F (sk_log_gamma s)) vs = map Inr xs"
  shows "\<exists>d. sketch_feed F vs s = Inr ((tallied s xs)\<lparr>sk_last_bin := d\<rparr>)"
proof -
  have "cache_holds F (sk_log_gamma s) None" by (simp add: cache_holds_def)
  from sketch_feed_tallied [OF assms(1) this, of vs "[]"] show ?thesis
    unfolding tallied_empty [OF assms(1), symmetric]
  proof (elim disjE exE conjE bexE, goal_cases)
    case (1 e v)
    then have "Inl e \<in> set (map (signed_index F (sk_log_gamma s)) vs)" by force
    then show ?case unfolding assms(2) by auto
  next
    case (2 ys d)
    moreover from this have "ys = xs" using assms(2) by (metis list.inj_map_strong sum.inject(2))
    ultimately show ?case by auto
  qed
qed

text \<open>Two sketches of one mapping, each within the budget, merge to the sketch of all the values: folding
  the lowest buckets loses no mergeability.\<close>

lemma merge_tallied:
  assumes "float_laws F" "f64_is_finite (sk_gamma s)" "\<not> f64_lt (sk_gamma s) 0" "sk_max_bins s \<noteq> Some 0"
  shows "sketch_merge F ((tallied s xs)\<lparr>sk_last_bin := c\<rparr>) ((tallied s ys)\<lparr>sk_last_bin := d\<rparr>) =
    Inr ((tallied s (xs @ ys))\<lparr>sk_last_bin := c\<rparr>)"
proof -
  have gamma: "sk_gamma ((tallied s zs)\<lparr>sk_last_bin := e\<rparr>) = sk_gamma s" for zs e by (simp add: tallied_def)
  have "fo_sub F (sk_gamma s) (sk_gamma s) = 0" "\<not> f64_lt (fo_mul F f64_epsilon (sk_gamma s)) 0"
    using assms(1-3) by (auto simp: float_laws_def)
  moreover have "f64_max (sk_gamma s) (sk_gamma s) = sk_gamma s" by (simp add: f64_max_def)
  moreover have "f64_abs 0 = 0" by (simp add: f64_abs_def)
  ultimately show ?thesis
    unfolding sketch_merge_def gamma using assms(4)
    by (simp add: enforce_max_bins_def tallied_def bounded_merges add_all_tally flip: add_all_def)
qed

lemma sketches_merge:
  assumes "float_laws F" "f64_is_finite (sk_gamma s)" "\<not> f64_lt (sk_gamma s) 0" "empty_sketch F s"
    and "sketch_feed F vs s = Inr a" "sketch_feed F ws s = Inr b"
  shows "\<exists>c d. sketch_merge F a b = Inr c \<and> sketch_feed F (vs @ ws) s = Inr d \<and> sketch_eq c d"
proof -
  obtain xs da where a: "map (signed_index F (sk_log_gamma s)) vs = map Inr xs" "a = (tallied s xs)\<lparr>sk_last_bin := da\<rparr>"
    using sketch_feed_empty [OF assms(4,5)] by blast
  obtain ys db where b: "map (signed_index F (sk_log_gamma s)) ws = map Inr ys" "b = (tallied s ys)\<lparr>sk_last_bin := db\<rparr>"
    using sketch_feed_empty [OF assms(4,6)] by blast
  have "map (signed_index F (sk_log_gamma s)) (vs @ ws) = map Inr (xs @ ys)" using a(1) b(1) by simp
  then obtain d where d: "sketch_feed F (vs @ ws) s = Inr ((tallied s (xs @ ys))\<lparr>sk_last_bin := d\<rparr>)"
    using sketch_feed_indices [OF assms(4)] by blast
  have "sk_max_bins s \<noteq> Some 0" using assms(4) by (simp add: empty_sketch_def)
  then show ?thesis
    using merge_tallied [OF assms(1-3)] d unfolding a(2) b(2) by (simp add: sketch_eq_def)
qed

subsection \<open>Rank and budget\<close>

definition sketch_ok :: "dd_sketch \<Rightarrow> bool" where
  "sketch_ok s \<longleftrightarrow> sk_count s = total (sk_negative s) + sk_zeros s + total (sk_positive s)"

lemma total_bounded [simp]: "total (bounded n m) = total m"
  by (simp add: bounded_def split: option.splits)

lemma total_tally: "total (tally g xs) = length (filter (\<lambda>(h, i). h = g) xs)"
  by (induction xs rule: rev_induct) (auto simp: tally_snoc total_bt_add)

text \<open>The values a sketch stands for, in ascending order: what the selected rank counts in.\<close>

definition sketch_values :: "float_ops \<Rightarrow> dd_sketch \<Rightarrow> u64 list" where
  "sketch_values F s =
    concat (map (\<lambda>(i, c). replicate c (f64_neg (value_of F s i))) (rev (sk_negative s))) @ replicate (sk_zeros s) 0 @
    concat (map (\<lambda>(i, c). replicate c (value_of F s i)) (sk_positive s))"

lemma total_rev [simp]: "total (rev m) = total m"
  by (simp add: total_def flip: rev_map)

lemma length_buckets: "length (concat (map (\<lambda>(i, c). replicate c (f i)) m)) = total m"
  by (induction m) (auto simp: total_def)

lemma first_reaching_rank:
  assumes "seen < ordinal"
  shows "case first_reaching ordinal seen m of
      (Some i, n) \<Rightarrow> ordinal \<le> seen + total m \<and> concat (map (\<lambda>(i, c). replicate c (f i)) m) ! (ordinal - seen - 1) = f i
    | (None, n) \<Rightarrow> n = seen + total m \<and> n < ordinal"
  using assms
proof (induction ordinal seen m rule: first_reaching.induct)
  case (2 ordinal seen i c store)
  show ?case
  proof (cases "ordinal \<le> seen + c")
    case True
    then have "ordinal - Suc seen < c" using 2(2) by linarith
    then show ?thesis using True 2(2) by (simp add: nth_append)
  next
    case False
    then have IH: "case first_reaching ordinal (seen + c) store of
      (Some i, n) \<Rightarrow> ordinal \<le> seen + c + total store \<and> concat (map (\<lambda>(i, c). replicate c (f i)) store) ! (ordinal - (seen + c) - 1) = f i
    | (None, n) \<Rightarrow> n = seen + c + total store \<and> n < ordinal"
      using 2(1) [OF refl] by simp
    have "\<not> ordinal - seen - 1 < c" "ordinal - seen - 1 - c = ordinal - (seen + c) - 1" using False 2(2) by simp_all
    then show ?thesis using IH False by (simp add: nth_append ac_simps split: prod.splits option.splits)
  qed
qed simp

lemma sketch_ordinal_range:
  assumes "0 < n"
  shows "1 \<le> sketch_ordinal F q n" "sketch_ordinal F q n \<le> n"
  using assms by (auto simp: sketch_ordinal_def Let_def)

lemma quantile_rank:
  assumes "sketch_ok s" "0 < sk_count s" "f64_le 0 q" "f64_le q f64_one"
  shows "sketch_quantile F s q = Some (sketch_values F s ! (sketch_ordinal F q (sk_count s) - 1))"
proof -
  let ?o = "sketch_ordinal F q (sk_count s)" and ?neg = "rev (sk_negative s)"
  let ?n = "total (sk_negative s)" and ?z = "sk_zeros s"
  have o: "0 < ?o" "?o \<le> ?n + ?z + total (sk_positive s)"
    using sketch_ordinal_range [OF assms(2), of F q] assms(1) by (simp_all add: sketch_ok_def)
  obtain r n where neg: "first_reaching ?o 0 ?neg = (r, n)" by fastforce
  note first = first_reaching_rank [OF o(1), of ?neg "\<lambda>i. f64_neg (value_of F s i)", unfolded neg]
  show ?thesis
  proof (cases r)
    case (Some i)
    then show ?thesis
      using first neg assms(2-4) o(1) by (simp add: sketch_quantile_def Let_def sketch_values_def nth_append length_buckets) linarith?
  next
    case None
    then have n: "n = ?n" "?n < ?o" using first by simp_all
    show ?thesis
    proof (cases "0 < ?z \<and> ?o \<le> ?n + ?z")
      case True
      then have "?o - Suc ?n < ?z" "\<not> ?o - Suc 0 < ?n" using n by linarith+
      then show ?thesis
        using True neg None n assms(2-4) by (simp add: sketch_quantile_def Let_def sketch_values_def nth_append length_buckets)
    next
      case False
      then have z: "?n + ?z < ?o" using n by auto
      obtain r' n' where pos: "first_reaching ?o (?n + ?z) (sk_positive s) = (r', n')" by fastforce
      note second = first_reaching_rank [OF z, of "sk_positive s" "value_of F s", unfolded pos]
      obtain i where "r' = Some i" using second o(2) by (cases r') auto
      moreover have "?o - 1 - ?n - ?z = ?o - (?n + ?z) - 1" "\<not> ?o - 1 < ?n" "\<not> ?o - 1 - ?n < ?z" "\<not> ?o \<le> ?n + ?z"
        using z by simp_all
      ultimately show ?thesis
        using second pos neg None n assms(2-4)
        by (simp add: sketch_quantile_def Let_def sketch_values_def nth_append length_buckets)
    qed
  qed
qed

lemma sketch_feed_within:
  assumes "empty_sketch F s" "sketch_feed F vs s = Inr a"
  shows "sketch_ok a" "sk_count a = length vs"
    and "sk_max_bins s = Some n \<Longrightarrow> length (sk_positive a) \<le> n \<and> length (sk_negative a) \<le> n"
proof -
  obtain xs d where a: "map (signed_index F (sk_log_gamma s)) vs = map Inr xs" "a = (tallied s xs)\<lparr>sk_last_bin := d\<rparr>"
    using sketch_feed_empty [OF assms] by blast
  have "\<forall>x\<in>set xs. fst x = 1 \<or> fst x = - 1 \<or> fst x = 0"
  proof
    fix x assume "x \<in> set xs"
    then have "Inr x \<in> set (map (signed_index F (sk_log_gamma s)) vs)" unfolding a(1) by simp
    then obtain v where "signed_index F (sk_log_gamma s) v = Inr x" by auto
    then show "fst x = 1 \<or> fst x = - 1 \<or> fst x = 0" by (auto simp: signed_index_def split: if_splits)
  qed
  then have "length xs = length (filter (\<lambda>(h, i). h = - 1) xs) + length (filter (\<lambda>(h, i). h = 0) xs) + length (filter (\<lambda>(h, i). h = 1) xs)"
    by (induction xs) (simp_all add: case_prod_beta, blast)
  then show "sketch_ok a" by (simp add: sketch_ok_def a(2) tallied_def total_tally)
  show "sk_count a = length vs" using arg_cong [OF a(1), of length] by (simp add: a(2) tallied_def)
  show "length (sk_positive a) \<le> n \<and> length (sk_negative a) \<le> n" if "sk_max_bins s = Some n"
    using that assms(1) by (cases n) (auto simp: a(2) tallied_def bounded_def empty_sketch_def length_collapse)
qed

end
