(* ===== verification/Scaled_Arith.thy ===== *)
theory Scaled_Arith imports Decimals Bucket_Grid begin

text \<open>
  The integer arithmetic of \<^verbatim>\<open>weft-reduce/src/scaled.rs\<close>: the quotient of a sum by a count with the
  digits \<open>bigdecimal\<close> would produce, and the time-weighted average on scaled mantissas. The digit loop of
  the code exists once for a divisor that fits \<open>u64\<close> and once for \<open>u128\<close>; on \<open>nat\<close> the two are the same.
  An \<open>i128\<close> is an \<open>int\<close> with \<open>checked_i128\<close> where the code checks.
\<close>

subsection \<open>What the decimal library adds\<close>

record 'd sum_ops =
  so_add :: "'d \<Rightarrow> 'd \<Rightarrow> 'd"
  so_neg :: "'d \<Rightarrow> 'd"
  so_div :: "'d \<Rightarrow> 'd \<Rightarrow> 'd"

text \<open>Addition is exact, negation keeps the scale, and a quotient by two is exact when its digits fit the
  precision of the library's division.\<close>

definition short_decimal :: "'d decimal_ops \<Rightarrow> 'd \<Rightarrow> bool" where
  "short_decimal D x \<longleftrightarrow> \<bar>fst (d_parts D x)\<bar> < 10 ^ 98 \<and> \<bar>sint (snd (d_parts D x))\<bar> < 2 ^ 62"

definition sum_laws :: "'d::ord decimal_ops \<Rightarrow> 'd sum_ops \<Rightarrow> ('d \<Rightarrow> rat) \<Rightarrow> bool" where
  "sum_laws D S val \<longleftrightarrow>
    (\<forall>m s. d_parts D (d_new D m s) = (m, s)) \<and>
    (\<forall>x m s. d_parts D x = (m, s) \<longrightarrow> val x = of_int m * 10 powi (- sint s)) \<and>
    (\<forall>x y n. d_parts D y = (n, 0) \<longrightarrow> val (d_mul D x y) = val x * of_int n) \<and>
    (\<forall>x y. x < y \<longleftrightarrow> val x < val y) \<and>
    (\<forall>x y. val (so_add S x y) = val x + val y) \<and>
    (\<forall>x m s. d_parts D x = (m, s) \<longrightarrow> d_parts D (so_neg S x) = (- m, s)) \<and>
    (\<forall>x. short_decimal D x \<longrightarrow> val (so_div S x (d_new D 2 0)) = val x / 2)"

lemma sum_lawsD:
  assumes "sum_laws D S val"
  shows "d_parts D (d_new D m s) = (m, s)"
    "d_parts D x = (m, s) \<Longrightarrow> val x = of_int m * 10 powi (- sint s)"
    "d_parts D y = (n, 0) \<Longrightarrow> val (d_mul D x y) = val x * of_int n"
    "x < y \<longleftrightarrow> val x < val y" "val (so_add S x y) = val x + val y"
    "d_parts D x = (m, s) \<Longrightarrow> d_parts D (so_neg S x) = (- m, s)"
    "short_decimal D x \<Longrightarrow> val (so_div S x (d_new D 2 0)) = val x / 2"
  using assms unfolding sum_laws_def by - (elim conjE; (simp; fail | meson))+

subsection \<open>The quotient of a sum by a count\<close>

definition bigdecimal_div_precision :: nat where "bigdecimal_div_precision = 100"

function scale_up :: "nat \<Rightarrow> nat \<Rightarrow> i64 \<Rightarrow> nat \<times> i64" where
  "scale_up num den scale = (if 0 < num \<and> num < den then scale_up (num * 10) den (scale + 1) else (num, scale))"
  by pat_completeness auto
termination by (relation "measure (\<lambda>(num, den, scale). den - num)") auto

declare scale_up.simps [simp del]

fun euclid :: "nat \<Rightarrow> nat \<Rightarrow> nat" where
  "euclid a b = (if b \<noteq> 0 then euclid b (a mod b) else a)"

declare euclid.simps [simp del]

function strip_factor :: "nat \<Rightarrow> nat \<Rightarrow> nat" where
  "strip_factor p d = (if 1 < p \<and> 0 < d \<and> d mod p = 0 then strip_factor p (d div p) else d)"
  by pat_completeness auto
termination by (relation "measure snd") auto

declare strip_factor.simps [simp del]

text \<open>Shifting the trailing zeros out removes the factors of two.\<close>

definition terminates :: "nat \<Rightarrow> nat \<Rightarrow> bool" where
  "terminates num count = (strip_factor 5 (strip_factor 2 (count div euclid count (num mod count))) = 1)"

record digit_sink =
  ds_quotient :: nat
  ds_chunk :: nat
  ds_chunk_digits :: nat

definition push_digit :: "nat \<Rightarrow> digit_sink \<Rightarrow> digit_sink" where
  "push_digit digit d =
    (let chunk = ds_chunk d * 10 + digit; n = ds_chunk_digits d + 1
     in if n = 38 then \<lparr>ds_quotient = ds_quotient d * 10 ^ 38 + chunk, ds_chunk = 0, ds_chunk_digits = 0\<rparr>
        else \<lparr>ds_quotient = ds_quotient d, ds_chunk = chunk, ds_chunk_digits = n\<rparr>)"

function digit_loop :: "nat \<Rightarrow> nat \<Rightarrow> nat \<Rightarrow> i64 \<Rightarrow> digit_sink \<Rightarrow> nat \<times> i64 \<times> digit_sink" where
  "digit_loop den rem precision scale digits =
    (if rem \<noteq> 0 \<and> precision < bigdecimal_div_precision
     then digit_loop den ((rem mod den) * 10) (precision + 1) (scale + 1) (push_digit (rem div den) digits)
     else (rem, scale, digits))"
  by pat_completeness auto
termination by (relation "measure (\<lambda>(den, rem, precision, scale, digits). bigdecimal_div_precision - precision)") auto

declare digit_loop.simps [simp del]

definition non_terminating_quotient :: "nat \<Rightarrow> nat \<Rightarrow> i64 \<Rightarrow> nat \<Rightarrow> nat \<times> i64" where
  "non_terminating_quotient num lead scale count =
    (let m = bigdecimal_div_precision - dec_digits lead;
         shifted = num * 10 ^ m;
         remainder = shifted mod count;
         quot = shifted div count
     in (if 5 \<le> remainder * 10 div count then quot + 1 else quot, scale + of_nat m))"

definition avg_magnitude :: "nat \<Rightarrow> i64 \<Rightarrow> nat \<Rightarrow> nat \<times> i64" where
  "avg_magnitude num scale count =
    (let (num, scale) = scale_up num count scale;
         lead = num div count; rem = num mod count
     in if rem \<noteq> 0 \<and> \<not> terminates num count then non_terminating_quotient num lead scale count
        else if rem = 0 then (lead, scale)
        else let (rem, scale, digits) = digit_loop count (rem * 10) (dec_digits lead) scale
                   \<lparr>ds_quotient = lead, ds_chunk = 0, ds_chunk_digits = 0\<rparr>;
                 quot = (if 0 < ds_chunk_digits digits
                   then ds_quotient digits * 10 ^ ds_chunk_digits digits + ds_chunk digits else ds_quotient digits)
             in (if rem \<noteq> 0 \<and> 5 \<le> rem div count then quot + 1 else quot, scale))"

definition avg_like_bigdecimal :: "'d decimal_ops \<Rightarrow> 'd sum_ops \<Rightarrow> int \<Rightarrow> i64 \<Rightarrow> nat \<Rightarrow> 'd" where
  "avg_like_bigdecimal D S acc scale count =
    (if acc = 0 \<or> count = 1 then d_new D acc scale
     else if acc = int count then d_new D 1 scale
     else let (quot, scale) = avg_magnitude (nat \<bar>acc\<bar>) scale count;
              magnitude = d_new D (int quot) scale
          in if acc < 0 then so_neg S magnitude else magnitude)"

definition checked_i128 :: "int \<Rightarrow> int option" where
  "checked_i128 x = (if - (2 ^ 127) \<le> x \<and> x < 2 ^ 127 then Some x else None)"

definition avg_of_sum :: "'d decimal_ops \<Rightarrow> 'd sum_ops \<Rightarrow> 'd \<Rightarrow> nat \<Rightarrow> 'd" where
  "avg_of_sum D S acc count =
    (let (digits, scale) = d_parts D acc
     in case checked_i128 digits of
          None \<Rightarrow> so_div S acc (d_new D (int count) 0)
        | Some n \<Rightarrow> avg_like_bigdecimal D S n scale count)"

subsection \<open>Long division\<close>

text \<open>Long division one digit at a time up to the precision, then the rounding of the next digit: what
  every path of \<open>avg_magnitude\<close> computes.\<close>

function long_digits :: "nat \<Rightarrow> nat \<Rightarrow> nat \<Rightarrow> i64 \<Rightarrow> nat \<Rightarrow> nat \<times> i64 \<times> nat" where
  "long_digits den rem precision scale quot =
    (if rem \<noteq> 0 \<and> precision < bigdecimal_div_precision
     then long_digits den ((rem mod den) * 10) (precision + 1) (scale + 1) (quot * 10 + rem div den)
     else (rem, scale, quot))"
  by pat_completeness auto
termination by (relation "measure (\<lambda>(den, rem, precision, scale, quot). bigdecimal_div_precision - precision)") auto

declare long_digits.simps [simp del]

definition long_division :: "nat \<Rightarrow> i64 \<Rightarrow> nat \<Rightarrow> nat \<times> i64" where
  "long_division num scale count =
    (let (num, scale) = scale_up num count scale;
         (rem, scale, quot) = long_digits count (num mod count * 10) (dec_digits (num div count)) scale (num div count)
     in (if 5 \<le> rem div count then quot + 1 else quot, scale))"

definition sunk :: "digit_sink \<Rightarrow> nat" where
  "sunk d = ds_quotient d * 10 ^ ds_chunk_digits d + ds_chunk d"

lemma sunk_push: "sunk (push_digit k d) = sunk d * 10 + k"
  by (simp add: sunk_def push_digit_def Let_def algebra_simps)

lemma digit_loop_long:
  "long_digits den rem precision scale (sunk d) =
    (let (r, s, e) = digit_loop den rem precision scale d in (r, s, sunk e))"
  by (induction den rem precision scale d rule: digit_loop.induct)
    (subst digit_loop.simps, subst long_digits.simps, simp add: sunk_push Let_def split: prod.splits)

text \<open>The state of the division after \<open>j\<close> digits.\<close>

lemma long_digits_state:
  assumes "0 < den"
  shows "\<exists>j. long_digits den (x * 10 ^ i mod den * 10) precision scale (x * 10 ^ i div den)
      = (x * 10 ^ (i + j) mod den * 10, scale + of_nat j, x * 10 ^ (i + j) div den) \<and>
    (x * 10 ^ (i + j) mod den = 0 \<or> bigdecimal_div_precision \<le> precision + j) \<and>
    (\<forall>k<j. x * 10 ^ (i + k) mod den \<noteq> 0 \<and> precision + k < bigdecimal_div_precision)"
proof (induction "bigdecimal_div_precision - precision" arbitrary: i precision scale)
  case 0
  then have "\<not> precision < bigdecimal_div_precision" by simp
  then show ?case by (intro exI [of _ 0]) (simp add: long_digits.simps)
next
  case (Suc n)
  let ?r = "x * 10 ^ i mod den"
  show ?case
  proof (cases "?r = 0")
    case True
    then show ?thesis by (intro exI [of _ 0]) (simp add: long_digits.simps)
  next
    case False
    have less: "precision < bigdecimal_div_precision" using Suc(2) by simp
    have shift: "x * 10 ^ i * 10 = x * 10 ^ (i + 1)" by simp
    have next_rem: "?r * 10 mod den = x * 10 ^ (i + 1) mod den"
      unfolding shift [symmetric] by (rule mod_mult_left_eq)
    have "x * 10 ^ i = x * 10 ^ i div den * den + ?r" by simp
    then have "x * 10 ^ (i + 1) = (x * 10 ^ i div den * den + ?r) * 10" using shift by metis
    then have "x * 10 ^ (i + 1) = (x * 10 ^ i div den * 10) * den + ?r * 10" by (simp only: algebra_simps)
    then have next_quot: "x * 10 ^ (i + 1) div den = x * 10 ^ i div den * 10 + ?r * 10 div den"
      using assms by simp
    obtain j where j: "long_digits den (x * 10 ^ (i + 1) mod den * 10) (precision + 1) (scale + 1) (x * 10 ^ (i + 1) div den)
        = (x * 10 ^ (i + 1 + j) mod den * 10, scale + 1 + of_nat j, x * 10 ^ (i + 1 + j) div den)"
      "x * 10 ^ (i + 1 + j) mod den = 0 \<or> bigdecimal_div_precision \<le> precision + 1 + j"
      "\<forall>k<j. x * 10 ^ (i + 1 + k) mod den \<noteq> 0 \<and> precision + 1 + k < bigdecimal_div_precision"
      using Suc(1) [of "precision + 1" "i + 1" "scale + 1"] Suc(2) by fastforce
    have "long_digits den (?r * 10) precision scale (x * 10 ^ i div den)
        = long_digits den (x * 10 ^ (i + 1) mod den * 10) (precision + 1) (scale + 1) (x * 10 ^ (i + 1) div den)"
      using False less by (subst long_digits.simps) (simp only: next_rem next_quot simp_thms if_True mult_eq_0_iff, simp)
    then show ?thesis
      using j False less by (intro exI [of _ "Suc j"]) (auto simp: ac_simps less_Suc_eq_0_disj)
  qed
qed

text \<open>Termination of the expansion: \<open>terminates\<close> decides whether some power of ten clears the divisor.\<close>

lemma euclid_gcd: "euclid a b = gcd a b"
  by (induction a b rule: euclid.induct) (subst euclid.simps, simp add: gcd_red_nat [symmetric])

lemma strip_factor_divides:
  assumes "1 < p" "0 < d"
  shows "\<exists>k. d = strip_factor p d * p ^ k \<and> \<not> p dvd strip_factor p d"
  using assms
proof (induction p d rule: strip_factor.induct)
  case (1 p d)
  show ?case
  proof (cases "d mod p = 0")
    case True
    then have d: "d = d div p * p" "0 < d div p" using 1(2,3) by auto
    obtain k where k: "d div p = strip_factor p (d div p) * p ^ k" "\<not> p dvd strip_factor p (d div p)"
      using 1(1) 1(2,3) True d(2) by auto
    have "strip_factor p d = strip_factor p (d div p)" using 1(2,3) True by (subst strip_factor.simps) simp
    moreover have "d = strip_factor p (d div p) * p ^ Suc k" using d(1) k(1) by (metis mult.assoc power_Suc2)
    ultimately show ?thesis using k(2) by metis
  next
    case False
    then have "strip_factor p d = d" by (subst strip_factor.simps) simp
    then show ?thesis using False by (intro exI [of _ 0]) (auto simp: dvd_eq_mod_eq_0)
  qed
qed

lemma divides_power_of_ten:
  assumes "0 < d"
  shows "strip_factor 5 (strip_factor 2 d) = 1 \<longleftrightarrow> (\<exists>k. d dvd (10 :: nat) ^ k)"
proof -
  obtain i where i: "d = strip_factor 2 d * 2 ^ i" "\<not> 2 dvd strip_factor 2 d"
    using strip_factor_divides [of 2 d] assms by auto
  then have pos: "0 < strip_factor 2 d" using assms by (metis gr0I mult_0)
  obtain j where j: "strip_factor 2 d = strip_factor 5 (strip_factor 2 d) * 5 ^ j" "\<not> 5 dvd strip_factor 5 (strip_factor 2 d)"
    using strip_factor_divides [of 5 "strip_factor 2 d"] pos by auto
  let ?e = "strip_factor 5 (strip_factor 2 d)"
  have d: "d = ?e * 5 ^ j * 2 ^ i" using i(1) j(1) by simp
  show ?thesis
  proof
    assume "?e = 1"
    then have "5 ^ j * 2 ^ i = d" using d by simp
    moreover have "5 ^ j * 2 ^ i dvd 5 ^ (i + j) * (2 :: nat) ^ (i + j)"
      by (intro mult_dvd_mono) (simp_all add: le_imp_power_dvd)
    moreover have "5 ^ (i + j) * (2 :: nat) ^ (i + j) = 10 ^ (i + j)" by (simp flip: power_mult_distrib)
    ultimately show "\<exists>k. d dvd 10 ^ k" by metis
  next
    assume "\<exists>k. d dvd 10 ^ k"
    then obtain k where "?e dvd 10 ^ k" by (metis d dvd_mult_left)
    moreover have "\<not> 2 dvd ?e" using i(2) j(1) by (metis dvd_mult2)
    moreover have "coprime ?e 10"
    proof -
      have "gcd ?e 5 dvd 5" by simp
      then have "gcd ?e 5 = 1 \<or> gcd ?e 5 = 2 \<or> gcd ?e 5 = 3 \<or> gcd ?e 5 = 4 \<or> gcd ?e 5 = 5"
        using dvd_imp_le [of "gcd ?e 5" 5] gcd_pos_nat [of ?e 5] by linarith
      then have "gcd ?e 5 = 1 \<or> gcd ?e 5 = 5" using \<open>gcd ?e 5 dvd 5\<close> by (elim disjE) auto
      then have "gcd ?e 5 = 1" using j(2) by (metis gcd_dvd1)
      then have "coprime ?e 5" by (simp add: coprime_iff_gcd_eq_1)
      moreover have "coprime ?e 2" using \<open>\<not> 2 dvd ?e\<close> by simp
      ultimately have "coprime ?e (2 * 5)" by (simp only: coprime_mult_right_iff)
      then show ?thesis by simp
    qed
    ultimately have "is_unit ?e" by (metis coprime_absorb_left coprime_power_right_iff)
    then show "?e = 1" by simp
  qed
qed

lemma terminates_iff:
  assumes "0 < count"
  shows "terminates num count \<longleftrightarrow> (\<exists>k. num * 10 ^ k mod count = 0)"
proof -
  let ?g = "gcd count num"
  have g: "euclid count (num mod count) = ?g" by (simp add: euclid_gcd gcd_red_nat [symmetric] gcd.commute)
  have pos: "0 < ?g" "0 < count div ?g" using assms by (simp_all add: div_greater_zero_iff gcd_le1_nat)
  have co: "coprime (count div ?g) (num div ?g)" using assms by (intro div_gcd_coprime) simp
  have "num * 10 ^ k mod count = 0 \<longleftrightarrow> count div ?g dvd 10 ^ k" for k
  proof -
    have "num * 10 ^ k mod count = 0 \<longleftrightarrow> count div ?g * ?g dvd num div ?g * 10 ^ k * ?g"
      by (simp add: dvd_eq_mod_eq_0 [symmetric] mult.assoc mult.commute) (metis dvd_div_mult_self gcd_dvd2 mult.assoc mult.commute)
    also have "\<dots> \<longleftrightarrow> count div ?g dvd num div ?g * 10 ^ k"
      using pos(1) by (intro dvd_times_right_cancel_iff) simp
    also have "\<dots> \<longleftrightarrow> count div ?g dvd 10 ^ k" using co by (simp add: coprime_dvd_mult_right_iff)
    finally show ?thesis .
  qed
  then show ?thesis unfolding terminates_def g using divides_power_of_ten [OF pos(2)] by simp
qed

lemma scale_up_spec:
  assumes "0 < num" "0 < den"
  shows "\<exists>i. scale_up num den scale = (num * 10 ^ i, scale + of_nat i) \<and> den \<le> num * 10 ^ i \<and>
    (\<forall>k<i. num * 10 ^ k < den)"
  using assms
proof (induction num den scale rule: scale_up.induct)
  case (1 num den scale)
  show ?case
  proof (cases "num < den")
    case True
    obtain i where i: "scale_up (num * 10) den (scale + 1) = (num * 10 * 10 ^ i, scale + 1 + of_nat i)"
      "den \<le> num * 10 * 10 ^ i" "\<forall>k<i. num * 10 * 10 ^ k < den"
      using 1 True by auto
    have "\<forall>k<Suc i. num * 10 ^ k < den" using i(3) True by (auto simp: less_Suc_eq_0_disj mult.assoc)
    then show ?thesis
      using True 1(2) i(1,2) by (intro exI [of _ "Suc i"]) (subst scale_up.simps, simp add: ac_simps)
  next
    case False
    then show ?thesis by (intro exI [of _ 0]) (subst scale_up.simps, simp)
  qed
qed

text \<open>The shortcuts of the code, the power of ten and the chunks of digits, change nothing.\<close>

lemma digit_loop_sink:
  assumes "0 < ds_chunk_digits d \<or> ds_chunk d = 0" "digit_loop den rem precision scale d = (r, t, e)"
  shows "0 < ds_chunk_digits e \<or> ds_chunk e = 0"
  using assms
proof (induction den rem precision scale d rule: digit_loop.induct)
  case (1 den rem precision scale d)
  have "0 < ds_chunk_digits (push_digit k d) \<or> ds_chunk (push_digit k d) = 0" for k
    by (simp add: push_digit_def Let_def)
  note sink = this
  show ?case
  proof (cases "rem \<noteq> 0 \<and> precision < bigdecimal_div_precision")
    case True
    then have "digit_loop den (rem mod den * 10) (precision + 1) (scale + 1) (push_digit (rem div den) d) = (r, t, e)"
      using 1(3) by (subst (asm) digit_loop.simps) simp
    from 1(1) [OF True sink this] show ?thesis .
  next
    case False
    then have "digit_loop den rem precision scale d = (rem, scale, d)" by (subst digit_loop.simps) auto
    then show ?thesis using 1(2,3) by simp
  qed
qed

lemma avg_is_long_division:
  assumes "0 < num" "0 < count"
  shows "avg_magnitude num scale count = long_division num scale count"
proof -
  obtain n s where up: "scale_up num count scale = (n, s)" by fastforce
  let ?p = "dec_digits (n div count)" and ?P = bigdecimal_div_precision
  obtain j where j: "long_digits count (n mod count * 10) ?p s (n div count)
        = (n * 10 ^ j mod count * 10, s + of_nat j, n * 10 ^ j div count)"
      "n * 10 ^ j mod count = 0 \<or> ?P \<le> ?p + j" "\<forall>k<j. n * 10 ^ k mod count \<noteq> 0 \<and> ?p + k < ?P"
    using long_digits_state [OF assms(2), of n 0 ?p s, unfolded power_0 mult_1_right add_0]
    by (elim exE conjE) (rule that)
  consider (exact) "n mod count = 0" | (endless) "n mod count \<noteq> 0" "\<not> terminates n count"
    | (ends) "n mod count \<noteq> 0" "terminates n count" by blast
  then show ?thesis
  proof cases
    case exact
    then show ?thesis by (simp add: avg_magnitude_def long_division_def up long_digits.simps [of count 0])
  next
    case endless
    have "\<not> (\<exists>k. n * 10 ^ k mod count = 0)"
      using endless(2) by (simp only: terminates_iff [OF assms(2)] simp_thms)
    then have never: "n * 10 ^ k mod count \<noteq> 0" for k by metis
    have "j = ?P - ?p"
    proof (cases j)
      case 0
      then show ?thesis using j(2) never [of 0] by simp
    next
      case (Suc k)
      then show ?thesis using j(2,3) never [of j] by (auto dest: spec [of _ k])
    qed
    then show ?thesis using endless j(1)
      by (simp add: avg_magnitude_def long_division_def non_terminating_quotient_def up Let_def)
  next
    case ends
    let ?sink = "\<lparr>ds_quotient = n div count, ds_chunk = 0, ds_chunk_digits = 0\<rparr>"
    obtain r t d where loop: "digit_loop count (n mod count * 10) ?p s ?sink = (r, t, d)" by (cases "digit_loop count (n mod count * 10) ?p s ?sink") auto
    have "sunk ?sink = n div count" by (simp add: sunk_def)
    then have "long_digits count (n mod count * 10) ?p s (n div count) = (r, t, sunk d)"
      using digit_loop_long [of count "n mod count * 10" ?p s ?sink] loop by simp
    moreover have "(if 0 < ds_chunk_digits d then ds_quotient d * 10 ^ ds_chunk_digits d + ds_chunk d else ds_quotient d) = sunk d"
      if "0 < ds_chunk_digits d \<or> ds_chunk d = 0" using that by (auto simp: sunk_def)
    moreover have "0 < ds_chunk_digits d \<or> ds_chunk d = 0"
      using digit_loop_sink [of ?sink count "n mod count * 10" ?p s] loop by simp
    ultimately show ?thesis using ends loop by (auto simp: avg_magnitude_def long_division_def up Let_def)
  qed
qed

lemma half_up:
  fixes x d :: nat
  assumes "0 < d"
  shows "\<bar>of_nat (x div d + (if 5 \<le> x mod d * 10 div d then 1 else 0)) - (of_nat x / of_nat d :: rat)\<bar> \<le> 1 / 2"
    and "x mod d = 0 \<Longrightarrow> of_nat (x div d + (if 5 \<le> x mod d * 10 div d then 1 else 0)) = (of_nat x / of_nat d :: rat)"
proof -
  have five: "5 \<le> x mod d * 10 div d \<longleftrightarrow> d \<le> 2 * (x mod d)"
    using assms by (simp add: less_eq_div_iff_mult_less_eq)
  have "(of_nat x :: rat) = of_nat (x div d) * of_nat d + of_nat (x mod d)"
    by (metis div_mult_mod_eq of_nat_add of_nat_mult)
  then have quot: "of_nat x / of_nat d = of_nat (x div d) + (of_nat (x mod d) / of_nat d :: rat)"
    using assms by (simp add: field_simps)
  show "\<bar>of_nat (x div d + (if 5 \<le> x mod d * 10 div d then 1 else 0)) - (of_nat x / of_nat d :: rat)\<bar> \<le> 1 / 2"
  proof (cases "d \<le> 2 * (x mod d)")
    case True
    have "x mod d < d" using assms by simp
    then have "(of_nat (x mod d) / of_nat d :: rat) \<le> 1" using assms by (simp add: field_simps)
    moreover have "of_nat d \<le> (2 * of_nat (x mod d) :: rat)"
      using True by (metis of_nat_le_iff of_nat_mult of_nat_numeral)
    then have "1 / 2 \<le> (of_nat (x mod d) / of_nat d :: rat)" using assms by (simp add: field_simps)
    ultimately show ?thesis using True unfolding five quot by (simp add: abs_le_iff)
  next
    case False
    then have "(2 * of_nat (x mod d) :: rat) \<le> of_nat d"
      by (metis linorder_not_le nat_less_le of_nat_le_iff of_nat_mult of_nat_numeral)
    then have "(of_nat (x mod d) / of_nat d :: rat) \<le> 1 / 2" using assms by (simp add: field_simps)
    then show ?thesis using False unfolding five quot by simp
  qed
  show "of_nat (x div d + (if 5 \<le> x mod d * 10 div d then 1 else 0)) = (of_nat x / of_nat d :: rat)" if "x mod d = 0"
    using that assms unfolding five quot by simp
qed

lemma dec_digits_mono: "n \<le> m \<Longrightarrow> dec_digits n \<le> dec_digits m"
  using dec_digits_le [of n "dec_digits m"] dec_digits_bound [of m] dec_digits_pos [of m] by simp

lemma dec_digits_lower: "0 < n \<Longrightarrow> 10 ^ (dec_digits n - 1) \<le> n"
proof (induction n rule: dec_digits.induct)
  case (1 n)
  show ?case
  proof (cases "n < 10")
    case True
    then show ?thesis using 1 by (subst dec_digits.simps) simp
  next
    case False
    then have "10 ^ (dec_digits (n div 10) - 1) \<le> n div 10" using 1 by (simp add: div_greater_zero_iff)
    then have "10 ^ (dec_digits (n div 10) - 1) * 10 \<le> n" by linarith
    moreover have "0 < dec_digits (n div 10)" by (rule dec_digits_pos)
    ultimately show ?thesis
      using False by (subst dec_digits.simps) (simp flip: power_Suc2)
  qed
qed

text \<open>What the division returns: exact when the expansion ends within the precision, otherwise within
  half a unit of the hundredth digit.\<close>

lemma long_division_value:
  assumes "0 < num" "0 < count" "count < 2 ^ 64" "long_division num scale count = (q, s)"
  shows "\<exists>m \<le> 120. s = scale + of_nat m \<and>
    (let x = of_nat (num * 10 ^ m) / of_nat count :: rat in
      \<bar>of_nat q - x\<bar> \<le> 1 / 2 \<and> (of_nat q = x \<or> 10 ^ 99 \<le> x))"
    and "count dvd 10 \<Longrightarrow> dec_digits num < 99 \<Longrightarrow> \<exists>m \<le> 120. s = scale + of_nat m \<and> of_nat q = (of_nat (num * 10 ^ m) / of_nat count :: rat)"
proof -
  obtain i where up: "scale_up num count scale = (num * 10 ^ i, scale + of_nat i)"
    and large: "count \<le> num * 10 ^ i" and small: "\<forall>k<i. num * 10 ^ k < count"
    using scale_up_spec [OF assms(1,2)] by blast
  define n where "n = num * 10 ^ i"
  let ?p = "dec_digits (n div count)" and ?P = bigdecimal_div_precision
  have i: "i \<le> 20"
  proof (rule ccontr)
    assume "\<not> i \<le> 20"
    then have "num * 10 ^ 20 < count" using spec [OF small, of 20] by linarith
    then show False using assms(1,3) by simp
  qed
  have lead: "0 < n div count" using large assms(2) by (simp add: n_def div_greater_zero_iff)
  obtain j where j: "long_digits count (n mod count * 10) ?p (scale + of_nat i) (n div count)
        = (n * 10 ^ j mod count * 10, scale + of_nat i + of_nat j, n * 10 ^ j div count)"
      "n * 10 ^ j mod count = 0 \<or> ?P \<le> ?p + j" "\<forall>k<j. n * 10 ^ k mod count \<noteq> 0 \<and> ?p + k < ?P"
    using long_digits_state [OF assms(2), of n 0 ?p "scale + of_nat i", unfolded power_0 mult_1_right add_0]
    by (elim exE conjE) (rule that)
  have j_le: "j \<le> 100" using j(3) by (cases j) (auto simp: bigdecimal_div_precision_def)
  have q: "q = n * 10 ^ j div count + (if 5 \<le> n * 10 ^ j mod count * 10 div count then 1 else 0)"
    and s: "s = scale + of_nat (i + j)"
    using assms(4) up j(1) by (auto simp: long_division_def Let_def n_def [symmetric] split: if_splits)
  have shift: "num * 10 ^ (i + j) = n * 10 ^ j" by (simp add: n_def power_add)
  have wide: "10 ^ 99 \<le> (of_nat (n * 10 ^ j) / of_nat count :: rat)" if "?P \<le> ?p + j"
  proof -
    have "10 ^ (?p - 1 + j) \<le> n div count * 10 ^ j" using dec_digits_lower [OF lead] by (simp add: power_add)
    moreover have "(10 :: nat) ^ 99 \<le> 10 ^ (?p - 1 + j)"
      using that dec_digits_pos [of "n div count"] by (intro power_increasing) (simp_all add: bigdecimal_div_precision_def)
    ultimately have "10 ^ 99 \<le> n div count * 10 ^ j" by (rule order_trans [rotated])
    then have "10 ^ 99 * count \<le> n div count * 10 ^ j * count" by (rule mult_le_mono1)
    also have "n div count * 10 ^ j * count = n div count * count * 10 ^ j" by (simp only: ac_simps)
    also have "\<dots> \<le> n * 10 ^ j" by (intro mult_le_mono1) simp
    finally have "of_nat (10 ^ 99 * count) \<le> (of_nat (n * 10 ^ j) :: rat)" by (simp only: of_nat_le_iff)
    then show ?thesis using assms(2) by (simp add: field_simps)
  qed
  show "\<exists>m \<le> 120. s = scale + of_nat m \<and>
    (let x = of_nat (num * 10 ^ m) / of_nat count :: rat in
      \<bar>of_nat q - x\<bar> \<le> 1 / 2 \<and> (of_nat q = x \<or> 10 ^ 99 \<le> x))"
    using half_up [OF assms(2), of "n * 10 ^ j"] j(2) wide i j_le
    by (intro exI [of _ "i + j"]) (auto simp: s q shift Let_def)
  assume ten: "count dvd 10" and digits: "dec_digits num < 99"
  have rem1: "n * 10 ^ 1 mod count = 0" using ten by (simp add: dvd_eq_mod_eq_0 [symmetric])
  have "j \<le> 1" using j(3) rem1 by (metis linorder_not_le)
  moreover have "?p + 1 < ?P"
  proof -
    have "n div count \<le> num \<or> n div count < 10"
    proof (cases i)
      case 0
      then show ?thesis by (simp add: n_def)
    next
      case (Suc k)
      then have "num * 10 ^ k < count" using small by simp
      then have "n < 10 * count" by (simp add: n_def Suc)
      then show ?thesis using assms(2) by (simp add: div_less_iff_less_mult)
    qed
    then have "?p \<le> max 1 (dec_digits num)"
      using dec_digits_mono [of "n div count" num] by (auto simp: dec_digits.simps [of "n div count"])
    then show ?thesis using digits by (simp add: bigdecimal_div_precision_def)
  qed
  ultimately have "n * 10 ^ j mod count = 0" using j(2) rem1 by (cases "j = 1") auto
  then show "\<exists>m \<le> 120. s = scale + of_nat m \<and> of_nat q = (of_nat (num * 10 ^ m) / of_nat count :: rat)"
    using half_up(2) [OF assms(2), of "n * 10 ^ j"] i j_le by (intro exI [of _ "i + j"]) (simp add: s q shift)
qed

lemma sint_scale_plus:
  assumes "\<bar>sint (scale :: i64)\<bar> < 2 ^ 62" "m \<le> 120"
  shows "sint (scale + of_nat m) = sint scale + int m"
proof -
  have "scale + of_nat m = word_of_int (sint scale + int m)" by simp
  also have "sint \<dots> = sint scale + int m" using assms by (intro sint_word_of_int_id) auto
  finally show ?thesis .
qed

lemma wide_half:
  fixes d y c :: rat
  assumes "\<bar>d\<bar> \<le> 1 / 2" "10 ^ 99 \<le> y"
  shows "\<bar>d\<bar> \<le> y / 10 ^ 99"
proof -
  have "1 \<le> y / 10 ^ 99" using assms(2) by (simp add: le_divide_eq_1_pos)
  then show ?thesis using assms(1) by linarith
qed

lemma scaled_error:
  fixes q y p d :: rat
  assumes "\<bar>q - y\<bar> \<le> y / d" "0 < p"
  shows "\<bar>q * p - y * p\<bar> \<le> y * p / d"
proof -
  have "\<bar>q - y\<bar> * p \<le> y / d * p" using assms by (intro mult_right_mono) simp_all
  then show ?thesis using assms(2) by (simp add: abs_mult flip: left_diff_distrib)
qed

lemma signed_error:
  fixes g v w d :: rat
  assumes "\<bar>v - w\<bar> \<le> w / d" "\<bar>g\<bar> = 1" "0 \<le> w"
  shows "\<bar>g * v - g * w\<bar> \<le> \<bar>g * w\<bar> / d"
proof -
  have "\<bar>g * v - g * w\<bar> = \<bar>v - w\<bar>" using assms(2) by (simp add: abs_mult flip: right_diff_distrib)
  moreover have "\<bar>g * w\<bar> = w" using assms(2,3) by (simp add: abs_mult)
  ultimately show ?thesis using assms(1) by simp
qed

lemma powi_shift: "10 powi (- s) = 10 ^ m * (10 powi (- (s + int m)) :: rat)"
proof -
  have "(10 powi (- s) :: rat) = 10 powi (int m + - (s + int m))" by simp
  also have "\<dots> = 10 powi int m * 10 powi (- (s + int m))" by (rule power_int_add) simp
  finally show ?thesis by simp
qed

lemma powi_scale:
  assumes "(of_nat q :: rat) = of_nat (num * 10 ^ m) / of_nat count"
  shows "of_nat q * 10 powi (- (s + int m)) = (of_nat num / of_nat count * 10 powi (- s) :: rat)"
  using assms by (simp add: powi_shift [of s m])

lemma val_of_parts:
  assumes "sum_laws D S val"
  shows "val (d_new D m s) = of_int m * 10 powi (- sint s)"
  by (rule sum_lawsD(2) [OF assms sum_lawsD(1) [OF assms]])

lemma val_so_neg:
  assumes "sum_laws D S val"
  shows "val (so_neg S x) = - val x"
proof -
  obtain m s where x: "d_parts D x = (m, s)" by fastforce
  show ?thesis using sum_lawsD(2) [OF assms x] sum_lawsD(2) [OF assms sum_lawsD(6) [OF assms x]] by simp
qed

text \<open>An average is the exact quotient, or is within half a unit of its hundredth digit, and a half is exact.\<close>

lemma avg_like_value:
  fixes acc :: int
  assumes "sum_laws D S val" "0 < count" "count < 2 ^ 64" "\<bar>sint scale\<bar> < 2 ^ 62"
  defines "x \<equiv> of_int acc / of_nat count * 10 powi (- sint scale)"
  shows "\<bar>val (avg_like_bigdecimal D S acc scale count) - x\<bar> \<le> \<bar>x\<bar> / 10 ^ 99"
    and "count dvd 10 \<Longrightarrow> \<bar>acc\<bar> < 10 ^ 98 \<Longrightarrow> val (avg_like_bigdecimal D S acc scale count) = x"
proof -
  note new = val_of_parts [OF assms(1)]
  have trivial: "val (avg_like_bigdecimal D S acc scale count) = x" if "acc = 0 \<or> count = 1 \<or> acc = int count"
    using that assms(2) by (auto simp: avg_like_bigdecimal_def x_def new)
  have signed: "val (avg_like_bigdecimal D S acc scale count) = of_int (sgn acc) * (of_nat q * 10 powi (- sint t))"
    if "\<not> (acc = 0 \<or> count = 1 \<or> acc = int count)" "avg_magnitude (nat \<bar>acc\<bar>) scale count = (q, t)" for q t
    using that by (auto simp: avg_like_bigdecimal_def new val_so_neg [OF assms(1)] Let_def)
  have x: "x = of_int (sgn acc) * (of_nat (nat \<bar>acc\<bar>) / of_nat count * 10 powi (- sint scale))"
  proof -
    have "(of_int acc :: rat) = of_int (sgn acc) * of_int \<bar>acc\<bar>" by (metis mult_sgn_abs of_int_mult)
    then show ?thesis by (simp add: x_def)
  qed
  show "\<bar>val (avg_like_bigdecimal D S acc scale count) - x\<bar> \<le> \<bar>x\<bar> / 10 ^ 99"
  proof (cases "acc = 0 \<or> count = 1 \<or> acc = int count")
    case True
    then show ?thesis using trivial by simp
  next
    case False
    obtain q t where qt: "avg_magnitude (nat \<bar>acc\<bar>) scale count = (q, t)" by fastforce
    have pos: "0 < nat \<bar>acc\<bar>" using False by simp
    let ?p = "10 powi (- sint scale) :: rat"
    have ld: "long_division (nat \<bar>acc\<bar>) scale count = (q, t)"
      using qt unfolding avg_is_long_division [OF pos assms(2)] .
    obtain m where m: "m \<le> 120" "t = scale + of_nat m"
      "\<bar>of_nat q - of_nat (nat \<bar>acc\<bar> * 10 ^ m) / of_nat count\<bar> \<le> (1 / 2 :: rat)"
      "of_nat q = (of_nat (nat \<bar>acc\<bar> * 10 ^ m) / of_nat count :: rat) \<or> 10 ^ 99 \<le> (of_nat (nat \<bar>acc\<bar> * 10 ^ m) / of_nat count :: rat)"
      using long_division_value(1) [OF pos assms(2,3) ld] unfolding Let_def by (elim exE conjE) (rule that)
    let ?y = "of_nat (nat \<bar>acc\<bar> * 10 ^ m) / of_nat count :: rat"
    have t: "sint t = sint scale + int m" using sint_scale_plus [OF assms(4) m(1)] m(2) by simp
    have y: "of_nat (nat \<bar>acc\<bar>) / of_nat count * ?p = ?y * 10 powi (- sint t)"
      by (simp add: t powi_shift [of "sint scale" m])
    have "\<bar>of_nat q - ?y\<bar> \<le> ?y / 10 ^ 99"
      using m(3,4)
    proof (elim disjE)
      assume "10 ^ 99 \<le> ?y"
      then show ?thesis using wide_half [OF m(3)] by blast
    qed simp
    then have "\<bar>of_nat q * 10 powi (- sint t) - ?y * 10 powi (- sint t)\<bar> \<le> ?y * 10 powi (- sint t) / 10 ^ 99"
      by (rule scaled_error) simp
    moreover have "\<bar>of_int (sgn acc) :: rat\<bar> = 1" "0 \<le> ?y * 10 powi (- sint t)" using False by (simp_all add: sgn_if)
    ultimately show ?thesis unfolding signed [OF False qt] x y by (intro signed_error)
  qed
  assume ten: "count dvd 10" and small: "\<bar>acc\<bar> < 10 ^ 98"
  show "val (avg_like_bigdecimal D S acc scale count) = x"
  proof (cases "acc = 0 \<or> count = 1 \<or> acc = int count")
    case True
    then show ?thesis using trivial by simp
  next
    case False
    obtain q t where qt: "avg_magnitude (nat \<bar>acc\<bar>) scale count = (q, t)" by fastforce
    have pos: "0 < nat \<bar>acc\<bar>" using False by simp
    have "nat \<bar>acc\<bar> < 10 ^ 98" using small by (simp add: nat_less_iff)
    then have "dec_digits (nat \<bar>acc\<bar>) < 99" using dec_digits_le [of "nat \<bar>acc\<bar>" 98] by simp
    note digits = this
    have ld: "long_division (nat \<bar>acc\<bar>) scale count = (q, t)"
      using qt unfolding avg_is_long_division [OF pos assms(2)] .
    obtain m where m: "m \<le> 120" "t = scale + of_nat m" "of_nat q = (of_nat (nat \<bar>acc\<bar> * 10 ^ m) / of_nat count :: rat)"
      using long_division_value(2) [OF pos assms(2,3) ld ten digits] by (elim exE conjE) (rule that)
    have t: "sint t = sint scale + int m" using sint_scale_plus [OF assms(4) m(1)] m(2) by simp
    show ?thesis unfolding signed [OF False qt] x t powi_scale [OF m(3)] ..
  qed
qed

end
