(* ===== verification/Weighted_Average.thy ===== *)
theory Weighted_Average imports Scaled_Arith begin

text \<open>
  Time-weighted averages: \<^verbatim>\<open>time_weighted_average\<close> and \<^verbatim>\<open>twa_decimal\<close> of \<^verbatim>\<open>weft-reduce/src/lib.rs\<close>,
  \<^verbatim>\<open>twa_scaled\<close> of \<^verbatim>\<open>weft-reduce/src/scaled.rs\<close>. Both are shown to divide the area under the
  samples, a rational number, by the time it covers.
\<close>

subsection \<open>On integers\<close>

definition scale_up_by :: "int \<Rightarrow> int \<Rightarrow> int option" where
  "scale_up_by x by_digits =
    (if 0 \<le> by_digits \<and> by_digits < 2 ^ 32
     then do { p \<leftarrow> checked_i128 (10 ^ nat by_digits); checked_i128 (x * p) } else None)"

definition add_term :: "int \<times> int \<Rightarrow> int \<times> int \<Rightarrow> (int \<times> int) option" where
  "add_term weighted new_term =
    (let (w, ws) = weighted; (n, scale) = new_term
     in if n = 0 then Some (w, ws)
        else if w = 0 then Some (n, scale)
        else if ws < scale then do { u \<leftarrow> scale_up_by w (scale - ws); x \<leftarrow> checked_i128 (u + n); Some (x, scale) }
        else if scale < ws then do { u \<leftarrow> scale_up_by n (ws - scale); x \<leftarrow> checked_i128 (w + u); Some (x, ws) }
        else do { x \<leftarrow> checked_i128 (w + n); Some (x, scale) })"

definition nanos_per_milli :: int where "nanos_per_milli = 1000000"

definition clamp_scale :: "int \<Rightarrow> int" where
  "clamp_scale x = max 0 (min x 15)"

definition endpoint_sum :: "int \<Rightarrow> int \<Rightarrow> int \<Rightarrow> int \<Rightarrow> (int \<times> int) option" where
  "endpoint_sum ma sa mb sb =
    (if mb = 0 then do { u \<leftarrow> scale_up_by ma (clamp_scale (sb - sa)); Some (u, sa + clamp_scale (sb - sa)) }
     else if ma = 0 then do { u \<leftarrow> scale_up_by mb (clamp_scale (sa - sb)); Some (u, sb + clamp_scale (sa - sb)) }
     else if sb \<le> sa then do { u \<leftarrow> scale_up_by mb (sa - sb); x \<leftarrow> checked_i128 (ma + u); Some (x, sa) }
     else do { u \<leftarrow> scale_up_by ma (sb - sa); x \<leftarrow> checked_i128 (u + mb); Some (x, sb) })"

definition interval_value ::
    "'d decimal_ops \<Rightarrow> 'd sum_ops \<Rightarrow> bool \<Rightarrow> int \<Rightarrow> int \<Rightarrow> int \<Rightarrow> int \<Rightarrow> (int \<times> int) option" where
  "interval_value D S trapezoid ma sa mb sb =
    (if trapezoid then do {
       (total, scale) \<leftarrow> endpoint_sum ma sa mb sb;
       let (digits, scale) = d_parts D (avg_like_bigdecimal D S total (word_of_int scale) 2);
       m \<leftarrow> checked_i128 digits;
       Some (m, sint scale)
     } else Some (ma, sa))"

definition twa_step ::
    "'d decimal_ops \<Rightarrow> 'd sum_ops \<Rightarrow> bool \<Rightarrow> int \<Rightarrow> int \<times> int \<Rightarrow> int \<times> int \<Rightarrow> (int \<times> int) \<times> int \<Rightarrow> ((int \<times> int) \<times> int) option" where
  "twa_step D S trapezoid dt a b state =
    (if 0 < dt then do {
       (m, s) \<leftarrow> interval_value D S trapezoid (fst a) (snd a) (fst b) (snd b);
       (if 19 < s then None else do {
         new_term \<leftarrow> (if scale_up_by 1 s = Some m then Some (dt, 0) else do { p \<leftarrow> checked_i128 (m * dt); Some (p, s) });
         weighted \<leftarrow> add_term (fst state) new_term;
         total_ms \<leftarrow> checked_i64 (snd state + dt);
         Some (weighted, total_ms)
       })
     } else Some state)"

fun twa_intervals ::
    "'d decimal_ops \<Rightarrow> 'd sum_ops \<Rightarrow> bool \<Rightarrow> (int \<times> int \<times> int) list \<Rightarrow> (int \<times> int) \<times> int \<Rightarrow> ((int \<times> int) \<times> int) option" where
  "twa_intervals D S trapezoid ((ta, a) # (tb, b) # rest) state =
    do {
      d \<leftarrow> checked_i64 (tb - ta);
      state \<leftarrow> twa_step D S trapezoid (max 0 (d sdiv nanos_per_milli)) a b state;
      twa_intervals D S trapezoid ((tb, b) # rest) state
    }"
| "twa_intervals D S trapezoid _ state = Some state"

definition lift_sample :: "'d decimal_ops \<Rightarrow> int \<times> 'd \<Rightarrow> (int \<times> int \<times> int) option" where
  "lift_sample D sample =
    (let (digits, scale) = d_parts D (snd sample)
     in if \<not> (0 \<le> sint scale \<and> sint scale \<le> 17) then None
        else do { t \<leftarrow> timestamp_nanos_opt (fst sample); m \<leftarrow> checked_i64 digits; Some (t, m, sint scale) })"

definition twa_bucket_end :: "int option \<Rightarrow> (int \<times> int \<times> int) list \<Rightarrow> ((int \<times> int) \<times> int) option" where
  "twa_bucket_end bucket_end lifted =
    (case bucket_end of
       None \<Rightarrow> Some ((0, 0), 0)
     | Some end_ts \<Rightarrow>
         if lifted = [] then Some ((0, 0), 0)
         else let (last_t, last_m, last_s) = last lifted in do {
           e \<leftarrow> timestamp_nanos_opt end_ts;
           d \<leftarrow> checked_i64 (e - last_t);
           let dt = max 0 (d sdiv nanos_per_milli);
           (if 0 < dt then do {
             p \<leftarrow> checked_i128 (last_m * dt);
             weighted \<leftarrow> add_term (0, 0) (p, last_s);
             total_ms \<leftarrow> checked_i64 (0 + dt);
             Some (weighted, total_ms)
           } else Some ((0, 0), 0))
         })"

definition twa_scaled ::
    "'d decimal_ops \<Rightarrow> 'd sum_ops \<Rightarrow> (int \<times> 'd) list \<Rightarrow> bool \<Rightarrow> int option \<Rightarrow> 'd option" where
  "twa_scaled D S samples trapezoid bucket_end =
    (if length samples < 2 \<and> bucket_end = None then None
     else do {
       lifted \<leftarrow> those (map (lift_sample D) samples);
       let lifted = sort_key fst lifted;
       state \<leftarrow> twa_bucket_end bucket_end lifted;
       (weighted, total_ms) \<leftarrow> twa_intervals D S trapezoid lifted state;
       (if 0 < total_ms then Some (avg_like_bigdecimal D S (fst weighted) (word_of_int (snd weighted)) (nat total_ms)) else None)
     })"

subsection \<open>On decimals\<close>

definition d_of_int :: "'d decimal_ops \<Rightarrow> int \<Rightarrow> 'd" where
  "d_of_int D n = d_new D n 0"

definition num_milliseconds :: "int \<Rightarrow> int" where
  "num_milliseconds d = d sdiv nanos_per_milli"

fun decimal_intervals :: "'d decimal_ops \<Rightarrow> 'd sum_ops \<Rightarrow> bool \<Rightarrow> (int \<times> 'd) list \<Rightarrow> 'd \<times> int \<Rightarrow> 'd \<times> int" where
  "decimal_intervals D S trapezoid ((ta, va) # (tb, vb) # rest) (weighted, total_ms) =
    (let dt = max 0 (num_milliseconds (tb - ta))
     in decimal_intervals D S trapezoid ((tb, vb) # rest)
          (if 0 < dt then
             (so_add S weighted (d_mul D (if trapezoid then so_div S (so_add S va vb) (d_of_int D 2) else va) (d_of_int D dt)),
              total_ms + dt)
           else (weighted, total_ms)))"
| "decimal_intervals D S trapezoid _ state = state"

definition decimal_bucket_end :: "'d decimal_ops \<Rightarrow> 'd sum_ops \<Rightarrow> int option \<Rightarrow> (int \<times> 'd) list \<Rightarrow> 'd \<times> int" where
  "decimal_bucket_end D S bucket_end ordered =
    (case bucket_end of
       None \<Rightarrow> (d_of_int D 0, 0)
     | Some end_ts \<Rightarrow>
         if ordered = [] then (d_of_int D 0, 0)
         else let (last_t, last_v) = last ordered; dt = max 0 (num_milliseconds (end_ts - last_t))
              in if 0 < dt then (so_add S (d_of_int D 0) (d_mul D last_v (d_of_int D dt)), 0 + dt) else (d_of_int D 0, 0))"

definition twa_decimal_sums :: "'d decimal_ops \<Rightarrow> 'd sum_ops \<Rightarrow> (int \<times> 'd) list \<Rightarrow> bool \<Rightarrow> int option \<Rightarrow> 'd \<times> int" where
  "twa_decimal_sums D S samples trapezoid bucket_end =
    (let ordered = sort_key fst samples in decimal_intervals D S trapezoid ordered (decimal_bucket_end D S bucket_end ordered))"

definition twa_decimal :: "'d decimal_ops \<Rightarrow> 'd sum_ops \<Rightarrow> (int \<times> 'd) list \<Rightarrow> bool \<Rightarrow> int option \<Rightarrow> 'd" where
  "twa_decimal D S samples trapezoid bucket_end =
    (let (weighted, total_ms) = twa_decimal_sums D S samples trapezoid bucket_end
     in if total_ms = 0
        then so_div S (foldl (so_add S) (d_of_int D 0) (map snd samples)) (d_of_int D (int (length samples)))
        else so_div S weighted (d_of_int D total_ms))"

definition time_weighted_average ::
    "'d decimal_ops \<Rightarrow> 'd sum_ops \<Rightarrow> (int \<times> 'd) list \<Rightarrow> bool \<Rightarrow> int option \<Rightarrow> 'd option" where
  "time_weighted_average D S samples trapezoid bucket_end =
    (if samples = [] then None
     else if length samples = 1 \<and> bucket_end = None then Some (snd (samples ! 0))
     else case twa_scaled D S samples trapezoid bucket_end of
            Some r \<Rightarrow> Some r
          | None \<Rightarrow> Some (twa_decimal D S samples trapezoid bucket_end))"

subsection \<open>The area and the time it covers\<close>

definition dwell :: "int \<Rightarrow> int \<Rightarrow> int" where
  "dwell a b = max 0 ((b - a) sdiv nanos_per_milli)"

fun area :: "bool \<Rightarrow> (int \<times> rat) list \<Rightarrow> rat" where
  "area trapezoid ((a, v) # (b, w) # rest) =
    of_int (dwell a b) * (if trapezoid then (v + w) / 2 else v) + area trapezoid ((b, w) # rest)"
| "area trapezoid _ = 0"

fun dwell_span :: "(int \<times> rat) list \<Rightarrow> int" where
  "dwell_span ((a, v) # (b, w) # rest) = dwell a b + dwell_span ((b, w) # rest)"
| "dwell_span _ = 0"

text \<open>With a bucket end, the last sample holds until it.\<close>

definition whole_area :: "bool \<Rightarrow> int option \<Rightarrow> (int \<times> rat) list \<Rightarrow> rat" where
  "whole_area trapezoid bucket_end xs = area trapezoid xs +
    (case bucket_end of Some e \<Rightarrow> if xs = [] then 0 else of_int (dwell (fst (last xs)) e) * snd (last xs) | None \<Rightarrow> 0)"

definition whole_span :: "int option \<Rightarrow> (int \<times> rat) list \<Rightarrow> int" where
  "whole_span bucket_end xs = dwell_span xs +
    (case bucket_end of Some e \<Rightarrow> if xs = [] then 0 else dwell (fst (last xs)) e | None \<Rightarrow> 0)"

definition in_time_order :: "('d \<Rightarrow> rat) \<Rightarrow> (int \<times> 'd) list \<Rightarrow> (int \<times> rat) list" where
  "in_time_order val samples = map (\<lambda>(t, v). (t, val v)) (sort_key fst samples)"

subsection \<open>The decimal path\<close>

lemma val_d_of_int:
  assumes "sum_laws D S val"
  shows "val (d_of_int D n) = of_int n" "val (d_mul D x (d_of_int D n)) = val x * of_int n"
    "short_decimal D x \<Longrightarrow> val (so_div S x (d_of_int D 2)) = val x / 2"
  using sum_lawsD(3) [OF assms sum_lawsD(1) [OF assms]] sum_lawsD(7) [OF assms]
  by (simp_all add: d_of_int_def val_of_parts [OF assms])

text \<open>The halves of the trapezoids are exact when the sums of two samples are short.\<close>

definition short_sums :: "'d decimal_ops \<Rightarrow> 'd sum_ops \<Rightarrow> (int \<times> 'd) list \<Rightarrow> bool" where
  "short_sums D S samples \<longleftrightarrow> (\<forall>x\<in>set samples. \<forall>y\<in>set samples. short_decimal D (so_add S (snd x) (snd y)))"

lemma decimal_intervals_area:
  assumes "sum_laws D S val" "trapezoid \<longrightarrow> short_sums D S xs"
  shows "val (fst (decimal_intervals D S trapezoid xs st)) = val (fst st) + area trapezoid (map (\<lambda>(t, v). (t, val v)) xs) \<and>
    snd (decimal_intervals D S trapezoid xs st) = snd st + dwell_span (map (\<lambda>(t, v). (t, val v)) xs)"
  using assms(2)
proof (induction xs arbitrary: st rule: induct_list012)
  case (3 x y zs)
  have "trapezoid \<longrightarrow> short_sums D S (y # zs) \<and> short_decimal D (so_add S (snd x) (snd y))"
    using 3(3) by (simp add: short_sums_def)
  with 3(2) show ?case
    by (cases x; cases y; cases st)
      (auto simp: Let_def dwell_def num_milliseconds_def val_d_of_int [OF assms(1)] sum_lawsD(5) [OF assms(1)] algebra_simps)
qed auto

lemma twa_decimal_sums_value:
  assumes "sum_laws D S val" "trapezoid \<longrightarrow> short_sums D S samples"
  shows "val (fst (twa_decimal_sums D S samples trapezoid bucket_end)) = whole_area trapezoid bucket_end (in_time_order val samples)"
    and "snd (twa_decimal_sums D S samples trapezoid bucket_end) = whole_span bucket_end (in_time_order val samples)"
proof -
  let ?xs = "sort_key fst samples"
  have short: "trapezoid \<longrightarrow> short_sums D S ?xs" using assms(2) by (simp add: short_sums_def)
  have "val (fst (decimal_bucket_end D S bucket_end ?xs)) =
      (case bucket_end of Some e \<Rightarrow> if ?xs = [] then 0 else of_int (dwell (fst (last ?xs)) e) * val (snd (last ?xs)) | None \<Rightarrow> 0)"
    "snd (decimal_bucket_end D S bucket_end ?xs) =
      (case bucket_end of Some e \<Rightarrow> if ?xs = [] then 0 else dwell (fst (last ?xs)) e | None \<Rightarrow> 0)"
    by (auto simp: decimal_bucket_end_def Let_def dwell_def num_milliseconds_def val_d_of_int [OF assms(1)]
        sum_lawsD(5) [OF assms(1)] split: option.splits prod.splits)
  then show "val (fst (twa_decimal_sums D S samples trapezoid bucket_end)) = whole_area trapezoid bucket_end (in_time_order val samples)"
    "snd (twa_decimal_sums D S samples trapezoid bucket_end) = whole_span bucket_end (in_time_order val samples)"
    using decimal_intervals_area [OF assms(1) short, of "decimal_bucket_end D S bucket_end ?xs"]
    by (auto simp: twa_decimal_sums_def Let_def whole_area_def whole_span_def in_time_order_def last_map case_prod_beta split: option.splits)
qed

subsection \<open>The integer path\<close>

definition ratio :: "int \<times> int \<Rightarrow> rat" where
  "ratio x = of_int (fst x) * 10 powi (- snd x)"

lemma checked_i128_Some [simp]: "checked_i128 x = Some y \<longleftrightarrow> y = x \<and> - (2 ^ 127) \<le> x \<and> x < 2 ^ 127"
  by (auto simp: checked_i128_def)

lemma checked_i64_Some: "checked_i64 x = Some y \<longleftrightarrow> y = x \<and> fits_i64 x"
  by (auto simp: checked_i64_def)

lemma scale_up_by_Some:
  assumes "scale_up_by x k = Some y"
  shows "0 \<le> k" "y = x * 10 ^ nat k" "\<bar>y\<bar> < 2 ^ 128" "ratio (y, s + k) = ratio (x, s)"
proof -
  show k: "0 \<le> k" and y: "y = x * 10 ^ nat k"
    using assms by (auto simp: scale_up_by_def split: if_splits bind_splits)
  show "\<bar>y\<bar> < 2 ^ 128" using assms by (auto simp: scale_up_by_def split: if_splits bind_splits)
  show "ratio (y, s + k) = ratio (x, s)"
    using powi_shift [of s "nat k"] k by (simp add: ratio_def y)
qed

lemma ratio_add: "ratio (a + b, s) = ratio (a, s) + ratio (b, s)"
  by (simp add: ratio_def algebra_simps)

lemma ratio_zero [simp]: "ratio (0, s) = 0"
  by (simp add: ratio_def)

lemma add_term_value:
  assumes "add_term w x = Some y"
  shows "ratio y = ratio w + ratio x" "snd y = snd w \<or> snd y = snd x"
proof -
  obtain a s b t where wx: "w = (a, s)" "x = (b, t)" by (cases w; cases x)
  consider "b = 0" "y = (a, s)" | "b \<noteq> 0" "a = 0" "y = (b, t)"
    | u where "s < t" "scale_up_by a (t - s) = Some u" "y = (u + b, t)"
    | u where "t < s" "scale_up_by b (s - t) = Some u" "y = (a + u, s)"
    | "s = t" "y = (a + b, t)"
    using assms by (auto simp: add_term_def wx split: if_splits bind_splits)
  then show "ratio y = ratio w + ratio x" "snd y = snd w \<or> snd y = snd x"
  proof (atomize (full), cases)
    case (3 u)
    then show "ratio y = ratio w + ratio x \<and> (snd y = snd w \<or> snd y = snd x)"
      using scale_up_by_Some(4) [of a "t - s" u s] by (simp add: wx ratio_add)
  next
    case (4 u)
    then show "ratio y = ratio w + ratio x \<and> (snd y = snd w \<or> snd y = snd x)"
      using scale_up_by_Some(4) [of b "s - t" u t] by (simp add: wx ratio_add)
  qed (simp_all add: wx ratio_add)
qed

lemma endpoint_sum_value:
  assumes "endpoint_sum ma sa mb sb = Some y" "\<bar>ma\<bar> < 2 ^ 64" "\<bar>mb\<bar> < 2 ^ 64"
  shows "ratio y = ratio (ma, sa) + ratio (mb, sb)" "\<bar>fst y\<bar> < 2 ^ 128" "snd y \<le> max sa sb + 15" "min sa sb \<le> snd y"
proof -
  consider u where "mb = 0" "scale_up_by ma (clamp_scale (sb - sa)) = Some u" "y = (u, sa + clamp_scale (sb - sa))"
    | u where "mb \<noteq> 0" "ma = 0" "scale_up_by mb (clamp_scale (sa - sb)) = Some u" "y = (u, sb + clamp_scale (sa - sb))"
    | u where "sb \<le> sa" "scale_up_by mb (sa - sb) = Some u" "y = (ma + u, sa)" "\<bar>ma + u\<bar> < 2 ^ 128"
    | u where "sa < sb" "scale_up_by ma (sb - sa) = Some u" "y = (u + mb, sb)" "\<bar>u + mb\<bar> < 2 ^ 128"
    using assms(1) by (auto simp: endpoint_sum_def split: if_splits bind_splits)
  then have "ratio y = ratio (ma, sa) + ratio (mb, sb) \<and> \<bar>fst y\<bar> < 2 ^ 128 \<and> snd y \<le> max sa sb + 15 \<and> min sa sb \<le> snd y"
  proof cases
    case (1 u)
    then show ?thesis using scale_up_by_Some(3) [OF 1(2)] scale_up_by_Some(4) [OF 1(2), of sa] by (auto simp: clamp_scale_def)
  next
    case (2 u)
    then show ?thesis using scale_up_by_Some(3) [OF 2(3)] scale_up_by_Some(4) [OF 2(3), of sb] by (auto simp: clamp_scale_def)
  next
    case (3 u)
    then show ?thesis using scale_up_by_Some(4) [OF 3(2), of sb] by (auto simp: ratio_add)
  next
    case (4 u)
    then show ?thesis using scale_up_by_Some(4) [OF 4(2), of sa] by (auto simp: ratio_add)
  qed
  then show "ratio y = ratio (ma, sa) + ratio (mb, sb)" "\<bar>fst y\<bar> < 2 ^ 128" "snd y \<le> max sa sb + 15" "min sa sb \<le> snd y" by blast+
qed

text \<open>An average's scale is the operand's plus the digits after the point.\<close>

lemma avg_like_scale:
  assumes "sum_laws D S val" "0 < count" "count < 2 ^ 64" "0 \<le> sint scale" "sint scale < 2 ^ 62"
    "d_parts D (avg_like_bigdecimal D S acc scale count) = (m, t)"
  shows "0 \<le> sint t"
proof (cases "acc = 0 \<or> count = 1 \<or> acc = int count")
  case True
  then show ?thesis using assms(4,6) sum_lawsD(1) [OF assms(1)] by (auto simp: avg_like_bigdecimal_def split: if_splits)
next
  case False
  obtain q u where qu: "avg_magnitude (nat \<bar>acc\<bar>) scale count = (q, u)" by fastforce
  have pos: "0 < nat \<bar>acc\<bar>" using False by simp
  have ld: "long_division (nat \<bar>acc\<bar>) scale count = (q, u)"
    using qu unfolding avg_is_long_division [OF pos assms(2)] .
  obtain k where "k \<le> 120" "u = scale + of_nat k"
    using long_division_value(1) [OF pos assms(2,3) ld] by blast
  then have "0 \<le> sint u" using sint_scale_plus [of scale k] assms(4,5) by simp
  moreover have "t = u"
    using assms(6) False qu sum_lawsD(1) [OF assms(1)] sum_lawsD(6) [OF assms(1) sum_lawsD(1) [OF assms(1)]]
    by (auto simp: avg_like_bigdecimal_def Let_def split: if_splits)
  ultimately show ?thesis by simp
qed

definition scale_ok :: "int \<Rightarrow> bool" where
  "scale_ok s \<longleftrightarrow> 0 \<le> s \<and> s \<le> 19"

definition lifted_ok :: "int \<times> int \<times> int \<Rightarrow> bool" where
  "lifted_ok x \<longleftrightarrow> fits_i64 (fst (snd x)) \<and> 0 \<le> snd (snd x) \<and> snd (snd x) \<le> 17"

lemma interval_value_ratio:
  assumes "sum_laws D S val" "lifted_ok (ta, ma, sa)" "lifted_ok (tb, mb, sb)"
    "interval_value D S trapezoid ma sa mb sb = Some y"
  shows "ratio y = (if trapezoid then (ratio (ma, sa) + ratio (mb, sb)) / 2 else ratio (ma, sa))" "0 \<le> snd y"
proof -
  have "ratio y = (if trapezoid then (ratio (ma, sa) + ratio (mb, sb)) / 2 else ratio (ma, sa)) \<and> 0 \<le> snd y"
  proof (cases trapezoid)
    case False
    then show ?thesis using assms(2,4) by (auto simp: interval_value_def lifted_ok_def)
  next
    case True
    obtain t s m u where es: "endpoint_sum ma sa mb sb = Some (t, s)"
      and parts: "d_parts D (avg_like_bigdecimal D S t (word_of_int s) 2) = (m, u)" and y: "y = (m, sint u)"
      using assms(4) True by (auto simp: interval_value_def Let_def split: bind_splits prod.splits)
    have b: "\<bar>ma\<bar> < 2 ^ 64" "\<bar>mb\<bar> < 2 ^ 64" using assms(2,3) by (auto simp: lifted_ok_def fits_i64_def)
    note e = endpoint_sum_value [OF es b]
    have "0 \<le> s" "s \<le> 32" using e(3,4) assms(2,3) by (auto simp: lifted_ok_def)
    then have s: "sint (word_of_int s :: i64) = s" by (intro sint_word_of_int_id) auto
    have "\<bar>t\<bar> < 10 ^ 98" using e(2) by simp
    moreover have "\<bar>sint (word_of_int s :: i64)\<bar> < 2 ^ 62" using \<open>0 \<le> s\<close> \<open>s \<le> 32\<close> by (simp add: s)
    ultimately have "val (avg_like_bigdecimal D S t (word_of_int s) 2) = ratio (t, s) / 2"
      using avg_like_value(2) [OF assms(1), of 2 "word_of_int s" t] by (simp add: s ratio_def)
    moreover have "val (avg_like_bigdecimal D S t (word_of_int s) 2) = ratio y"
      using sum_lawsD(2) [OF assms(1) parts] by (simp add: y ratio_def)
    moreover have "0 \<le> sint u"
      using avg_like_scale [OF assms(1) _ _ _ _ parts] \<open>0 \<le> s\<close> \<open>s \<le> 32\<close> s by simp
    ultimately show ?thesis using e(1) True by (simp add: y)
  qed
  then show "ratio y = (if trapezoid then (ratio (ma, sa) + ratio (mb, sb)) / 2 else ratio (ma, sa))" "0 \<le> snd y" by blast+
qed

lemma interval_term:
  assumes "0 \<le> s" "(if scale_up_by 1 s = Some m then Some (dt, 0) else do { p \<leftarrow> checked_i128 (m * dt); Some (p, s) }) = Some x"
  shows "ratio x = of_int dt * ratio (m, s)" "snd x = 0 \<or> snd x = s"
proof -
  have "ratio x = of_int dt * ratio (m, s) \<and> (snd x = 0 \<or> snd x = s)"
  proof (cases "scale_up_by 1 s = Some m")
    case True
    then show ?thesis using assms scale_up_by_Some(4) [OF True, of 0] by (auto simp: ratio_def)
  next
    case False
    then show ?thesis using assms by (auto simp: ratio_def split: bind_splits)
  qed
  then show "ratio x = of_int dt * ratio (m, s)" "snd x = 0 \<or> snd x = s" by blast+
qed

definition rated :: "(int \<times> int \<times> int) list \<Rightarrow> (int \<times> rat) list" where
  "rated xs = map (\<lambda>(t, m, s). (t, ratio (m, s))) xs"

lemma twa_intervals_area:
  assumes "sum_laws D S val" "list_all lifted_ok xs" "twa_intervals D S trapezoid xs (w, n) = Some (w', n')" "scale_ok (snd w)" "fits_i64 n"
  shows "ratio w' = ratio w + area trapezoid (rated xs) \<and> n' = n + dwell_span (rated xs) \<and> scale_ok (snd w') \<and> fits_i64 n'"
  using assms(2-5)
proof (induction xs arbitrary: w n rule: induct_list012)
  case (3 x y zs)
  obtain ta ma sa tb mb sb where xy: "x = (ta, ma, sa)" "y = (tb, mb, sb)" by (cases x; cases y)
  have ok: "lifted_ok (ta, ma, sa)" "lifted_ok (tb, mb, sb)" using 3(3) by (simp_all add: xy)
  obtain w1 n1 where st: "twa_step D S trapezoid (dwell ta tb) (ma, sa) (mb, sb) (w, n) = Some (w1, n1)"
    "twa_intervals D S trapezoid (y # zs) (w1, n1) = Some (w', n')"
    using 3(4) by (auto simp: xy dwell_def bind_eq_Some_conv checked_i64_Some)
  have step: "ratio w1 = ratio w + of_int (dwell ta tb) * (if trapezoid then (ratio (ma, sa) + ratio (mb, sb)) / 2 else ratio (ma, sa)) \<and>
      n1 = n + dwell ta tb \<and> scale_ok (snd w1) \<and> fits_i64 n1"
  proof (cases "0 < dwell ta tb")
    case False
    then have "dwell ta tb = 0" by (simp add: dwell_def)
    then show ?thesis using st(1) 3(5,6) by (simp add: twa_step_def)
  next
    case True
    obtain m s v where v: "interval_value D S trapezoid ma sa mb sb = Some (m, s)" "s \<le> 19"
      "(if scale_up_by 1 s = Some m then Some (dwell ta tb, 0) else do { p \<leftarrow> checked_i128 (m * dwell ta tb); Some (p, s) }) = Some v"
      "add_term w v = Some w1" "n1 = n + dwell ta tb" "fits_i64 n1"
      using st(1) True by (auto simp: twa_step_def checked_i64_Some bind_eq_Some_conv not_less split: if_split_asm)
    note i = interval_value_ratio [OF assms(1) ok v(1)]
    have s: "0 \<le> s" using i(2) by simp
    show ?thesis
      using add_term_value [OF v(4)] interval_term [OF s v(3)] i(1) v(2,5,6) 3(5) s
      by (auto simp: scale_ok_def)
  qed
  have "fits_i64 n1" "scale_ok (snd w1)" using step by blast+
  moreover have "list_all lifted_ok (y # zs)" using 3(3) by simp
  ultimately have IH: "ratio w' = ratio w1 + area trapezoid (rated (y # zs)) \<and> n' = n1 + dwell_span (rated (y # zs)) \<and> scale_ok (snd w') \<and> fits_i64 n'"
    using 3(2) [of w1 n1] st(2) by blast
  then show ?case using step by (auto simp: xy rated_def)
qed (simp_all add: rated_def)

lemma lift_sample_Some:
  assumes "sum_laws D S val" "lift_sample D p = Some (t, m, s)"
  shows "t = fst p" "lifted_ok (t, m, s)" "ratio (m, s) = val (snd p)"
proof -
  obtain digits scale where parts: "d_parts D (snd p) = (digits, scale)" by fastforce
  then have "t = fst p" "m = digits" "s = sint scale" "fits_i64 m" "0 \<le> s" "s \<le> 17"
    using assms(2) by (auto simp: lift_sample_def timestamp_nanos_opt_def checked_i64_Some bind_eq_Some_conv split: if_split_asm)
  then show "t = fst p" "lifted_ok (t, m, s)" "ratio (m, s) = val (snd p)"
    using sum_lawsD(2) [OF assms(1) parts] by (simp_all add: lifted_ok_def ratio_def)
qed

lemma those_Some: "those xs = Some ys \<longleftrightarrow> xs = map Some ys"
proof (induction xs arbitrary: ys)
  case (Cons x xs)
  then show ?case by (cases x; cases ys) (auto split: option.splits)
qed auto

lemma sort_key_map_snd:
  "sort_key fst (map (\<lambda>x. (fst x, g (snd x))) xs) = map (\<lambda>x. (fst x, g (snd x))) (sort_key fst xs)"
proof (induction xs)
  case (Cons x xs)
  have "insort_key fst (fst x, g (snd x)) (map (\<lambda>x. (fst x, g (snd x))) zs) = map (\<lambda>x. (fst x, g (snd x))) (insort_key fst x zs)" for zs
    by (induction zs) auto
  then show ?case using Cons by simp
qed simp

lemma lifted_samples:
  assumes "sum_laws D S val" "those (map (lift_sample D) samples) = Some lifted"
  shows "list_all lifted_ok lifted" "rated (sort_key fst lifted) = in_time_order val samples" "lifted = [] \<longleftrightarrow> samples = []"
proof -
  have eq: "map (lift_sample D) samples = map Some lifted" using assms(2) by (simp add: those_Some)
  then have "length lifted = length samples" by (metis length_map)
  then show "lifted = [] \<longleftrightarrow> samples = []" by auto
  have nth: "lift_sample D (samples ! i) = Some (lifted ! i)" if "i < length samples" for i
    using eq that by (metis length_map nth_map)
  have each: "lifted_ok (lifted ! i) \<and> (fst (lifted ! i), ratio (snd (lifted ! i))) = (fst (samples ! i), val (snd (samples ! i)))"
    if i: "i < length samples" for i
  proof -
    obtain t m s where x: "lifted ! i = (t, m, s)" by (cases "lifted ! i")
    show ?thesis using lift_sample_Some [OF assms(1) nth [OF i, unfolded x]] by (simp add: x)
  qed
  then show "list_all lifted_ok lifted" using \<open>length lifted = length samples\<close> by (simp add: list_all_length)
  have "map (\<lambda>x. (fst x, ratio (snd x))) lifted = map (\<lambda>x. (fst x, val (snd x))) samples"
    using each \<open>length lifted = length samples\<close> by (intro nth_equalityI) auto
  then have "sort_key fst (map (\<lambda>x. (fst x, ratio (snd x))) lifted) = sort_key fst (map (\<lambda>x. (fst x, val (snd x))) samples)" by simp
  then show "rated (sort_key fst lifted) = in_time_order val samples"
    by (simp add: sort_key_map_snd rated_def in_time_order_def case_prod_beta')
qed

lemma twa_bucket_end_value:
  assumes "twa_bucket_end bucket_end lifted = Some (w, n)" "list_all lifted_ok lifted"
  shows "ratio w = (case bucket_end of Some e \<Rightarrow>
      if rated lifted = [] then 0 else of_int (dwell (fst (last (rated lifted))) e) * snd (last (rated lifted)) | None \<Rightarrow> 0)"
    and "n = (case bucket_end of Some e \<Rightarrow> if rated lifted = [] then 0 else dwell (fst (last (rated lifted))) e | None \<Rightarrow> 0)"
    and "scale_ok (snd w)" "fits_i64 n"
proof -
  have "lifted_ok (last lifted)" if "lifted \<noteq> []" using that assms(2) by (simp add: list_all_iff)
  moreover have zero: "add_term (0, 0) (p, s) = Some v \<longleftrightarrow> v = (if p = 0 then (0, 0) else (p, s))" for p s v by (auto simp: add_term_def)
  ultimately have "ratio w = (case bucket_end of Some e \<Rightarrow>
      if rated lifted = [] then 0 else of_int (dwell (fst (last (rated lifted))) e) * snd (last (rated lifted)) | None \<Rightarrow> 0) \<and>
    n = (case bucket_end of Some e \<Rightarrow> if rated lifted = [] then 0 else dwell (fst (last (rated lifted))) e | None \<Rightarrow> 0) \<and>
    scale_ok (snd w) \<and> fits_i64 n"
    using assms(1)
    by (auto simp: twa_bucket_end_def rated_def last_map Let_def bind_eq_Some_conv checked_i64_Some timestamp_nanos_opt_def dwell_def
        ratio_def scale_ok_def lifted_ok_def fits_i64_def split: option.splits if_split_asm prod.splits)
  then show "ratio w = (case bucket_end of Some e \<Rightarrow>
      if rated lifted = [] then 0 else of_int (dwell (fst (last (rated lifted))) e) * snd (last (rated lifted)) | None \<Rightarrow> 0)"
    "n = (case bucket_end of Some e \<Rightarrow> if rated lifted = [] then 0 else dwell (fst (last (rated lifted))) e | None \<Rightarrow> 0)"
    "scale_ok (snd w)" "fits_i64 n" by blast+
qed

text \<open>The integer path divides the same area by the same time as the decimal path, to a hundred digits.\<close>

lemma twa_scaled_value:
  assumes "sum_laws D S val" "twa_scaled D S samples trapezoid bucket_end = Some r"
  defines "x \<equiv> whole_area trapezoid bucket_end (in_time_order val samples) / of_int (whole_span bucket_end (in_time_order val samples))"
  shows "0 < whole_span bucket_end (in_time_order val samples)" "\<bar>val r - x\<bar> \<le> \<bar>x\<bar> / 10 ^ 99"
proof -
  let ?xs = "in_time_order val samples"
  obtain lifted w0 n0 w n where l: "those (map (lift_sample D) samples) = Some lifted"
    and e: "twa_bucket_end bucket_end (sort_key fst lifted) = Some (w0, n0)"
    and i: "twa_intervals D S trapezoid (sort_key fst lifted) (w0, n0) = Some (w, n)" and n: "0 < n"
    and r: "r = avg_like_bigdecimal D S (fst w) (word_of_int (snd w)) (nat n)"
    using assms(2) by (auto simp: twa_scaled_def Let_def bind_eq_Some_conv split: if_split_asm)
  note lifts = lifted_samples [OF assms(1) l]
  have ok: "list_all lifted_ok (sort_key fst lifted)" using lifts(1) by (simp add: list_all_iff)
  note start = twa_bucket_end_value [OF e ok]
  note rest = twa_intervals_area [OF assms(1) ok i start(3,4)]
  have w: "ratio w = whole_area trapezoid bucket_end ?xs" and n_eq: "n = whole_span bucket_end ?xs"
    using rest start(1,2) lifts(2) by (simp_all add: whole_area_def whole_span_def split: option.splits)
  show "0 < whole_span bucket_end ?xs" using n n_eq by simp
  have s: "sint (word_of_int (snd w) :: i64) = snd w"
    using rest by (intro sint_word_of_int_id) (auto simp: scale_ok_def)
  have "\<bar>sint (word_of_int (snd w) :: i64)\<bar> < 2 ^ 62" using rest by (simp add: s scale_ok_def)
  moreover have "nat n < 2 ^ 64" using rest by (auto simp: fits_i64_def)
  moreover have "of_int (fst w) / of_nat (nat n) * 10 powi (- snd w) = ratio w / of_int n"
    using n by (simp add: ratio_def)
  ultimately show "\<bar>val r - x\<bar> \<le> \<bar>x\<bar> / 10 ^ 99"
    using avg_like_value(1) [OF assms(1), of "nat n" "word_of_int (snd w)" "fst w"] n
    unfolding x_def r s w n_eq by simp
qed

end
