(* ===== verification/Reduce.thy ===== *)
theory Reduce imports Dd_Sketch Weighted_Average "HOL-Library.Char_ord" "HOL-Library.List_Lexorder" begin

text \<open>
  Reductions of a series into grid-aligned buckets, \<^verbatim>\<open>weft-reduce/src/lib.rs\<close>: the accumulator of one
  bucket, the partial reduction of a part of a series, merging, coarsening and re-keying of partials, and
  the buckets they finish into. The integer path of \<^verbatim>\<open>reduce_partial\<close> is in Scaled_Reduce.
\<close>

subsection \<open>The reductions\<close>

datatype aggregation =
    AggMin | AggMax | AggAvg | AggSum | AggFirst | AggLast
  | AggP50 | AggP90 | AggP95 | AggP99 | AggTwa | AggTwaLinear | AggTwaBucketEnd
  | AggSketchP50 | AggSketchP90 | AggSketchP95 | AggSketchP99

definition default_aggregations :: "aggregation list" where
  "default_aggregations = [AggMin, AggMax, AggAvg]"

definition all_aggregations :: "aggregation list" where
  "all_aggregations = [AggMin, AggMax, AggAvg, AggSum, AggFirst, AggLast]"

fun agg_as_str :: "aggregation \<Rightarrow> string" where
  "agg_as_str AggMin = ''min''"
| "agg_as_str AggMax = ''max''"
| "agg_as_str AggAvg = ''avg''"
| "agg_as_str AggSum = ''sum''"
| "agg_as_str AggFirst = ''first''"
| "agg_as_str AggLast = ''last''"
| "agg_as_str AggP50 = ''p50''"
| "agg_as_str AggP90 = ''p90''"
| "agg_as_str AggP95 = ''p95''"
| "agg_as_str AggP99 = ''p99''"
| "agg_as_str AggTwa = ''twa''"
| "agg_as_str AggTwaLinear = ''twa_linear''"
| "agg_as_str AggTwaBucketEnd = ''twa_bucket_end''"
| "agg_as_str AggSketchP50 = ''sketch_p50''"
| "agg_as_str AggSketchP90 = ''sketch_p90''"
| "agg_as_str AggSketchP95 = ''sketch_p95''"
| "agg_as_str AggSketchP99 = ''sketch_p99''"

definition agg_tokens :: "(string \<times> aggregation) list" where
  "agg_tokens =
    [(''min'', AggMin), (''max'', AggMax), (''avg'', AggAvg), (''sum'', AggSum), (''first'', AggFirst), (''last'', AggLast),
     (''p50'', AggP50), (''median'', AggP50), (''p90'', AggP90), (''p95'', AggP95), (''p99'', AggP99),
     (''twa'', AggTwa), (''time_weighted_avg'', AggTwa), (''twa_locf'', AggTwa),
     (''twa_linear'', AggTwaLinear), (''twalinear'', AggTwaLinear), (''time_weighted_avg_linear'', AggTwaLinear),
     (''twa_bucket_end'', AggTwaBucketEnd), (''twabucketend'', AggTwaBucketEnd), (''twa_locf_end'', AggTwaBucketEnd),
     (''sketch_p50'', AggSketchP50), (''sketchp50'', AggSketchP50), (''sketch_median'', AggSketchP50),
     (''sketch_p90'', AggSketchP90), (''sketchp90'', AggSketchP90),
     (''sketch_p95'', AggSketchP95), (''sketchp95'', AggSketchP95),
     (''sketch_p99'', AggSketchP99), (''sketchp99'', AggSketchP99)]"

definition agg_from_token :: "string \<Rightarrow> aggregation option" where
  "agg_from_token token = map_of agg_tokens (trim_text token)"

fun percentile_rank :: "aggregation \<Rightarrow> nat option" where
  "percentile_rank AggP50 = Some 50"
| "percentile_rank AggP90 = Some 90"
| "percentile_rank AggP95 = Some 95"
| "percentile_rank AggP99 = Some 99"
| "percentile_rank _ = None"

fun agg_sketch_quantile :: "aggregation \<Rightarrow> u64 option" where
  "agg_sketch_quantile AggSketchP50 = Some 0x3FE0000000000000"
| "agg_sketch_quantile AggSketchP90 = Some 0x3FECCCCCCCCCCCCD"
| "agg_sketch_quantile AggSketchP95 = Some 0x3FEE666666666666"
| "agg_sketch_quantile AggSketchP99 = Some 0x3FEFAE147AE147AE"
| "agg_sketch_quantile _ = None"

definition needs_full_bucket :: "aggregation \<Rightarrow> bool" where
  "needs_full_bucket a \<longleftrightarrow> percentile_rank a \<noteq> None \<or> a = AggTwa \<or> a = AggTwaLinear \<or> a = AggTwaBucketEnd"

definition is_sidecar_materializable :: "aggregation \<Rightarrow> bool" where
  "is_sidecar_materializable a \<longleftrightarrow> \<not> needs_full_bucket a"

definition requested :: "aggregation list \<Rightarrow> aggregation list" where
  "requested aggs = (if aggs = [] then default_aggregations else aggs)"

subsection \<open>The accumulator of a bucket\<close>

record 'd point =
  pt_timestamp :: int
  pt_value :: 'd

record 'd bucket =
  bk_timestamp :: int
  bk_count :: nat
  bk_values :: "(string, 'd) btree"

record 'd bucket_acc =
  ba_count :: nat
  ba_sum :: 'd
  ba_min :: "'d option"
  ba_max :: "'d option"
  ba_first :: "(int \<times> 'd) option"
  ba_last :: "(int \<times> 'd) option"
  ba_samples :: "(int \<times> 'd) list"
  ba_collect :: bool
  ba_sketch :: "dd_sketch option"

definition acc_new :: "'d decimal_ops \<Rightarrow> bool \<Rightarrow> dd_sketch option \<Rightarrow> 'd bucket_acc" where
  "acc_new D collect sketch =
    \<lparr>ba_count = 0, ba_sum = d_zero D, ba_min = None, ba_max = None, ba_first = None, ba_last = None,
     ba_samples = [], ba_collect = collect, ba_sketch = sketch\<rparr>"

definition none_or :: "'a option \<Rightarrow> ('a \<Rightarrow> bool) \<Rightarrow> bool" where
  "none_or x p = (case x of None \<Rightarrow> True | Some y \<Rightarrow> p y)"

definition acc_push ::
    "float_ops \<Rightarrow> 'd::ord decimal_ops \<Rightarrow> 'd sum_ops \<Rightarrow> int \<Rightarrow> 'd \<Rightarrow> 'd bucket_acc \<Rightarrow> reduce_error + 'd bucket_acc" where
  "acc_push F D S timestamp v a =
    (let a = a\<lparr>ba_count := ba_count a + 1, ba_sum := so_add S (ba_sum a) v\<rparr>;
         a = (if none_or (ba_min a) (\<lambda>m. v < m) then a\<lparr>ba_min := Some v\<rparr> else a);
         a = (if none_or (ba_max a) (\<lambda>m. m < v) then a\<lparr>ba_max := Some v\<rparr> else a);
         a = (if none_or (ba_first a) (\<lambda>(t, _). timestamp < t) then a\<lparr>ba_first := Some (timestamp, v)\<rparr> else a);
         a = (if ba_collect a then a\<lparr>ba_samples := ba_samples a @ [(timestamp, v)]\<rparr> else a);
         put_last = (\<lambda>a. if none_or (ba_last a) (\<lambda>(t, _). t \<le> timestamp) then a\<lparr>ba_last := Some (timestamp, v)\<rparr> else a)
     in case ba_sketch a of
          None \<Rightarrow> Inr (put_last a)
        | Some s \<Rightarrow>
            (case add_decimal F D v s of
               Inl _ \<Rightarrow> Inl SketchValue
             | Inr s' \<Rightarrow> Inr (put_last (a\<lparr>ba_sketch := Some s'\<rparr>))))"

definition acc_merge ::
    "float_ops \<Rightarrow> 'd::ord sum_ops \<Rightarrow> 'd bucket_acc \<Rightarrow> 'd bucket_acc \<Rightarrow> reduce_error + 'd bucket_acc" where
  "acc_merge F S a other =
    (let a = a\<lparr>ba_count := ba_count a + ba_count other, ba_sum := so_add S (ba_sum a) (ba_sum other)\<rparr>;
         a = (case ba_min other of None \<Rightarrow> a
              | Some m \<Rightarrow> if none_or (ba_min a) (\<lambda>cur. m < cur) then a\<lparr>ba_min := Some m\<rparr> else a);
         a = (case ba_max other of None \<Rightarrow> a
              | Some m \<Rightarrow> if none_or (ba_max a) (\<lambda>cur. cur < m) then a\<lparr>ba_max := Some m\<rparr> else a);
         a = (case ba_first other of None \<Rightarrow> a
              | Some (t, v) \<Rightarrow> if none_or (ba_first a) (\<lambda>(cur, _). t < cur) then a\<lparr>ba_first := Some (t, v)\<rparr> else a);
         a = (case ba_last other of None \<Rightarrow> a
              | Some (t, v) \<Rightarrow> if none_or (ba_last a) (\<lambda>(cur, _). cur \<le> t) then a\<lparr>ba_last := Some (t, v)\<rparr> else a);
         a = a\<lparr>ba_samples := ba_samples a @ ba_samples other\<rparr>
     in case (ba_sketch a, ba_sketch other) of
          (Some mine, Some theirs) \<Rightarrow>
            (case sketch_merge F mine theirs of
               Inl _ \<Rightarrow> Inl SketchValue
             | Inr s \<Rightarrow> Inr (a\<lparr>ba_sketch := Some s\<rparr>))
        | (None, Some theirs) \<Rightarrow> Inr (a\<lparr>ba_sketch := Some theirs\<rparr>)
        | _ \<Rightarrow> Inr a)"

subsection \<open>Percentiles\<close>

fun insert_by :: "('a \<Rightarrow> 'a \<Rightarrow> bool) \<Rightarrow> 'a \<Rightarrow> 'a list \<Rightarrow> 'a list" where
  "insert_by le x [] = [x]"
| "insert_by le x (y # ys) = (if le x y then x # y # ys else y # insert_by le x ys)"

text \<open>Sorting by a total order whose elements are pairwise different has one result, whichever sort the
  library uses, and \<open>select_nth_unstable_by\<close> leaves the element of that rank at its place.\<close>

definition sort_by :: "('a \<Rightarrow> 'a \<Rightarrow> bool) \<Rightarrow> 'a list \<Rightarrow> 'a list" where
  "sort_by le xs = foldr (insert_by le) xs []"

definition rank_order :: "'d::ord \<times> nat \<Rightarrow> 'd \<times> nat \<Rightarrow> bool" where
  "rank_order a b \<longleftrightarrow> fst a < fst b \<or> \<not> fst b < fst a \<and> snd a \<le> snd b"

definition percentile_index :: "nat \<Rightarrow> nat \<Rightarrow> nat" where
  "percentile_index rank n = min (div_ceil (rank * n) 100 - 1) (n - 1)"

definition percentile :: "('d::ord \<times> nat) list \<Rightarrow> nat \<Rightarrow> bool \<Rightarrow> 'd option" where
  "percentile samples rank presorted =
    (if samples = [] then None
     else let idx = percentile_index rank (length samples)
          in if presorted then Some (fst (samples ! idx)) else Some (fst (sort_by rank_order samples ! idx)))"

subsection \<open>Finishing a bucket\<close>

definition agg_value ::
    "float_ops \<Rightarrow> 'd::ord decimal_ops \<Rightarrow> 'd sum_ops \<Rightarrow> 'r time_ops \<Rightarrow> 'r bucket_width \<Rightarrow> int \<Rightarrow>
     bool \<Rightarrow> ('d \<times> nat) list option \<Rightarrow> 'd bucket_acc \<Rightarrow> aggregation \<Rightarrow> 'd option" where
  "agg_value F D S T width base presorted ranked a agg =
    (case percentile_rank agg of
       Some rank \<Rightarrow> ranked \<bind> (\<lambda>r. percentile r rank presorted)
     | None \<Rightarrow>
       (case agg_sketch_quantile agg of
          Some q \<Rightarrow> ba_sketch a \<bind> (\<lambda>s. quantile_decimal F D s q)
        | None \<Rightarrow>
          (case agg of
             AggMin \<Rightarrow> ba_min a
           | AggMax \<Rightarrow> ba_max a
           | AggSum \<Rightarrow> Some (ba_sum a)
           | AggAvg \<Rightarrow> if 0 < ba_count a then Some (avg_of_sum D S (ba_sum a) (ba_count a)) else None
           | AggFirst \<Rightarrow> map_option snd (ba_first a)
           | AggLast \<Rightarrow> map_option snd (ba_last a)
           | AggTwa \<Rightarrow> time_weighted_average D S (ba_samples a) False None
           | AggTwaLinear \<Rightarrow> time_weighted_average D S (ba_samples a) True None
           | AggTwaBucketEnd \<Rightarrow>
               width_start T width (if fits_i64 (base + 1) then base + 1 else base + 1 - 2 ^ 64) \<bind>
                 (\<lambda>e. time_weighted_average D S (ba_samples a) False (Some e))
           | _ \<Rightarrow> None)))"

definition acc_finish ::
    "float_ops \<Rightarrow> 'd::ord decimal_ops \<Rightarrow> 'd sum_ops \<Rightarrow> 'r time_ops \<Rightarrow> 'r bucket_width \<Rightarrow> int \<Rightarrow> aggregation list \<Rightarrow>
     'd bucket_acc \<Rightarrow> reduce_error + 'd bucket" where
  "acc_finish F D S T width base aggs a =
    (case width_start T width base of
       None \<Rightarrow> Inl BucketStartOverflow
     | Some timestamp \<Rightarrow>
         (let percentiles = length (filter (\<lambda>a. percentile_rank a \<noteq> None) aggs);
              presorted = (1 < percentiles);
              values0 = zip (map snd (ba_samples a)) [0..<length (ba_samples a)];
              ranked = (if 0 < percentiles then Some (if presorted then sort_by rank_order values0 else values0) else None)
          in Inr \<lparr>bk_timestamp = timestamp, bk_count = ba_count a,
               bk_values = foldl (\<lambda>m agg. case agg_value F D S T width base presorted ranked a agg of
                 Some v \<Rightarrow> bt_insert (agg_as_str agg) v m | None \<Rightarrow> m) [] aggs\<rparr>))"

subsection \<open>Partial reductions\<close>

type_synonym 'd partial = "(int, 'd bucket_acc) btree"

definition partial_merge :: "float_ops \<Rightarrow> 'd::ord sum_ops \<Rightarrow> 'd partial \<Rightarrow> 'd partial \<Rightarrow> reduce_error + 'd partial" where
  "partial_merge F S p other = merge_entries (acc_merge F S) (\<lambda>base. base) p other"

definition coarsen :: "float_ops \<Rightarrow> 'd::ord sum_ops \<Rightarrow> 'd partial \<Rightarrow> nat \<Rightarrow> reduce_error + 'd partial" where
  "coarsen F S p count =
    (if count \<le> 1 then Inr p else merge_entries (acc_merge F S) (\<lambda>base. base div int count) [] p)"

fun rebucket_loop ::
    "float_ops \<Rightarrow> 'd::ord sum_ops \<Rightarrow> 'r time_ops \<Rightarrow> 'r \<Rightarrow> 'r \<Rightarrow> 'd partial \<Rightarrow> 'd partial \<Rightarrow> reduce_error + 'd partial" where
  "rebucket_loop F S T from to out [] = Inr out"
| "rebucket_loop F S T from to out ((base, acc) # buckets) =
    (case bucket_start T from base of
       None \<Rightarrow> Inl BucketStartOverflow
     | Some start \<Rightarrow>
         (case bucket_index T to start of
            Inl e \<Rightarrow> Inl e
          | Inr i \<Rightarrow>
              (case entry_merge (acc_merge F S) i acc out of
                 Inl e \<Rightarrow> Inl e
               | Inr out \<Rightarrow> rebucket_loop F S T from to out buckets)))"

definition rebucket ::
    "float_ops \<Rightarrow> 'd::ord sum_ops \<Rightarrow> 'r time_ops \<Rightarrow> 'd partial \<Rightarrow> 'r \<Rightarrow> 'r \<Rightarrow> reduce_error + 'd partial option" where
  "rebucket F S T p from to =
    (if \<not> grids_nest T from to then Inr None
     else case rebucket_loop F S T from to [] p of Inl e \<Rightarrow> Inl e | Inr q \<Rightarrow> Inr (Some q))"

fun finish_loop ::
    "float_ops \<Rightarrow> 'd::ord decimal_ops \<Rightarrow> 'd sum_ops \<Rightarrow> 'r time_ops \<Rightarrow> 'r bucket_width \<Rightarrow> aggregation list \<Rightarrow>
     'd partial \<Rightarrow> reduce_error + 'd bucket list" where
  "finish_loop F D S T width aggs [] = Inr []"
| "finish_loop F D S T width aggs ((base, acc) # buckets) =
    (case acc_finish F D S T width base aggs acc of
       Inl e \<Rightarrow> Inl e
     | Inr b \<Rightarrow> (case finish_loop F D S T width aggs buckets of Inl e \<Rightarrow> Inl e | Inr bs \<Rightarrow> Inr (b # bs)))"

definition finish_width ::
    "float_ops \<Rightarrow> 'd::ord decimal_ops \<Rightarrow> 'd sum_ops \<Rightarrow> 'r time_ops \<Rightarrow> 'd partial \<Rightarrow> 'r bucket_width \<Rightarrow> aggregation list \<Rightarrow>
     reduce_error + 'd bucket list" where
  "finish_width F D S T p width aggs = finish_loop F D S T width (requested aggs) p"

definition partial_finish ::
    "float_ops \<Rightarrow> 'd::ord decimal_ops \<Rightarrow> 'd sum_ops \<Rightarrow> 'r time_ops \<Rightarrow> 'd partial \<Rightarrow> 'r \<Rightarrow> aggregation list \<Rightarrow>
     reduce_error + 'd bucket list" where
  "partial_finish F D S T p resolution aggs = finish_width F D S T p (width_of_unit resolution) aggs"

subsection \<open>The reduction in decimals\<close>

definition outside :: "int option \<Rightarrow> int option \<Rightarrow> int \<Rightarrow> bool" where
  "outside start end_ts t \<longleftrightarrow> (case start of Some s \<Rightarrow> t < s | None \<Rightarrow> False) \<or> (case end_ts of Some e \<Rightarrow> e < t | None \<Rightarrow> False)"

fun reduce_loop ::
    "float_ops \<Rightarrow> 'd::ord decimal_ops \<Rightarrow> 'd sum_ops \<Rightarrow> 'r time_ops \<Rightarrow> 'r \<Rightarrow> int option \<Rightarrow> int option \<Rightarrow> bool \<Rightarrow> bool \<Rightarrow>
     'd partial \<Rightarrow> 'd point list \<Rightarrow> reduce_error + 'd partial" where
  "reduce_loop F D S T resolution start end_ts collect sketching buckets [] = Inr buckets"
| "reduce_loop F D S T resolution start end_ts collect sketching buckets (p # points) =
    (if outside start end_ts (pt_timestamp p)
     then reduce_loop F D S T resolution start end_ts collect sketching buckets points
     else case bucket_index T resolution (pt_timestamp p) of
       Inl e \<Rightarrow> Inl e
     | Inr base \<Rightarrow>
         (let acc = (case map_of buckets base of Some a \<Rightarrow> a
                     | None \<Rightarrow> acc_new D collect (if sketching then Some (with_default_accuracy F) else None))
          in case acc_push F D S (pt_timestamp p) (pt_value p) acc of
               Inl e \<Rightarrow> Inl e
             | Inr a \<Rightarrow> reduce_loop F D S T resolution start end_ts collect sketching (bt_insert base a buckets) points))"

definition reduce_partial_decimal ::
    "float_ops \<Rightarrow> 'd::ord decimal_ops \<Rightarrow> 'd sum_ops \<Rightarrow> 'r time_ops \<Rightarrow> 'd point list \<Rightarrow> 'r \<Rightarrow> int option \<Rightarrow> int option \<Rightarrow>
     aggregation list \<Rightarrow> reduce_error + 'd partial" where
  "reduce_partial_decimal F D S T points resolution start end_ts aggs =
    (let aggs = requested aggs
     in reduce_loop F D S T resolution start end_ts (list_ex needs_full_bucket aggs)
          (list_ex (\<lambda>a. agg_sketch_quantile a \<noteq> None) aggs) [] points)"

end
