(* ===== verification/Reduce_Exact.thy ===== *)
theory Reduce_Exact imports Reduce begin

text \<open>
  What a reduction computes: an accumulator described by the samples it stands for, so that merging
  partials, coarsening them and re-keying them give the state of one pass over all the samples. The
  locale \<open>mergeable\<close> is interpreted on the accumulator of the code.
\<close>

subsection \<open>What an accumulator stands for\<close>

definition sketch_laws :: "float_ops \<Rightarrow> bool" where
  "sketch_laws F \<longleftrightarrow> float_laws F \<and> f64_is_finite (sk_gamma (with_default_accuracy F)) \<and>
    \<not> f64_lt (sk_gamma (with_default_accuracy F)) 0 \<and> cache_exact F (sk_log_gamma (with_default_accuracy F))"

definition sketch_holds :: "float_ops \<Rightarrow> 'd decimal_ops \<Rightarrow> (int \<times> 'd) list \<Rightarrow> dd_sketch \<Rightarrow> bool" where
  "sketch_holds F D xs s \<longleftrightarrow>
    (\<exists>fs is c. map (\<lambda>x. decimal_to_f64 F D (snd x)) xs = map Some fs \<and>
      map (signed_index F (sk_log_gamma (with_default_accuracy F))) fs = map Inr is \<and>
      s = (tallied (with_default_accuracy F) is)\<lparr>sk_last_bin := c\<rparr> \<and>
      cache_holds F (sk_log_gamma (with_default_accuracy F)) c)"

definition pick :: "('x \<Rightarrow> 'k::linorder) \<Rightarrow> 'x list \<Rightarrow> 'x option" where
  "pick f xs = (if xs = [] then None else Some (arg_min_list f xs))"

definition acc_describes ::
    "float_ops \<Rightarrow> 'd decimal_ops \<Rightarrow> ('d \<Rightarrow> rat) \<Rightarrow> bool \<Rightarrow> bool \<Rightarrow> (int \<times> 'd) list \<Rightarrow> 'd bucket_acc \<Rightarrow> bool" where
  "acc_describes F D val collect sketching xs a \<longleftrightarrow>
    ba_count a = length xs \<and> val (ba_sum a) = (\<Sum>x\<leftarrow>xs. val (snd x)) \<and>
    ba_min a = map_option snd (pick (\<lambda>x. val (snd x)) xs) \<and>
    ba_max a = map_option snd (pick (\<lambda>x. - val (snd x)) xs) \<and>
    ba_first a = pick fst xs \<and> ba_last a = pick (\<lambda>x. - fst x) (rev xs) \<and>
    ba_samples a = (if collect then xs else []) \<and> ba_collect a = collect \<and>
    (if sketching then \<exists>s. ba_sketch a = Some s \<and> sketch_holds F D xs s else ba_sketch a = None)"

definition acc_holds ::
    "float_ops \<Rightarrow> 'd::ord decimal_ops \<Rightarrow> 'd sum_ops \<Rightarrow> ('d \<Rightarrow> rat) \<Rightarrow> bool \<Rightarrow> bool \<Rightarrow> (int \<times> 'd) list \<Rightarrow> 'd bucket_acc \<Rightarrow> bool" where
  "acc_holds F D S val collect sketching xs a \<longleftrightarrow>
    sum_laws D S val \<and> (sketching \<longrightarrow> sketch_laws F) \<and> acc_describes F D val collect sketching xs a"

lemma arg_min_list_append:
  fixes f :: "'x \<Rightarrow> 'k::linorder"
  assumes "xs \<noteq> []" "ys \<noteq> []"
  shows "arg_min_list f (xs @ ys) = (if f (arg_min_list f ys) < f (arg_min_list f xs) then arg_min_list f ys else arg_min_list f xs)"
  using assms
proof (induction f xs rule: arg_min_list.induct)
  case (1 f x)
  then show ?case by (cases ys) (auto simp: Let_def)
next
  case (2 f x y zs)
  have e: "arg_min_list f ((x # y # zs) @ ys) = (let m = arg_min_list f ((y # zs) @ ys) in if f x \<le> f m then x else m)" by simp
  show ?case unfolding e using 2(1) [OF _ 2(3)] by (auto simp: Let_def)
qed simp

lemma pick_append:
  fixes f :: "'x \<Rightarrow> 'k::linorder"
  shows "pick f (xs @ ys) =
    (case (pick f xs, pick f ys) of
       (Some x, Some y) \<Rightarrow> Some (if f y < f x then y else x)
     | (None, r) \<Rightarrow> r
     | (r, None) \<Rightarrow> r)"
  by (auto simp: pick_def arg_min_list_append)

lemma pick_single [simp]: "pick f [x] = Some x"
  by (simp add: pick_def)

lemma pick_Nil [simp]: "pick f [] = None"
  by (simp add: pick_def)

lemma pick_None [simp]: "pick f xs = None \<longleftrightarrow> xs = []"
  by (simp add: pick_def)

lemma default_empty:
  assumes "sketch_laws F"
  shows "empty_sketch F (with_default_accuracy F)"
  using assms by (simp add: sketch_laws_def empty_sketch_def with_default_accuracy_def sketch_from_alpha_def sketch_max_bins_def Let_def)

lemma sketch_holds_new:
  assumes "sketch_laws F"
  shows "sketch_holds F D [] (with_default_accuracy F)"
  unfolding sketch_holds_def using tallied_empty [OF default_empty [OF assms]]
  by (intro exI [of _ "[]"] exI [of _ None]) (auto simp: cache_holds_def)

lemma sketch_holds_merge:
  assumes "sketch_laws F" "sketch_holds F D xs s" "sketch_holds F D ys t"
  shows "\<exists>u. sketch_merge F s t = Inr u \<and> sketch_holds F D (xs @ ys) u"
proof -
  let ?s0 = "with_default_accuracy F"
  have laws: "float_laws F" "f64_is_finite (sk_gamma ?s0)" "\<not> f64_lt (sk_gamma ?s0) 0" "sk_max_bins ?s0 \<noteq> Some 0"
    using assms(1) by (simp_all add: sketch_laws_def) (simp add: with_default_accuracy_def sketch_max_bins_def)
  obtain fs js c where x: "map (\<lambda>x. decimal_to_f64 F D (snd x)) xs = map Some fs"
      "map (signed_index F (sk_log_gamma ?s0)) fs = map Inr js"
      "s = (tallied ?s0 js)\<lparr>sk_last_bin := c\<rparr>" "cache_holds F (sk_log_gamma ?s0) c"
    using assms(2) by (auto simp: sketch_holds_def)
  obtain gs ks d where y: "map (\<lambda>x. decimal_to_f64 F D (snd x)) ys = map Some gs"
      "map (signed_index F (sk_log_gamma ?s0)) gs = map Inr ks"
      "t = (tallied ?s0 ks)\<lparr>sk_last_bin := d\<rparr>"
    using assms(3) by (auto simp: sketch_holds_def)
  have "sketch_merge F s t = Inr ((tallied ?s0 (js @ ks))\<lparr>sk_last_bin := c\<rparr>)"
    unfolding x(3) y(3) by (rule merge_tallied [OF laws])
  moreover have "sketch_holds F D (xs @ ys) ((tallied ?s0 (js @ ks))\<lparr>sk_last_bin := c\<rparr>)"
    unfolding sketch_holds_def
    by (intro exI [of _ "fs @ gs"] exI [of _ "js @ ks"] exI [of _ c]) (simp add: x y)
  ultimately show ?thesis by blast
qed

lemma sketch_holds_add:
  assumes "sketch_laws F" "sketch_holds F D xs s" "decimal_to_f64 F D v = Some f"
    and "signed_index F (sk_log_gamma (with_default_accuracy F)) f = Inr i"
  shows "\<exists>u. add_decimal F D v s = Inr u \<and> sketch_holds F D (xs @ [(t, v)]) u"
proof -
  let ?s0 = "with_default_accuracy F"
  obtain fs js c where x: "map (\<lambda>x. decimal_to_f64 F D (snd x)) xs = map Some fs"
      "map (signed_index F (sk_log_gamma ?s0)) fs = map Inr js"
      "s = (tallied ?s0 js)\<lparr>sk_last_bin := c\<rparr>" "cache_holds F (sk_log_gamma ?s0) c"
    using assms(2) by (auto simp: sketch_holds_def)
  obtain d where d: "sketch_add F f s = Inr ((tallied ?s0 (js @ [i]))\<lparr>sk_last_bin := d\<rparr>)" "cache_holds F (sk_log_gamma ?s0) d"
    using sketch_add_tallied(2) [OF default_empty [OF assms(1)] x(4) assms(4)] unfolding x(3) by blast
  have "sketch_holds F D (xs @ [(t, v)]) ((tallied ?s0 (js @ [i]))\<lparr>sk_last_bin := d\<rparr>)"
    unfolding sketch_holds_def
    by (intro exI [of _ "fs @ [f]"] exI [of _ "js @ [i]"] exI [of _ d]) (simp add: x assms d)
  then show ?thesis using d(1) assms(3) by (auto simp: add_decimal_def)
qed

subsection \<open>Fields that keep the better of two samples\<close>

definition better_of :: "('a \<Rightarrow> 'a \<Rightarrow> bool) \<Rightarrow> 'a option \<Rightarrow> 'a option \<Rightarrow> 'a option" where
  "better_of beats x y =
    (case (x, y) of (Some a, Some b) \<Rightarrow> Some (if beats b a then b else a) | (None, r) \<Rightarrow> r | (r, None) \<Rightarrow> r)"

lemma keep_better:
  "(case y of None \<Rightarrow> a | Some m \<Rightarrow> if none_or (ba_min a) (\<lambda>cur. (m :: 'd :: ord) < cur) then a\<lparr>ba_min := Some m\<rparr> else a) =
    a\<lparr>ba_min := better_of (<) (ba_min a) y\<rparr>"
  "(case y of None \<Rightarrow> a | Some m \<Rightarrow> if none_or (ba_max a) (\<lambda>cur. cur < (m :: 'd)) then a\<lparr>ba_max := Some m\<rparr> else a) =
    a\<lparr>ba_max := better_of (\<lambda>m cur. cur < m) (ba_max a) y\<rparr>"
  "(case z of None \<Rightarrow> a | Some (t, v) \<Rightarrow> if none_or (ba_first a) (\<lambda>(cur, _). t < cur) then a\<lparr>ba_first := Some (t, v)\<rparr> else a) =
    a\<lparr>ba_first := better_of (\<lambda>m cur. fst m < fst cur) (ba_first a) z\<rparr>"
  "(case z of None \<Rightarrow> a | Some (t, v) \<Rightarrow> if none_or (ba_last a) (\<lambda>(cur, _). cur \<le> t) then a\<lparr>ba_last := Some (t, v)\<rparr> else a) =
    a\<lparr>ba_last := better_of (\<lambda>m cur. fst cur \<le> fst m) (ba_last a) z\<rparr>"
  by (auto simp: none_or_def better_of_def split: option.splits)

lemma pick_better:
  fixes f :: "'x \<Rightarrow> 'k::linorder"
  shows "pick f (xs @ ys) = better_of (\<lambda>y x. f y < f x) (pick f xs) (pick f ys)"
  by (auto simp: pick_append better_of_def split: option.splits)

lemma better_of_map:
  assumes "\<And>x y. beats (g y) (g x) \<longleftrightarrow> wins y x"
  shows "better_of beats (map_option g a) (map_option g b) = map_option g (better_of wins a b)"
  using assms by (auto simp: better_of_def split: option.splits)

lemma better_of_swap:
  "better_of (\<lambda>y x. fst x \<le> (fst y :: int)) a b = better_of (\<lambda>y x. - fst y < - fst x) b a"
  by (auto simp: better_of_def split: option.splits)

definition sketch_join :: "float_ops \<Rightarrow> dd_sketch option \<Rightarrow> dd_sketch option \<Rightarrow> reduce_error + dd_sketch option" where
  "sketch_join F a b =
    (case (a, b) of
       (Some mine, Some theirs) \<Rightarrow> (case sketch_merge F mine theirs of Inl _ \<Rightarrow> Inl SketchValue | Inr s \<Rightarrow> Inr (Some s))
     | (None, Some theirs) \<Rightarrow> Inr (Some theirs)
     | (r, None) \<Rightarrow> Inr r)"

lemma acc_merge_fields:
  "acc_merge F S a b =
    (case sketch_join F (ba_sketch a) (ba_sketch b) of
       Inl e \<Rightarrow> Inl e
     | Inr s \<Rightarrow> Inr \<lparr>ba_count = ba_count a + ba_count b, ba_sum = so_add S (ba_sum a) (ba_sum b),
         ba_min = better_of (<) (ba_min a) (ba_min b), ba_max = better_of (\<lambda>m cur. cur < m) (ba_max a) (ba_max b),
         ba_first = better_of (\<lambda>m cur. fst m < fst cur) (ba_first a) (ba_first b),
         ba_last = better_of (\<lambda>m cur. fst cur \<le> fst m) (ba_last a) (ba_last b),
         ba_samples = ba_samples a @ ba_samples b, ba_collect = ba_collect a, ba_sketch = s\<rparr>)"
  unfolding acc_merge_def Let_def keep_better
  by (simp add: sketch_join_def split: option.splits sum.splits)

lemma describes_append:
  assumes "sum_laws D S val"
    and "acc_describes F D val collect sketching xs a" "acc_describes F D val collect sketching ys b"
    and "if sketching then \<exists>u. s = Some u \<and> sketch_holds F D (xs @ ys) u else s = None"
  shows "acc_describes F D val collect sketching (xs @ ys)
    \<lparr>ba_count = ba_count a + ba_count b, ba_sum = so_add S (ba_sum a) (ba_sum b),
     ba_min = better_of (<) (ba_min a) (ba_min b), ba_max = better_of (\<lambda>m cur. cur < m) (ba_max a) (ba_max b),
     ba_first = better_of (\<lambda>m cur. fst m < fst cur) (ba_first a) (ba_first b),
     ba_last = better_of (\<lambda>m cur. fst cur \<le> fst m) (ba_last a) (ba_last b),
     ba_samples = ba_samples a @ ba_samples b, ba_collect = ba_collect a, ba_sketch = s\<rparr>"
proof -
  note a = assms(2) [unfolded acc_describes_def] and b = assms(3) [unfolded acc_describes_def]
  have less: "x < y \<longleftrightarrow> val x < val y" for x y using assms(1) by (simp add: sum_laws_def)
  have "better_of (<) (ba_min a) (ba_min b) = map_option snd (pick (\<lambda>x. val (snd x)) (xs @ ys))"
    using better_of_map [of "(<)" snd "\<lambda>y x. val (snd y) < val (snd x)"] a b by (simp add: pick_better less)
  moreover have "better_of (\<lambda>m cur. cur < m) (ba_max a) (ba_max b) = map_option snd (pick (\<lambda>x. - val (snd x)) (xs @ ys))"
    using better_of_map [of "\<lambda>m cur. cur < m" snd "\<lambda>y x. - val (snd y) < - val (snd x)"] a b by (simp add: pick_better less)
  moreover have "better_of (\<lambda>m cur. fst m < fst cur) (ba_first a) (ba_first b) = pick fst (xs @ ys)"
    using a b by (simp add: pick_better)
  moreover have "better_of (\<lambda>m cur. fst cur \<le> fst m) (ba_last a) (ba_last b) = pick (\<lambda>x. - fst x) (rev (xs @ ys))"
    unfolding better_of_swap using a b by (simp add: pick_better)
  moreover have "val (so_add S (ba_sum a) (ba_sum b)) = (\<Sum>x\<leftarrow>xs @ ys. val (snd x))"
    using a b assms(1) by (simp add: sum_lawsD(5))
  ultimately show ?thesis using a b assms(4) by (simp add: acc_describes_def)
qed

lemma acc_merge_holds:
  assumes "acc_holds F D S val collect sketching xs a" "acc_holds F D S val collect sketching ys b"
  shows "\<exists>c. acc_merge F S a b = Inr c \<and> acc_holds F D S val collect sketching (xs @ ys) c"
proof -
  have a: "acc_describes F D val collect sketching xs a" and b: "acc_describes F D val collect sketching ys b"
    and laws: "sum_laws D S val" and sk: "sketching \<longrightarrow> sketch_laws F"
    using assms by (simp_all add: acc_holds_def)
  have "\<exists>s. sketch_join F (ba_sketch a) (ba_sketch b) = Inr s \<and>
      (if sketching then \<exists>u. s = Some u \<and> sketch_holds F D (xs @ ys) u else s = None)"
  proof (cases sketching)
    case True
    then obtain s t where st: "ba_sketch a = Some s" "ba_sketch b = Some t" "sketch_holds F D xs s" "sketch_holds F D ys t"
      using a b by (auto simp: acc_describes_def)
    then obtain u where "sketch_merge F s t = Inr u" "sketch_holds F D (xs @ ys) u"
      using sketch_holds_merge [of F D xs s ys t] sk True by blast
    then show ?thesis using True st by (simp add: sketch_join_def)
  next
    case False
    then show ?thesis using a b by (simp add: acc_describes_def sketch_join_def)
  qed
  then obtain s where s: "sketch_join F (ba_sketch a) (ba_sketch b) = Inr s"
    "if sketching then \<exists>u. s = Some u \<and> sketch_holds F D (xs @ ys) u else s = None" by blast
  show ?thesis
    using describes_append [OF laws a b s(2)] s(1) laws sk by (simp add: acc_merge_fields acc_holds_def)
qed

interpretation acc: mergeable "acc_holds F D S val collect sketching" "acc_merge F S" fst
  for F D S val collect sketching
  by unfold_locales (rule acc_merge_holds)


subsection \<open>A sample pushed\<close>

text \<open>A value is representable when the sketch has a bucket for it.\<close>

definition sketchable :: "float_ops \<Rightarrow> 'd decimal_ops \<Rightarrow> 'd \<Rightarrow> bool" where
  "sketchable F D v \<longleftrightarrow>
    (case decimal_to_f64 F D v of None \<Rightarrow> False
     | Some f \<Rightarrow> (case signed_index F (sk_log_gamma (with_default_accuracy F)) f of Inl _ \<Rightarrow> False | Inr _ \<Rightarrow> True))"

lemma sketch_holds_add_iff:
  assumes "sketch_laws F" "sketch_holds F D xs s"
  shows "sketchable F D v \<Longrightarrow> \<exists>u. add_decimal F D v s = Inr u \<and> sketch_holds F D (xs @ [(t, v)]) u"
    and "\<not> sketchable F D v \<Longrightarrow> \<exists>e. add_decimal F D v s = Inl e"
proof -
  show "\<exists>u. add_decimal F D v s = Inr u \<and> sketch_holds F D (xs @ [(t, v)]) u" if "sketchable F D v"
    using that sketch_holds_add [OF assms] by (auto simp: sketchable_def split: option.splits sum.splits)
  assume no: "\<not> sketchable F D v"
  obtain js c where s: "s = (tallied (with_default_accuracy F) js)\<lparr>sk_last_bin := c\<rparr>"
      "cache_holds F (sk_log_gamma (with_default_accuracy F)) c"
    using assms(2) by (auto simp: sketch_holds_def)
  show "\<exists>e. add_decimal F D v s = Inl e"
    using no sketch_add_tallied(1) [OF default_empty [OF assms(1)] s(2)]
    by (auto simp: add_decimal_def sketchable_def s(1) split: option.splits sum.splits)
qed

lemma keep_pushed:
  "(if none_or (ba_min a) (\<lambda>m. (v :: 'd :: ord) < m) then a\<lparr>ba_min := Some v\<rparr> else a) = a\<lparr>ba_min := better_of (<) (ba_min a) (Some v)\<rparr>"
  "(if none_or (ba_max a) (\<lambda>m. m < v) then a\<lparr>ba_max := Some v\<rparr> else a) = a\<lparr>ba_max := better_of (\<lambda>m cur. cur < m) (ba_max a) (Some v)\<rparr>"
  "(if none_or (ba_first a) (\<lambda>(cur, _). t < cur) then a\<lparr>ba_first := Some (t, v)\<rparr> else a) =
    a\<lparr>ba_first := better_of (\<lambda>m cur. fst m < fst cur) (ba_first a) (Some (t, v))\<rparr>"
  "(if none_or (ba_last a) (\<lambda>(cur, _). cur \<le> t) then a\<lparr>ba_last := Some (t, v)\<rparr> else a) =
    a\<lparr>ba_last := better_of (\<lambda>m cur. fst cur \<le> fst m) (ba_last a) (Some (t, v))\<rparr>"
  "(if ba_collect a then a\<lparr>ba_samples := ba_samples a @ [(t, v)]\<rparr> else a) =
    a\<lparr>ba_samples := ba_samples a @ (if ba_collect a then [(t, v)] else [])\<rparr>"
  by (auto simp: none_or_def better_of_def split: option.splits)

definition pushed_sketch :: "float_ops \<Rightarrow> 'd decimal_ops \<Rightarrow> 'd \<Rightarrow> dd_sketch option \<Rightarrow> reduce_error + dd_sketch option" where
  "pushed_sketch F D v s =
    (case s of None \<Rightarrow> Inr None
     | Some s \<Rightarrow> (case add_decimal F D v s of Inl _ \<Rightarrow> Inl SketchValue | Inr u \<Rightarrow> Inr (Some u)))"

lemma acc_push_fields:
  "acc_push F D S t v a =
    (case pushed_sketch F D v (ba_sketch a) of
       Inl e \<Rightarrow> Inl e
     | Inr s \<Rightarrow> Inr \<lparr>ba_count = ba_count a + 1, ba_sum = so_add S (ba_sum a) v,
         ba_min = better_of (<) (ba_min a) (Some v), ba_max = better_of (\<lambda>m cur. cur < m) (ba_max a) (Some v),
         ba_first = better_of (\<lambda>m cur. fst m < fst cur) (ba_first a) (Some (t, v)),
         ba_last = better_of (\<lambda>m cur. fst cur \<le> fst m) (ba_last a) (Some (t, v)),
         ba_samples = ba_samples a @ (if ba_collect a then [(t, v)] else []), ba_collect = ba_collect a, ba_sketch = s\<rparr>)"
  unfolding acc_push_def Let_def keep_pushed
  by (simp add: pushed_sketch_def split: option.splits sum.splits)

lemma pushed_sketch_holds:
  assumes "sketching \<longrightarrow> sketch_laws F"
    and "if sketching then \<exists>s. o1 = Some s \<and> sketch_holds F D xs s else o1 = None"
  shows "sketching \<longrightarrow> sketchable F D v \<Longrightarrow> \<exists>s. pushed_sketch F D v o1 = Inr s \<and>
      (if sketching then \<exists>u. s = Some u \<and> sketch_holds F D (xs @ [(t, v)]) u else s = None)"
    and "sketching \<Longrightarrow> \<not> sketchable F D v \<Longrightarrow> pushed_sketch F D v o1 = Inl SketchValue"
proof -
  have some: "\<exists>s. o1 = Some s \<and> sketch_laws F \<and> sketch_holds F D xs s" if sketching using that assms by simp
  show "pushed_sketch F D v o1 = Inl SketchValue" if yes: "sketching" and no: "\<not> sketchable F D v"
  proof -
    obtain s where s: "o1 = Some s" "sketch_laws F" "sketch_holds F D xs s" using some [OF yes] by blast
    show ?thesis using sketch_holds_add_iff(2) [OF s(2,3) no] s(1) by (auto simp: pushed_sketch_def)
  qed
  assume ok: "sketching \<longrightarrow> sketchable F D v"
  show "\<exists>s. pushed_sketch F D v o1 = Inr s \<and>
      (if sketching then \<exists>u. s = Some u \<and> sketch_holds F D (xs @ [(t, v)]) u else s = None)"
  proof (cases sketching)
    case True
    then obtain s where s: "o1 = Some s" "sketch_laws F" "sketch_holds F D xs s" using some by blast
    obtain u where "add_decimal F D v s = Inr u" "sketch_holds F D (xs @ [(t, v)]) u"
      using sketch_holds_add_iff(1) [OF s(2,3)] ok True by blast
    then show ?thesis using True s(1) by (simp add: pushed_sketch_def)
  next
    case False
    then show ?thesis using assms(2) by (simp add: pushed_sketch_def)
  qed
qed

lemma acc_push_holds:
  assumes "acc_holds F D S val collect sketching xs a"
  shows "sketching \<longrightarrow> sketchable F D v \<Longrightarrow>
      \<exists>c. acc_push F D S t v a = Inr c \<and> acc_holds F D S val collect sketching (xs @ [(t, v)]) c"
    and "sketching \<Longrightarrow> \<not> sketchable F D v \<Longrightarrow> acc_push F D S t v a = Inl SketchValue"
proof -
  have a: "acc_describes F D val collect sketching xs a" and laws: "sum_laws D S val" and sk: "sketching \<longrightarrow> sketch_laws F"
    using assms by (simp_all add: acc_holds_def)
  note sketch = pushed_sketch_holds [OF sk]
  have own: "if sketching then \<exists>s. ba_sketch a = Some s \<and> sketch_holds F D xs s else ba_sketch a = None"
    and flag: "ba_collect a = collect" using a by (simp_all add: acc_describes_def)
  show "acc_push F D S t v a = Inl SketchValue" if "sketching" "\<not> sketchable F D v"
    using sketch(2) [OF own that] that(1) by (simp add: acc_push_fields)
  assume "sketching \<longrightarrow> sketchable F D v"
  then obtain s where s: "pushed_sketch F D v (ba_sketch a) = Inr s"
    "if sketching then \<exists>u. s = Some u \<and> sketch_holds F D (xs @ [(t, v)]) u else s = None"
    using sketch(1) [OF own] by blast
  obtain u where u: "if sketching then \<exists>w. u = Some w \<and> sketch_holds F D [(t, v)] w else u = None"
    using \<open>sketching \<longrightarrow> sketchable F D v\<close> sk sketch_holds_add_iff(1) [of F D "[]" "with_default_accuracy F" v t] sketch_holds_new [of F D]
    by (cases sketching) auto
  have one: "acc_describes F D val collect sketching [(t, v)]
      \<lparr>ba_count = 1, ba_sum = v, ba_min = Some v, ba_max = Some v, ba_first = Some (t, v), ba_last = Some (t, v),
       ba_samples = if collect then [(t, v)] else [], ba_collect = collect, ba_sketch = u\<rparr>"
    using u by (simp add: acc_describes_def)
  show "\<exists>c. acc_push F D S t v a = Inr c \<and> acc_holds F D S val collect sketching (xs @ [(t, v)]) c"
    using describes_append [OF laws a one s(2)] laws sk s(1) flag by (simp add: acc_push_fields acc_holds_def)
qed

lemma acc_new_holds:
  assumes "sum_laws D S val" "sketching \<longrightarrow> sketch_laws F"
  shows "acc_holds F D S val collect sketching [] (acc_new D collect (if sketching then Some (with_default_accuracy F) else None))"
proof -
  have "val (d_zero D) = 0" using sum_lawsD(1,2) [OF assms(1)] by (simp add: d_zero_def)
  then show ?thesis using assms sketch_holds_new [of F D] by (cases sketching) (simp_all add: acc_holds_def acc_describes_def acc_new_def)
qed

end
