(* ===== verification/Partials.thy ===== *)
theory Partials imports Reduce_Exact Decimal_Instance "HOL-Library.Multiset" begin

text \<open>
  Partial reductions as \<^verbatim>\<open>weft-reduce/src/lib.rs\<close> combines them: what one pass leaves in every bucket,
  and that merging, coarsening and re-keying partials agree with a pass over all the points. Two
  accumulators agree when every reduction of the code reads the same from them: the same count, equal
  sums and extremes as numbers, the same first and last sample, the samples of every instant in the same
  order, the same sketch.
\<close>

subsection \<open>One pass\<close>

definition kept :: "int option \<Rightarrow> int option \<Rightarrow> 'd point list \<Rightarrow> (int \<times> 'd) list" where
  "kept start end_ts points =
    map (\<lambda>p. (pt_timestamp p, pt_value p)) (filter (\<lambda>p. \<not> outside start end_ts (pt_timestamp p)) points)"

lemma kept_simps [simp]:
  "kept start end_ts [] = []"
  "kept start end_ts (p # points) =
    (if outside start end_ts (pt_timestamp p) then kept start end_ts points
     else (pt_timestamp p, pt_value p) # kept start end_ts points)"
  "kept start end_ts (points @ others) = kept start end_ts points @ kept start end_ts others"
  by (simp_all add: kept_def)

definition collecting :: "aggregation list \<Rightarrow> bool" where
  "collecting aggs \<longleftrightarrow> list_ex needs_full_bucket (requested aggs)"

definition sketching :: "aggregation list \<Rightarrow> bool" where
  "sketching aggs \<longleftrightarrow> list_ex (\<lambda>a. agg_sketch_quantile a \<noteq> None) (requested aggs)"

abbreviation bucketed ::
    "float_ops \<Rightarrow> 'd::ord decimal_ops \<Rightarrow> 'd sum_ops \<Rightarrow> ('d \<Rightarrow> rat) \<Rightarrow> bool \<Rightarrow> bool \<Rightarrow> (int \<Rightarrow> int) \<Rightarrow> (int \<times> 'd) list \<Rightarrow> 'd partial \<Rightarrow> bool" where
  "bucketed F D S val c k g xs p \<equiv> grouped (acc_holds F D S val c k) fst g xs p"

text \<open>A point pushed into the accumulator of its bucket, or into a new one.\<close>

lemma push_grouped:
  fixes D :: "'d::ord decimal_ops"
  assumes laws: "sum_laws D S val" "k \<longrightarrow> sketch_laws F" and m: "bucketed F D S val c k g zs m"
    and a: "acc_push F D S t v (case map_of m (g t) of Some a \<Rightarrow> a
      | None \<Rightarrow> acc_new D c (if k then Some (with_default_accuracy F) else None)) = Inr a"
  shows "bucketed F D S val c k g (zs @ [(t, v)]) (bt_insert (g t) a m)"
proof (rule grouped_put [OF m])
  have push: "acc_holds F D S val c k (xs @ [(t, v)]) a" if "acc_holds F D S val c k xs b" "acc_push F D S t v b = Inr a" for xs b
    using acc_push_holds [OF that(1), of v t] that(2) by (cases "k \<longrightarrow> sketchable F D v") auto
  show "case map_of m (g t) of None \<Rightarrow> acc_holds F D S val c k [(t, v)] a
    | Some b \<Rightarrow> \<forall>ws. same_in_time fst ws (filter (\<lambda>x. g (fst x) = g t) zs) \<and> acc_holds F D S val c k ws b \<longrightarrow>
        (\<exists>vs. same_in_time fst vs (ws @ [(t, v)]) \<and> acc_holds F D S val c k vs a)"
  proof (cases "map_of m (g t)")
    case None
    then show ?thesis using push [OF acc_new_holds [OF laws]] a by simp
  next
    case (Some b)
    then show ?thesis using push a by (auto intro!: exI [of _ "ws @ [(t, v)]" for ws])
  qed
qed simp_all

lemma reduce_loop_grouped:
  fixes D :: "'d::ord decimal_ops"
  assumes "sum_laws D S val" "k \<longrightarrow> sketch_laws F"
    and "bucketed F D S val c k (base_of T r) zs m" "reduce_loop F D S T r s e c k m points = Inr p"
  shows "bucketed F D S val c k (base_of T r) (zs @ kept s e points) p"
  using assms(3,4)
proof (induction points arbitrary: m zs)
  case (Cons q points)
  show ?case
  proof (cases "outside s e (pt_timestamp q)")
    case False
    then obtain b a where b: "bucket_index T r (pt_timestamp q) = Inr b"
      and a: "acc_push F D S (pt_timestamp q) (pt_value q) (case map_of m b of Some a \<Rightarrow> a
        | None \<Rightarrow> acc_new D c (if k then Some (with_default_accuracy F) else None)) = Inr a"
      and rest: "reduce_loop F D S T r s e c k (bt_insert b a m) points = Inr p"
      using Cons.prems(2) by (auto simp: Let_def split: sum.splits)
    have "b = base_of T r (pt_timestamp q)" using bucket_index_Inr(1) [OF b] .
    then show ?thesis
      using Cons.IH [OF push_grouped [OF assms(1,2) Cons.prems(1)]] a rest False by simp
  qed (use Cons in simp)
qed simp

lemma reduce_grouped:
  fixes D :: "'d::ord decimal_ops"
  assumes "sum_laws D S val" "sketching aggs \<longrightarrow> sketch_laws F"
    and "reduce_partial_decimal F D S T points r s e aggs = Inr p"
  shows "bucketed F D S val (collecting aggs) (sketching aggs) (base_of T r) (kept s e points) p"
  using reduce_loop_grouped [OF assms(1,2), of "collecting aggs" T r "[]" "[]" s e points p] assms(3)
  by (simp add: reduce_partial_decimal_def collecting_def sketching_def Let_def)

text \<open>The pass succeeds when every kept instant has an index and, for a sketch, every value a bucket.\<close>

lemma reduce_loop_total:
  fixes D :: "'d::ord decimal_ops"
  assumes "sum_laws D S val" "k \<longrightarrow> sketch_laws F" "bucketed F D S val c k (base_of T r) zs m"
    and "\<forall>x\<in>set (kept s e points). (\<exists>b. bucket_index T r (fst x) = Inr b) \<and> (k \<longrightarrow> sketchable F D (snd x))"
  shows "\<exists>p. reduce_loop F D S T r s e c k m points = Inr p"
  using assms(3,4)
proof (induction points arbitrary: m zs)
  case (Cons q points)
  let ?t = "pt_timestamp q" and ?v = "pt_value q"
  show ?case
  proof (cases "outside s e ?t")
    case False
    then obtain b where b: "bucket_index T r ?t = Inr b" and ok: "k \<longrightarrow> sketchable F D ?v" using Cons.prems(2) by auto
    let ?a = "case map_of m b of Some a \<Rightarrow> a | None \<Rightarrow> acc_new D c (if k then Some (with_default_accuracy F) else None)"
    have "\<exists>xs. acc_holds F D S val c k xs ?a"
      using groupedD [OF Cons.prems(1), of b] acc_new_holds [OF assms(1,2), of c] by (cases "map_of m b") auto
    then obtain a where a: "acc_push F D S ?t ?v ?a = Inr a" using acc_push_holds(1) ok by blast
    have "b = base_of T r ?t" using bucket_index_Inr(1) [OF b] .
    then show ?thesis
      using Cons.IH [OF push_grouped [OF assms(1,2) Cons.prems(1), of ?t ?v a]] Cons.prems(2) a b False by simp
  qed (use Cons in simp)
qed simp

lemma reduce_loop_conditions:
  fixes D :: "'d::ord decimal_ops"
  assumes "sum_laws D S val" "k \<longrightarrow> sketch_laws F" "bucketed F D S val c k (base_of T r) zs m"
    and "reduce_loop F D S T r s e c k m points = Inr p" "x \<in> set (kept s e points)"
  shows "(\<exists>b. bucket_index T r (fst x) = Inr b) \<and> (k \<longrightarrow> sketchable F D (snd x))"
  using assms(3-5)
proof (induction points arbitrary: m zs)
  case (Cons q points)
  let ?t = "pt_timestamp q" and ?v = "pt_value q"
  show ?case
  proof (cases "outside s e ?t")
    case False
    let ?a = "\<lambda>b. case map_of m b of Some a \<Rightarrow> a | None \<Rightarrow> acc_new D c (if k then Some (with_default_accuracy F) else None)"
    obtain b a where b: "bucket_index T r ?t = Inr b" and a: "acc_push F D S ?t ?v (?a b) = Inr a"
      and rest: "reduce_loop F D S T r s e c k (bt_insert b a m) points = Inr p"
      using Cons.prems(2) False by (auto simp: Let_def split: sum.splits)
    have eq: "b = base_of T r ?t" using bucket_index_Inr(1) [OF b] .
    have "\<exists>xs. acc_holds F D S val c k xs (?a b)"
      using groupedD [OF Cons.prems(1), of b] acc_new_holds [OF assms(1,2), of c] by (cases "map_of m b") auto
    then have "k \<longrightarrow> sketchable F D ?v" using acc_push_holds(2) a by fastforce
    then show ?thesis
      using Cons.IH [OF push_grouped [OF assms(1,2) Cons.prems(1), of ?t ?v a]] Cons.prems(3) a b eq rest False by auto
  qed (use Cons.IH [OF Cons.prems(1)] Cons.prems in simp)
qed simp

lemma reduce_total_iff:
  fixes D :: "'d::ord decimal_ops"
  assumes "sum_laws D S val" "sketching aggs \<longrightarrow> sketch_laws F"
  shows "(\<exists>p. reduce_partial_decimal F D S T points r s e aggs = Inr p) \<longleftrightarrow>
    (\<forall>x\<in>set (kept s e points). (\<exists>b. bucket_index T r (fst x) = Inr b) \<and> (sketching aggs \<longrightarrow> sketchable F D (snd x)))"
proof -
  have run: "reduce_partial_decimal F D S T points r s e aggs =
      reduce_loop F D S T r s e (collecting aggs) (sketching aggs) [] points"
    by (simp add: reduce_partial_decimal_def collecting_def sketching_def Let_def)
  have empty: "bucketed F D S val (collecting aggs) (sketching aggs) (base_of T r) [] []" by simp
  show ?thesis
    unfolding run using reduce_loop_total [OF assms empty] reduce_loop_conditions [OF assms empty] by blast
qed


subsection \<open>The samples of every instant in the same order\<close>

lemma same_in_time_mset:
  assumes "same_in_time key xs ys"
  shows "mset xs = mset ys"
proof (rule multiset_eqI)
  fix x
  have "count (mset zs) x = count (mset (filter (\<lambda>y. key y = key x) zs)) x" for zs by (simp add: mset_filter)
  then show "count (mset xs) x = count (mset ys) x" using assms by (metis same_in_time_def)
qed

lemma same_in_time_rev: "same_in_time key xs ys \<Longrightarrow> same_in_time key (rev xs) (rev ys)"
  by (simp add: same_in_time_def flip: rev_filter)

lemma same_in_time_sym: "same_in_time key xs ys \<Longrightarrow> same_in_time key ys xs"
  by (simp add: same_in_time_def)

lemma arg_min_first:
  fixes f :: "'x \<Rightarrow> 'k::linorder"
  assumes "xs \<noteq> []"
  shows "arg_min_list f xs = hd (filter (\<lambda>x. f x = f (arg_min_list f xs)) xs)"
  using assms
proof (induction f xs rule: arg_min_list.induct)
  case (2 f x y zs)
  let ?m = "arg_min_list f (y # zs)"
  have e: "arg_min_list f (x # y # zs) = (if f x \<le> f ?m then x else ?m)" by (simp add: Let_def)
  show ?case
  proof (cases "f x \<le> f ?m")
    case True
    then have "arg_min_list f (x # y # zs) = x" by (simp add: e)
    then show ?thesis by (simp only: filter.simps) simp
  next
    case False
    then have "arg_min_list f (x # y # zs) = ?m" "f x \<noteq> f ?m" by (auto simp: e)
    then show ?thesis using 2 by (simp only: filter.simps) simp
  qed
qed simp_all

lemma pick_min:
  fixes f :: "'x \<Rightarrow> 'k::linorder"
  shows "map_option f (pick f xs) = (if xs = [] then None else Some (Min (f ` set xs)))"
  by (simp add: pick_def f_arg_min_list_f)

lemma pick_first:
  fixes f :: "'x \<Rightarrow> 'k::linorder"
  shows "pick f xs = (if xs = [] then None else Some (hd (filter (\<lambda>x. f x = Min (f ` set xs)) xs)))"
  using arg_min_first [of xs f] by (simp add: pick_def f_arg_min_list_f)

lemma pick_same_in_time:
  assumes "same_in_time key xs ys"
  shows "pick key xs = pick key ys" "pick (\<lambda>x. - key x) xs = pick (\<lambda>x. - key x) ys"
proof -
  have "set xs = set ys" "xs = [] \<longleftrightarrow> ys = []"
    using same_in_time_set [OF assms] by auto
  moreover have "filter (\<lambda>x. - key x = t) xs = filter (\<lambda>x. - key x = t) ys" for t
  proof -
    have "(\<lambda>x. - key x = t) = (\<lambda>x. key x = - t)" by (simp add: fun_eq_iff) linarith
    then show ?thesis using assms by (simp add: same_in_time_def)
  qed
  ultimately show "pick key xs = pick key ys" "pick (\<lambda>x. - key x) xs = pick (\<lambda>x. - key x) ys"
    using assms by (simp_all add: pick_first same_in_time_def)
qed

lemma kept_commute:
  assumes "\<forall>x\<in>set xs. \<forall>y\<in>set ys. pt_timestamp x \<noteq> pt_timestamp y"
  shows "same_in_time fst (kept s e (ys @ xs)) (kept s e (xs @ ys))"
  unfolding same_in_time_def
proof
  fix t
  have times: "fst ` set (kept s e zs) \<subseteq> pt_timestamp ` set zs" for zs :: "'a point list"
    by (auto simp: kept_def)
  have "filter (\<lambda>x. fst x = t) (kept s e xs) = [] \<or> filter (\<lambda>x. fst x = t) (kept s e ys) = []"
    using assms times [of xs] times [of ys] by (fastforce simp: filter_empty_conv)
  then show "filter (\<lambda>x. fst x = t) (kept s e (ys @ xs)) = filter (\<lambda>x. fst x = t) (kept s e (xs @ ys))" by auto
qed

subsection \<open>Accumulators that agree\<close>

definition acc_agree :: "('d \<Rightarrow> rat) \<Rightarrow> 'd bucket_acc \<Rightarrow> 'd bucket_acc \<Rightarrow> bool" where
  "acc_agree val a b \<longleftrightarrow>
    ba_count a = ba_count b \<and> val (ba_sum a) = val (ba_sum b) \<and>
    map_option val (ba_min a) = map_option val (ba_min b) \<and> map_option val (ba_max a) = map_option val (ba_max b) \<and>
    ba_first a = ba_first b \<and> ba_last a = ba_last b \<and>
    same_in_time fst (ba_samples a) (ba_samples b) \<and> rel_option sketch_eq (ba_sketch a) (ba_sketch b)"

definition partial_agree :: "('d \<Rightarrow> rat) \<Rightarrow> 'd partial \<Rightarrow> 'd partial \<Rightarrow> bool" where
  "partial_agree val p q \<longleftrightarrow> list_all2 (\<lambda>x y. fst x = fst y \<and> acc_agree val (snd x) (snd y)) p q"

lemma tallied_mset:
  assumes "mset js = mset ks"
  shows "tallied s js = tallied s ks"
proof -
  have "tally g js = tally g ks" for g
  proof (rule bt_add_ext)
    have "length (filter P js) = length (filter P ks)" for P by (metis assms mset_filter size_mset)
    then show "bt_count (tally g js) = bt_count (tally g ks)" by (simp add: fun_eq_iff count_tally)
    have "set (filter P js) = set (filter P ks)" for P by (metis assms mset_filter set_mset_mset)
    then show "dom (map_of (tally g js)) = dom (map_of (tally g ks))" by (simp only: dom_tally)
  qed simp_all
  moreover have "length (filter P js) = length (filter P ks)" for P by (metis assms mset_filter size_mset)
  moreover have "length js = length ks" by (metis assms size_mset)
  ultimately show ?thesis by (simp add: tallied_def)
qed

lemma sketch_holds_agree:
  assumes "sketch_holds F D xs s" "sketch_holds F D ys t" "mset xs = mset ys"
  shows "sketch_eq s t"
proof -
  let ?s0 = "with_default_accuracy F" and ?f = "\<lambda>x. decimal_to_f64 F D (snd x)"
  obtain fs js c where x: "map ?f xs = map Some fs" "map (signed_index F (sk_log_gamma ?s0)) fs = map Inr js"
      "s = (tallied ?s0 js)\<lparr>sk_last_bin := c\<rparr>"
    using assms(1) by (auto simp: sketch_holds_def)
  obtain gs ks d where y: "map ?f ys = map Some gs" "map (signed_index F (sk_log_gamma ?s0)) gs = map Inr ks"
      "t = (tallied ?s0 ks)\<lparr>sk_last_bin := d\<rparr>"
    using assms(2) by (auto simp: sketch_holds_def)
  have "fs = map (the \<circ> ?f) xs" "gs = map (the \<circ> ?f) ys"
    using arg_cong [OF x(1), of "map the"] arg_cong [OF y(1), of "map the"] by (simp_all add: comp_def)
  moreover have "js = map (projr \<circ> signed_index F (sk_log_gamma ?s0)) fs" "ks = map (projr \<circ> signed_index F (sk_log_gamma ?s0)) gs"
    using arg_cong [OF x(2), of "map projr"] arg_cong [OF y(2), of "map projr"] by (simp_all add: comp_def)
  ultimately have "mset js = mset ks" using assms(3) by (simp add: mset_map)
  then show ?thesis using tallied_mset [of js ks ?s0] by (simp add: x(3) y(3) sketch_eq_def)
qed

lemma acc_holds_agree:
  fixes D :: "'d::ord decimal_ops"
  assumes "acc_holds F D S val c k xs a" "acc_holds F D S val c k ys b" "same_in_time fst xs ys"
  shows "acc_agree val a b"
proof -
  have a: "acc_describes F D val c k xs a" and b: "acc_describes F D val c k ys b"
    using assms(1,2) by (simp_all add: acc_holds_def)
  have ms: "mset xs = mset ys" using same_in_time_mset [OF assms(3)] .
  have "size (mset xs) = size (mset ys)" by (simp only: ms)
  then have sets: "set xs = set ys" "xs = [] \<longleftrightarrow> ys = []" "length xs = length ys"
    using same_in_time_set [OF assms(3)] by auto
  have "sum_mset (mset (map (\<lambda>x. val (snd x)) xs)) = sum_mset (mset (map (\<lambda>x. val (snd x)) ys))"
    by (simp only: mset_map ms)
  then have sum: "(\<Sum>x\<leftarrow>xs. val (snd x)) = (\<Sum>x\<leftarrow>ys. val (snd x))" by (simp only: sum_mset_sum_list)
  have least: "map_option val (ba_min a) = map_option val (ba_min b)"
    using a b pick_min [of "\<lambda>x. val (snd x)" xs] pick_min [of "\<lambda>x. val (snd x)" ys] sets
    by (simp add: acc_describes_def option.map_comp comp_def)
  have top: "map_option (\<lambda>x. val (snd x)) (pick (\<lambda>x. - val (snd x)) zs) = map_option uminus (if zs = [] then None else Some (Min ((\<lambda>x. - val (snd x)) ` set zs)))" for zs
    using arg_cong [OF pick_min [of "\<lambda>x. - val (snd x)" zs], of "map_option uminus"] by (simp add: option.map_comp comp_def)
  then have greatest: "map_option val (ba_max a) = map_option val (ba_max b)"
    using a b sets top [of xs] top [of ys] by (simp add: acc_describes_def option.map_comp comp_def)
  have sk: "rel_option sketch_eq (ba_sketch a) (ba_sketch b)"
    using a b sketch_holds_agree [OF _ _ ms] by (cases k) (auto simp: acc_describes_def)
  show ?thesis
    using a b least greatest sum sets(3) sk assms(3) pick_same_in_time(1) [OF assms(3)] pick_same_in_time(2) [OF same_in_time_rev [OF assms(3)]]
    by (simp add: acc_describes_def acc_agree_def)
qed

lemma grouped_agree:
  fixes D :: "'d::ord decimal_ops"
  assumes p: "bucketed F D S val c k g xs p" and q: "bucketed F D S val c k g ys q" and t: "same_in_time fst xs ys"
  shows "partial_agree val p q"
proof -
  have ok: "bt_ok p" "bt_ok q" using p q by (simp_all add: grouped_def)
  have "dom (map_of p) = dom (map_of q)" using p q same_in_time_set [OF t] by (simp add: grouped_def)
  then have "set (map fst p) = set (map fst q)" by (simp flip: dom_map_of_conv_image_fst)
  then have keys: "map fst p = map fst q"
    using ok by (intro sorted_distinct_set_unique) (simp_all add: bt_ok_def strict_sorted_iff)
  show ?thesis
    unfolding partial_agree_def list_all2_conv_all_nth
  proof (intro conjI allI impI)
    show "length p = length q" using arg_cong [OF keys, of length] by simp
    fix i assume i: "i < length p"
    then have j: "i < length q" using \<open>length p = length q\<close> by simp
    show key: "fst (p ! i) = fst (q ! i)" using keys i j by (metis nth_map)
    have "map_of p (fst (p ! i)) = Some (snd (p ! i))" "map_of q (fst (q ! i)) = Some (snd (q ! i))"
      using i j ok by (simp_all add: bt_distinct)
    then obtain us ws where "same_in_time fst us (filter (\<lambda>x. g (fst x) = fst (p ! i)) xs)" "acc_holds F D S val c k us (snd (p ! i))"
      "same_in_time fst ws (filter (\<lambda>x. g (fst x) = fst (q ! i)) ys)" "acc_holds F D S val c k ws (snd (q ! i))"
      using groupedD [OF p] groupedD [OF q] by metis
    then show "acc_agree val (snd (p ! i)) (snd (q ! i))"
      using key same_in_time_filter [OF t, of "\<lambda>t. g t = fst (q ! i)"]
      by (intro acc_holds_agree [of F D S val c k us _ ws]) (auto intro: same_in_time_trans same_in_time_sym)
  qed
qed


subsection \<open>Combining partials\<close>

lemma partial_merge_bucketed:
  fixes D :: "'d::ord decimal_ops"
  assumes "bucketed F D S val c k g xs p" "bucketed F D S val c k g ys q"
  shows "\<exists>m. partial_merge F S p q = Inr m \<and> bucketed F D S val c k g (xs @ ys) m"
  using acc.merge_entries_grouped [OF assms, of "\<lambda>b. b"] by (simp add: partial_merge_def)

lemma coarsen_bucketed:
  fixes D :: "'d::ord decimal_ops"
  assumes "bucketed F D S val c k g xs p" "0 < n"
  shows "\<exists>m. coarsen F S p n = Inr m \<and> bucketed F D S val c k (\<lambda>t. g t div int n) xs m"
proof (cases "n = 1")
  case True
  then show ?thesis using assms(1) by (simp add: coarsen_def)
next
  case False
  then have "\<not> n \<le> 1" using assms(2) by simp
  then show ?thesis
    using acc.merge_entries_grouped [of F D S val c k "\<lambda>t. g t div int n" "[]" "[]" g xs p "\<lambda>b. b div int n"] assms(1)
    by (simp add: coarsen_def)
qed

lemma rebucket_loop_merges:
  assumes "\<forall>x\<in>set p. \<exists>t. bucket_start T from (fst x) = Some t \<and> bucket_index T to t = Inr (h (fst x))"
  shows "rebucket_loop F S T from to out p = merge_entries (acc_merge F S) h out p"
  using assms
proof (induction p arbitrary: out)
  case (Cons x p)
  obtain b a where x: "x = (b, a)" by (cases x)
  obtain t where "bucket_start T from b = Some t" "bucket_index T to t = Inr (h b)" using Cons.prems by (auto simp: x)
  then show ?case using Cons by (cases "entry_merge (acc_merge F S) (h b) a out") (simp_all add: x)
qed simp

lemma grids_nest_seconds: "grids_nest T from to \<Longrightarrow> bucket_index T to t = Inr (base_of T to t)"
  by (auto simp: grids_nest_def bucket_index_def base_of_def split: option.splits)

lemma grids_nest_from_seconds: "grids_nest T from to \<Longrightarrow> bucket_index T from t = Inr (base_of T from t)"
  by (auto simp: grids_nest_def bucket_index_def base_of_def split: option.splits)

lemma rebucket_bucketed:
  fixes D :: "'d::ord decimal_ops"
  assumes "time_laws T" "grids_nest T from to" "bucketed F D S val c k (base_of T from) xs p"
    and start: "\<forall>x\<in>set xs. bucket_start T from (base_of T from (fst x)) \<noteq> None"
  shows "\<exists>m. rebucket F S T p from to = Inr (Some m) \<and> bucketed F D S val c k (base_of T to) xs m"
proof -
  let ?h = "\<lambda>b. base_of T to (b * to_step_nanos T from)"
  have regroup: "bucket_index T to s = Inr (base_of T to t)" if "bucket_start T from (base_of T from t) = Some s" for s t
    using bucket_index_regroups [OF assms(1,2) grids_nest_from_seconds [OF assms(2)] that] grids_nest_seconds [OF assms(2)] by simp
  have h: "base_of T to t = ?h (base_of T from t)" for t
  proof -
    obtain f g where f: "resolution_step_secs T from = Some f" and g: "resolution_step_secs T to = Some g" and "g mod f = 0"
      using assms(2) by (auto simp: grids_nest_def split: option.splits)
    then obtain q where q: "g = f * q" by (auto elim: dvdE simp: dvd_eq_mod_eq_0 [symmetric])
    have pos: "0 < f" "0 < q" using step_secs(1) [OF f] step_secs(1) [OF g] by (simp_all add: q zero_less_mult_iff)
    have "((t div nanos_per_second) sdiv f) * f sdiv g = (t div nanos_per_second) sdiv f sdiv q"
      using sdiv_sdiv [OF pos, of "((t div nanos_per_second) sdiv f) * f"] pos by (simp add: q)
    then have "((t div nanos_per_second) sdiv f) * f sdiv g = (t div nanos_per_second) sdiv g"
      using sdiv_sdiv [OF pos, of "t div nanos_per_second"] by (simp add: q)
    moreover have "x * (f * nanos_per_second) div nanos_per_second = x * f" for x
      by (simp add: nanos_per_second_def flip: mult.assoc)
    ultimately show ?thesis using f g step_secs(2) [OF f] by (simp add: base_of_def)
  qed
  have keys: "fst ` set p = (\<lambda>x. base_of T from (fst x)) ` set xs"
    using assms(3) by (simp add: grouped_def dom_map_of_conv_image_fst)
  have "\<exists>t. bucket_start T from (fst y) = Some t \<and> bucket_index T to t = Inr (?h (fst y))" if "y \<in> set p" for y
  proof -
    have "fst y \<in> (\<lambda>x. base_of T from (fst x)) ` set xs" using that by (simp flip: keys)
    then obtain x where x: "x \<in> set xs" "fst y = base_of T from (fst x)" by auto
    then obtain t where t: "bucket_start T from (fst y) = Some t" using start by auto
    have "?h (fst y) = base_of T to (fst x)" using h [of "fst x"] x(2) by simp
    then show ?thesis using regroup [OF t [unfolded x(2)]] t by simp
  qed
  then have "rebucket_loop F S T from to [] p = merge_entries (acc_merge F S) ?h [] p"
    by (intro rebucket_loop_merges) simp
  moreover obtain m where "merge_entries (acc_merge F S) ?h [] p = Inr m" "bucketed F D S val c k (base_of T to) xs m"
    using acc.merge_entries_grouped [where f = ?h, OF grouped_Nil assms(3) h] by auto
  ultimately show ?thesis using assms(2) by (simp add: rebucket_def)
qed

subsection \<open>One accumulator fed with the points of a bucket\<close>

fun acc_feed ::
    "float_ops \<Rightarrow> 'd::ord decimal_ops \<Rightarrow> 'd sum_ops \<Rightarrow> (int \<times> 'd) list \<Rightarrow> 'd bucket_acc \<Rightarrow> reduce_error + 'd bucket_acc" where
  "acc_feed F D S [] a = Inr a"
| "acc_feed F D S (x # xs) a = (case acc_push F D S (fst x) (snd x) a of Inl e \<Rightarrow> Inl e | Inr a \<Rightarrow> acc_feed F D S xs a)"

definition fresh_acc :: "float_ops \<Rightarrow> 'd decimal_ops \<Rightarrow> aggregation list \<Rightarrow> 'd bucket_acc" where
  "fresh_acc F D aggs = acc_new D (collecting aggs) (if sketching aggs then Some (with_default_accuracy F) else None)"

lemma acc_feed_holds:
  fixes D :: "'d::ord decimal_ops"
  assumes "acc_holds F D S val c k zs a" "k \<longrightarrow> (\<forall>x\<in>set xs. sketchable F D (snd x))"
  shows "\<exists>b. acc_feed F D S xs a = Inr b \<and> acc_holds F D S val c k (zs @ xs) b"
  using assms
proof (induction xs arbitrary: zs a)
  case (Cons x xs)
  obtain b where b: "acc_push F D S (fst x) (snd x) a = Inr b" "acc_holds F D S val c k (zs @ [x]) b"
    using acc_push_holds(1) [OF Cons.prems(1), of "snd x" "fst x"] Cons.prems(2) by auto
  then show ?case using Cons.IH [OF b(2)] Cons.prems(2) by simp
qed simp

lemma acc_holds_sketchable:
  assumes "acc_holds F D S val c True xs a" "x \<in> set xs"
  shows "sketchable F D (snd x)"
proof -
  let ?g = "signed_index F (sk_log_gamma (with_default_accuracy F))"
  obtain fs js where fs: "map (\<lambda>x. decimal_to_f64 F D (snd x)) xs = map Some fs" "map ?g fs = map Inr js"
    using assms(1) by (auto simp: acc_holds_def acc_describes_def sketch_holds_def)
  have "decimal_to_f64 F D (snd x) \<in> set (map Some fs)" using assms(2) by (simp flip: fs(1))
  then obtain f where f: "decimal_to_f64 F D (snd x) = Some f" "f \<in> set fs" by auto
  have "?g f \<in> set (map Inr js)" using f(2) by (simp flip: fs(2))
  then show ?thesis using f(1) by (auto simp: sketchable_def)
qed

lemma bucketed_fed:
  fixes D :: "'d::ord decimal_ops"
  assumes "sum_laws D S val" "sketching aggs \<longrightarrow> sketch_laws F"
    and "bucketed F D S val (collecting aggs) (sketching aggs) g xs m" "(b, a) \<in> set m"
  shows "\<exists>c. acc_feed F D S (filter (\<lambda>x. g (fst x) = b) xs) (fresh_acc F D aggs) = Inr c \<and> acc_agree val a c"
proof -
  have "map_of m b = Some a" using assms(3,4) by (intro bt_lookup) (simp_all add: grouped_def)
  then obtain ys where ys: "same_in_time fst ys (filter (\<lambda>x. g (fst x) = b) xs)"
      "acc_holds F D S val (collecting aggs) (sketching aggs) ys a"
    using groupedD [OF assms(3)] by blast
  have "sketching aggs \<longrightarrow> (\<forall>x\<in>set (filter (\<lambda>x. g (fst x) = b) xs). sketchable F D (snd x))"
    using acc_holds_sketchable [of F D S val "collecting aggs" ys a] ys(2) same_in_time_set [OF ys(1)] by auto
  from acc_feed_holds [OF acc_new_holds [OF assms(1,2), of "collecting aggs"] this]
  obtain c where "acc_feed F D S (filter (\<lambda>x. g (fst x) = b) xs) (fresh_acc F D aggs) = Inr c"
    "acc_holds F D S val (collecting aggs) (sketching aggs) (filter (\<lambda>x. g (fst x) = b) xs) c"
    unfolding fresh_acc_def by auto
  then show ?thesis using acc_holds_agree [OF ys(2) _ ys(1)] by blast
qed


lemma kept_width_index:
  fixes D :: "'d::ord decimal_ops"
  assumes "sum_laws D S val" "sketching aggs \<longrightarrow> sketch_laws F"
    and "reduce_partial_decimal F D S T points r s e aggs = Inr p" "x \<in> set (kept s e points)"
  shows "width_index T \<lparr>bw_unit = r, bw_count = n\<rparr> (fst x) = Inr (base_of T r (fst x) div int n)"
proof -
  obtain b where b: "bucket_index T r (fst x) = Inr b"
    using reduce_total_iff [OF assms(1,2), of T points r s e] assms(3,4) by blast
  then show ?thesis using bucket_index_Inr(1) [OF b] by (simp add: width_index_def)
qed

end
