(* ===== verification/Finished.thy ===== *)
theory Finished imports Partials begin

text \<open>
  The buckets a partial reduction finishes into: which number each reduction of
  \<^verbatim>\<open>weft-reduce/src/lib.rs\<close> reports for the points of a bucket, the nearest-rank percentiles included.
\<close>

subsection \<open>Sorting by rank\<close>

lemma mset_insert_by [simp]: "mset (insert_by le x xs) = add_mset x (mset xs)"
  by (induction le x xs rule: insert_by.induct) auto

lemma mset_sort_by [simp]: "mset (sort_by le xs) = mset xs"
  by (induction xs) (simp_all add: sort_by_def)

lemma length_sort_by [simp]: "length (sort_by le xs) = length xs"
  by (metis mset_sort_by size_mset)

lemma sorted_insert_by:
  assumes "sorted_wrt le ys" "\<And>a b. le a b \<or> le b a" "\<And>a b c. le a b \<Longrightarrow> le b c \<Longrightarrow> le a c"
  shows "sorted_wrt le (insert_by le x ys)"
  using assms(1)
proof (induction ys)
  case (Cons y ys)
  have set: "set (insert_by le x ys) = insert x (set ys)"
    by (metis mset_insert_by set_mset_add_mset_insert set_mset_mset)
  show ?case
  proof (cases "le x y")
    case True
    then show ?thesis using Cons.prems assms(3) [of x y] by auto
  next
    case False
    then show ?thesis using Cons assms(2) [of x y] by (auto simp: set)
  qed
qed simp

lemma sorted_sort_by:
  assumes "\<And>a b. le a b \<or> le b a" "\<And>a b c. le a b \<Longrightarrow> le b c \<Longrightarrow> le a c"
  shows "sorted_wrt le (sort_by le xs)"
proof (induction xs)
  case (Cons x xs)
  have "sorted_wrt le (insert_by le x (sort_by le xs))"
    by (rule sorted_insert_by [OF Cons assms])
  then show ?case by (simp add: sort_by_def)
qed (simp add: sort_by_def)

text \<open>The nearest rank: at most \<open>rank\<close> hundredths of the samples, less one sample, lie below the value, and at
  least \<open>rank\<close> hundredths do not lie above it.\<close>

definition nearest_rank :: "('d \<Rightarrow> rat) \<Rightarrow> nat \<Rightarrow> 'd list \<Rightarrow> 'd \<Rightarrow> bool" where
  "nearest_rank val rank vs v \<longleftrightarrow> v \<in> set vs \<and>
    100 * length (filter (\<lambda>w. val w < val v) vs) < rank * length vs \<and>
    rank * length vs \<le> 100 * length (filter (\<lambda>w. val w \<le> val v) vs)"

lemma sorted_rank_counts:
  fixes f :: "'x \<Rightarrow> rat"
  assumes "sorted (map f xs)" "i < length xs"
  shows "length (filter (\<lambda>x. f x < f (xs ! i)) xs) \<le> i" "i < length (filter (\<lambda>x. f x \<le> f (xs ! i)) xs)"
proof -
  have le: "f (xs ! j) \<le> f (xs ! k)" if "j \<le> k" "k < length xs" for j k
    using sorted_nth_mono [OF assms(1), of j k] that by simp
  have split: "length (filter P xs) = length (filter P (take k xs)) + length (filter P (drop k xs))" for P k
  proof -
    have "length (filter P (take k xs @ drop k xs)) = length (filter P (take k xs)) + length (filter P (drop k xs))"
      by (simp only: filter_append length_append)
    then show ?thesis by (simp only: append_take_drop_id)
  qed
  have "filter (\<lambda>x. f x < f (xs ! i)) (drop i xs) = []"
    using le by (auto simp: filter_empty_conv in_set_conv_nth not_less)
  moreover have "length (filter (\<lambda>x. f x < f (xs ! i)) (take i xs)) \<le> i"
    using length_filter_le [of _ "take i xs"] assms(2) by (simp add: min_def split: if_splits)
  ultimately show "length (filter (\<lambda>x. f x < f (xs ! i)) xs) \<le> i" unfolding split [of _ i] by simp
  have "filter (\<lambda>x. f x \<le> f (xs ! i)) (take (Suc i) xs) = take (Suc i) xs"
    using le assms(2) by (auto simp: filter_id_conv in_set_conv_nth less_Suc_eq_le)
  then show "i < length (filter (\<lambda>x. f x \<le> f (xs ! i)) xs)" using assms(2) unfolding split [of _ "Suc i"] by simp
qed

lemma div_ceil_hundred:
  assumes "0 < m"
  shows "m \<le> 100 * div_ceil m 100 \<and> 100 * (div_ceil m 100 - 1) < m \<and> 0 < div_ceil m 100"
proof -
  obtain q r where "m div 100 = q" "m mod 100 = r" by blast
  moreover from this have "m = 100 * q + r" "r < 100" by auto
  ultimately show ?thesis using assms by (auto simp: div_ceil_def)
qed

lemma percentile_index_bounds:
  assumes "0 < rank" "rank \<le> 100" "0 < n"
  shows "percentile_index rank n < n" "100 * percentile_index rank n < rank * n" "rank * n \<le> 100 * (percentile_index rank n + 1)"
proof -
  let ?k = "div_ceil (rank * n) 100"
  have pos: "0 < rank * n" using assms by simp
  have up: "rank * n \<le> 100 * ?k" "100 * (?k - 1) < rank * n" "0 < ?k"
    using div_ceil_hundred [OF pos] by simp_all
  have "rank * n \<le> 100 * n" using assms(2) by simp
  then have "?k \<le> n" using up(2) by linarith
  then have "percentile_index rank n = ?k - 1" by (simp add: percentile_index_def)
  then show "percentile_index rank n < n" "100 * percentile_index rank n < rank * n" "rank * n \<le> 100 * (percentile_index rank n + 1)"
    using up \<open>?k \<le> n\<close> by simp_all
qed

lemma percentile_nearest_rank:
  fixes samples :: "('d::ord \<times> nat) list"
  assumes "\<And>x y :: 'd. x < y \<longleftrightarrow> val x < (val y :: rat)" "samples \<noteq> []" "0 < rank" "rank \<le> 100"
  shows "\<exists>v. percentile (if presorted then sort_by rank_order samples else samples) rank presorted = Some v \<and>
    nearest_rank val rank (map fst samples) v"
proof -
  let ?s = "sort_by rank_order samples"
  let ?i = "percentile_index rank (length samples)"
  note i = percentile_index_bounds [OF assms(3,4), of "length samples"]
  have "sorted_wrt rank_order ?s"
    by (rule sorted_sort_by) (auto simp: rank_order_def assms(1))
  then have sorted: "sorted (map (\<lambda>x. val (fst x)) ?s)"
    by (simp add: sorted_map) (erule sorted_wrt_mono_rel [rotated], auto simp: rank_order_def assms(1))
  have ms: "mset (map fst ?s) = mset (map fst samples)" by (simp only: mset_map mset_sort_by)
  have count: "length (filter P (map fst samples)) = length (filter (\<lambda>x. P (fst x)) ?s)" for P
  proof -
    have "length (filter P (map fst samples)) = length (filter P (map fst ?s))" by (metis ms mset_filter size_mset)
    then show ?thesis by (simp add: filter_map comp_def)
  qed
  have "?i < length ?s" using i(1) assms(2) by simp
  then have "fst (?s ! ?i) \<in> set (map fst ?s)" by simp
  then have "fst (?s ! ?i) \<in> set (map fst samples)" by (metis ms set_mset_mset)
  then have "nearest_rank val rank (map fst samples) (fst (?s ! ?i))"
    using sorted_rank_counts [OF sorted \<open>?i < length ?s\<close>] i(2,3) assms(2)
    unfolding nearest_rank_def count by simp
  moreover have "?s \<noteq> []" using assms(2) by (metis length_0_conv length_sort_by)
  ultimately show ?thesis using assms(2) by (simp add: percentile_def Let_def)
qed


subsection \<open>The map of reported values\<close>

lemma token_of_name: "agg_from_token (agg_as_str a) = Some a"
  by (induction a) code_simp+

lemma agg_as_str_eq [simp]: "agg_as_str a = agg_as_str b \<longleftrightarrow> a = b"
  by (metis option.inject token_of_name)

lemma map_of_reported:
  "map_of (foldl (\<lambda>m g. case f g of Some v \<Rightarrow> bt_insert (agg_as_str g) v m | None \<Rightarrow> m) m0 aggs) (agg_as_str a) =
    (if a \<in> set aggs \<and> f a \<noteq> None then f a else map_of m0 (agg_as_str a))"
  by (induction aggs arbitrary: m0) (auto split: option.splits)

lemma acc_finish_Inr:
  assumes "acc_finish F D S T w b aggs a = Inr bk"
  defines "percentiles \<equiv> length (filter (\<lambda>a. percentile_rank a \<noteq> None) aggs)"
    and "values0 \<equiv> zip (map snd (ba_samples a)) [0..<length (ba_samples a)]"
  shows "width_start T w b = Some (bk_timestamp bk)" "bk_count bk = ba_count a"
    and "g \<in> set aggs \<Longrightarrow> map_of (bk_values bk) (agg_as_str g) =
      agg_value F D S T w b (1 < percentiles)
        (if 0 < percentiles then Some (if 1 < percentiles then sort_by rank_order values0 else values0) else None) a g"
    and "g \<notin> set aggs \<Longrightarrow> map_of (bk_values bk) (agg_as_str g) = None"
  using assms(1) unfolding acc_finish_def Let_def percentiles_def values0_def
  by (auto simp: map_of_reported split: option.splits if_split_asm)

text \<open>What a finished bucket reports of the samples \<open>xs\<close> that fell in it.\<close>

definition bucket_reports ::
    "'d decimal_ops \<Rightarrow> 'd sum_ops \<Rightarrow> ('d \<Rightarrow> rat) \<Rightarrow> aggregation list \<Rightarrow> (int \<times> 'd) list \<Rightarrow> 'd bucket \<Rightarrow> bool" where
  "bucket_reports D S val aggs xs bk \<longleftrightarrow>
    bk_count bk = length xs \<and>
    (AggMin \<in> set aggs \<longrightarrow> (\<exists>x\<in>set xs. map_of (bk_values bk) ''min'' = Some (snd x) \<and> (\<forall>y\<in>set xs. val (snd x) \<le> val (snd y)))) \<and>
    (AggMax \<in> set aggs \<longrightarrow> (\<exists>x\<in>set xs. map_of (bk_values bk) ''max'' = Some (snd x) \<and> (\<forall>y\<in>set xs. val (snd y) \<le> val (snd x)))) \<and>
    (AggSum \<in> set aggs \<longrightarrow> (\<exists>v. map_of (bk_values bk) ''sum'' = Some v \<and> val v = (\<Sum>x\<leftarrow>xs. val (snd x)))) \<and>
    (AggAvg \<in> set aggs \<longrightarrow> (\<exists>v. map_of (bk_values bk) ''avg'' = Some (avg_of_sum D S v (length xs)) \<and> val v = (\<Sum>x\<leftarrow>xs. val (snd x)))) \<and>
    (AggFirst \<in> set aggs \<longrightarrow> map_of (bk_values bk) ''first'' = Some (snd (hd (filter (\<lambda>x. fst x = Min (fst ` set xs)) xs)))) \<and>
    (AggLast \<in> set aggs \<longrightarrow> map_of (bk_values bk) ''last'' = Some (snd (last (filter (\<lambda>x. fst x = Max (fst ` set xs)) xs)))) \<and>
    (\<forall>g\<in>set aggs. \<forall>rank. percentile_rank g = Some rank \<longrightarrow>
      (\<exists>v. map_of (bk_values bk) (agg_as_str g) = Some v \<and> nearest_rank val rank (map snd xs) v)) \<and>
    (\<forall>g. g \<notin> set aggs \<longrightarrow> map_of (bk_values bk) (agg_as_str g) = None)"

lemma nearest_rank_mset:
  assumes "mset vs = mset ws"
  shows "nearest_rank val rank vs v = nearest_rank val rank ws v"
proof -
  have "length (filter P vs) = length (filter P ws)" for P by (metis assms mset_filter size_mset)
  moreover have "set vs = set ws" "length vs = length ws" by (metis assms set_mset_mset) (metis assms size_mset)
  ultimately show ?thesis by (simp add: nearest_rank_def)
qed

lemma pick_member: "pick f xs = Some x \<Longrightarrow> x \<in> set xs"
  by (auto simp: pick_def split: if_splits intro: arg_min_list_in)

lemma pick_least:
  fixes f :: "'x \<Rightarrow> 'k::linorder"
  assumes "pick f xs = Some x" "y \<in> set xs"
  shows "f x \<le> f y"
  using pick_min [of f xs] assms by (auto split: if_splits)

lemma last_of_pick:
  fixes xs :: "(int \<times> 'd) list"
  assumes "xs \<noteq> []"
  shows "pick (\<lambda>x. - fst x) (rev xs) = Some (last (filter (\<lambda>x. fst x = Max (fst ` set xs)) xs))"
proof -
  have least: "Min ((\<lambda>x. - fst x) ` set xs) = - Max (fst ` set xs)"
  proof (rule Min_eqI)
    have "Max (fst ` set xs) \<in> fst ` set xs" using assms by (intro Max_in) auto
    then show "- Max (fst ` set xs) \<in> (\<lambda>x. - fst x) ` set xs" by force
    show "- Max (fst ` set xs) \<le> t" if "t \<in> (\<lambda>x. - fst x) ` set xs" for t
      using that by (force intro!: Max_ge)
  qed simp
  have "filter (\<lambda>x. - fst x = - Max (fst ` set xs)) (rev xs) = rev (filter (\<lambda>x. fst x = Max (fst ` set xs)) xs)"
    by (simp add: rev_filter)
  then show ?thesis unfolding pick_first set_rev least using assms by (simp add: hd_rev)
qed

lemma percentile_rank_range: "percentile_rank g = Some rank \<Longrightarrow> 0 < rank \<and> rank \<le> 100"
  by (cases g) auto

lemma finished_reports:
  fixes D :: "'d::ord decimal_ops"
  assumes "acc_holds F D S val c k ys a" "same_in_time fst ys xs" "xs \<noteq> []" "list_ex needs_full_bucket aggs \<longrightarrow> c"
    and fin: "acc_finish F D S T w b aggs a = Inr bk"
  shows "bucket_reports D S val aggs xs bk"
proof -
  have a: "acc_describes F D val c k ys a" and laws: "sum_laws D S val" using assms(1) by (simp_all add: acc_holds_def)
  have ms: "mset ys = mset xs" using same_in_time_mset [OF assms(2)] .
  have sets: "set ys = set xs" using same_in_time_set [OF assms(2)] .
  then have ne: "ys \<noteq> []" using assms(3) by auto
  have len: "length ys = length xs" by (metis ms size_mset)
  have "sum_mset (mset (map (\<lambda>x. val (snd x)) ys)) = sum_mset (mset (map (\<lambda>x. val (snd x)) xs))" by (simp only: mset_map ms)
  then have sums: "val (ba_sum a) = (\<Sum>x\<leftarrow>xs. val (snd x))" using a by (simp only: sum_mset_sum_list acc_describes_def)
  note fin = acc_finish_Inr [OF fin]
  have count: "ba_count a = length xs" using a len by (simp add: acc_describes_def)
  obtain x where x: "pick (\<lambda>x. val (snd x)) ys = Some x" using ne by (cases "pick (\<lambda>x. val (snd x)) ys") auto
  obtain y where y: "pick (\<lambda>x. - val (snd x)) ys = Some y" using ne by (cases "pick (\<lambda>x. - val (snd x)) ys") auto
  have lo: "ba_min a = Some (snd x)" and hi: "ba_max a = Some (snd y)" using a x y by (simp_all add: acc_describes_def)
  have first: "ba_first a = Some (hd (filter (\<lambda>x. fst x = Min (fst ` set xs)) xs))"
    using a pick_same_in_time(1) [OF assms(2)] assms(3) by (simp add: acc_describes_def pick_first)
  have last: "ba_last a = Some (last (filter (\<lambda>x. fst x = Max (fst ` set xs)) xs))"
    using a pick_same_in_time(2) [OF same_in_time_rev [OF assms(2)]] last_of_pick [OF assms(3)] by (simp add: acc_describes_def)
  have ranked: "\<exists>v. map_of (bk_values bk) (agg_as_str g) = Some v \<and> nearest_rank val rank (map snd xs) v"
    if g: "g \<in> set aggs" "percentile_rank g = Some rank" for g rank
  proof -
    let ?p = "length (filter (\<lambda>a. percentile_rank a \<noteq> None) aggs)"
    let ?z = "zip (map snd (ba_samples a)) [0..<length (ba_samples a)]"
    have "filter (\<lambda>a. percentile_rank a \<noteq> None) aggs \<noteq> []" using g by (auto simp: filter_empty_conv)
    then have p: "0 < ?p" by simp
    have c using assms(4) g by (auto simp: list_ex_iff needs_full_bucket_def)
    then have samples: "ba_samples a = ys" using a by (simp add: acc_describes_def)
    have "map_of (bk_values bk) (agg_as_str g) = percentile (if 1 < ?p then sort_by rank_order ?z else ?z) rank (1 < ?p)"
      using fin(3) [OF g(1)] p g(2) by (simp add: agg_value_def)
    moreover obtain z where z: "?z = z" "z \<noteq> []" "map fst z = map snd ys" using ne samples by auto
    ultimately obtain v where "map_of (bk_values bk) (agg_as_str g) = Some v" "nearest_rank val rank (map snd ys) v"
      using percentile_nearest_rank [of val z rank "1 < ?p"] sum_lawsD(4) [OF laws] percentile_rank_range [OF g(2)]
      unfolding z by (metis z(3))
    then show ?thesis using nearest_rank_mset [of "map snd ys" "map snd xs"] ms by (simp add: mset_map)
  qed
  show ?thesis
    unfolding bucket_reports_def
  proof (intro conjI impI ballI allI)
    show "bk_count bk = length xs" using fin(2) count by simp
    show "\<exists>x\<in>set xs. map_of (bk_values bk) ''min'' = Some (snd x) \<and> (\<forall>y\<in>set xs. val (snd x) \<le> val (snd y))" if "AggMin \<in> set aggs"
      using fin(3) [OF that] pick_member [OF x] pick_least [OF x] lo sets by (intro bexI [of _ x]) (auto simp: agg_value_def)
    show "\<exists>x\<in>set xs. map_of (bk_values bk) ''max'' = Some (snd x) \<and> (\<forall>y\<in>set xs. val (snd y) \<le> val (snd x))" if "AggMax \<in> set aggs"
      using fin(3) [OF that] pick_member [OF y] pick_least [OF y] hi sets by (intro bexI [of _ y]) (auto simp: agg_value_def)
    show "\<exists>v. map_of (bk_values bk) ''sum'' = Some v \<and> val v = (\<Sum>x\<leftarrow>xs. val (snd x))" if "AggSum \<in> set aggs"
      using fin(3) [OF that] sums by (simp add: agg_value_def)
    show "\<exists>v. map_of (bk_values bk) ''avg'' = Some (avg_of_sum D S v (length xs)) \<and> val v = (\<Sum>x\<leftarrow>xs. val (snd x))" if "AggAvg \<in> set aggs"
      using fin(3) [OF that] sums count assms(3) by (auto simp: agg_value_def)
    show "map_of (bk_values bk) ''first'' = Some (snd (hd (filter (\<lambda>x. fst x = Min (fst ` set xs)) xs)))" if "AggFirst \<in> set aggs"
      using fin(3) [OF that] first by (simp add: agg_value_def)
    show "map_of (bk_values bk) ''last'' = Some (snd (List.last (filter (\<lambda>x. fst x = Max (fst ` set xs)) xs)))" if "AggLast \<in> set aggs"
      using fin(3) [OF that] last by (simp add: agg_value_def)
    show "map_of (bk_values bk) (agg_as_str g) = None" if "g \<notin> set aggs" for g using fin(4) [OF that] .
  qed (use ranked in blast)
qed

subsection \<open>All buckets of a reduction\<close>

lemma finish_loop_all:
  assumes "finish_loop F D S T w aggs p = Inr bs"
  shows "list_all2 (\<lambda>x bk. acc_finish F D S T w (fst x) aggs (snd x) = Inr bk) p bs"
  using assms by (induction p arbitrary: bs) (auto split: sum.splits)

lemma finish_width_reports:
  fixes D :: "'d::ord decimal_ops"
  assumes "bucketed F D S val (collecting aggs) k g xs p" "finish_width F D S T p w aggs = Inr bs"
  shows "list_all2 (\<lambda>b bk. width_start T w b = Some (bk_timestamp bk) \<and>
      bucket_reports D S val (requested aggs) (filter (\<lambda>x. g (fst x) = b) xs) bk) (map fst p) bs"
proof -
  have all: "list_all2 (\<lambda>x bk. acc_finish F D S T w (fst x) (requested aggs) (snd x) = Inr bk) p bs"
    using finish_loop_all assms(2) by (simp add: finish_width_def)
  have "width_start T w (fst x) = Some (bk_timestamp bk) \<and> bucket_reports D S val (requested aggs) (filter (\<lambda>y. g (fst y) = fst x) xs) bk"
    if "x \<in> set p" "acc_finish F D S T w (fst x) (requested aggs) (snd x) = Inr bk" for x bk
  proof -
    have "map_of p (fst x) = Some (snd x)" using assms(1) that(1) by (intro bt_lookup) (simp_all add: grouped_def)
    moreover from this obtain ys where ys: "same_in_time fst ys (filter (\<lambda>y. g (fst y) = fst x) xs)"
        "acc_holds F D S val (collecting aggs) k ys (snd x)"
      using groupedD [OF assms(1)] by blast
    ultimately have "fst x \<in> (\<lambda>y. g (fst y)) ` set xs" using assms(1) by (auto simp: grouped_def)
    then have "filter (\<lambda>y. g (fst y) = fst x) xs \<noteq> []" by (force simp: filter_empty_conv)
    then show ?thesis
      using finished_reports [OF ys(2,1) _ _ that(2)] acc_finish_Inr(1) [OF that(2)] by (simp add: collecting_def)
  qed
  then show ?thesis using all by (auto simp: list_all2_conv_all_nth)
qed


lemma finish_width_total:
  assumes "\<forall>b\<in>set (map fst p). width_start T w b \<noteq> None"
  shows "\<exists>bs. finish_width F D S T p w aggs = Inr bs"
proof -
  have "\<exists>bs. finish_loop F D S T w g p = Inr bs" for g
    using assms by (induction p) (auto simp: acc_finish_def Let_def)
  then show ?thesis by (simp add: finish_width_def)
qed

end
