(* ===== verification/Reduce_Instance.thy ===== *)
theory Reduce_Instance imports Partials begin

text \<open>
  Parameters that satisfy the laws the reductions rely on: the remaining operations of the exact decimals
  of Decimal_Instance, with a division of a hundred digits, the time units, and a float arithmetic. The
  definitions of the development take these as arguments; the ones here are given to them where a
  statement is applied to concrete points.
\<close>

subsection \<open>Decimals\<close>

fun decimal_neg :: "decimal \<Rightarrow> decimal" where
  "decimal_neg (Decimal m s) = Decimal (- m) s"

definition decimal_add :: "decimal \<Rightarrow> decimal \<Rightarrow> decimal" where
  "decimal_add x y = decimal_sub x (decimal_neg y)"

fun decimal_div :: "decimal \<Rightarrow> decimal \<Rightarrow> decimal" where
  "decimal_div (Decimal m s) (Decimal n t) =
    (if m = 0 \<or> n = 0 then Decimal 0 s
     else let (q, u) = long_division (nat \<bar>m\<bar>) (s - t) (nat \<bar>n\<bar>) in Decimal (sgn (m * n) * int q) u)"

definition plain_sum_ops :: "decimal sum_ops" where
  "plain_sum_ops = \<lparr>so_add = decimal_add, so_neg = decimal_neg, so_div = decimal_div\<rparr>"

lemma decimal_val_neg: "decimal_val (decimal_neg x) = - decimal_val x"
  by (cases x) simp

lemma decimal_div_two:
  assumes "\<bar>m\<bar> < 10 ^ 98" "\<bar>sint s\<bar> < 2 ^ 62"
  shows "decimal_val (decimal_div (Decimal m s) (Decimal 2 0)) = decimal_val (Decimal m s) / 2"
proof (cases "m = 0")
  case False
  obtain q u where qu: "long_division (nat \<bar>m\<bar>) s 2 = (q, u)" by fastforce
  have "nat \<bar>m\<bar> < 10 ^ 98" using assms(1) by (simp add: nat_less_iff)
  then have "dec_digits (nat \<bar>m\<bar>) < 99" using dec_digits_le [of "nat \<bar>m\<bar>" 98] by simp
  then obtain k where k: "k \<le> 120" "u = s + of_nat k" "of_nat q = (of_nat (nat \<bar>m\<bar> * 10 ^ k) / of_nat 2 :: rat)"
    using long_division_value(2) [OF _ _ _ qu] False by auto
  have "sint u = sint s + int k" using sint_scale_plus [of s k] k(1,2) assms(2) by simp
  moreover have "of_int (sgn m) * of_nat (nat \<bar>m\<bar>) = (of_int m :: rat)"
    by (cases "0 < m") (use False in \<open>auto simp: sgn_if\<close>)
  ultimately show ?thesis
    using False qu k(3) powi_shift [of "sint s" k] by (simp add: sgn_mult flip: mult.assoc)
qed simp

lemma plain_sum_laws: "sum_laws plain_decimal_ops plain_sum_ops decimal_val"
  unfolding sum_laws_def
proof (intro conjI allI impI)
  fix x y :: decimal
  show "x < y \<longleftrightarrow> decimal_val x < decimal_val y" by (simp add: less_decimal_def)
  show "decimal_val (so_add plain_sum_ops x y) = decimal_val x + decimal_val y"
    using decimal_lawsD(3) [OF plain_decimal_laws, of x "decimal_neg y"]
    by (simp add: plain_sum_ops_def decimal_add_def plain_ops_simps decimal_val_neg)
next
  fix x :: decimal
  assume "short_decimal plain_decimal_ops x"
  then show "decimal_val (so_div plain_sum_ops x (d_new plain_decimal_ops 2 0)) = decimal_val x / 2"
    using decimal_div_two by (cases x) (simp add: short_decimal_def plain_ops_simps plain_sum_ops_def del: decimal_div.simps decimal_val.simps)
next
  fix x y :: decimal and n
  assume "d_parts plain_decimal_ops y = (n, 0)"
  then show "decimal_val (d_mul plain_decimal_ops x y) = decimal_val x * of_int n"
    by (rule decimal_lawsD(4) [OF plain_decimal_laws])
next
  fix x :: decimal and m s
  assume "d_parts plain_decimal_ops x = (m, s)"
  then show "decimal_val x = of_int m * 10 powi (- sint s)" by (rule decimal_lawsD(2) [OF plain_decimal_laws])
next
  fix x :: decimal and m s
  assume "d_parts plain_decimal_ops x = (m, s)"
  then show "d_parts plain_decimal_ops (so_neg plain_sum_ops x) = (- m, s)"
    by (cases x) (simp add: plain_ops_simps plain_sum_ops_def)
qed (simp add: plain_ops_simps)

subsection \<open>Time units\<close>

datatype time_step = Nanos | Micros | Millis | Secs | Mins | Hours | Days | Weeks | Months | Years

fun step_of :: "time_step \<Rightarrow> int" where
  "step_of Nanos = 1"
| "step_of Micros = 1000"
| "step_of Millis = 1000000"
| "step_of Secs = 1000000000"
| "step_of Mins = 60000000000"
| "step_of Hours = 3600000000000"
| "step_of Days = 86400000000000"
| "step_of Weeks = 604800000000000"
| "step_of Months = 2592000000000000"
| "step_of Years = 31536000000000000"

definition step_names :: "(string \<times> time_step) list" where
  "step_names =
    [(''nanoseconds'', Nanos), (''microseconds'', Micros), (''milliseconds'', Millis), (''seconds'', Secs),
     (''minutes'', Mins), (''hours'', Hours), (''days'', Days), (''weeks'', Weeks), (''months'', Months), (''years'', Years)]"

definition plain_time_ops :: "time_step time_ops" where
  "plain_time_ops =
    \<lparr>to_step_nanos = step_of, to_representable = (\<lambda>t. \<bar>t\<bar> < 8000000000000000000000),
     to_parse = map_of step_names, to_name = (\<lambda>r. the (map_of (map (\<lambda>(n, s). (s, n)) step_names) r)),
     to_nanoseconds = Nanos, to_microseconds = Micros, to_milliseconds = Millis, to_seconds = Secs, to_minutes = Mins,
     to_hours = Hours, to_days = Days, to_weeks = Weeks\<rparr>"

lemma plain_time_laws: "time_laws plain_time_ops"
  unfolding time_laws_def
proof
  fix r :: time_step
  show "0 < to_step_nanos plain_time_ops r \<and> to_step_nanos plain_time_ops r < 2 ^ 63"
    by (cases r) (simp_all add: plain_time_ops_def)
qed

subsection \<open>Floats\<close>

text \<open>A coarse arithmetic: sums and quotients keep their first operand, products are zero, and the integral
  part read from a float is its exponent. The buckets of the sketch are then the powers of two.\<close>

definition coarse_float_ops :: float_ops where
  "coarse_float_ops =
    \<lparr>fo_add = (\<lambda>x y. x), fo_sub = (\<lambda>x y. 0), fo_mul = (\<lambda>x y. 0), fo_div = (\<lambda>x y. x), fo_ceil = id, fo_ln = id, fo_exp = id,
     fo_powi = (\<lambda>x i. x), fo_of_int = (\<lambda>i. if i = 0 then 0 else word_of_int (int (dec_digits (nat \<bar>i\<bar>)) * 2 ^ 52 + (if i < 0 then 2 ^ 63 else 0))),
     fo_to_int = (\<lambda>x. Some (uint (drop_bit 52 (f64_abs x))))\<rparr>"

lemma coarse_float_laws: "float_laws coarse_float_ops"
  by (simp add: float_laws_def coarse_float_ops_def f64_lt_def)

lemma coarse_sketch_laws: "sketch_laws coarse_float_ops"
proof -
  have gamma: "sk_gamma (with_default_accuracy coarse_float_ops) = f64_one"
    by (simp add: with_default_accuracy_def sketch_from_alpha_def Let_def coarse_float_ops_def)
  have "bin_interval coarse_float_ops lg i = (0, 0)" for lg i
    by (simp add: bin_interval_def Let_def coarse_float_ops_def)
  then have "cache_exact coarse_float_ops lg" for lg by (auto simp: cache_exact_def f64_lt_def)
  moreover have "f64_is_finite f64_one" "\<not> f64_lt f64_one 0" by code_simp+
  ultimately show ?thesis using coarse_float_laws by (simp add: sketch_laws_def gamma)
qed

end
