(* ===== verification/Reduce_Properties.thy ===== *)
theory Reduce_Properties imports Finished Reduce_Instance begin

text \<open>
  What a caller of the reductions may rely on: the buckets of the grid, the averages, the sketches, the
  pass over the points and the ways to combine its partial results, down to the values of the finished
  buckets. The witnesses apply the statements to a few decimal points under the parameters of
  Reduce_Instance.
\<close>

subsection \<open>A few points\<close>

definition early_points :: "decimal point list" where
  "early_points =
    [\<lparr>pt_timestamp = 1000000000, pt_value = Decimal 125 2\<rparr>, \<lparr>pt_timestamp = 3500000000, pt_value = Decimal (- 3) 0\<rparr>]"

definition late_points :: "decimal point list" where
  "late_points =
    [\<lparr>pt_timestamp = 61000000000, pt_value = Decimal 7 1\<rparr>, \<lparr>pt_timestamp = 62000000000, pt_value = Decimal 0 0\<rparr>]"

definition sample_aggs :: "aggregation list" where
  "sample_aggs = [AggMin, AggSum, AggLast, AggP50, AggSketchP90]"

abbreviation "sample_reduce points r \<equiv>
  reduce_partial_decimal coarse_float_ops plain_decimal_ops plain_sum_ops plain_time_ops points r None (Some 100000000000) sample_aggs"

lemma sample_flags: "sketching sample_aggs" "collecting sample_aggs"
  by code_simp+

lemma sample_kept:
  "kept None (Some 100000000000) (early_points @ late_points) =
    [(1000000000, Decimal 125 2), (3500000000, Decimal (- 3) 0), (61000000000, Decimal 7 1), (62000000000, Decimal 0 0)]"
  by code_simp

lemma sample_kept_parts:
  "kept None (Some 100000000000) early_points = [(1000000000, Decimal 125 2), (3500000000, Decimal (- 3) 0)]"
  "kept None (Some 100000000000) late_points = [(61000000000, Decimal 7 1), (62000000000, Decimal 0 0)]"
  by code_simp+

lemma sample_sketchable:
  "sketchable coarse_float_ops plain_decimal_ops (Decimal 125 2)" "sketchable coarse_float_ops plain_decimal_ops (Decimal (- 3) 0)"
  "sketchable coarse_float_ops plain_decimal_ops (Decimal 7 1)" "sketchable coarse_float_ops plain_decimal_ops (Decimal 0 0)"
  by code_simp+

lemma sample_index: "bucket_index plain_time_ops Secs t = Inr (base_of plain_time_ops Secs t)"
  by (simp add: bucket_index_def base_of_def resolution_step_secs_def Let_def plain_time_ops_def nanos_per_second_def)

lemmas sample_total = reduce_total_iff [OF plain_sum_laws, of sample_aggs coarse_float_ops, OF impI, OF coarse_sketch_laws]

lemma sample_runs:
  "\<exists>p. sample_reduce early_points Secs = Inr p" "\<exists>p. sample_reduce late_points Secs = Inr p"
  "\<exists>p. sample_reduce (early_points @ late_points) Secs = Inr p"
  by (simp_all only: sample_total) (simp_all add: sample_kept sample_kept_parts sample_sketchable sample_index)

subsection \<open>Properties\<close>

text \<open>
  C6: The finished buckets of a width report, for the points whose index at that width they have,
  the count, a least and a greatest value, the exact sum, the quotient of the sum by the count,
  the value of the earliest and of the latest sample (the first and the last in order at equal
  instants) and nearest-rank percentiles; each starts at the start of its index, and no reduction
  is reported that was not asked for.
\<close>

theorem finished_buckets_report:
  fixes D :: "'d::ord decimal_ops"
  assumes "sum_laws D S val" "sketching aggs \<longrightarrow> sketch_laws F" "new_width r n = Some w"
    and "reduce_partial_decimal F D S T points r s e aggs = Inr p" "coarsen F S p n = Inr m"
    and "finish_width F D S T m w aggs = Inr bs"
  shows "sorted_wrt (<) (map fst m) \<and> Inr ` fst ` set m = (\<lambda>x. width_index T w (fst x)) ` set (kept s e points) \<and>
    list_all2 (\<lambda>b bk. width_start T w b = Some (bk_timestamp bk) \<and>
      bucket_reports D S val (requested aggs) (filter (\<lambda>x. width_index T w (fst x) = Inr b) (kept s e points)) bk) (map fst m) bs"
proof -
  have w: "w = \<lparr>bw_unit = r, bw_count = n\<rparr>" "0 < n" using assms(3) by (auto simp: new_width_def split: if_splits)
  note p = reduce_grouped [OF assms(1,2,4)]
  have m: "bucketed F D S val (collecting aggs) (sketching aggs) (\<lambda>t. base_of T r t div int n) (kept s e points) m"
    using coarsen_bucketed [OF p w(2)] assms(5) by auto
  have index: "width_index T w (fst x) = Inr (base_of T r (fst x) div int n)" if "x \<in> set (kept s e points)" for x
    using kept_width_index [OF assms(1,2,4) that] by (simp add: w)
  have keys: "fst ` set m = (\<lambda>x. base_of T r (fst x) div int n) ` set (kept s e points)"
    using m by (simp add: grouped_def dom_map_of_conv_image_fst)
  have same: "filter (\<lambda>x. width_index T w (fst x) = Inr b) (kept s e points) =
      filter (\<lambda>x. base_of T r (fst x) div int n = b) (kept s e points)" for b
    using index by (intro filter_cong) auto
  have "Inr ` fst ` set m = (\<lambda>x. width_index T w (fst x)) ` set (kept s e points)"
    unfolding keys using index by (auto simp: image_image intro!: image_cong)
  moreover have "sorted_wrt (<) (map fst m)" using m by (simp add: grouped_def bt_ok_def)
  ultimately show ?thesis using finish_width_reports [OF m assms(6)] by (simp add: same)
qed

theorem finished_buckets_report_witness:
  "\<exists>p m bs. sample_reduce (early_points @ late_points) Secs = Inr p \<and> coarsen coarse_float_ops plain_sum_ops p 15 = Inr m \<and>
    finish_width coarse_float_ops plain_decimal_ops plain_sum_ops plain_time_ops m \<lparr>bw_unit = Secs, bw_count = 15\<rparr> sample_aggs = Inr bs \<and>
    length bs = length m \<and> Inr ` fst ` set m = {Inr 0 :: reduce_error + int, Inr 4}"
proof -
  let ?w = "\<lparr>bw_unit = Secs, bw_count = 15\<rparr>"
  obtain p where p: "sample_reduce (early_points @ late_points) Secs = Inr p" using sample_runs by blast
  obtain m where m: "coarsen coarse_float_ops plain_sum_ops p 15 = Inr m"
      "bucketed coarse_float_ops plain_decimal_ops plain_sum_ops decimal_val True True (\<lambda>t. base_of plain_time_ops Secs t div 15)
        (kept None (Some 100000000000) (early_points @ late_points)) m"
    using coarsen_bucketed [OF reduce_grouped [OF plain_sum_laws impI [OF coarse_sketch_laws] p], of 15] by (auto simp: sample_flags)
  have w: "new_width Secs 15 = Some ?w" by (simp add: new_width_def)
  have index: "width_index plain_time_ops ?w t = Inr (base_of plain_time_ops Secs t div 15)" for t
    by (simp add: width_index_def sample_index)
  have bases: "base_of plain_time_ops Secs 1000000000 = 1" "base_of plain_time_ops Secs 3500000000 = 3"
    "base_of plain_time_ops Secs 61000000000 = 61" "base_of plain_time_ops Secs 62000000000 = 62" by code_simp+
  have "fst ` set m = {0, 4}"
    using m(2) by (auto simp: grouped_def dom_map_of_conv_image_fst sample_kept_parts bases)
  moreover have "width_start plain_time_ops ?w 0 \<noteq> None" "width_start plain_time_ops ?w 4 \<noteq> None" by code_simp+
  ultimately have "\<exists>bs. finish_width coarse_float_ops plain_decimal_ops plain_sum_ops plain_time_ops m ?w sample_aggs = Inr bs"
    by (intro finish_width_total) simp
  then obtain bs where
    bs: "finish_width coarse_float_ops plain_decimal_ops plain_sum_ops plain_time_ops m ?w sample_aggs = Inr bs" by blast
  show ?thesis
    using finished_buckets_report [OF plain_sum_laws impI [OF coarse_sketch_laws] w p m(1) bs] p m(1) bs
    by (auto simp: sample_kept_parts index bases dest!: list_all2_lengthD)
qed

text \<open>
  C7: The partial results of two parts of a series merge into the state one pass over both would
  leave in every bucket: equal counts, sums and extremes, the same first and last sample, the same
  samples at every instant and the same sketch; and where no instant occurs in both parts, merging
  them the other way round gives that state too. Decimals add exactly, and a sketch is asked for
  only where the bin it caches answers what its index formula answers.
\<close>

theorem merged_partials_are_one_pass:
  fixes D :: "'d::ord decimal_ops"
  assumes "sum_laws D S val" "sketching aggs \<longrightarrow> sketch_laws F"
    and "reduce_partial_decimal F D S T xs r s e aggs = Inr p" "reduce_partial_decimal F D S T ys r s e aggs = Inr q"
  shows "\<exists>m w. partial_merge F S p q = Inr m \<and> reduce_partial_decimal F D S T (xs @ ys) r s e aggs = Inr w \<and>
    partial_agree val m w \<and>
    ((\<forall>x\<in>set xs. \<forall>y\<in>set ys. pt_timestamp x \<noteq> pt_timestamp y) \<longrightarrow>
      (\<exists>n. partial_merge F S q p = Inr n \<and> partial_agree val n w))"
proof -
  note p = reduce_grouped [OF assms(1-3)] and q = reduce_grouped [OF assms(1,2,4)]
  obtain m where m: "partial_merge F S p q = Inr m"
    "bucketed F D S val (collecting aggs) (sketching aggs) (base_of T r) (kept s e (xs @ ys)) m"
    using partial_merge_bucketed [OF p q] by auto
  obtain n where n: "partial_merge F S q p = Inr n"
    "bucketed F D S val (collecting aggs) (sketching aggs) (base_of T r) (kept s e (ys @ xs)) n"
    using partial_merge_bucketed [OF q p] by auto
  note total = reduce_total_iff [OF assms(1,2), where T = T and r = r and s = s and e = e]
  have "\<exists>w. reduce_partial_decimal F D S T (xs @ ys) r s e aggs = Inr w"
  proof -
    have "\<forall>x\<in>set (kept s e xs) \<union> set (kept s e ys). (\<exists>b. bucket_index T r (fst x) = Inr b) \<and> (sketching aggs \<longrightarrow> sketchable F D (snd x))"
      using total [of xs] total [of ys] assms(3,4) by blast
    then show ?thesis using total [of "xs @ ys"] by simp
  qed
  then obtain w where w: "reduce_partial_decimal F D S T (xs @ ys) r s e aggs = Inr w" by blast
  note one = reduce_grouped [OF assms(1,2) w]
  have "partial_agree val n w" if "\<forall>x\<in>set xs. \<forall>y\<in>set ys. pt_timestamp x \<noteq> pt_timestamp y"
    using grouped_agree [OF n(2) one] kept_commute [OF that] by blast
  then show ?thesis using m(1) n(1) w grouped_agree [OF m(2) one] by auto
qed

theorem merged_partials_are_one_pass_witness:
  "\<exists>p q m w. sample_reduce early_points Secs = Inr p \<and> sample_reduce late_points Secs = Inr q \<and>
    partial_merge coarse_float_ops plain_sum_ops q p = Inr m \<and> sample_reduce (early_points @ late_points) Secs = Inr w \<and>
    partial_agree decimal_val m w"
proof -
  obtain p q where p: "sample_reduce early_points Secs = Inr p" and q: "sample_reduce late_points Secs = Inr q"
    using sample_runs by blast
  have "\<forall>x\<in>set early_points. \<forall>y\<in>set late_points. pt_timestamp x \<noteq> pt_timestamp y"
    by (simp add: early_points_def late_points_def)
  then show ?thesis
    using merged_partials_are_one_pass [OF plain_sum_laws impI [OF coarse_sketch_laws] p q] p q by blast
qed

text \<open>
  C8: Where the grids nest, re-keying the partial result of a fine resolution gives, without
  reading a point again, the state of every bucket that a direct reduction at the coarse
  resolution would compute; the direct reduction succeeds whenever the fine one did. The starts of
  the fine buckets must be representable instants.
\<close>

theorem rebucketed_partial_is_direct:
  fixes D :: "'d::ord decimal_ops"
  assumes "time_laws T" "sum_laws D S val" "sketching aggs \<longrightarrow> sketch_laws F" "grids_nest T from to"
    and "reduce_partial_decimal F D S T points from s e aggs = Inr p"
    and "\<forall>x\<in>set (kept s e points). bucket_start T from (base_of T from (fst x)) \<noteq> None"
  shows "\<exists>m w. rebucket F S T p from to = Inr (Some m) \<and> reduce_partial_decimal F D S T points to s e aggs = Inr w \<and>
    partial_agree val m w"
proof -
  obtain m where m: "rebucket F S T p from to = Inr (Some m)"
    "bucketed F D S val (collecting aggs) (sketching aggs) (base_of T to) (kept s e points) m"
    using rebucket_bucketed [OF assms(1,4) reduce_grouped [OF assms(2,3,5)] assms(6)] by blast
  have "\<forall>x\<in>set (kept s e points). sketching aggs \<longrightarrow> sketchable F D (snd x)"
    using assms(5) reduce_total_iff [OF assms(2,3), of T points "from" s e] by blast
  then obtain w where w: "reduce_partial_decimal F D S T points to s e aggs = Inr w"
    using reduce_total_iff [OF assms(2,3), of T points "to" s e] grids_nest_seconds [OF assms(4)] by blast
  show ?thesis using m(1) w grouped_agree [OF m(2) reduce_grouped [OF assms(2,3) w]] by simp
qed

theorem rebucketed_partial_is_direct_witness:
  "\<exists>p m w. sample_reduce (early_points @ late_points) Secs = Inr p \<and>
    rebucket coarse_float_ops plain_sum_ops plain_time_ops p Secs Mins = Inr (Some m) \<and>
    sample_reduce (early_points @ late_points) Mins = Inr w \<and> partial_agree decimal_val m w"
proof -
  obtain p where p: "sample_reduce (early_points @ late_points) Secs = Inr p" using sample_runs by blast
  have "grids_nest plain_time_ops Secs Mins" by code_simp
  moreover have "\<forall>x\<in>set (kept None (Some 100000000000) (early_points @ late_points)).
      bucket_start plain_time_ops Secs (base_of plain_time_ops Secs (fst x)) \<noteq> None"
    unfolding sample_kept by code_simp
  ultimately show ?thesis
    using rebucketed_partial_is_direct [OF plain_time_laws plain_sum_laws impI [OF coarse_sketch_laws] _ p] p by blast
qed

text \<open>
  C21: Two sketches of one mapping, also where both have collapsed their lowest buckets under a
  budget, merge into the sketch of one pass over the samples of both: the same buckets, zeros and
  count, so every quantile is the same, and the budget holds. The ratio of the buckets is finite
  and not negative, and the interval the cache keeps for a bucket holds only values of that
  bucket.
\<close>

theorem bounded_sketches_merge_exactly:
  assumes "float_laws F" "f64_is_finite (sk_gamma s)" "\<not> f64_lt (sk_gamma s) 0" "empty_sketch F s"
    and "sketch_feed F vs s = Inr a" "sketch_feed F ws s = Inr b"
  shows "\<exists>c d. sketch_merge F a b = Inr c \<and> sketch_feed F (vs @ ws) s = Inr d \<and> sketch_eq c d \<and>
    sk_count c = length vs + length ws \<and> (\<forall>q. sketch_quantile F c q = sketch_quantile F d q) \<and>
    (\<forall>n. sk_max_bins s = Some n \<longrightarrow> length (sk_positive c) \<le> n \<and> length (sk_negative c) \<le> n)"
proof -
  obtain c d where cd: "sketch_merge F a b = Inr c" "sketch_feed F (vs @ ws) s = Inr d" "sketch_eq c d"
    using sketches_merge [OF assms] by blast
  have same: "sk_count c = sk_count d" "sk_positive c = sk_positive d" "sk_negative c = sk_negative d"
    "sk_zeros c = sk_zeros d" "sk_gamma c = sk_gamma d"
    using cd(3) by (auto simp: sketch_eq_def dd_sketch.defs dest: arg_cong [of _ _ sk_count] arg_cong [of _ _ sk_positive]
        arg_cong [of _ _ sk_negative] arg_cong [of _ _ sk_zeros] arg_cong [of _ _ sk_gamma])
  have "sketch_quantile F c q = sketch_quantile F d q" for q
    unfolding sketch_quantile_def value_of_def same ..
  then show ?thesis using cd sketch_feed_within [OF assms(4) cd(2)] by (auto simp: same)
qed

theorem bounded_sketches_merge_exactly_witness:
  "\<exists>a b c d. sketch_feed coarse_float_ops [0x3FF0000000000000, 0x4000000000000000, 0x4010000000000000] ((with_default_accuracy coarse_float_ops)\<lparr>sk_max_bins := Some 2\<rparr>) = Inr a \<and>
    sketch_feed coarse_float_ops [0x4020000000000000, 0xC000000000000000] ((with_default_accuracy coarse_float_ops)\<lparr>sk_max_bins := Some 2\<rparr>) = Inr b \<and>
    sketch_merge coarse_float_ops a b = Inr c \<and> length (sk_positive c) \<le> 2 \<and> sk_count c = 5 \<and>
    sketch_feed coarse_float_ops ([0x3FF0000000000000, 0x4000000000000000, 0x4010000000000000] @ [0x4020000000000000, 0xC000000000000000])
      ((with_default_accuracy coarse_float_ops)\<lparr>sk_max_bins := Some 2\<rparr>) = Inr d \<and> sketch_eq c d"
proof -
  let ?s = "(with_default_accuracy coarse_float_ops)\<lparr>sk_max_bins := Some 2\<rparr>"
  let ?vs = "[0x3FF0000000000000, 0x4000000000000000, 0x4010000000000000 :: u64]" and ?ws = "[0x4020000000000000, 0xC000000000000000 :: u64]"
  have "\<not> isl (sketch_feed coarse_float_ops ?vs ?s)" "\<not> isl (sketch_feed coarse_float_ops ?ws ?s)" by code_simp+
  then obtain a b where ab: "sketch_feed coarse_float_ops ?vs ?s = Inr a" "sketch_feed coarse_float_ops ?ws ?s = Inr b"
    by (metis sum.collapse(2))
  have gamma: "f64_is_finite (sk_gamma ?s)" "\<not> f64_lt (sk_gamma ?s) 0" using coarse_sketch_laws by (simp_all add: sketch_laws_def)
  have empty: "empty_sketch coarse_float_ops ?s" using default_empty [OF coarse_sketch_laws] by (simp add: empty_sketch_def)
  obtain c d where "sketch_merge coarse_float_ops a b = Inr c" "sketch_feed coarse_float_ops (?vs @ ?ws) ?s = Inr d" "sketch_eq c d"
    "sk_count c = 5" "length (sk_positive c) \<le> 2"
    using bounded_sketches_merge_exactly [OF coarse_float_laws gamma empty ab] by auto
  then show ?thesis using ab by blast
qed

text \<open>
  C22: The average computed by integer division is the long division of the sum by the count to a
  hundred digits, on each of its paths (the digit loops in chunks of 38 digits, the single big
  division of a quotient that never ends), so it is off the exact mean by at most one part in
  10^99. The sum has an integer of 128 bits, as the code asks, and a scale below 2^62.
\<close>

theorem average_is_long_division:
  assumes "sum_laws D S val" "0 < k" "k < 2 ^ 64" "d_parts D x = (acc, scale)"
    and "- (2 ^ 127) \<le> acc" "acc < 2 ^ 127" "\<bar>sint scale\<bar> < 2 ^ 62"
  shows "(acc \<noteq> 0 \<longrightarrow> avg_magnitude (nat \<bar>acc\<bar>) scale k = long_division (nat \<bar>acc\<bar>) scale k) \<and>
    \<bar>val (avg_of_sum D S x k) - val x / of_nat k\<bar> \<le> \<bar>val x / of_nat k\<bar> / 10 ^ 99"
proof -
  have "avg_of_sum D S x k = avg_like_bigdecimal D S acc scale k"
    using assms(4-6) by (simp add: avg_of_sum_def checked_i128_def)
  moreover have "of_int acc / of_nat k * 10 powi (- sint scale) = val x / of_nat k"
    by (simp add: sum_lawsD(2) [OF assms(1,4)])
  ultimately have "\<bar>val (avg_of_sum D S x k) - val x / of_nat k\<bar> \<le> \<bar>val x / of_nat k\<bar> / 10 ^ 99"
    using avg_like_value(1) [OF assms(1-3,7), of acc] by (simp only:)
  moreover have "avg_magnitude (nat \<bar>acc\<bar>) scale k = long_division (nat \<bar>acc\<bar>) scale k" if "acc \<noteq> 0"
    using avg_is_long_division [OF _ assms(2)] that by simp
  ultimately show ?thesis by blast
qed

theorem average_is_long_division_witness:
  "\<bar>decimal_val (avg_of_sum plain_decimal_ops plain_sum_ops (Decimal (- 10) 1) 3) - (- 1 / 3)\<bar> \<le> 1 / 3 / 10 ^ 99"
  using average_is_long_division [OF plain_sum_laws, of 3 "Decimal (- 10) 1" "- 10" 1]
  by (simp add: plain_ops_simps power_int_def)



text \<open>
  C24: The range of nanoseconds the scaled reduction keeps for a bucket is exactly the set of
  instants whose index is that bucket, before 1970 too, where the seconds-based grids round
  towards the epoch; the integer index is the index of the general path, and the start of a bucket
  has its index.
\<close>

theorem bucket_ranges_exact:
  assumes "time_laws T" "base_range T r b = Some (lo, hi)"
  shows "(lo \<le> n \<and> n \<le> hi \<longleftrightarrow> base_of T r n = b) \<and> (fits_i64 n \<longrightarrow> bucket_index T r n = Inr (base_of T r n)) \<and>
    (\<forall>t. fits_i64 b \<and> bucket_start T r b = Some t \<longrightarrow> t = b * to_step_nanos T r \<and> bucket_index T r t = Inr b)"
proof (intro conjI allI impI)
  show "lo \<le> n \<and> n \<le> hi \<longleftrightarrow> base_of T r n = b" by (rule base_range_exact [OF assms])
  show "bucket_index T r n = Inr (base_of T r n)" if "fits_i64 n" by (rule bucket_index_base_of [OF assms(1) that])
  show "t = b * to_step_nanos T r" if "fits_i64 b \<and> bucket_start T r b = Some t" for t
    by (rule bucket_start_Some) (use that in simp)
  show "bucket_index T r t = Inr b" if "fits_i64 b \<and> bucket_start T r b = Some t" for t
    by (rule bucket_index_of_start [OF assms(1)]) (use that in simp_all)
qed

theorem bucket_ranges_exact_witness:
  "base_range plain_time_ops Mins (- 1) = Some (-119000000000, -59000000001) \<and>
    base_of plain_time_ops Mins (-119000000000) = - 1 \<and> base_of plain_time_ops Mins (-59000000000) \<noteq> - 1"
proof -
  have r: "base_range plain_time_ops Mins (- 1) = Some (-119000000000, -59000000001)" by code_simp
  show ?thesis
    using r bucket_ranges_exact [OF plain_time_laws r, of "-119000000000"] bucket_ranges_exact [OF plain_time_laws r, of "-59000000000"]
    by simp
qed

subsection \<open>Further facts\<close>

text \<open>
  A reduction coarsened to a width of n steps has exactly one bucket for every index some kept
  point has at that width, in ascending order, and the bucket agrees with one accumulator fed with
  the points of that index in their order; with n = 1 this is the reduction itself.
\<close>

lemma coarsened_buckets_hold_their_points:
  fixes D :: "'d::ord decimal_ops"
  assumes "sum_laws D S val" "sketching aggs \<longrightarrow> sketch_laws F" "new_width r n = Some w"
    and "reduce_partial_decimal F D S T points r s e aggs = Inr p"
  shows "\<exists>m. coarsen F S p n = Inr m \<and> sorted_wrt (<) (map fst m) \<and>
    Inr ` fst ` set m = (\<lambda>x. width_index T w (fst x)) ` set (kept s e points) \<and>
    (\<forall>(b, a)\<in>set m. \<exists>c. acc_feed F D S (filter (\<lambda>x. width_index T w (fst x) = Inr b) (kept s e points)) (fresh_acc F D aggs) = Inr c \<and>
      acc_agree val a c)"
proof -
  have w: "w = \<lparr>bw_unit = r, bw_count = n\<rparr>" "0 < n" using assms(3) by (auto simp: new_width_def split: if_splits)
  note p = reduce_grouped [OF assms(1,2,4)]
  obtain m where m: "coarsen F S p n = Inr m"
    "bucketed F D S val (collecting aggs) (sketching aggs) (\<lambda>t. base_of T r t div int n) (kept s e points) m"
    using coarsen_bucketed [OF p w(2)] by blast
  have index: "width_index T w (fst x) = Inr (base_of T r (fst x) div int n)" if "x \<in> set (kept s e points)" for x
    using kept_width_index [OF assms(1,2,4) that] by (simp add: w)
  have keys: "fst ` set m = (\<lambda>x. base_of T r (fst x) div int n) ` set (kept s e points)"
    using m(2) by (simp add: grouped_def dom_map_of_conv_image_fst)
  have same: "filter (\<lambda>x. width_index T w (fst x) = Inr b) (kept s e points) =
      filter (\<lambda>x. base_of T r (fst x) div int n = b) (kept s e points)" for b
    using index by (intro filter_cong) auto
  have "Inr ` fst ` set m = (\<lambda>x. width_index T w (fst x)) ` set (kept s e points)"
    unfolding keys using index by (auto simp: image_image intro!: image_cong)
  moreover have "sorted_wrt (<) (map fst m)" using m(2) by (simp add: grouped_def bt_ok_def)
  ultimately show ?thesis using m bucketed_fed [OF assms(1,2) m(2)] by (auto simp: same)
qed

lemma coarsened_buckets_hold_their_points_witness:
  "\<exists>p m. sample_reduce (early_points @ late_points) Secs = Inr p \<and> coarsen coarse_float_ops plain_sum_ops p 15 = Inr m \<and>
    Inr ` fst ` set m = {Inr 0 :: reduce_error + int, Inr 4}"
proof -
  obtain p where p: "sample_reduce (early_points @ late_points) Secs = Inr p" using sample_runs by blast
  have w: "new_width Secs 15 = Some \<lparr>bw_unit = Secs, bw_count = 15\<rparr>" by (simp add: new_width_def)
  have index: "width_index plain_time_ops \<lparr>bw_unit = Secs, bw_count = 15\<rparr> t = Inr (base_of plain_time_ops Secs t div 15)" for t
    by (simp add: width_index_def sample_index)
  have "base_of plain_time_ops Secs 1000000000 = 1" "base_of plain_time_ops Secs 3500000000 = 3"
    "base_of plain_time_ops Secs 61000000000 = 61" "base_of plain_time_ops Secs 62000000000 = 62" by code_simp+
  then show ?thesis
    using coarsened_buckets_hold_their_points [OF plain_sum_laws impI [OF coarse_sketch_laws] w p] p
    by (auto simp: sample_kept_parts index)
qed

end
