(* ===== verification/Spec2Isabelle.thy ===== *)
theory Spec2Isabelle
  imports Prelude Bit_Fields Timestamps Checkpoints Varint_Rle Block_Format Bitpack For_Codec
    Gorilla Transpose Codec_Choice Crc32 Null_Mask Byte_Io Ts_Block Frame Split Segments Catalog Tags
    Decimals Decimal_Instance Value_Column Value_Block Value_Access Segment_Frame Pages Sealing Paged_Frame Section_Reads Frame_Reads Column_Properties
    Btree_Map Std_Text Bucket_Grid Dd_Sketch Scaled_Arith Weighted_Average Reduce Reduce_Exact Partials Finished Reduce_Instance
    Reduce_Properties
begin

text \<open>
  A verification development for the core of WeftDB: the storage crate src/weft-physical-type and the
  reductions of src/weft-reduce.

  The program. WeftDB keeps a time series as immutable segments. A segment is a column of i64
  timestamps, a column of exact decimals, a null mask and the statistics that let a reader skip the
  segment. The crate transforms the timestamp column (delta of delta), packs the result with one of
  several exact codecs, frames it behind a magic number, a version and a CRC-32, keeps a catalog of
  segment descriptors for pruning, decides how late rows are merged into a partition, and identifies
  a series by a canonical byte string of its tags. Over the decoded rows, reductions downsample a series
  into buckets of a grid that starts at the epoch; the state of a bucket can be merged, so that parts of
  a series are reduced apart and combined.

  The theories, in the order of the code:

  \<^item> Prelude: widths of the machine integers, chunks of a list, the slice accesses of the source that
    fall back on zero, and the shared automation.
  \<^item> Bit_Fields (timestamp.rs: read_bits, write_bits, zigzag, unzigzag): bit fields inside little-endian
    byte lists. Both read paths of read_bits are modelled, the second on 128-bit words.
  \<^item> Timestamps (timestamp.rs: TimeUnit, DeltaColumn, DeltaOfDeltaColumn): unit conversion and the
    lossless delta transforms; i64 is a 64-bit word, so the wrapping arithmetic is the word arithmetic.
  \<^item> Checkpoints (timestamp.rs: DodCheckpoints): the sparse index and the search that scans from it.
  \<^item> Varint_Rle (timestamp.rs): varints, their lengths and the run-length coding.
  \<^item> Block_Format (timestamp.rs: gather_order, gather_walk): the walk all block codecs share. The locale
    block_format is the contract between a codec and its walks (sequential decode, range decode);
    gather_format adds the gather walk, block_codec the encoder.
  \<^item> Bitpack, For_Codec, Transpose, Gorilla (timestamp.rs): the codecs, as interpretations of those
    locales where they are block codecs.
  \<^item> Codec_Choice (timestamp.rs: the estimates of DeltaOfDeltaColumn, fire_residuals, fire_reconstruct):
    which codec is chosen and why the estimates are comparable.
  \<^item> Crc32 (weftseg.rs: crc32): the slicing-by-16 routine against the bit-serial division.
  \<^item> Null_Mask (nulls.rs) and Byte_Io (weftseg.rs: ByteWriter, ByteReader): the presence bitmap and the
    primitives of the wire format. The locale wire is the contract of a field: what is put is what is
    read, and the reader stands behind it; every primitive interprets it.
  \<^item> Ts_Block (weftseg.rs: write_timestamp_column and the readers): the persisted timestamp block with
    its six codec tags, the checkpointed form and the lazy lookup that decodes only one window.
  \<^item> Frame (weftseg.rs: frame_parts, wrap_frame_envelope; frame_registry.rs): the frame, its envelope of
    extensions and the classification of faults.
  \<^item> Split (split.rs), Segments (segment.rs), Catalog (catalog.rs): the merge of late rows, segments with
    their statistics, and the catalog. The locale key_order is the contract of the statistics (minimum
    and maximum of a total order); timestamps and values interpret it.
  \<^item> Tags (tags.rs): tag sets, canonical series keys and selectors.
  \<^item> Decimals (lib.rs): the physical types and the encoding of one value. BigDecimal belongs to the crates
    bigdecimal and num-bigint: a decimal is a type parameter, the functions the code calls are the fields
    of a record decimal_ops that every definition takes as its argument, and what the code relies on is
    the predicate decimal_laws. Decimal_Instance gives exact decimals that satisfy it, for the witnesses.
  \<^item> Value_Column (column.rs): a column in one physical type, what its encoder reports, the sizes of the
    codecs, the delta cascade and the recommended type.
  \<^item> Value_Block (weftseg.rs: write_value_column and read_value_column): the value block with its six codec
    tags. The locale mantissa_codec is the contract of a packed stream of mantissas; the six streams
    interpret it. The cargo feature bitsliced-codec is the boolean argument bitsliced.
  \<^item> Value_Access (weftseg.rs: read_value_at, read_values_at, read_value_range): reads of some values
    without the whole column.
  \<^item> Segment_Frame (weftseg.rs: write_segment, read_segment): the frame of a segment under any options,
    the statistics and the checks that tie the columns to them.
  \<^item> Pages (page.rs): paged segments, their pruning and the reads across pages.
  \<^item> Sealing (schema.rs): the declared encoding of an aspect, sealing into segments and pages, the refusals
    and the way of a batch through the file.
  \<^item> Paged_Frame (weftseg.rs: write_paged_segment, read_paged_segment): the page index, the blocks and the
    rollup of the page counts, and the way of a paged batch through the file.
  \<^item> Section_Reads, Frame_Reads (weftseg.rs: read_points_from_section, read_range_from_section_with and the
    point, batch and range readers of single-block, paged and wrapped frames): the reads that decode only
    what they need. A column section is read under the contract section_holds and rows_described; on
    every written frame the readers answer what the decoded rows answer.
  \<^item> Column_Properties: what a reader of stored columns may rely on, over the nine theories before it.
  \<^item> Btree_Map, Std_Text: the ordered map and the string functions of the Rust library that weft-reduce
    uses. The locale mergeable is the contract of a state that combines: merging the states of two lists
    of samples is the state of their concatenation.
  \<^item> Bucket_Grid (weft-reduce lib.rs: bucket_index, bucket_start, grids_nest; width.rs; scaled.rs: base_of,
    base_range): the grid and the widths. An instant is its nanoseconds; splimes and chrono are the record
    time_ops.
  \<^item> Dd_Sketch (weft-reduce sketch.rs): the quantile sketch. The rounded arithmetic of floats is the
    record float_ops, comparisons and signs are computed on the bit patterns.
  \<^item> Scaled_Arith, Weighted_Average (weft-reduce scaled.rs, lib.rs): averages by long division on integers,
    and time-weighted averages on integers and on decimals. The decimal operations they add are the
    record sum_ops.
  \<^item> Reduce, Reduce_Exact (weft-reduce lib.rs: Aggregation, BucketAcc, PartialReduction,
    reduce_partial_decimal): the reduction, and what an accumulator says of the samples pushed into it;
    it interprets mergeable.
  \<^item> Partials, Finished: what a partial result and the finished buckets of a width say of the points they
    were computed from. Reduce_Instance gives decimals, floats and instants that satisfy the contracts of
    the reductions, for the witnesses; Reduce_Properties holds the properties of the reductions.

  How the model corresponds to the code. A struct is a record with the source's field names behind a
  prefix, an enum a datatype, i64 and the unsigned integers are words of their width, usize is nat (the
  counts in question are bounded by the lengths of lists in memory; reading one from a file converts a
  u64 and is checked against the limits as the source does). A byte slice is a list of 8-bit words. A
  ByteWriter is the list of bytes written so far, so that an operation appends; a ByteReader is its
  buffer and position, and each read returns either an error of WeftSegError or the value and the new
  reader. Result is a sum type with the error on the left, Option is option. A loop is a recursive
  function over its loop variables; each terminates by a structural argument or a measure, except the
  gather walk, which is a partial function of the option monad and is shown to return for every input
  the codecs give it. Nowhere is fuel needed.

  What the lemmas show. The codecs are exact: decoding an encoding gives the values, for the whole
  column, for every range and for every gather list, and the length of the encoding is the estimate the
  chooser compares. The blocks and frames written are read back with the reader behind them, whatever
  follows; a damaged frame, an unknown critical extension and an unknown version are refused with the
  fault class the registry gives them. The lookups (checkpointed, lazy, on sorted rows) answer what a
  scan of the decoded column answers. The catalog's sweep names exactly the segments that meet another
  one, and pruning keeps every segment that holds a matching row. The merge keeps the rows of the newer
  side and drops the older ones of equal timestamp. Canonical series keys are in bijection with
  well-formed tag sets, their byte order is the order of the tag lists, and the two selector
  evaluations agree. Merging two partial reductions, coarsening one to a wider bucket and re-keying it to
  a coarser resolution leave in every bucket what one pass over its points would; the finished buckets
  report the count, the extremes, the exact sum, the quotient, the first and last value and nearest-rank
  percentiles of those points, the averages by integer division are the long division to a hundred
  digits, and two quantile sketches of bounded size merge into the sketch of one pass.

  What is not modelled. The ceiling test of transposed_overhead is a comparison of floating-point
  quotients and is a parameter (admits). The float codec (floatcodec.rs) and the bytes-per-point reports
  are floating-point estimates no writer depends on. The integer fast path of reduce_partial, the gap
  fills and the serializers of weft-reduce are not modelled, nor are the line protocol and the segment
  store with its file system and libSQL index.
\<close>

end
